(* ===== verification/Sidle_Prelude.thy ===== *)
theory Sidle_Prelude
  imports Complex_Main "HOL-Library.Word"
begin

text \<open>
  The prelude of the development: names for the machine integers of the code, bit fields of a
  machine word (the shape of the ART node version and of the Masstree key permuter), and the
  generic facts on lists that several components share. The collection \<open>bitfield\<close> holds the
  equations that push a read of one field through a write of another.
\<close>

unbundle bit_operations_syntax

named_theorems bitfield

type_synonym u8 = "8 word"
type_synonym u16 = "16 word"
type_synonym u32 = "32 word"
type_synonym u64 = "64 word"
type_synonym i64 = "64 word"

section \<open>Fields of a machine word\<close>

definition get_field :: "nat \<Rightarrow> nat \<Rightarrow> 'a::len word \<Rightarrow> 'a word" where
  "get_field p w v = drop_bit p v AND mask w"

definition set_field :: "nat \<Rightarrow> nat \<Rightarrow> 'a::len word \<Rightarrow> 'a word \<Rightarrow> 'a word" where
  "set_field p w v x = (v AND NOT (push_bit p (mask w))) OR push_bit p x"

text \<open>A value fits a field when its bits beyond the width of the field are clear.\<close>

definition fits :: "nat \<Rightarrow> 'a::len word \<Rightarrow> bool" where
  "fits w x \<longleftrightarrow> x AND mask w = x"

lemma fits_bit: "fits w x \<Longrightarrow> bit x n \<Longrightarrow> n < w"
  by (metis bit_and_iff bit_mask_iff fits_def)

lemma fits_less: "x < 2 ^ w \<Longrightarrow> fits w x"
  by (simp add: fits_def less_mask_eq)

lemma fits_of_nat: "n < 2 ^ w \<Longrightarrow> fits w (of_nat n :: 'a::len word)"
  unfolding fits_def
  by (rule bit_word_eqI)
    (metis bit_and_iff bit_mask_iff bit_of_nat_iff bit_take_bit_iff take_bit_nat_eq_self possible_bit_word)

lemma fits_0 [simp]: "fits w 0"
  by (simp add: fits_def)

lemma fits_1 [simp]: "0 < w \<Longrightarrow> fits w 1"
  using fits_of_nat [of 1 w, OF one_less_power] by simp

lemma get_field_fits: "fits w (get_field p w v)"
  by (simp add: fits_def get_field_def)

lemma bit_get_field:
  "bit (get_field p w v) n \<longleftrightarrow> bit v (p + n) \<and> n < w" for v :: "'a::len word"
  by (auto simp: get_field_def bit_simps dest: bit_imp_le_length)

lemma bit_set_field:
  "bit (set_field p w v x) n \<longleftrightarrow>
     n < LENGTH('a) \<and> (bit v n \<and> \<not> (p \<le> n \<and> n < p + w) \<or> p \<le> n \<and> bit x (n - p))"
  for v :: "'a::len word"
  by (auto simp: set_field_def bit_simps dest: bit_imp_le_length)

lemma get_set_field_same:
  "fits w x \<Longrightarrow> p + w \<le> LENGTH('a) \<Longrightarrow> get_field p w (set_field p w v x) = x"
  for v :: "'a::len word"
  by (rule bit_eqI) (auto simp: bit_get_field bit_set_field dest: fits_bit)

lemma get_set_field_other:
  "fits w x \<Longrightarrow> p + w \<le> q \<or> q + u \<le> p \<Longrightarrow>
     get_field q u (set_field p w v x) = get_field q u v"
  for v :: "'a::len word"
  by (rule bit_eqI) (auto simp: bit_get_field bit_set_field dest: fits_bit bit_imp_le_length)

section \<open>Results\<close>

text \<open>
  The ways a call can go wrong: an exception thrown by a check, an abort, a failed assertion, a null
  pointer that is followed, a read beyond an array, a spin loop that no one can end, and an
  exhausted fuel parameter. A fallible operation returns one of them or its value.
\<close>

datatype error = Throw string | Abort | Assert_Failed | Null_Deref | Out_Of_Bounds | Spin | Out_Of_Fuel
  | Undefined_Behaviour

type_synonym 'a res = "error + 'a"

definition and_then :: "'a res \<Rightarrow> ('a \<Rightarrow> 'b res) \<Rightarrow> 'b res" where
  "and_then m f = (case m of Inl e \<Rightarrow> Inl e | Inr x \<Rightarrow> f x)"

lemma and_then_simps [simp]:
  "and_then (Inl e) f = Inl e"
  "and_then (Inr x) f = f x"
  by (simp_all add: and_then_def)

lemma and_then_Inr_iff: "and_then m f = Inr y \<longleftrightarrow> (\<exists>x. m = Inr x \<and> f x = Inr y)"
  by (cases m) auto

lemma and_then_Inl_iff:
  "and_then m f = Inl e \<longleftrightarrow> m = Inl e \<or> (\<exists>x. m = Inr x \<and> f x = Inl e)"
  by (cases m) auto

lemma and_then_cong [fundef_cong]:
  "m = m' \<Longrightarrow> (\<And>x. m' = Inr x \<Longrightarrow> f x = f' x) \<Longrightarrow> and_then m f = and_then m' f'"
  by (cases m') auto

text \<open>A byte of a buffer; a read past its end is an error.\<close>

definition byte_at :: "'a list \<Rightarrow> nat \<Rightarrow> 'a res" where
  "byte_at xs i = (if i < length xs then Inr (xs ! i) else Inl Out_Of_Bounds)"

lemma byte_at_simps [simp]:
  "i < length xs \<Longrightarrow> byte_at xs i = Inr (xs ! i)"
  "length xs \<le> i \<Longrightarrow> byte_at xs i = Inl Out_Of_Bounds"
  by (simp_all add: byte_at_def)

text \<open>A store to an array; a store past its end corrupts other memory.\<close>

definition write_at :: "'a list \<Rightarrow> nat \<Rightarrow> 'a \<Rightarrow> 'a list res" where
  "write_at xs i x = (if i < length xs then Inr (xs[i := x]) else Inl Out_Of_Bounds)"

lemma write_at_simps [simp]:
  "i < length xs \<Longrightarrow> write_at xs i x = Inr (xs[i := x])"
  "length xs \<le> i \<Longrightarrow> write_at xs i x = Inl Out_Of_Bounds"
  by (simp_all add: write_at_def)

section \<open>C arithmetic\<close>

text \<open>Integer division of C truncates towards zero; a conversion to a narrower type drops bits.\<close>

definition c_div :: "int \<Rightarrow> int \<Rightarrow> int" where
  "c_div a b = sgn a * sgn b * (\<bar>a\<bar> div \<bar>b\<bar>)"

definition to_u8 :: "int \<Rightarrow> u8" where
  "to_u8 n = of_int n"

lemma c_div_nonneg: "0 \<le> a \<Longrightarrow> 0 < b \<Longrightarrow> c_div a b = a div b"
  by (cases "a = 0") (auto simp: c_div_def sgn_if)

lemma uint_to_u8: "0 \<le> n \<Longrightarrow> n < 256 \<Longrightarrow> uint (to_u8 n) = n"
  by (simp add: to_u8_def uint_word_of_int_eq take_bit_int_eq_self)

text \<open>
  The code computes ratios as \<open>double\<close>. A quotient is modelled by its exact value, with the
  special results of a division by zero.
\<close>

datatype c_double = Finite real | Pos_Inf | Neg_Inf | NaN

definition double_div :: "int \<Rightarrow> int \<Rightarrow> c_double" where
  "double_div a b =
     (if b \<noteq> 0 then Finite (of_int a / of_int b)
      else if 0 < a then Pos_Inf else if a < 0 then Neg_Inf else NaN)"

fun double_gt :: "c_double \<Rightarrow> real \<Rightarrow> bool" where
  "double_gt (Finite x) y = (y < x)"
| "double_gt Pos_Inf y = True"
| "double_gt Neg_Inf y = False"
| "double_gt NaN y = False"

fun double_lt :: "c_double \<Rightarrow> real \<Rightarrow> bool" where
  "double_lt (Finite x) y = (x < y)"
| "double_lt Pos_Inf y = False"
| "double_lt Neg_Inf y = True"
| "double_lt NaN y = False"

end
