(* ===== verification/Art_Version.thy ===== *)
theory Art_Version
  imports Sidle_Prelude
begin

text \<open>
  The version word of an ART node (\<open>third_party/art/art_def.hh\<close>): a 64-bit word that packs the
  offset of the node in its keys, its child count, the length of its compressed prefix, its kind
  and the bits of the optimistic lock. Every macro of the header is a definition of the same name
  on 64-bit words; the flag tests are the C conditions, so they are boolean here. A count,
  a length or an offset is a natural number at this interface, as the callers pass sizes.
\<close>

section \<open>The macros\<close>

definition node4 :: u64 where "node4 = 0x000000"
definition node16 :: u64 where "node16 = 0x100000"
definition node48 :: u64 where "node48 = 0x200000"
definition node256 :: u64 where "node256 = 0x300000"

definition OLD_BIT :: u64 where "OLD_BIT = push_bit 19 1"
definition LOCK_BIT :: u64 where "LOCK_BIT = push_bit 18 1"
definition INSERT_BIT :: u64 where "INSERT_BIT = push_bit 17 1"
definition EXPAND_BIT :: u64 where "EXPAND_BIT = push_bit 16 1"

definition set_offset :: "u64 \<Rightarrow> nat \<Rightarrow> u64" where
  "set_offset version offset = (version AND NOT (push_bit 54 0xff)) OR push_bit 54 (of_nat offset)"

definition get_offset :: "u64 \<Rightarrow> nat" where
  "get_offset version = unat (drop_bit 54 version AND 0xff)"

definition get_prefix_len :: "u64 \<Rightarrow> nat" where
  "get_prefix_len version = unat (drop_bit 32 version AND 0xff)"

definition set_prefix_len :: "u64 \<Rightarrow> nat \<Rightarrow> u64" where
  "set_prefix_len version len = (version AND NOT (push_bit 32 0xff)) OR push_bit 32 (of_nat len)"

definition get_count :: "u64 \<Rightarrow> nat" where
  "get_count version = unat (drop_bit 40 version AND 0xff)"

definition set_count :: "u64 \<Rightarrow> nat \<Rightarrow> u64" where
  "set_count version count = (version AND NOT (push_bit 40 0xff)) OR push_bit 40 (of_nat count)"

definition incr_count :: "u64 \<Rightarrow> u64" where
  "incr_count version = version + push_bit 40 1"

definition get_node_type :: "u64 \<Rightarrow> u64" where
  "get_node_type version = version AND node256"

definition set_type :: "u64 \<Rightarrow> u64 \<Rightarrow> u64" where
  "set_type version type = version OR type"

definition is_old :: "u64 \<Rightarrow> bool" where
  "is_old version \<longleftrightarrow> version AND OLD_BIT \<noteq> 0"

definition is_locked :: "u64 \<Rightarrow> bool" where
  "is_locked version \<longleftrightarrow> version AND LOCK_BIT \<noteq> 0"

definition is_inserting :: "u64 \<Rightarrow> bool" where
  "is_inserting version \<longleftrightarrow> version AND INSERT_BIT \<noteq> 0"

definition is_expanding :: "u64 \<Rightarrow> bool" where
  "is_expanding version \<longleftrightarrow> version AND EXPAND_BIT \<noteq> 0"

definition set_old :: "u64 \<Rightarrow> u64" where "set_old version = version OR OLD_BIT"
definition set_lock :: "u64 \<Rightarrow> u64" where "set_lock version = version OR LOCK_BIT"
definition set_insert :: "u64 \<Rightarrow> u64" where "set_insert version = version OR INSERT_BIT"
definition set_expand :: "u64 \<Rightarrow> u64" where "set_expand version = version OR EXPAND_BIT"

definition unset_lock :: "u64 \<Rightarrow> u64" where "unset_lock version = version AND NOT LOCK_BIT"
definition unset_insert :: "u64 \<Rightarrow> u64" where "unset_insert version = version AND NOT INSERT_BIT"
definition unset_expand :: "u64 \<Rightarrow> u64" where "unset_expand version = version AND NOT EXPAND_BIT"

definition get_vinsert :: "u64 \<Rightarrow> nat" where
  "get_vinsert version = unat (drop_bit 8 version AND 0xff)"

definition incr_vinsert :: "u64 \<Rightarrow> u64" where
  "incr_vinsert version =
     (version AND NOT (push_bit 8 0xff)) OR ((version + push_bit 8 1) AND push_bit 8 0xff)"

definition get_vexpand :: "u64 \<Rightarrow> nat" where
  "get_vexpand version = unat (version AND 0xff)"

definition incr_vexpand :: "u64 \<Rightarrow> u64" where
  "incr_vexpand version = (version AND NOT 0xff) OR ((version + 1) AND 0xff)"

section \<open>The macros as fields\<close>

lemma mask_8_u64: "(0xff :: u64) = mask 8"
  by (simp add: mask_eq_exp_minus_1)

lemma version_getters:
  "get_offset v = unat (get_field 54 8 v)"
  "get_prefix_len v = unat (get_field 32 8 v)"
  "get_count v = unat (get_field 40 8 v)"
  "get_vinsert v = unat (get_field 8 8 v)"
  "get_vexpand v = unat (get_field 0 8 v)"
  by (simp_all only: get_offset_def get_prefix_len_def get_count_def get_vinsert_def
      get_vexpand_def get_field_def mask_8_u64 drop_bit_0 id_apply)

lemma version_setters:
  "set_offset v n = set_field 54 8 v (of_nat n)"
  "set_prefix_len v n = set_field 32 8 v (of_nat n)"
  "set_count v n = set_field 40 8 v (of_nat n)"
  by (simp_all only: set_offset_def set_prefix_len_def set_count_def set_field_def mask_8_u64)

lemma flag_bit: "v AND push_bit n 1 \<noteq> 0 \<longleftrightarrow> bit v n" for v :: u64
  by (simp add: and_exp_eq_0_iff_not_bit)

lemma version_flags:
  "is_old v \<longleftrightarrow> bit v 19"
  "is_locked v \<longleftrightarrow> bit v 18"
  "is_inserting v \<longleftrightarrow> bit v 17"
  "is_expanding v \<longleftrightarrow> bit v 16"
  by (simp_all only: is_old_def is_locked_def is_inserting_def is_expanding_def
      OLD_BIT_def LOCK_BIT_def INSERT_BIT_def EXPAND_BIT_def flag_bit)

lemma set_bit_field: "v OR push_bit n 1 = set_field n 1 v 1" for v :: u64
  by (rule bit_word_eqI) (auto simp: bit_set_field bit_simps)

lemma unset_bit_field: "v AND NOT (push_bit n 1) = set_field n 1 v 0" for v :: u64
  by (rule bit_word_eqI) (auto simp: bit_set_field bit_simps)

lemma version_flag_setters:
  "set_old v = set_field 19 1 v 1"
  "set_lock v = set_field 18 1 v 1"
  "set_insert v = set_field 17 1 v 1"
  "set_expand v = set_field 16 1 v 1"
  "unset_lock v = set_field 18 1 v 0"
  "unset_insert v = set_field 17 1 v 0"
  "unset_expand v = set_field 16 1 v 0"
  by (simp_all only: set_old_def set_lock_def set_insert_def set_expand_def unset_lock_def
      unset_insert_def unset_expand_def OLD_BIT_def LOCK_BIT_def INSERT_BIT_def EXPAND_BIT_def
      set_bit_field unset_bit_field)

lemma get_node_type_field: "get_node_type v = push_bit 20 (get_field 20 2 v)"
proof -
  have m: "node256 = push_bit 20 (mask 2)"
    by (simp add: node256_def mask_eq_exp_minus_1)
  show ?thesis
    unfolding get_node_type_def m
    by (rule bit_word_eqI) (auto simp: bit_get_field bit_simps)
qed

lemma incr_count_field:
  assumes "get_count v < 255"
  shows "incr_count v = set_field 40 8 v (of_nat (Suc (get_count v)))"
proof -
  let ?c = "get_field 40 8 v" and ?r = "v AND NOT (push_bit 40 (mask 8))"
  have c: "?c = of_nat (get_count v)"
    by (simp add: version_getters)
  have split: "x AND ?r = 0" if "fits 8 y" "x = push_bit 40 y" for x y :: u64
    using that by (intro bit_word_eqI) (auto simp: bit_simps dest: fits_bit)
  have "v = push_bit 40 ?c OR ?r"
    by (rule bit_word_eqI) (auto simp: bit_get_field bit_simps)
  also have "\<dots> = push_bit 40 ?c + ?r"
    by (rule disjunctive_add_eq_or [symmetric], rule split [OF get_field_fits refl])
  finally have "v + push_bit 40 1 = push_bit 40 (?c + 1) + ?r"
    by (simp add: push_bit_eq_mult algebra_simps)
  also have "?c + 1 = of_nat (Suc (get_count v))"
    by (simp add: c)
  also have "push_bit 40 (of_nat (Suc (get_count v))) + ?r
      = push_bit 40 (of_nat (Suc (get_count v))) OR ?r"
    using assms by (intro disjunctive_add_eq_or split [OF _ refl] fits_of_nat) simp
  finally show ?thesis
    by (simp add: incr_count_def set_field_def or.commute)
qed

lemma incr_vexpand_field: "incr_vexpand v = set_field 0 8 v (get_field 0 8 (v + 1))"
  unfolding incr_vexpand_def mask_8_u64
  by (rule bit_word_eqI) (auto simp: bit_get_field bit_set_field bit_simps)

lemma incr_vinsert_field: "incr_vinsert v = set_field 8 8 v (get_field 8 8 (v + push_bit 8 1))"
  unfolding incr_vinsert_def mask_8_u64
  by (rule bit_word_eqI) (auto simp: bit_get_field bit_set_field bit_simps)

section \<open>Reads through writes\<close>

text \<open>
  No update of one part of the word disturbs another part. The two side conditions are the
  widths the C macros rely on without masking: an offset, a length or a count is below 256,
  and a count is incremented below 255.
\<close>

lemma unat_get_field_less: "unat (get_field p w v) < 2 ^ w" for v :: u64
  by (simp add: get_field_def unsigned_take_bit_eq take_bit_nat_less_exp flip: take_bit_eq_mask)

lemma incr_count_set: "get_count v < 255 \<Longrightarrow> incr_count v = set_count v (Suc (get_count v))"
  by (simp only: incr_count_field version_setters)

lemmas version_reprs = version_getters version_setters version_flags version_flag_setters
  get_node_type_field incr_vexpand_field incr_vinsert_field

lemma set_offset_frame [bitfield]:
  "n < 256 \<Longrightarrow> get_prefix_len (set_offset v n) = get_prefix_len v"
  "n < 256 \<Longrightarrow> get_count (set_offset v n) = get_count v"
  "n < 256 \<Longrightarrow> get_node_type (set_offset v n) = get_node_type v"
  "n < 256 \<Longrightarrow> is_old (set_offset v n) \<longleftrightarrow> is_old v"
  "n < 256 \<Longrightarrow> is_locked (set_offset v n) \<longleftrightarrow> is_locked v"
  "n < 256 \<Longrightarrow> is_inserting (set_offset v n) \<longleftrightarrow> is_inserting v"
  "n < 256 \<Longrightarrow> is_expanding (set_offset v n) \<longleftrightarrow> is_expanding v"
  "n < 256 \<Longrightarrow> get_vinsert (set_offset v n) = get_vinsert v"
  "n < 256 \<Longrightarrow> get_vexpand (set_offset v n) = get_vexpand v"
  by (simp_all add: version_reprs get_set_field_other bit_set_field bit_get_field fits_of_nat get_field_fits)

lemma set_prefix_len_frame [bitfield]:
  "n < 256 \<Longrightarrow> get_offset (set_prefix_len v n) = get_offset v"
  "n < 256 \<Longrightarrow> get_count (set_prefix_len v n) = get_count v"
  "n < 256 \<Longrightarrow> get_node_type (set_prefix_len v n) = get_node_type v"
  "n < 256 \<Longrightarrow> is_old (set_prefix_len v n) \<longleftrightarrow> is_old v"
  "n < 256 \<Longrightarrow> is_locked (set_prefix_len v n) \<longleftrightarrow> is_locked v"
  "n < 256 \<Longrightarrow> is_inserting (set_prefix_len v n) \<longleftrightarrow> is_inserting v"
  "n < 256 \<Longrightarrow> is_expanding (set_prefix_len v n) \<longleftrightarrow> is_expanding v"
  "n < 256 \<Longrightarrow> get_vinsert (set_prefix_len v n) = get_vinsert v"
  "n < 256 \<Longrightarrow> get_vexpand (set_prefix_len v n) = get_vexpand v"
  by (simp_all add: version_reprs get_set_field_other bit_set_field bit_get_field fits_of_nat get_field_fits)

lemma set_count_frame [bitfield]:
  "n < 256 \<Longrightarrow> get_offset (set_count v n) = get_offset v"
  "n < 256 \<Longrightarrow> get_prefix_len (set_count v n) = get_prefix_len v"
  "n < 256 \<Longrightarrow> get_node_type (set_count v n) = get_node_type v"
  "n < 256 \<Longrightarrow> is_old (set_count v n) \<longleftrightarrow> is_old v"
  "n < 256 \<Longrightarrow> is_locked (set_count v n) \<longleftrightarrow> is_locked v"
  "n < 256 \<Longrightarrow> is_inserting (set_count v n) \<longleftrightarrow> is_inserting v"
  "n < 256 \<Longrightarrow> is_expanding (set_count v n) \<longleftrightarrow> is_expanding v"
  "n < 256 \<Longrightarrow> get_vinsert (set_count v n) = get_vinsert v"
  "n < 256 \<Longrightarrow> get_vexpand (set_count v n) = get_vexpand v"
  by (simp_all add: version_reprs get_set_field_other bit_set_field bit_get_field fits_of_nat get_field_fits)

lemma incr_count_frame [bitfield]:
  "get_count v < 255 \<Longrightarrow> get_offset (incr_count v) = get_offset v"
  "get_count v < 255 \<Longrightarrow> get_prefix_len (incr_count v) = get_prefix_len v"
  "get_count v < 255 \<Longrightarrow> get_node_type (incr_count v) = get_node_type v"
  "get_count v < 255 \<Longrightarrow> is_old (incr_count v) \<longleftrightarrow> is_old v"
  "get_count v < 255 \<Longrightarrow> is_locked (incr_count v) \<longleftrightarrow> is_locked v"
  "get_count v < 255 \<Longrightarrow> is_inserting (incr_count v) \<longleftrightarrow> is_inserting v"
  "get_count v < 255 \<Longrightarrow> is_expanding (incr_count v) \<longleftrightarrow> is_expanding v"
  "get_count v < 255 \<Longrightarrow> get_vinsert (incr_count v) = get_vinsert v"
  "get_count v < 255 \<Longrightarrow> get_vexpand (incr_count v) = get_vexpand v"
  by (simp_all add: incr_count_set set_count_frame)

lemma set_old_frame [bitfield]:
  "get_offset (set_old v) = get_offset v"
  "get_prefix_len (set_old v) = get_prefix_len v"
  "get_count (set_old v) = get_count v"
  "get_node_type (set_old v) = get_node_type v"
  "is_locked (set_old v) \<longleftrightarrow> is_locked v"
  "is_inserting (set_old v) \<longleftrightarrow> is_inserting v"
  "is_expanding (set_old v) \<longleftrightarrow> is_expanding v"
  "get_vinsert (set_old v) = get_vinsert v"
  "get_vexpand (set_old v) = get_vexpand v"
  by (simp_all add: version_reprs get_set_field_other bit_set_field bit_get_field fits_of_nat get_field_fits)

lemma set_lock_frame [bitfield]:
  "get_offset (set_lock v) = get_offset v"
  "get_prefix_len (set_lock v) = get_prefix_len v"
  "get_count (set_lock v) = get_count v"
  "get_node_type (set_lock v) = get_node_type v"
  "is_old (set_lock v) \<longleftrightarrow> is_old v"
  "is_inserting (set_lock v) \<longleftrightarrow> is_inserting v"
  "is_expanding (set_lock v) \<longleftrightarrow> is_expanding v"
  "get_vinsert (set_lock v) = get_vinsert v"
  "get_vexpand (set_lock v) = get_vexpand v"
  by (simp_all add: version_reprs get_set_field_other bit_set_field bit_get_field fits_of_nat get_field_fits)

lemma set_insert_frame [bitfield]:
  "get_offset (set_insert v) = get_offset v"
  "get_prefix_len (set_insert v) = get_prefix_len v"
  "get_count (set_insert v) = get_count v"
  "get_node_type (set_insert v) = get_node_type v"
  "is_old (set_insert v) \<longleftrightarrow> is_old v"
  "is_locked (set_insert v) \<longleftrightarrow> is_locked v"
  "is_expanding (set_insert v) \<longleftrightarrow> is_expanding v"
  "get_vinsert (set_insert v) = get_vinsert v"
  "get_vexpand (set_insert v) = get_vexpand v"
  by (simp_all add: version_reprs get_set_field_other bit_set_field bit_get_field fits_of_nat get_field_fits)

lemma set_expand_frame [bitfield]:
  "get_offset (set_expand v) = get_offset v"
  "get_prefix_len (set_expand v) = get_prefix_len v"
  "get_count (set_expand v) = get_count v"
  "get_node_type (set_expand v) = get_node_type v"
  "is_old (set_expand v) \<longleftrightarrow> is_old v"
  "is_locked (set_expand v) \<longleftrightarrow> is_locked v"
  "is_inserting (set_expand v) \<longleftrightarrow> is_inserting v"
  "get_vinsert (set_expand v) = get_vinsert v"
  "get_vexpand (set_expand v) = get_vexpand v"
  by (simp_all add: version_reprs get_set_field_other bit_set_field bit_get_field fits_of_nat get_field_fits)

lemma unset_lock_frame [bitfield]:
  "get_offset (unset_lock v) = get_offset v"
  "get_prefix_len (unset_lock v) = get_prefix_len v"
  "get_count (unset_lock v) = get_count v"
  "get_node_type (unset_lock v) = get_node_type v"
  "is_old (unset_lock v) \<longleftrightarrow> is_old v"
  "is_inserting (unset_lock v) \<longleftrightarrow> is_inserting v"
  "is_expanding (unset_lock v) \<longleftrightarrow> is_expanding v"
  "get_vinsert (unset_lock v) = get_vinsert v"
  "get_vexpand (unset_lock v) = get_vexpand v"
  by (simp_all add: version_reprs get_set_field_other bit_set_field bit_get_field fits_of_nat get_field_fits)

lemma unset_insert_frame [bitfield]:
  "get_offset (unset_insert v) = get_offset v"
  "get_prefix_len (unset_insert v) = get_prefix_len v"
  "get_count (unset_insert v) = get_count v"
  "get_node_type (unset_insert v) = get_node_type v"
  "is_old (unset_insert v) \<longleftrightarrow> is_old v"
  "is_locked (unset_insert v) \<longleftrightarrow> is_locked v"
  "is_expanding (unset_insert v) \<longleftrightarrow> is_expanding v"
  "get_vinsert (unset_insert v) = get_vinsert v"
  "get_vexpand (unset_insert v) = get_vexpand v"
  by (simp_all add: version_reprs get_set_field_other bit_set_field bit_get_field fits_of_nat get_field_fits)

lemma unset_expand_frame [bitfield]:
  "get_offset (unset_expand v) = get_offset v"
  "get_prefix_len (unset_expand v) = get_prefix_len v"
  "get_count (unset_expand v) = get_count v"
  "get_node_type (unset_expand v) = get_node_type v"
  "is_old (unset_expand v) \<longleftrightarrow> is_old v"
  "is_locked (unset_expand v) \<longleftrightarrow> is_locked v"
  "is_inserting (unset_expand v) \<longleftrightarrow> is_inserting v"
  "get_vinsert (unset_expand v) = get_vinsert v"
  "get_vexpand (unset_expand v) = get_vexpand v"
  by (simp_all add: version_reprs get_set_field_other bit_set_field bit_get_field fits_of_nat get_field_fits)

lemma incr_vexpand_frame [bitfield]:
  "get_offset (incr_vexpand v) = get_offset v"
  "get_prefix_len (incr_vexpand v) = get_prefix_len v"
  "get_count (incr_vexpand v) = get_count v"
  "get_node_type (incr_vexpand v) = get_node_type v"
  "is_old (incr_vexpand v) \<longleftrightarrow> is_old v"
  "is_locked (incr_vexpand v) \<longleftrightarrow> is_locked v"
  "is_inserting (incr_vexpand v) \<longleftrightarrow> is_inserting v"
  "is_expanding (incr_vexpand v) \<longleftrightarrow> is_expanding v"
  "get_vinsert (incr_vexpand v) = get_vinsert v"
  by (simp_all add: version_reprs get_set_field_other bit_set_field bit_get_field fits_of_nat get_field_fits)

lemma incr_vinsert_frame [bitfield]:
  "get_offset (incr_vinsert v) = get_offset v"
  "get_prefix_len (incr_vinsert v) = get_prefix_len v"
  "get_count (incr_vinsert v) = get_count v"
  "get_node_type (incr_vinsert v) = get_node_type v"
  "is_old (incr_vinsert v) \<longleftrightarrow> is_old v"
  "is_locked (incr_vinsert v) \<longleftrightarrow> is_locked v"
  "is_inserting (incr_vinsert v) \<longleftrightarrow> is_inserting v"
  "is_expanding (incr_vinsert v) \<longleftrightarrow> is_expanding v"
  "get_vexpand (incr_vinsert v) = get_vexpand v"
  by (simp_all add: version_reprs get_set_field_other bit_set_field bit_get_field fits_of_nat get_field_fits)

lemma version_read_written [bitfield]:
  "n < 256 \<Longrightarrow> get_offset (set_offset v n) = n"
  "n < 256 \<Longrightarrow> get_prefix_len (set_prefix_len v n) = n"
  "n < 256 \<Longrightarrow> get_count (set_count v n) = n"
  by (simp_all add: version_getters(1-3) version_setters get_set_field_same fits_of_nat unat_of_nat)

lemma get_count_incr [bitfield]: "get_count v < 255 \<Longrightarrow> get_count (incr_count v) = Suc (get_count v)"
  by (simp add: incr_count_set version_read_written)

lemma get_vexpand_mod: "get_vexpand v = unat v mod 256"
  by (simp only: version_getters get_field_def drop_bit_0 id_apply take_bit_eq_mask [symmetric]
      unsigned_take_bit_eq) (simp add: take_bit_eq_mod)

lemma get_vexpand_incr [bitfield]: "get_vexpand (incr_vexpand v) = (get_vexpand v + 1) mod 256"
proof -
  have "get_vexpand (incr_vexpand v) = unat ((v + 1) AND mask 8)"
    by (simp add: incr_vexpand_field version_getters get_set_field_same get_field_fits)
      (simp add: get_field_def)
  also have "\<dots> = unat (v + 1) mod 256"
    by (simp only: take_bit_eq_mask [symmetric] unsigned_take_bit_eq) (simp add: take_bit_eq_mod)
  also have "\<dots> = (unat v + 1) mod 256"
    by (simp add: unat_word_ariths mod_mod_cancel)
  also have "\<dots> = (get_vexpand v + 1) mod 256"
    by (simp add: get_vexpand_mod mod_Suc_eq)
  finally show ?thesis .
qed

lemma version_flags_written [bitfield]:
  "is_old (set_old v)" "is_locked (set_lock v)" "is_inserting (set_insert v)"
  "is_expanding (set_expand v)" "\<not> is_locked (unset_lock v)" "\<not> is_inserting (unset_insert v)"
  "\<not> is_expanding (unset_expand v)"
  by (simp_all add: version_flags version_flag_setters bit_set_field)

end
