(* ===== verification/Sidle_Meta.thy ===== *)
theory Sidle_Meta
  imports Sidle_Prelude
begin

text \<open>
  The shared vocabulary of SIDLE (\<open>third_party/sidle_utils/sidle_meta.hh\<close>,
  \<open>sidle_struct.hh\<close> and \<open>sidle_worker.cc\<close>): the enumerations, the metadata of a
  tree node, the migration queue and the static state that all background workers share.
  The lock-free queue underneath is the vendored \<open>moodycamel::ConcurrentQueue\<close>; it appears as a
  list through the two calls the code makes (\<open>enqueue\<close>, \<open>try_dequeue\<close>), and
  the locale \<open>migration_channel\<close> states what the clients may rely on.
\<close>

section \<open>Enumerations\<close>

datatype worker_type =
  Migration_Trigger | Promotion_Executor | Demotion_Executor | Cooler | Threshold_Adjuster

datatype node_mem_type = Mem_Remote | Mem_Local | Mem_Unknown | Mem_Debug

datatype task_type = Promotion | Demotion

datatype mem_usage_status = Usage_Normal | Usage_Tight | Usage_Sufficient

datatype migration_state = Proceed | Delay | Stop

fun node_mem_type_to_string :: "node_mem_type \<Rightarrow> string" where
  "node_mem_type_to_string Mem_Remote = ''remote''"
| "node_mem_type_to_string Mem_Local = ''local''"
| "node_mem_type_to_string Mem_Unknown = ''unknown''"
| "node_mem_type_to_string Mem_Debug = ''debug''"

section \<open>Node metadata\<close>

text \<open>
  The metadata of an inner node is a pair of bit fields, two bits for the type and six for the
  depth, so a depth is a number modulo 64. A leaf adds a 16-bit access counter.
\<close>

record node_metadata =
  md_type :: node_mem_type
  md_depth :: "6 word"

definition make_node_metadata :: "node_mem_type \<Rightarrow> u8 \<Rightarrow> node_metadata" where
  "make_node_metadata type depth = \<lparr>md_type = type, md_depth = ucast depth\<rparr>"

record leaf_metadata =
  metadata :: node_metadata
  access_time :: u16

definition make_leaf_metadata :: "node_mem_type \<Rightarrow> u8 \<Rightarrow> u16 \<Rightarrow> leaf_metadata" where
  "make_leaf_metadata type depth count =
     \<lparr>metadata = make_node_metadata type depth, access_time = count\<rparr>"

definition leaf_get_type :: "leaf_metadata \<Rightarrow> node_mem_type" where
  "leaf_get_type m = md_type (metadata m)"

section \<open>The migration queue\<close>

text \<open>
  \<open>enqueue\<close> appends and \<open>try_dequeue\<close> removes; a failed \<open>try_dequeue\<close> leaves its
  output argument as it was, which the code initialises with zero.
\<close>

definition enqueue :: "'a list \<Rightarrow> 'a \<Rightarrow> 'a list" where
  "enqueue q x = q @ [x]"

definition try_dequeue :: "'a list \<Rightarrow> 'a \<Rightarrow> 'a \<times> 'a list" where
  "try_dequeue q result = (case q of [] \<Rightarrow> (result, []) | x # q' \<Rightarrow> (x, q'))"

type_synonym node_pair = "u64 \<times> u64"

record migration_queue =
  promotion_queue :: "u64 list"
  demotion_queue :: "u64 list"
  promotion_pair_queue :: "node_pair list"
  demotion_pair_queue :: "node_pair list"
  promotion_queue_length :: u32
  demotion_queue_length :: u32

definition new_migration_queue :: migration_queue where
  "new_migration_queue = \<lparr>promotion_queue = [], demotion_queue = [],
     promotion_pair_queue = [], demotion_pair_queue = [],
     promotion_queue_length = 0, demotion_queue_length = 0\<rparr>"

definition get_task :: "migration_queue \<Rightarrow> task_type \<Rightarrow> u64 \<times> migration_queue" where
  "get_task q type = (case type of
     Promotion \<Rightarrow>
       (let (result, rest) = try_dequeue (promotion_queue q) 0;
            q1 = q\<lparr>promotion_queue := rest\<rparr>
        in (result, if result \<noteq> 0
                    then q1\<lparr>promotion_queue_length := promotion_queue_length q1 + (- 1)\<rparr> else q1))
   | Demotion \<Rightarrow>
       (let (result, rest) = try_dequeue (demotion_queue q) 0;
            q1 = q\<lparr>demotion_queue := rest\<rparr>
        in (result, if result \<noteq> 0
                    then q1\<lparr>demotion_queue_length := demotion_queue_length q1 + (- 1)\<rparr> else q1)))"

definition get_multi_task :: "migration_queue \<Rightarrow> task_type \<Rightarrow> node_pair \<times> migration_queue" where
  "get_multi_task q type = (case type of
     Promotion \<Rightarrow>
       (let (result, rest) = try_dequeue (promotion_pair_queue q) (0, 0);
            q1 = q\<lparr>promotion_pair_queue := rest\<rparr>
        in (result, if fst result \<noteq> 0
                    then q1\<lparr>promotion_queue_length := promotion_queue_length q1 + (- 1)\<rparr> else q1))
   | Demotion \<Rightarrow>
       (let (result, rest) = try_dequeue (demotion_pair_queue q) (0, 0);
            q1 = q\<lparr>demotion_pair_queue := rest\<rparr>
        in (result, if fst result \<noteq> 0
                    then q1\<lparr>demotion_queue_length := demotion_queue_length q1 + (- 1)\<rparr> else q1)))"

definition add_task :: "migration_queue \<Rightarrow> task_type \<Rightarrow> u64 \<Rightarrow> migration_queue" where
  "add_task q type data = (case type of
     Promotion \<Rightarrow> q\<lparr>promotion_queue := enqueue (promotion_queue q) data,
                    promotion_queue_length := promotion_queue_length q + 1\<rparr>
   | Demotion \<Rightarrow> q\<lparr>demotion_queue := enqueue (demotion_queue q) data,
                   demotion_queue_length := demotion_queue_length q + 1\<rparr>)"

definition add_multi_task :: "migration_queue \<Rightarrow> task_type \<Rightarrow> node_pair \<Rightarrow> migration_queue" where
  "add_multi_task q type data = (case type of
     Promotion \<Rightarrow> q\<lparr>promotion_pair_queue := enqueue (promotion_pair_queue q) data,
                    promotion_queue_length := promotion_queue_length q + 1\<rparr>
   | Demotion \<Rightarrow> q\<lparr>demotion_pair_queue := enqueue (demotion_pair_queue q) data,
                   demotion_queue_length := demotion_queue_length q + 1\<rparr>)"

definition get_promotion_queue_length :: "migration_queue \<Rightarrow> nat" where
  "get_promotion_queue_length q = nat (max (sint (promotion_queue_length q)) 0)"

definition get_demotion_queue_length :: "migration_queue \<Rightarrow> nat" where
  "get_demotion_queue_length q = nat (max (sint (demotion_queue_length q)) 0)"

section \<open>What a client of the queue may rely on\<close>

text \<open>
  A channel is one kind of task of the queue, used through one pair of calls, as the code's comment
  demands (\<open>use multi-get/put or single-get/put exclusively\<close>). \<open>pending\<close> lists the tasks in the
  order in which they come out, \<open>valid\<close> says which data a client may add (a null address is
  the code's marker for an empty queue), and \<open>len\<close> is the length the workers poll.
\<close>

fun get_many :: "('q \<Rightarrow> 'a \<times> 'q) \<Rightarrow> nat \<Rightarrow> 'q \<Rightarrow> 'a list \<times> 'q" where
  "get_many get 0 q = ([], q)"
| "get_many get (Suc n) q =
     (let (x, q1) = get q; (xs, q2) = get_many get n q1 in (x # xs, q2))"

locale migration_channel =
  fixes add :: "'q \<Rightarrow> 'a \<Rightarrow> 'q"
    and get :: "'q \<Rightarrow> 'a \<times> 'q"
    and valid :: "'a \<Rightarrow> bool"
    and pending :: "'q \<Rightarrow> 'a list"
    and len :: "'q \<Rightarrow> nat"
    and inv :: "'q \<Rightarrow> bool"
    and capacity :: nat
  assumes get_empty: "inv q \<Longrightarrow> pending q = [] \<Longrightarrow> \<not> valid (fst (get q)) \<and> pending (snd (get q)) = []"
    and get_first: "inv q \<Longrightarrow> pending q = x # xs \<Longrightarrow> fst (get q) = x \<and> pending (snd (get q)) = xs"
    and add_last: "inv q \<Longrightarrow> valid x \<Longrightarrow> pending (add q x) = pending q @ [x]"
    and len_pending: "inv q \<Longrightarrow> len q = length (pending q)"
    and pending_valid: "inv q \<Longrightarrow> x \<in> set (pending q) \<Longrightarrow> valid x"
    and inv_get: "inv q \<Longrightarrow> inv (snd (get q))"
    and inv_add: "inv q \<Longrightarrow> valid x \<Longrightarrow> len q < capacity \<Longrightarrow> inv (add q x)"
begin

lemma get_valid_iff: "inv q \<Longrightarrow> valid (fst (get q)) \<longleftrightarrow> pending q \<noteq> []"
  using get_empty get_first pending_valid by (cases "pending q") auto

lemma add_many:
  "inv q \<Longrightarrow> (\<And>x. x \<in> set xs \<Longrightarrow> valid x) \<Longrightarrow> len q + length xs \<le> capacity \<Longrightarrow>
     inv (foldl add q xs) \<and> pending (foldl add q xs) = pending q @ xs"
proof (induction xs arbitrary: q)
  case (Cons x xs)
  then have "inv (add q x)" and "pending (add q x) = pending q @ [x]"
    using inv_add add_last by auto
  with Cons.IH [of "add q x"] Cons.prems show ?case
    using len_pending by simp
qed simp

lemma get_many_pending:
  "inv q \<Longrightarrow> n \<le> length (pending q) \<Longrightarrow>
     fst (get_many get n q) = take n (pending q) \<and>
     pending (snd (get_many get n q)) = drop n (pending q)"
proof (induction n arbitrary: q)
  case (Suc n)
  then obtain x xs where "pending q = x # xs" by (cases "pending q") auto
  with Suc.prems have "fst (get q) = x" "pending (snd (get q)) = xs"
    using get_first by auto
  with Suc.IH [of "snd (get q)"] Suc.prems inv_get \<open>pending q = x # xs\<close> show ?case
    by (auto simp: Let_def split: prod.splits)
qed simp

lemma drained_in_order:
  assumes "inv q" and "pending q = []" and "\<And>x. x \<in> set xs \<Longrightarrow> valid x"
    and "length xs \<le> capacity"
  shows "fst (get_many get (length xs) (foldl add q xs)) = xs \<and>
    len (foldl add q xs) = length xs"
proof -
  have "inv (foldl add q xs)" "pending (foldl add q xs) = xs"
    using add_many [of q xs] assms len_pending [of q] by auto
  then show ?thesis
    using get_many_pending [of "foldl add q xs" "length xs"] len_pending by simp
qed

end

text \<open>
  The invariant of each channel: the unshared queue is empty, the tasks are valid, and the
  32-bit counter is their number, which stays below \<open>2 ^ 31\<close>.
\<close>

definition channel_capacity :: nat where
  "channel_capacity = 2 ^ 31 - 1"

definition counts :: "u32 \<Rightarrow> 'a list \<Rightarrow> bool" where
  "counts n xs \<longleftrightarrow> n = of_nat (length xs) \<and> length xs \<le> channel_capacity"

lemma counts_sint: "counts n xs \<Longrightarrow> nat (max (sint n) 0) = length xs"
proof -
  assume "counts n xs"
  then have "n = of_nat (length xs)" and "int (length xs) < 2 ^ 31"
    by (simp_all add: counts_def channel_capacity_def)
  then have "sint n = int (length xs)"
    by (simp add: signed_of_nat signed_take_bit_int_eq_self)
  then show ?thesis by simp
qed

lemma counts_add: "counts n xs \<Longrightarrow> length xs < channel_capacity \<Longrightarrow> counts (n + 1) (xs @ [x])"
  by (simp add: counts_def)

lemma counts_get: "counts n (x # xs) \<Longrightarrow> counts (n - 1) xs"
  by (simp add: counts_def)

definition promotion_pairs_inv :: "migration_queue \<Rightarrow> bool" where
  "promotion_pairs_inv q \<longleftrightarrow> (\<forall>x \<in> set (promotion_pair_queue q). fst x \<noteq> 0) \<and>
     counts (promotion_queue_length q) (promotion_pair_queue q)"

definition demotion_pairs_inv :: "migration_queue \<Rightarrow> bool" where
  "demotion_pairs_inv q \<longleftrightarrow> (\<forall>x \<in> set (demotion_pair_queue q). fst x \<noteq> 0) \<and>
     counts (demotion_queue_length q) (demotion_pair_queue q)"

definition promotion_inv :: "migration_queue \<Rightarrow> bool" where
  "promotion_inv q \<longleftrightarrow> 0 \<notin> set (promotion_queue q) \<and>
     counts (promotion_queue_length q) (promotion_queue q)"

definition demotion_inv :: "migration_queue \<Rightarrow> bool" where
  "demotion_inv q \<longleftrightarrow> 0 \<notin> set (demotion_queue q) \<and>
     counts (demotion_queue_length q) (demotion_queue q)"

lemmas queue_ops = get_task_def get_multi_task_def add_task_def add_multi_task_def
  try_dequeue_def enqueue_def get_promotion_queue_length_def get_demotion_queue_length_def

interpretation promotion_pairs: migration_channel
  "\<lambda>q. add_multi_task q Promotion" "\<lambda>q. get_multi_task q Promotion" "\<lambda>x. fst x \<noteq> 0"
  promotion_pair_queue get_promotion_queue_length promotion_pairs_inv channel_capacity
  by unfold_locales
    (auto simp: queue_ops promotion_pairs_inv_def counts_sint intro: counts_add counts_get
      split: list.splits)

interpretation demotion_pairs: migration_channel
  "\<lambda>q. add_multi_task q Demotion" "\<lambda>q. get_multi_task q Demotion" "\<lambda>x. fst x \<noteq> 0"
  demotion_pair_queue get_demotion_queue_length demotion_pairs_inv channel_capacity
  by unfold_locales
    (auto simp: queue_ops demotion_pairs_inv_def counts_sint intro: counts_add counts_get
      split: list.splits)

interpretation promotions: migration_channel
  "\<lambda>q. add_task q Promotion" "\<lambda>q. get_task q Promotion" "\<lambda>x. x \<noteq> 0"
  promotion_queue get_promotion_queue_length promotion_inv channel_capacity
  by unfold_locales
    (auto simp: queue_ops promotion_inv_def counts_sint intro: counts_add counts_get
      split: list.splits)

interpretation demotions: migration_channel
  "\<lambda>q. add_task q Demotion" "\<lambda>q. get_task q Demotion" "\<lambda>x. x \<noteq> 0"
  demotion_queue get_demotion_queue_length demotion_inv channel_capacity
  by unfold_locales
    (auto simp: queue_ops demotion_inv_def counts_sint intro: counts_add counts_get
      split: list.splits)

lemma new_queue_invs:
  "promotion_pairs_inv new_migration_queue" "demotion_pairs_inv new_migration_queue"
  "promotion_inv new_migration_queue" "demotion_inv new_migration_queue"
  by (simp_all add: new_migration_queue_def promotion_pairs_inv_def demotion_pairs_inv_def
      promotion_inv_def demotion_inv_def counts_def)

section \<open>The state all workers share\<close>

text \<open>
  The static members of \<open>art_worker_base\<close> with the initial values of \<open>sidle_worker.cc\<close>.
  A condition variable keeps no state: a waiter re-checks the flag it waits for, and every
  wait has a time-out. So the flags and the queue are the whole state.
\<close>

record worker_base =
  mqueue :: migration_queue
  need_demotion :: bool
  need_promotion :: bool
  can_trigger :: bool
  can_promote :: bool
  can_demote :: bool
  is_demoting :: bool
  is_triggering_migration :: bool
  need_adjust_threshold :: bool
  demoting_complete :: bool
  is_running :: bool

definition initial_worker_base :: worker_base where
  "initial_worker_base = \<lparr>mqueue = new_migration_queue, need_demotion = False,
     need_promotion = False, can_trigger = True, can_promote = True, can_demote = True,
     is_demoting = False, is_triggering_migration = False, need_adjust_threshold = False,
     demoting_complete = False, is_running = False\<rparr>"

text \<open>The constructor of a worker starts the run flag and \<open>stop\<close> clears it.\<close>

definition art_worker_base :: "worker_base \<Rightarrow> worker_base" where
  "art_worker_base b = b\<lparr>is_running := True\<rparr>"

definition stop_worker :: "worker_base \<Rightarrow> worker_base" where
  "stop_worker b = b\<lparr>is_running := False\<rparr>"

end
