(* ===== verification/Cxl_Allocator.thy ===== *)
theory Cxl_Allocator
  imports Sidle_Prelude
begin

text \<open>
  Unimalloc (\<open>third_party/cxl_utils/cxl_allocator.c\<close>): allocation split between local DRAM and CXL
  memory by stride scheduling, and allocation on CXL with local memory as the fallback.
  The C library and memkind are outside the repository. Their answers are part of the state, as
  the list of the addresses that the coming calls to \<open>malloc\<close> and its relatives
  (\<open>local_next\<close>) and to memkind (\<open>cxl_next\<close>) return, 0 for NULL; an exhausted
  list answers NULL. The device calls of \<open>cxl_init\<close> answer through its arguments.
\<close>

section \<open>State\<close>

datatype device_type = CXL_DEV | LOCAL_DEV | UNKNOWN_DEV

record cxl_state =
  cxl_kind :: bool
  cxl_current_size :: u64
  percentage_on_cxl :: int
  mmap_start_point :: u64
  mmap_end_point :: u64
  cxl_fd :: int
  cxl_offset :: u64
  local_stride :: int
  cxl_stride :: int
  local_ticket :: u64
  cxl_ticket :: u64
  local_next :: "u64 list"
  cxl_next :: "u64 list"

definition CXL_MAX_SIZE :: u64 where "CXL_MAX_SIZE = 1024 * 1024 * 1024 * 30"
definition CXL_MIN_SIZE :: u64 where "CXL_MIN_SIZE = 2 * 1024 * 1024"
definition SIZE_MAX :: u64 where "SIZE_MAX = - 1"

section \<open>The greatest common divisor\<close>

text \<open>C's remainder takes the sign of the dividend.\<close>

definition c_rem :: "int \<Rightarrow> int \<Rightarrow> int" where
  "c_rem a b = sgn a * (\<bar>a\<bar> mod \<bar>b\<bar>)"

lemma abs_c_rem: "\<bar>c_rem a b\<bar> = \<bar>a\<bar> mod \<bar>b\<bar>"
  by (cases "b = 0") (auto simp: c_rem_def abs_mult sgn_if)

function c_gcd :: "int \<Rightarrow> int \<Rightarrow> int" where
  "c_gcd a b = (if b \<noteq> 0 then c_gcd b (c_rem a b) else a)"
  by pat_completeness auto
termination
  by (relation "measure (\<lambda>(a, b). nat \<bar>b\<bar>)") (auto simp: abs_c_rem)

declare c_gcd.simps [simp del]

lemma c_gcd_gcd: "\<bar>c_gcd a b\<bar> = gcd a b"
proof (induction a b rule: c_gcd.induct)
  case (1 a b)
  show ?case
  proof (cases "b = 0")
    case False
    then have "\<bar>c_gcd a b\<bar> = gcd \<bar>b\<bar> \<bar>c_rem a b\<bar>"
      using 1 by (subst c_gcd.simps) simp
    also have "\<dots> = gcd \<bar>b\<bar> (\<bar>a\<bar> mod \<bar>b\<bar>)"
      by (simp only: abs_c_rem)
    also have "\<dots> = gcd a b"
      by (simp add: gcd_red_int [symmetric] gcd.commute)
    finally show ?thesis .
  qed (simp add: c_gcd.simps)
qed

lemma c_gcd_nonneg: "0 \<le> a \<Longrightarrow> 0 \<le> b \<Longrightarrow> 0 \<le> c_gcd a b"
proof (induction a b rule: c_gcd.induct)
  case (1 a b)
  have "0 \<le> c_rem a b" using "1.prems" by (cases "b = 0") (auto simp: c_rem_def sgn_if)
  then show ?case
    using 1 by (subst c_gcd.simps) auto
qed

section \<open>Stride scheduling\<close>

definition stride_scheduler :: "cxl_state \<Rightarrow> device_type \<times> cxl_state" where
  "stride_scheduler s =
     (let result = (if cxl_stride s = 0 then CXL_DEV
                    else if local_stride s = 0 then LOCAL_DEV
                    else if cxl_ticket s < local_ticket s then CXL_DEV else LOCAL_DEV)
      in (result, case result of
            CXL_DEV \<Rightarrow>
              (let s1 = (if SIZE_MAX - cxl_ticket s < of_int (cxl_stride s)
                         then s\<lparr>local_ticket := 0, cxl_ticket := 0\<rparr> else s)
               in s1\<lparr>cxl_ticket := cxl_ticket s1 + of_int (cxl_stride s)\<rparr>)
          | LOCAL_DEV \<Rightarrow>
              (let s1 = (if SIZE_MAX - local_ticket s < of_int (local_stride s)
                         then s\<lparr>local_ticket := 0, cxl_ticket := 0\<rparr> else s)
               in s1\<lparr>local_ticket := local_ticket s1 + of_int (local_stride s)\<rparr>)
          | UNKNOWN_DEV \<Rightarrow> s))"

section \<open>Initialisation\<close>

text \<open>
  The device calls answer \<open>opened\<close> (the file descriptor of the device), \<open>mapped\<close> (the mapping, or
  None for \<open>MAP_FAILED\<close>) and \<open>create_err\<close> (the error of \<open>memkind_create_fixed\<close>). Every failure
  exits the process.
\<close>

definition init_strides :: "cxl_state \<Rightarrow> cxl_state" where
  "init_strides s =
     (let p = percentage_on_cxl s in
      if p = 100 then s\<lparr>local_stride := 1, cxl_stride := 0\<rparr>
      else if p = 0 then s\<lparr>local_stride := 0, cxl_stride := 1\<rparr>
      else (let multiple_result = p * (100 - p) div c_gcd p (100 - p)
            in s\<lparr>cxl_stride := multiple_result div p,
                 local_stride := multiple_result div (100 - p)\<rparr>))"

definition cxl_init ::
  "u64 \<Rightarrow> int \<Rightarrow> int \<Rightarrow> u64 option \<Rightarrow> int \<Rightarrow> cxl_state \<Rightarrow> cxl_state res" where
  "cxl_init wanted_size percentage opened mapped create_err s =
     (if cxl_fd s \<noteq> 0 then Inr s
      else if opened < 0 then Inl (Throw ''the path for cxl /dev/dax0.0 not exist'')
      else
        (let size0 = (if CXL_MAX_SIZE < wanted_size then CXL_MAX_SIZE else wanted_size);
             size = (if size0 < CXL_MIN_SIZE then CXL_MIN_SIZE else size0)
         in case mapped of
              None \<Rightarrow> Inl (Throw ''CXL init error'')
            | Some mapped_memory \<Rightarrow>
                if create_err \<noteq> 0 then Inl (Throw ''memkind_create_fixed'')
                else
                  (let s1 = s\<lparr>cxl_fd := opened, cxl_current_size := size,
                              mmap_start_point := mapped_memory,
                              mmap_end_point := mapped_memory + size, cxl_kind := True\<rparr>;
                       s2 = (if 100 \<le> percentage then s1\<lparr>percentage_on_cxl := 100\<rparr>
                             else if 0 < percentage then s1\<lparr>percentage_on_cxl := percentage\<rparr>
                             else s1)
                   in Inr (init_strides s2))))"

text \<open>The static initial values of the file.\<close>

definition cxl_boot :: "u64 list \<Rightarrow> u64 list \<Rightarrow> cxl_state" where
  "cxl_boot ls cs = \<lparr>cxl_kind = False, cxl_current_size = 0, percentage_on_cxl = 0,
     mmap_start_point = 0, mmap_end_point = 0, cxl_fd = 0, cxl_offset = CXL_MAX_SIZE,
     local_stride = 0, cxl_stride = 0, local_ticket = 0, cxl_ticket = 0,
     local_next = ls, cxl_next = cs\<rparr>"

section \<open>Allocation\<close>

definition libc_alloc :: "cxl_state \<Rightarrow> u64 \<times> cxl_state" where
  "libc_alloc s = (case local_next s of [] \<Rightarrow> (0, s) | a # r \<Rightarrow> (a, s\<lparr>local_next := r\<rparr>))"

definition memkind_alloc :: "cxl_state \<Rightarrow> (u64 \<times> cxl_state) res" where
  "memkind_alloc s =
     (if cxl_kind s
      then Inr (case cxl_next s of [] \<Rightarrow> (0, s) | a # r \<Rightarrow> (a, s\<lparr>cxl_next := r\<rparr>))
      else Inl Null_Deref)"

text \<open>
  \<open>malloc_with_cxl\<close> and \<open>calloc_with_cxl\<close> are the same code around \<open>malloc\<close> and
  \<open>calloc\<close>; the size only reaches the library, so it is not part of the model.
\<close>

definition malloc_with_cxl :: "cxl_state \<Rightarrow> (u64 \<times> cxl_state) res" where
  "malloc_with_cxl s =
     (let (dev_type, s1) = (if cxl_kind s then stride_scheduler s else (UNKNOWN_DEV, s));
          local_part = (\<lambda>s. let (result, s') = libc_alloc s
            in if result = 0 \<and> dev_type \<noteq> CXL_DEV then memkind_alloc s' else Inr (result, s'))
      in if dev_type = CXL_DEV
         then and_then (memkind_alloc s1) (\<lambda>(result, s2).
                if result \<noteq> 0 then Inr (result, s2) else local_part s2)
         else local_part s1)"

definition calloc_with_cxl :: "cxl_state \<Rightarrow> (u64 \<times> cxl_state) res" where
  "calloc_with_cxl s =
     (let (dev_type, s1) = (if cxl_kind s then stride_scheduler s else (UNKNOWN_DEV, s));
          local_part = (\<lambda>s. let (result, s') = libc_alloc s
            in if result = 0 \<and> dev_type \<noteq> CXL_DEV then memkind_alloc s' else Inr (result, s'))
      in if dev_type = CXL_DEV
         then and_then (memkind_alloc s1) (\<lambda>(result, s2).
                if result \<noteq> 0 then Inr (result, s2) else local_part s2)
         else local_part s1)"

text \<open>
  The aligned variant reports an error code instead of a null pointer. The library answers 0
  with the address stored, or an error code and no store; here a null address stands for an error,
  reported as 12 (\<open>ENOMEM\<close>).
\<close>

definition memalign_code :: "u64 \<Rightarrow> int" where
  "memalign_code a = (if a = 0 then 12 else 0)"

definition posix_memalign_with_cxl :: "cxl_state \<Rightarrow> (int \<times> u64 \<times> cxl_state) res" where
  "posix_memalign_with_cxl s =
     (let (dev_type, s1) = (if cxl_kind s then stride_scheduler s else (UNKNOWN_DEV, s));
          local_part = (\<lambda>s. let (a, s') = libc_alloc s
            in if memalign_code a \<noteq> 0 \<and> dev_type \<noteq> CXL_DEV
               then and_then (memkind_alloc s') (\<lambda>(a', s''). Inr (memalign_code a', a', s''))
               else Inr (memalign_code a, a, s'))
      in if dev_type = CXL_DEV
         then and_then (memkind_alloc s1) (\<lambda>(a, s2).
                if memalign_code a = 0 then Inr (0, a, s2) else local_part s2)
         else local_part s1)"

definition malloc_on_cxl :: "cxl_state \<Rightarrow> (int \<times> u64 \<times> cxl_state) res" where
  "malloc_on_cxl s =
     and_then (memkind_alloc s) (\<lambda>(p, s1).
       if p \<noteq> 0 then Inr (1, p, s1)
       else let (p', s2) = libc_alloc s1 in Inr (0, p', s2))"

definition calloc_on_cxl :: "cxl_state \<Rightarrow> (int \<times> u64 \<times> cxl_state) res" where
  "calloc_on_cxl s =
     and_then (memkind_alloc s) (\<lambda>(p, s1).
       if p \<noteq> 0 then Inr (1, p, s1)
       else let (p', s2) = libc_alloc s1 in Inr (0, p', s2))"

definition posix_memalign_on_cxl :: "u64 \<Rightarrow> cxl_state \<Rightarrow> (int \<times> u64 \<times> cxl_state) res" where
  "posix_memalign_on_cxl sz s =
     and_then (memkind_alloc s) (\<lambda>(a, s1).
       if memalign_code a \<noteq> 0 \<and> sz \<noteq> 0
       then let (a', s2) = libc_alloc s1 in Inr (memalign_code a', a', s2)
       else Inr (memalign_code a, a, s1))"

text \<open>Which allocator a block is handed back to (or grown by).\<close>

definition in_cxl_range :: "cxl_state \<Rightarrow> u64 \<Rightarrow> bool" where
  "in_cxl_range s p \<longleftrightarrow> mmap_start_point s \<le> p \<and> p < mmap_end_point s"

definition free_with_cxl :: "cxl_state \<Rightarrow> u64 \<Rightarrow> device_type" where
  "free_with_cxl s p =
     (if mmap_start_point s \<le> p \<and> p < mmap_end_point s then CXL_DEV else LOCAL_DEV)"

definition realloc_with_cxl :: "cxl_state \<Rightarrow> u64 \<Rightarrow> (u64 \<times> cxl_state) res" where
  "realloc_with_cxl s p =
     (if mmap_start_point s \<le> p \<and> p < mmap_end_point s
      then memkind_alloc s else Inr (libc_alloc s))"

text \<open>The mappings. \<open>mapped\<close> is the answer of \<open>mmap\<close>, None for \<open>MAP_FAILED\<close>.\<close>

definition mmap_with_cxl :: "u64 \<Rightarrow> u64 option \<Rightarrow> cxl_state \<Rightarrow> u64 option \<times> cxl_state" where
  "mmap_with_cxl len mapped s =
     (if cxl_kind s
      then (let (dev, s1) = stride_scheduler s
            in if dev = CXL_DEV
               then (mapped, s1\<lparr>cxl_offset := cxl_offset s1 + len\<rparr>)
               else (None, s1))
      else (None, s))"

definition mmap_round :: "u64 \<Rightarrow> u64" where
  "mmap_round len = (len + CXL_MIN_SIZE - 1) div CXL_MIN_SIZE * CXL_MIN_SIZE"

definition mmap_on_cxl ::
  "u64 \<Rightarrow> u64 option \<Rightarrow> u64 option \<Rightarrow> cxl_state \<Rightarrow> int \<times> u64 option \<times> cxl_state" where
  "mmap_on_cxl len mapped fallback s =
     (let s1 = s\<lparr>cxl_offset := cxl_offset s + mmap_round len\<rparr>
      in if mapped = None then (0, fallback, s1) else (1, mapped, s1))"

section \<open>The stride scheduler keeps the ratio\<close>

text \<open>A run of allocations, and how many of them went to CXL.\<close>

fun schedule :: "nat \<Rightarrow> cxl_state \<Rightarrow> device_type list \<times> cxl_state" where
  "schedule 0 s = ([], s)"
| "schedule (Suc n) s =
     (let (d, s1) = stride_scheduler s; (ds, s2) = schedule n s1 in (d # ds, s2))"

text \<open>
  \<open>sched_inv a b c l s\<close>: with strides \<open>a\<close> (CXL) and \<open>b\<close> (local), after \<open>c\<close> allocations on CXL and
  \<open>l\<close> local ones, each ticket is its stride times its count, and neither ticket is ahead of
  the other by more than one stride.
\<close>

definition sched_inv :: "nat \<Rightarrow> nat \<Rightarrow> nat \<Rightarrow> nat \<Rightarrow> cxl_state \<Rightarrow> bool" where
  "sched_inv a b c l s \<longleftrightarrow>
     0 < a \<and> 0 < b \<and> cxl_stride s = int a \<and> local_stride s = int b \<and>
     cxl_ticket s = of_nat (a * c) \<and> local_ticket s = of_nat (b * l) \<and>
     a * c \<le> b * l + a \<and> b * l \<le> a * c + b"

lemma no_ticket_overflow:
  "t + x < 2 ^ 64 \<Longrightarrow> \<not> SIZE_MAX - of_nat t < (of_nat x :: u64)"
proof -
  assume h: "t + x < 2 ^ 64"
  have "unat (SIZE_MAX - of_nat t) = unat SIZE_MAX - unat (of_nat t :: u64)"
    by (rule unat_sub) (simp add: SIZE_MAX_def)
  also have "\<dots> = 2 ^ 64 - 1 - t"
    using h by (simp add: SIZE_MAX_def unat_of_nat unsigned_minus_1_eq_mask mask_eq_exp_minus_1)
  finally show ?thesis
    using h by (simp add: word_less_nat_alt unat_of_nat)
qed

lemma ticket_less: "x < 2 ^ 64 \<Longrightarrow> y < 2 ^ 64 \<Longrightarrow> (of_nat x :: u64) < of_nat y \<longleftrightarrow> x < y"
  by (simp add: word_less_nat_alt unat_of_nat)

lemma stride_scheduler_step:
  assumes "sched_inv a b c l s" and "a * c + b * l + a + b < 2 ^ 64"
  shows "a * c < b * l \<and> fst (stride_scheduler s) = CXL_DEV \<and>
      sched_inv a b (Suc c) l (snd (stride_scheduler s)) \<or>
    b * l \<le> a * c \<and> fst (stride_scheduler s) = LOCAL_DEV \<and>
      sched_inv a b c (Suc l) (snd (stride_scheduler s))"
proof -
  have no: "\<not> SIZE_MAX - of_nat (a * c) < (of_nat a :: u64)"
    "\<not> SIZE_MAX - of_nat (b * l) < (of_nat b :: u64)"
    using assms(2) by (intro no_ticket_overflow; simp)+
  have lt: "(of_nat (a * c) :: u64) < of_nat (b * l) \<longleftrightarrow> a * c < b * l"
    using assms(2) by (intro ticket_less) simp_all
  have inv: "0 < a" "0 < b" "cxl_stride s = int a" "local_stride s = int b"
    "cxl_ticket s = of_nat (a * c)" "local_ticket s = of_nat (b * l)"
    "a * c \<le> b * l + a" "b * l \<le> a * c + b"
    using assms(1) by (simp_all add: sched_inv_def)
  show ?thesis
  proof (cases "a * c < b * l")
    case True
    with inv no lt show ?thesis
      by (simp add: stride_scheduler_def sched_inv_def Let_def del: of_nat_mult)
  next
    case False
    with inv no lt show ?thesis
      by (simp add: stride_scheduler_def sched_inv_def Let_def del: of_nat_mult)
  qed
qed

lemma schedule_inv:
  "sched_inv a b c l s \<Longrightarrow> a * (c + n) + b * (l + n) + a + b < 2 ^ 64 \<Longrightarrow>
     length (fst (schedule n s)) = n \<and>
     sched_inv a b (c + count_list (fst (schedule n s)) CXL_DEV)
       (l + (n - count_list (fst (schedule n s)) CXL_DEV)) (snd (schedule n s)) \<and>
     count_list (fst (schedule n s)) CXL_DEV \<le> n"
proof (induction n arbitrary: c l s)
  case (Suc n)
  let ?s = "snd (stride_scheduler s)"
  have small: "a * c + b * l + a + b < 2 ^ 64" "a * (Suc c + n) + b * (l + n) + a + b < 2 ^ 64"
    "a * (c + n) + b * (Suc l + n) + a + b < 2 ^ 64"
    using Suc.prems(2) by (simp_all add: algebra_simps)
  from stride_scheduler_step [OF Suc.prems(1) small(1)] show ?case
  proof (elim disjE conjE)
    assume "fst (stride_scheduler s) = CXL_DEV" "sched_inv a b (Suc c) l ?s"
    with Suc.IH [OF this(2) small(2)] show ?thesis
      by (auto simp: Let_def split: prod.splits)
  next
    assume "fst (stride_scheduler s) = LOCAL_DEV" "sched_inv a b c (Suc l) ?s"
    with Suc.IH [OF this(2) small(3)] show ?thesis
      by (auto simp: Let_def Suc_diff_le split: prod.splits)
  qed
qed (simp add: sched_inv_def)

lemma init_strides_ratio:
  assumes "0 < p" and "p < 100" and "percentage_on_cxl s = p"
  obtains a b g where "0 < a" "0 < b" "0 < g"
    "cxl_stride (init_strides s) = int a" "local_stride (init_strides s) = int b"
    "100 - p = int (g * a)" "p = int (g * b)"
proof -
  define g where "g = c_gcd p (100 - p)"
  have "g = gcd p (100 - p)"
    using c_gcd_gcd [of p "100 - p"] c_gcd_nonneg [of p "100 - p"] assms by (simp add: g_def)
  then have g: "0 < g" "g dvd p" "g dvd 100 - p"
    using assms by simp_all
  then obtain a b where ab: "100 - p = g * a" "p = g * b"
    by (auto simp: dvd_def)
  have pos: "0 < a" "0 < b"
    using ab g(1) assms by (smt (verit) zero_less_mult_pos)+
  have "p * (100 - p) = g * (p * a)"
    by (metis ab(1) mult.left_commute)
  moreover have "p * (100 - p) = g * ((100 - p) * b)"
    by (metis ab(2) mult.commute mult.left_commute)
  ultimately have "p * (100 - p) div g = p * a" "p * (100 - p) div g = (100 - p) * b"
    using g(1) by (metis nonzero_mult_div_cancel_left order_less_irrefl)+
  then have d: "p * (100 - p) div g div p = a" "p * (100 - p) div g div (100 - p) = b"
    using assms(1,2) by (metis nonzero_mult_div_cancel_left order_less_irrefl,
      metis nonzero_mult_div_cancel_left diff_gt_0_iff_gt order_less_irrefl)
  then have "cxl_stride (init_strides s) = a" "local_stride (init_strides s) = b"
    using assms by (simp_all add: init_strides_def Let_def g_def)
  with that [of "nat a" "nat b" "nat g"] ab pos g(1) show thesis
    by (simp add: nat_mult_distrib)
qed

text \<open>
  C27. After \<open>cxl_init\<close> with a percentage \<open>p\<close> strictly between 0 and 100, the number of CXL
  allocations among the first \<open>n\<close> never differs from \<open>p * n / 100\<close> by more than one allocation:
  the two bounds below are \<open>c - n * p / 100 \<le> (100 - p) / 100\<close> and
  \<open>n * p / 100 - c \<le> p / 100\<close>. (\<open>n\<close> is below \<open>2 ^ 56\<close>, so that no ticket overflows.)
\<close>

theorem stride_keeps_ratio:
  assumes "0 < p" and "p < 100" and "percentage_on_cxl s = p"
    and "local_ticket s = 0" and "cxl_ticket s = 0" and "n < 2 ^ 56"
  defines "c \<equiv> count_list (fst (schedule n (init_strides s))) CXL_DEV"
  shows "int n * p - p \<le> 100 * int c \<and> 100 * int c \<le> int n * p + (100 - p)"
proof -
  obtain a b g where ab: "0 < a" "0 < b" "0 < g"
    "cxl_stride (init_strides s) = int a" "local_stride (init_strides s) = int b"
    "100 - p = int (g * a)" "p = int (g * b)"
    using init_strides_ratio [OF assms(1-3)] .
  have t: "local_ticket (init_strides s) = 0" "cxl_ticket (init_strides s) = 0"
    using assms(4,5) by (simp_all add: init_strides_def Let_def)
  have i0: "sched_inv a b 0 0 (init_strides s)"
    using ab t by (simp add: sched_inv_def)
  have "int (g * a) + int (g * b) = 100" using ab by simp
  then have sum: "g * a + g * b = 100" by linarith
  then have "a + b \<le> 100" using ab(3)
    by (metis add_mult_distrib2 mult_le_mono1 nat_mult_1 Suc_leI One_nat_def)
  then have "(a + b) * (n + 1) < 100 * 2 ^ 57"
    using assms(6) by (intro le_less_trans [OF mult_le_mono1 mult_less_mono2]) simp_all
  then have "a * (0 + n) + b * (0 + n) + a + b < 2 ^ 64"
    by (simp add: algebra_simps)
  from schedule_inv [OF i0 this]
  have inv: "c \<le> n" "a * c \<le> b * (n - c) + a" "b * (n - c) \<le> a * c + b"
    by (simp_all add: sched_inv_def c_def)
  have "g * a * c \<le> g * b * (n - c) + g * a" "g * b * (n - c) \<le> g * a * c + g * b"
    using mult_le_mono2 [OF inv(2), of g] mult_le_mono2 [OF inv(3), of g]
    by (simp_all add: algebra_simps)
  then have "int (g * a) * int c \<le> int (g * b) * (int n - int c) + int (g * a)"
    "int (g * b) * (int n - int c) \<le> int (g * a) * int c + int (g * b)"
    using inv(1) by (simp_all flip: of_nat_mult of_nat_add of_nat_diff)
  then show ?thesis
    unfolding ab(6,7) [symmetric] by (simp add: algebra_simps)
qed

text \<open>A machine that has just called \<open>cxl_init\<close> for 80 percent, and its first five allocations.\<close>

definition demo_cxl :: cxl_state where
  "demo_cxl = (cxl_boot [0x1000, 0x2000] [0x90000, 0])\<lparr>cxl_kind := True, percentage_on_cxl := 80\<rparr>"

lemma stride_keeps_ratio_witness:
  "(0::int) < 80 \<and> 80 < (100::int) \<and>
   int 5 * 80 - 80 \<le> 100 * int (count_list (fst (schedule 5 (init_strides demo_cxl))) CXL_DEV) \<and>
   100 * int (count_list (fst (schedule 5 (init_strides demo_cxl))) CXL_DEV) \<le> int 5 * 80 + (100 - 80)"
  using stride_keeps_ratio [of 80 demo_cxl 5] by (simp add: demo_cxl_def cxl_boot_def)

section \<open>Falling back to the other memory\<close>

lemma malloc_with_cxl_cases:
  assumes "cxl_kind s"
  shows "malloc_with_cxl s =
    (let (dev, s1) = stride_scheduler s;
         m = (case cxl_next s of [] \<Rightarrow> 0 | a # _ \<Rightarrow> a); l = (case local_next s of [] \<Rightarrow> 0 | a # _ \<Rightarrow> a);
         sm = s1\<lparr>cxl_next := tl (cxl_next s)\<rparr>; sl = s1\<lparr>local_next := tl (local_next s)\<rparr>;
         sb = s1\<lparr>cxl_next := tl (cxl_next s), local_next := tl (local_next s)\<rparr>
     in if dev = CXL_DEV then (if m \<noteq> 0 then Inr (m, sm) else Inr (l, sb))
        else (if l \<noteq> 0 then Inr (l, sl) else Inr (m, sb)))"
  using assms
  by (cases "cxl_next s"; cases "local_next s")
    (auto simp: malloc_with_cxl_def Let_def stride_scheduler_def memkind_alloc_def libc_alloc_def
      split: device_type.splits prod.splits)

definition next_answer :: "u64 list \<Rightarrow> u64" where
  "next_answer xs = (case xs of [] \<Rightarrow> 0 | a # _ \<Rightarrow> a)"

text \<open>
  C28. Once CXL is initialised, \<open>malloc_with_cxl\<close> never crashes, and it returns NULL exactly when
  both memories are exhausted, whichever of them the stride scheduler prefers.
\<close>

theorem malloc_with_cxl_null_iff:
  assumes "cxl_kind s"
  shows "\<exists>r s'. malloc_with_cxl s = Inr (r, s') \<and>
    (r = 0 \<longleftrightarrow> next_answer (cxl_next s) = 0 \<and> next_answer (local_next s) = 0)"
  by (auto simp: malloc_with_cxl_cases [OF assms] Let_def next_answer_def split: prod.splits)

lemma malloc_with_cxl_null_iff_witness:
  "cxl_kind demo_cxl \<and> (\<exists>r s'. malloc_with_cxl demo_cxl = Inr (r, s') \<and>
    (r = 0 \<longleftrightarrow> next_answer (cxl_next demo_cxl) = 0 \<and> next_answer (local_next demo_cxl) = 0))"
  using malloc_with_cxl_null_iff [of demo_cxl] by (simp add: demo_cxl_def)

text \<open>
  Before the initialisation a failing \<open>malloc\<close> is not reported: the retry passes the null
  kind to memkind, while \<open>malloc_with_cxl\<close> is documented to return NULL if allocation fails.
\<close>

theorem malloc_before_init_crashes:
  assumes "\<not> cxl_kind s" and "next_answer (local_next s) = 0"
  shows "malloc_with_cxl s = Inl Null_Deref"
  using assms
  by (auto simp: malloc_with_cxl_def memkind_alloc_def libc_alloc_def next_answer_def
      split: list.splits)

lemma malloc_before_init_crashes_witness:
  "\<not> cxl_kind (cxl_boot [] []) \<and> malloc_with_cxl (cxl_boot [] []) = Inl Null_Deref"
  using malloc_before_init_crashes [of "cxl_boot [] []"] by (simp add: cxl_boot_def next_answer_def)

section \<open>Sizes\<close>

text \<open>
  \<open>mmap_on_cxl\<close> rounds a length up to the next multiple of the alignment of the device:
  the result is a multiple, not below the length, and less than one unit above it.
\<close>

theorem mmap_round_up:
  assumes "unat len + 2097152 \<le> 2 ^ 64"
  shows "2097152 dvd unat (mmap_round len) \<and> unat len \<le> unat (mmap_round len) \<and>
    unat (mmap_round len) < unat len + 2097152"
proof -
  let ?k = "(unat len + 2097151) div 2097152"
  have u: "unat (len + CXL_MIN_SIZE - 1) = unat len + 2097151"
    using assms by (simp add: CXL_MIN_SIZE_def unat_word_ariths)
  have k: "?k * 2097152 \<le> unat len + 2097151"
    by (rule div_times_less_eq_dividend)
  have "unat (mmap_round len) = (unat (len + CXL_MIN_SIZE - 1) div 2097152 * 2097152) mod 2 ^ 64"
    by (simp add: mmap_round_def CXL_MIN_SIZE_def unat_word_ariths unat_div)
  also have "\<dots> = ?k * 2097152"
    unfolding u using k assms by (intro mod_less) linarith
  finally have r: "unat (mmap_round len) = ?k * 2097152" .
  have "unat len \<le> ?k * 2097152" "?k * 2097152 < unat len + 2097152"
    by linarith+
  then show ?thesis
    unfolding r by simp
qed

lemma mmap_round_up_witness:
  "unat (3000000 :: u64) + 2097152 \<le> 2 ^ 64 \<and> 2097152 dvd unat (mmap_round 3000000) \<and>
   unat (3000000 :: u64) \<le> unat (mmap_round 3000000) \<and>
   unat (mmap_round 3000000) < unat (3000000 :: u64) + 2097152"
  using mmap_round_up [of 3000000] by simp

text \<open>
  A successful first \<open>cxl_init\<close> maps between the alignment unit and \<open>CXL_MAX_SIZE\<close> bytes,
  whatever was asked for, and clamps the percentage to the range from 0 to 100.
\<close>

theorem cxl_init_clamps:
  assumes "cxl_init wanted percentage fd mapped 0 (cxl_boot ls cs) = Inr s"
  shows "CXL_MIN_SIZE \<le> cxl_current_size s \<and> cxl_current_size s \<le> CXL_MAX_SIZE \<and>
    mmap_end_point s = mmap_start_point s + cxl_current_size s \<and>
    percentage_on_cxl s = max 0 (min 100 percentage) \<and> cxl_kind s"
  using assms
  by (auto simp: cxl_init_def cxl_boot_def init_strides_def Let_def CXL_MIN_SIZE_def CXL_MAX_SIZE_def
      split: if_splits option.splits)

lemma cxl_init_clamps_witness:
  "\<exists>s. cxl_init 5 130 3 (Some 0x100000) 0 (cxl_boot [] []) = Inr s \<and>
    CXL_MIN_SIZE \<le> cxl_current_size s \<and> cxl_current_size s \<le> CXL_MAX_SIZE \<and>
    mmap_end_point s = mmap_start_point s + cxl_current_size s \<and>
    percentage_on_cxl s = max 0 (min 100 130) \<and> cxl_kind s"
proof -
  obtain s where s: "cxl_init 5 130 3 (Some 0x100000) 0 (cxl_boot [] []) = Inr s"
    by (simp add: cxl_init_def cxl_boot_def Let_def)
  show ?thesis
    using s cxl_init_clamps [OF s] by blast
qed

end
