(* ===== verification/Sidle_Policy.thy ===== *)
theory Sidle_Policy
  imports Sidle_Meta
begin

text \<open>
  The policy of SIDLE (\<open>third_party/sidle_utils/sidle_policy.hh\<close>): the thresholds that say down to
  which depth nodes live in local memory and which leaves count as hot or cold, and the strategy
  that accounts for local memory and raises the flags of the background workers. The 8-bit fields
  are 8-bit words, so the code's wrap-arounds are the model's.
\<close>

section \<open>Constants\<close>

definition default_max_local_memory_usage :: u64 where "default_max_local_memory_usage = 32"
definition max_local_depth :: u8 where "max_local_depth = 8"
definition LEAF_DEPTH :: u8 where "LEAF_DEPTH = 8"
definition estimated_child_max_count :: nat where "estimated_child_max_count = 256"
definition estimated_child_min_count :: nat where "estimated_child_min_count = 4"
definition default_upper_watermark :: real where "default_upper_watermark = 95 / 100"
definition default_lower_watermark :: real where "default_lower_watermark = 85 / 100"
definition default_hot_watermark :: u8 where "default_hot_watermark = 5"
definition default_cold_watermark :: u8 where "default_cold_watermark = 80"
definition default_hot_threshold :: u16 where "default_hot_threshold = 128"
definition default_cold_threshold :: u16 where "default_cold_threshold = 4"
definition queue_waiting_threshold :: nat where "queue_waiting_threshold = 10"
definition default_threshold_adjust_times :: nat where "default_threshold_adjust_times = 3"

section \<open>Thresholds\<close>

record sidle_threshold =
  local_allocation_layer_threshold :: u8
  demotion_depth_threshold :: u8
  default_demotion_depth_threshold :: u8
  upper_watermark :: real
  lower_watermark :: real
  hot_watermark :: u8
  original_hot_watermark :: u8
  hot_watermark_upper_bound :: u8
  cold_watermark :: u8
  original_cold_watermark :: u8
  cold_watermark_upper_bound :: u8

definition set_demotion_depth_threshold :: "sidle_threshold \<Rightarrow> sidle_threshold" where
  "set_demotion_depth_threshold t =
     (let l = local_allocation_layer_threshold t;
          d = (if 0 < l then l - 1 else 0)
      in t\<lparr>demotion_depth_threshold := d,
           default_demotion_depth_threshold := (if 1 < d then d - 1 else 0)\<rparr>)"

text \<open>
  The number of layers that fit into local memory, between the layers of a full tree and those
  of a sparse one. \<open>log2\<close> is the real logarithm; \<open>log2(0)\<close> is minus infinity, whose conversion to an
  8-bit integer is undefined in C++.
\<close>

definition get_art_local_allocation_threshold :: "nat \<Rightarrow> u8 res" where
  "get_art_local_allocation_threshold n =
     (if n = 0 then Inl Undefined_Behaviour
      else (let layer_lower_bound = log 2 (real n) / log 2 (real estimated_child_max_count);
                layer_upper_bound = log 2 (real n) / log 2 (real estimated_child_min_count)
            in Inr (to_u8 \<lfloor>(layer_lower_bound + layer_upper_bound) / 2\<rfloor>)))"

definition mt_leaf_width :: nat where "mt_leaf_width = 16"

definition get_masstree_local_allocation_threshold :: "nat \<Rightarrow> u8 res" where
  "get_masstree_local_allocation_threshold n =
     (if n = 0 then Inl Undefined_Behaviour
      else (let layer_lower_bound = log 2 (real n) / log 2 (real mt_leaf_width);
                layer_upper_bound =
                  log 2 (real ((n + 1) div 2)) / log 2 (real (mt_leaf_width div 2)) + 1
            in Inr (to_u8 \<lfloor>(layer_lower_bound + layer_upper_bound) / 2\<rfloor>)))"

text \<open>The member initialisers and the default constructor.\<close>

definition threshold_defaults :: sidle_threshold where
  "threshold_defaults = \<lparr>local_allocation_layer_threshold = max_local_depth,
     demotion_depth_threshold = 0, default_demotion_depth_threshold = 0,
     upper_watermark = default_upper_watermark, lower_watermark = default_lower_watermark,
     hot_watermark = default_hot_watermark, original_hot_watermark = default_hot_watermark,
     hot_watermark_upper_bound = default_hot_watermark + 5,
     cold_watermark = default_cold_watermark, original_cold_watermark = default_cold_watermark,
     cold_watermark_upper_bound = default_cold_watermark + 10\<rparr>"

definition default_threshold :: sidle_threshold where
  "default_threshold = set_demotion_depth_threshold threshold_defaults"

definition make_watermarks :: "int \<Rightarrow> sidle_threshold \<Rightarrow> sidle_threshold" where
  "make_watermarks cxl_percentage t =
     (let hot = to_u8 (c_div (100 - cxl_percentage) 5);
          hot_ub = to_u8 (min (uint hot + uint hot) (100 - cxl_percentage));
          cold = to_u8 (min cxl_percentage (100 - uint hot_ub));
          cold_ub = to_u8 (min (uint cold + uint hot) (100 - uint hot_ub))
      in t\<lparr>hot_watermark := hot, original_hot_watermark := hot, hot_watermark_upper_bound := hot_ub,
           cold_watermark := cold, original_cold_watermark := cold,
           cold_watermark_upper_bound := cold_ub\<rparr>)"

definition make_sidle_threshold :: "nat \<Rightarrow> int \<Rightarrow> bool \<Rightarrow> sidle_threshold res" where
  "make_sidle_threshold max_local_node_count cxl_percentage is_art =
     and_then (if is_art then get_art_local_allocation_threshold max_local_node_count
               else get_masstree_local_allocation_threshold max_local_node_count)
       (\<lambda>l. Inr (make_watermarks cxl_percentage (set_demotion_depth_threshold
               (threshold_defaults\<lparr>local_allocation_layer_threshold := l\<rparr>))))"

definition set_hotness_watermarks :: "u64 \<Rightarrow> sidle_threshold \<Rightarrow> sidle_threshold" where
  "set_hotness_watermarks hot_watermark_lower_bound t =
     (let hot = (ucast hot_watermark_lower_bound :: u8);
          cold = to_u8 (if uint hot + 15 < 100 then 100 - uint hot - 15 else 100 - uint hot)
      in t\<lparr>hot_watermark := hot, original_hot_watermark := hot,
           hot_watermark_upper_bound := hot + 5,
           cold_watermark := cold, original_cold_watermark := cold,
           cold_watermark_upper_bound := cold + 10\<rparr>)"

definition get_allocation_position :: "sidle_threshold \<Rightarrow> u8 \<Rightarrow> node_mem_type" where
  "get_allocation_position t cur_depth =
     (if cur_depth \<le> local_allocation_layer_threshold t then Mem_Local else Mem_Remote)"

definition correct_threshold_with_leaf_depth :: "u8 \<Rightarrow> sidle_threshold \<Rightarrow> sidle_threshold" where
  "correct_threshold_with_leaf_depth leaf_depth t =
     t\<lparr>local_allocation_layer_threshold := min (local_allocation_layer_threshold t) leaf_depth,
       demotion_depth_threshold := min (demotion_depth_threshold t) (leaf_depth - 1)\<rparr>"

definition check_memory_usage :: "sidle_threshold \<Rightarrow> c_double \<Rightarrow> mem_usage_status" where
  "check_memory_usage t local_mem_usage_ratio =
     (if double_gt local_mem_usage_ratio (upper_watermark t) then Usage_Tight
      else if double_lt local_mem_usage_ratio (lower_watermark t) then Usage_Sufficient
      else Usage_Normal)"

definition adjust_local_allocation_threshold :: "bool \<Rightarrow> sidle_threshold \<Rightarrow> sidle_threshold" where
  "adjust_local_allocation_threshold is_shrink t =
     (let l = local_allocation_layer_threshold t
      in t\<lparr>local_allocation_layer_threshold :=
             (if is_shrink then if 1 < l then l - 1 else 1 else min (l + 1) max_local_depth)\<rparr>)"

definition adjust_hotness_watermark :: "bool \<Rightarrow> bool \<Rightarrow> sidle_threshold \<Rightarrow> sidle_threshold" where
  "adjust_hotness_watermark is_restore hotter t =
     (if is_restore
      then t\<lparr>hot_watermark := original_hot_watermark t, cold_watermark := original_cold_watermark t\<rparr>
      else if hotter
      then t\<lparr>hot_watermark := min (hot_watermark t + 1) (hot_watermark_upper_bound t),
             cold_watermark := original_cold_watermark t\<rparr>
      else t\<lparr>hot_watermark := original_hot_watermark t,
             cold_watermark := min (cold_watermark t + 1) (cold_watermark_upper_bound t)\<rparr>)"

definition adjust_demotion_depth_threshold :: "bool \<Rightarrow> sidle_threshold \<Rightarrow> sidle_threshold" where
  "adjust_demotion_depth_threshold is_shrink t =
     (let d = demotion_depth_threshold t
      in t\<lparr>demotion_depth_threshold :=
             (if is_shrink then max (d - 1) (default_demotion_depth_threshold t)
              else if d = LEAF_DEPTH then LEAF_DEPTH else d + 1)\<rparr>)"

section \<open>Strategy\<close>

record sidle_strategy =
  threshold_manager :: sidle_threshold
  max_local_memory_usage :: u64
  cur_local_memory_usage :: i64
  slow_down_in_load :: bool

text \<open>
  The sizes of the node structures of \<open>art_def.hh\<close> on the target ABI: a header of two 8-byte
  words, two pointers and one byte of metadata, then the arrays at their alignment.
\<close>

definition sizeof_art_node4 :: nat where "sizeof_art_node4 = 80"
definition sizeof_art_node16 :: nat where "sizeof_art_node16 = 184"
definition sizeof_art_node48 :: nat where "sizeof_art_node48 = 680"
definition sizeof_art_node256 :: nat where "sizeof_art_node256 = 2088"
definition mt_leaf_size :: nat where "mt_leaf_size = 320"
definition mt_internode_size :: nat where "mt_internode_size = 272"

definition strategy_node_count :: "u64 \<Rightarrow> bool \<Rightarrow> nat" where
  "strategy_node_count max_usage is_art =
     (if is_art then unat max_usage div ((sizeof_art_node4 + sizeof_art_node256) div 2)
      else unat max_usage div (mt_leaf_size + mt_internode_size) div 2)"

definition make_sidle_strategy :: "u64 \<Rightarrow> int \<Rightarrow> bool \<Rightarrow> sidle_strategy res" where
  "make_sidle_strategy max_mib cxl_percentage is_art =
     (let max_usage = max_mib * 1024 * 1024
      in and_then (make_sidle_threshold (strategy_node_count max_usage is_art) cxl_percentage is_art)
           (\<lambda>t. Inr \<lparr>threshold_manager = t, max_local_memory_usage = max_usage,
                    cur_local_memory_usage = 0, slow_down_in_load = False\<rparr>))"

definition decide_new_node_position ::
  "sidle_strategy \<Rightarrow> node_mem_type \<Rightarrow> u8 \<Rightarrow> node_mem_type" where
  "decide_new_node_position st parent_type cur_depth =
     (if parent_type = Mem_Remote then Mem_Remote
      else get_allocation_position (threshold_manager st) cur_depth)"

definition memory_usage_ratio :: "sidle_strategy \<Rightarrow> c_double" where
  "memory_usage_ratio st =
     double_div (sint (cur_local_memory_usage st)) (uint (max_local_memory_usage st))"

definition strategy_check_memory_usage :: "sidle_strategy \<Rightarrow> mem_usage_status" where
  "strategy_check_memory_usage st = check_memory_usage (threshold_manager st) (memory_usage_ratio st)"

text \<open>
  The accounting of one allocation or migration. The check throws when the code is compiled
  with checks, that is without \<open>NDEBUG\<close>.
\<close>

definition account_memory ::
  "node_mem_type \<Rightarrow> u8 \<Rightarrow> i64 \<Rightarrow> bool \<Rightarrow> bool \<Rightarrow> sidle_strategy \<Rightarrow> sidle_strategy" where
  "account_memory type cur_depth node_size is_migration is_leaf st =
     (let st1 = (if type = Mem_Local
                 then st\<lparr>cur_local_memory_usage := cur_local_memory_usage st + node_size\<rparr>
                 else if type = Mem_Remote \<and> is_migration
                 then st\<lparr>cur_local_memory_usage := cur_local_memory_usage st - node_size\<rparr>
                 else st)
      in if is_migration \<and> is_leaf \<and> 0 < cur_depth
         then st1\<lparr>threshold_manager :=
                correct_threshold_with_leaf_depth cur_depth (threshold_manager st1)\<rparr>
         else st1)"

definition signal_memory_status ::
  "sidle_strategy \<Rightarrow> worker_base \<Rightarrow> sidle_strategy \<times> worker_base" where
  "signal_memory_status st b =
     (let status = strategy_check_memory_usage st
      in if need_adjust_threshold b \<and> status = Usage_Sufficient
         then (st, b\<lparr>can_demote := False\<rparr>)
         else if status = Usage_Tight
         then (st, b\<lparr>need_adjust_threshold := True\<rparr>)
         else if \<not> is_running b \<and> status = Usage_Normal \<and> \<not> slow_down_in_load st
         then (st\<lparr>slow_down_in_load := True,
                  threshold_manager :=
                    adjust_local_allocation_threshold True (threshold_manager st)\<rparr>, b)
         else (st, b))"

definition update_local_memory_usage ::
  "bool \<Rightarrow> node_mem_type \<Rightarrow> u8 \<Rightarrow> i64 \<Rightarrow> bool \<Rightarrow> bool \<Rightarrow> sidle_strategy \<Rightarrow> worker_base \<Rightarrow>
     (sidle_strategy \<times> worker_base) res" where
  "update_local_memory_usage ndebug type cur_depth node_size is_migration is_leaf st b =
     (let st1 = account_memory type cur_depth node_size is_migration is_leaf st
      in if \<not> ndebug \<and> sint (cur_local_memory_usage st1) < 0
         then Inl (Throw ''[update_local_memory_usage] cur_local_memory_usage < 0'')
         else Inr (signal_memory_status st1 b))"

section \<open>The watermarks stay ordered\<close>

text \<open>
  The updates that reach a threshold manager once it is built: from the start of
  Masstree's workers the setting of the hotness watermarks, from the frontend the correction with the depth of a
  migrated leaf, from the threshold adjuster the three adjustments.
\<close>

datatype threshold_op =
  Correct_With_Leaf_Depth u8 | Adjust_Local_Allocation bool | Adjust_Hotness bool bool
  | Adjust_Demotion_Depth bool | Set_Hotness_Watermarks u64

fun threshold_step :: "sidle_threshold \<Rightarrow> threshold_op \<Rightarrow> sidle_threshold" where
  "threshold_step t (Correct_With_Leaf_Depth d) = correct_threshold_with_leaf_depth d t"
| "threshold_step t (Adjust_Local_Allocation b) = adjust_local_allocation_threshold b t"
| "threshold_step t (Adjust_Hotness r h) = adjust_hotness_watermark r h t"
| "threshold_step t (Adjust_Demotion_Depth b) = adjust_demotion_depth_threshold b t"
| "threshold_step t (Set_Hotness_Watermarks lb) = set_hotness_watermarks lb t"

fun lower_bound_below :: "u64 \<Rightarrow> threshold_op \<Rightarrow> bool" where
  "lower_bound_below m (Set_Hotness_Watermarks lb) \<longleftrightarrow> lb < m"
| "lower_bound_below m _ \<longleftrightarrow> True"

definition watermarks_ok :: "sidle_threshold \<Rightarrow> bool" where
  "watermarks_ok t \<longleftrightarrow>
     original_hot_watermark t \<le> hot_watermark t \<and> hot_watermark t \<le> hot_watermark_upper_bound t \<and>
     original_cold_watermark t \<le> cold_watermark t \<and> cold_watermark t \<le> cold_watermark_upper_bound t \<and>
     uint (hot_watermark_upper_bound t) + uint (cold_watermark_upper_bound t) \<le> 100"

lemma watermarks_ok_sum: "watermarks_ok t \<Longrightarrow> uint (hot_watermark t) + uint (cold_watermark t) \<le> 100"
  by (simp add: watermarks_ok_def word_le_def)

lemma word_incr_le: "x \<le> y \<Longrightarrow> y \<le> 100 \<Longrightarrow> x \<le> min (x + 1) y" for x y :: u8
  by (auto simp: min_def word_le_nat_alt unat_word_ariths)

lemma ok_bounds:
  "watermarks_ok t \<Longrightarrow> hot_watermark_upper_bound t \<le> 100 \<and> cold_watermark_upper_bound t \<le> 100"
  by (simp add: watermarks_ok_def word_le_def) (smt (verit) uint_ge_0)

lemma adjust_hotness_ok: "watermarks_ok t \<Longrightarrow> watermarks_ok (adjust_hotness_watermark r h t)"
  using ok_bounds [of t] word_incr_le [of "hot_watermark t" "hot_watermark_upper_bound t"]
    word_incr_le [of "cold_watermark t" "cold_watermark_upper_bound t"]
  by (auto simp: watermarks_ok_def adjust_hotness_watermark_def)

lemma set_hotness_ok:
  assumes "lb < 85"
  shows "watermarks_ok (set_hotness_watermarks lb t)"
proof -
  define h where "h = uint (ucast lb :: u8)"
  have "h = uint lb" "uint lb < 85" using assms by (simp_all add: h_def word_less_def unsigned_ucast_eq take_bit_int_eq_self)
  then have "0 \<le> h" "h < 85" by simp_all
  moreover from this have "uint (word_of_int h :: u8) = h" by (simp add: uint_word_of_int_eq take_bit_int_eq_self)
  ultimately show ?thesis
    by (simp add: watermarks_ok_def set_hotness_watermarks_def Let_def word_le_def h_def [symmetric] to_u8_def
        uint_word_ariths take_bit_int_eq_self)
qed

lemma threshold_step_ok:
  assumes "watermarks_ok t" and "lower_bound_below 85 x"
  shows "watermarks_ok (threshold_step t x)"
proof (cases x)
  case (Adjust_Hotness r h)
  then show ?thesis by (simp add: adjust_hotness_ok assms(1))
next
  case (Set_Hotness_Watermarks lb)
  then show ?thesis using assms(2) by (simp add: set_hotness_ok)
qed (use assms(1) in \<open>simp_all add: watermarks_ok_def correct_threshold_with_leaf_depth_def
    adjust_local_allocation_threshold_def adjust_demotion_depth_threshold_def Let_def\<close>)

lemma threshold_steps_ok:
  "watermarks_ok t \<Longrightarrow> list_all (lower_bound_below 85) xs \<Longrightarrow> watermarks_ok (foldl threshold_step t xs)"
  by (induction xs arbitrary: t) (simp_all add: threshold_step_ok)

lemma late_bound_passes:
  assumes "85 \<le> lb" and "lb \<le> 100"
  shows "let t' = threshold_step (threshold_step t (Set_Hotness_Watermarks lb)) (Adjust_Hotness False True)
    in uint (hot_watermark t') + uint (cold_watermark t') = 101"
proof -
  define h where "h = uint lb"
  have "uint (ucast lb :: u8) = h" "85 \<le> h" "h \<le> 100"
    using assms by (simp_all add: h_def word_le_def unsigned_ucast_eq take_bit_int_eq_self)
  then show ?thesis
    by (simp add: set_hotness_watermarks_def adjust_hotness_watermark_def Let_def to_u8_def min_def word_le_def
        uint_word_ariths take_bit_int_eq_self uint_word_of_int_eq)
qed

lemma make_watermarks_ok:
  assumes "0 \<le> c" and "c \<le> 100"
  shows "watermarks_ok (make_watermarks c t)"
proof -
  define h where "h = (100 - c) div 5"
  have d: "c_div (100 - c) 5 = h"
    using assms by (simp add: c_div_nonneg h_def)
  have h: "0 \<le> h" "2 * h \<le> 100 - c" "h \<le> 20"
    using assms unfolding h_def by linarith+
  have m: "min (2 * h) (100 - c) = 2 * h" "min c (100 - 2 * h) = c"
    using h by simp_all
  have u: "uint (to_u8 h) = h" "uint (to_u8 (2 * h)) = 2 * h" "uint (to_u8 c) = c"
    "uint (to_u8 (min (c + h) (100 - 2 * h))) = min (c + h) (100 - 2 * h)"
    using h assms by (subst uint_to_u8; simp)+
  show ?thesis
    using h assms by (simp add: watermarks_ok_def make_watermarks_def Let_def d u m word_le_def)
qed

text \<open>
  C29. A threshold manager built for a CXL percentage between 0 and 100 keeps its watermarks in order
  through every sequence of updates by the start of Masstree's workers, the frontend and the adjuster in
  which each lower bound given for the hot watermark is below 85 percent: hot and cold stay between
  their original values and their bounds, and together they never pass 100 percent. The bound is
  sharp: a lower bound from 85 to 100 percent, which the configuration admits, followed by one raise
  of the hot watermark makes 101 percent.
\<close>

theorem watermarks_stay_ordered:
  assumes "0 \<le> c" and "c \<le> 100" and "make_sidle_threshold n c is_art = Inr t"
  shows "(list_all (lower_bound_below 85) ops \<longrightarrow>
      watermarks_ok (foldl threshold_step t ops) \<and>
      uint (hot_watermark (foldl threshold_step t ops)) +
      uint (cold_watermark (foldl threshold_step t ops)) \<le> 100) \<and>
    (85 \<le> lb \<and> lb \<le> 100 \<longrightarrow>
      (let t' = threshold_step (threshold_step t (Set_Hotness_Watermarks lb)) (Adjust_Hotness False True)
       in uint (hot_watermark t') + uint (cold_watermark t') = 101))"
proof -
  have "watermarks_ok t"
    using assms by (auto simp: make_sidle_threshold_def and_then_Inr_iff make_watermarks_ok)
  then have "list_all (lower_bound_below 85) ops \<longrightarrow> watermarks_ok (foldl threshold_step t ops)"
    using threshold_steps_ok by blast
  then show ?thesis
    using watermarks_ok_sum late_bound_passes by blast
qed

section \<open>The first threshold\<close>

lemma floor_log_power:
  assumes "0 < n"
  shows "2 ^ (16 * nat \<lfloor>5 * log 2 (real n) / 16\<rfloor>) \<le> n ^ 5 \<and>
    n ^ 5 < 2 ^ (16 * (nat \<lfloor>5 * log 2 (real n) / 16\<rfloor> + 1))"
proof -
  define k where "k = nat \<lfloor>5 * log 2 (real n) / 16\<rfloor>"
  have "0 \<le> log 2 (real n)" using assms by simp
  then have k: "real k \<le> 5 * log 2 (real n) / 16" "5 * log 2 (real n) / 16 < real k + 1"
    unfolding k_def by linarith+
  have l: "5 * log 2 (real n) = log 2 (real (n ^ 5))"
    using assms by (simp add: log_nat_power)
  have "real (16 * k) \<le> log 2 (real (n ^ 5))" "log 2 (real (n ^ 5)) < real (16 * (k + 1))"
    using k l by (simp_all add: field_simps)
  then have "2 powr real (16 * k) \<le> real (n ^ 5)" "real (n ^ 5) < 2 powr real (16 * (k + 1))"
    using assms by (simp_all only: le_log_iff log_less_iff one_less_numeral_iff semiring_norm
        of_nat_0_less_iff zero_less_power)
  then have "real (2 ^ (16 * k)) \<le> real (n ^ 5)" "real (n ^ 5) < real (2 ^ (16 * (k + 1)))"
    by (simp_all only: powr_realpow zero_less_numeral of_nat_power of_nat_numeral)
  then show ?thesis
    unfolding k_def [symmetric] by (simp only: of_nat_le_iff of_nat_less_iff)
qed

lemma layers_of_nodes:
  assumes "0 < n" and "n < 2 ^ 64"
  shows "\<exists>w. get_art_local_allocation_threshold n = Inr w \<and>
    2 ^ (16 * unat w) \<le> n ^ 5 \<and> n ^ 5 < 2 ^ (16 * (unat w + 1))"
proof -
  define k where "k = nat \<lfloor>5 * log 2 (real n) / 16\<rfloor>"
  have le: "2 ^ (16 * k) \<le> n ^ 5" and lt: "n ^ 5 < 2 ^ (16 * (k + 1))"
    using floor_log_power [OF assms(1)] unfolding k_def by blast+
  have "n ^ 5 < (2 ^ 64) ^ 5"
    using assms(2) by (intro power_strict_mono) simp_all
  with le have "(2::nat) ^ (16 * k) < 2 ^ 320"
    by (simp only: power_mult [symmetric]) simp
  then have "k < 20"
    by (simp only: power_strict_increasing_iff one_less_numeral_iff semiring_norm)
  have "0 \<le> log 2 (real n)" using assms(1) by simp
  then have fl: "\<lfloor>5 * log 2 (real n) / 16\<rfloor> = int k"
    unfolding k_def by simp
  have logs: "log 2 256 = (8::real)" "log 2 4 = (2::real)"
    using log_pow_cancel [of "2::real" 8] log_pow_cancel [of "2::real" 2] by simp_all
  have "(log 2 (real n) / 8 + log 2 (real n) / 2) / 2 = 5 * log 2 (real n) / 16"
    by (simp add: field_simps)
  then have "get_art_local_allocation_threshold n = Inr (to_u8 (int k))"
    using assms(1) by (simp add: get_art_local_allocation_threshold_def Let_def logs fl
        estimated_child_max_count_def estimated_child_min_count_def)
  moreover have "unat (to_u8 (int k)) = k"
    using \<open>k < 20\<close> by (simp add: to_u8_def unat_of_nat)
  ultimately show ?thesis
    using le lt by auto
qed

text \<open>
  The layers an ART of \<open>n\<close> nodes may fill in local memory: the threshold is the \<open>k\<close> with
  \<open>2 ^ (16 k) \<le> n ^ 5 < 2 ^ (16 (k + 1))\<close>, the mean of \<open>log n / log 256\<close> and \<open>log n / log 4\<close>
  rounded down, without any loss in the 8-bit result for every 64-bit \<open>n\<close>.
\<close>

theorem art_local_allocation_threshold:
  assumes "0 < n" and "n < 2 ^ 64"
  shows "\<exists>w. get_art_local_allocation_threshold n = Inr w \<and>
    2 ^ (16 * unat w) \<le> n ^ 5 \<and> n ^ 5 < 2 ^ (16 * (unat w + 1))"
  using layers_of_nodes [OF assms] .

lemma art_local_allocation_threshold_witness:
  "\<exists>w. get_art_local_allocation_threshold 106402 = Inr w \<and>
    2 ^ (16 * unat w) \<le> (106402::nat) ^ 5 \<and> (106402::nat) ^ 5 < 2 ^ (16 * (unat w + 1))"
  using art_local_allocation_threshold [of 106402] by simp

lemma make_threshold_ok: "0 < n \<Longrightarrow> \<exists>t. make_sidle_threshold n c True = Inr t"
  by (simp add: make_sidle_threshold_def get_art_local_allocation_threshold_def Let_def)

definition sample_updates :: "threshold_op list" where
  "sample_updates = [Set_Hotness_Watermarks 10, Adjust_Hotness False True, Adjust_Demotion_Depth True,
     Adjust_Hotness False False]"

lemma watermarks_stay_ordered_witness:
  "\<exists>t. make_sidle_threshold 106402 80 True = Inr t \<and>
    watermarks_ok (foldl threshold_step t sample_updates) \<and>
    uint (hot_watermark (foldl threshold_step t sample_updates)) +
    uint (cold_watermark (foldl threshold_step t sample_updates)) \<le> 100 \<and>
    (let t' = threshold_step (threshold_step t (Set_Hotness_Watermarks 90)) (Adjust_Hotness False True)
     in uint (hot_watermark t') + uint (cold_watermark t') = 101)"
proof -
  obtain t where t: "make_sidle_threshold 106402 80 True = Inr t"
    using make_threshold_ok [of 106402 80] by auto
  have "list_all (lower_bound_below 85) sample_updates"
    by (simp add: sample_updates_def word_less_nat_alt)
  then show ?thesis
    using watermarks_stay_ordered [OF _ _ t, where ops = sample_updates and lb = 90] t
    by (auto simp: word_le_nat_alt simp del: threshold_step.simps)
qed

section \<open>The root stays in local memory\<close>

definition root_is_local :: "sidle_threshold \<Rightarrow> bool" where
  "root_is_local t \<longleftrightarrow> get_allocation_position t 1 = Mem_Local"

text \<open>
  The invariant also keeps the 8-bit increment of the threshold from wrapping to zero.
\<close>

definition layers_ok :: "sidle_threshold \<Rightarrow> bool" where
  "layers_ok t \<longleftrightarrow> 1 \<le> local_allocation_layer_threshold t \<and> local_allocation_layer_threshold t < 255"

lemma layers_ok_root: "layers_ok t \<Longrightarrow> root_is_local t"
  by (simp add: layers_ok_def root_is_local_def get_allocation_position_def)

lemma grow_layers: "1 \<le> l \<Longrightarrow> l < 255 \<Longrightarrow> 1 \<le> min (l + 1) 8 \<and> min (l + 1) 8 < 255" for l :: u8
  by (auto simp: min_def word_le_nat_alt word_less_nat_alt unat_word_ariths)

lemma shrink_layers: "l < 255 \<Longrightarrow> 1 < l \<Longrightarrow> 1 \<le> l - 1 \<and> l - 1 < 255" for l :: u8
  by (auto simp: word_le_nat_alt word_less_nat_alt unat_sub)

lemma threshold_step_layers:
  assumes "layers_ok t" and "x \<noteq> Correct_With_Leaf_Depth 0"
  shows "layers_ok (threshold_step t x)"
proof (cases x)
  case (Correct_With_Leaf_Depth d)
  with assms have "1 \<le> d"
    by (simp add: word_le_nat_alt Suc_le_eq unat_gt_0)
  with assms(1) Correct_With_Leaf_Depth show ?thesis
    by (simp add: layers_ok_def correct_threshold_with_leaf_depth_def min_less_iff_disj)
next
  case (Adjust_Local_Allocation b)
  with assms(1) grow_layers shrink_layers show ?thesis
    by (simp add: layers_ok_def adjust_local_allocation_threshold_def Let_def max_local_depth_def)
qed (use assms in \<open>simp_all add: layers_ok_def adjust_hotness_watermark_def set_hotness_watermarks_def
      adjust_demotion_depth_threshold_def Let_def\<close>)

text \<open>
  The root of the tree is always placed in local memory: if the first threshold admits depth 1
  (and is not the 8-bit maximum), no sequence of updates takes that away. The frontend reports
  leaf depths only when they are positive, hence the condition on the updates.
\<close>

theorem root_stays_local:
  assumes "layers_ok t" and "Correct_With_Leaf_Depth 0 \<notin> set ops"
  shows "root_is_local (foldl threshold_step t ops)"
proof -
  have "layers_ok (foldl threshold_step t ops)"
    using assms
  proof (induction ops arbitrary: t)
    case (Cons x ops)
    then have "layers_ok (threshold_step t x)"
      by (intro threshold_step_layers) auto
    with Cons show ?case by simp
  qed simp
  then show ?thesis by (rule layers_ok_root)
qed

lemma root_stays_local_witness:
  "layers_ok default_threshold \<and>
   root_is_local (foldl threshold_step default_threshold
    [Adjust_Local_Allocation True, Correct_With_Leaf_Depth 1, Adjust_Local_Allocation True])"
proof -
  have "layers_ok default_threshold"
    by (simp add: layers_ok_def default_threshold_def threshold_defaults_def
        set_demotion_depth_threshold_def Let_def max_local_depth_def)
  then show ?thesis
    using root_stays_local [of default_threshold "[Adjust_Local_Allocation True,
      Correct_With_Leaf_Depth 1, Adjust_Local_Allocation True]"] by (simp del: foldl.simps)
qed

section \<open>Shrinking the demotion threshold\<close>

text \<open>
  Shrinking the demotion depth threshold lowers it by one but not below its default, and this
  holds exactly when the threshold is positive. At zero the 8-bit subtraction wraps to 255, so
  the threshold that should admit more demotions excludes every depth.
\<close>

theorem shrink_demotion_depth:
  "demotion_depth_threshold (adjust_demotion_depth_threshold True t) =
     (if demotion_depth_threshold t = 0 then 255
      else max (demotion_depth_threshold t - 1) (default_demotion_depth_threshold t))"
proof -
  have "x \<le> 255" for x :: u8
    using unsigned_less [of x, where 'a = nat] by (simp add: word_le_nat_alt)
  then show ?thesis
    by (simp add: adjust_demotion_depth_threshold_def Let_def max_absorb1)
qed

section \<open>The status of local memory\<close>

lemma percent_of:
  assumes "0 < m"
  shows "95 / 100 < real_of_int c / real_of_int m \<longleftrightarrow> 95 * m < 100 * c"
    "real_of_int c / real_of_int m < 85 / 100 \<longleftrightarrow> 100 * c < 85 * m"
proof -
  have m: "0 < real_of_int m" using assms by simp
  have "95 / 100 < real_of_int c / real_of_int m \<longleftrightarrow> real_of_int (95 * m) < real_of_int (100 * c)"
    using m by (simp add: field_simps)
  then show "95 / 100 < real_of_int c / real_of_int m \<longleftrightarrow> 95 * m < 100 * c"
    by (simp only: of_int_less_iff)
  have "real_of_int c / real_of_int m < 85 / 100 \<longleftrightarrow> real_of_int (100 * c) < real_of_int (85 * m)"
    using m by (simp add: field_simps)
  then show "real_of_int c / real_of_int m < 85 / 100 \<longleftrightarrow> 100 * c < 85 * m"
    by (simp only: of_int_less_iff)
qed

text \<open>
  With the default watermarks and a budget that is not zero, local memory is tight above 95
  percent of the budget and has room below 85 percent, in exact integer arithmetic.
\<close>

theorem memory_status_exact:
  assumes "max_local_memory_usage st \<noteq> 0"
    and "upper_watermark (threshold_manager st) = default_upper_watermark"
    and "lower_watermark (threshold_manager st) = default_lower_watermark"
  shows "strategy_check_memory_usage st =
    (if 95 * uint (max_local_memory_usage st) < 100 * sint (cur_local_memory_usage st) then Usage_Tight
     else if 100 * sint (cur_local_memory_usage st) < 85 * uint (max_local_memory_usage st)
     then Usage_Sufficient else Usage_Normal)"
proof -
  let ?c = "sint (cur_local_memory_usage st)" and ?m = "uint (max_local_memory_usage st)"
  have m: "0 < ?m"
    using assms(1) by (metis order_le_less uint_ge_0 uint_0_iff)
  have d: "double_div ?c ?m = Finite (real_of_int ?c / real_of_int ?m)"
    using m by (simp add: double_div_def del: of_int_sint of_int_uint)
  show ?thesis
    by (simp only: strategy_check_memory_usage_def check_memory_usage_def memory_usage_ratio_def d
        assms(2,3) default_upper_watermark_def default_lower_watermark_def
        double_gt.simps double_lt.simps percent_of [OF m])
qed

lemma memory_status_exact_witness:
  "\<exists>st. max_local_memory_usage st \<noteq> 0 \<and>
    upper_watermark (threshold_manager st) = default_upper_watermark \<and>
    lower_watermark (threshold_manager st) = default_lower_watermark \<and>
    strategy_check_memory_usage st =
    (if 95 * uint (max_local_memory_usage st) < 100 * sint (cur_local_memory_usage st) then Usage_Tight
     else if 100 * sint (cur_local_memory_usage st) < 85 * uint (max_local_memory_usage st)
     then Usage_Sufficient else Usage_Normal)"
proof -
  let ?st = "\<lparr>threshold_manager = default_threshold, max_local_memory_usage = 100,
    cur_local_memory_usage = 96, slow_down_in_load = False\<rparr>"
  show ?thesis
    by (intro exI [of _ ?st] conjI memory_status_exact)
      (simp_all add: default_threshold_def threshold_defaults_def set_demotion_depth_threshold_def
        Let_def)
qed

end
