(* ===== verification/Art_Heap.thy ===== *)
theory Art_Heap
  imports Art_Version Sidle_Policy Cxl_Allocator
begin

text \<open>
  The structures of the adaptive radix tree (\<open>third_party/art/art_def.hh\<close>) and the state its
  operations run on: the inner nodes and the leaves by address, the root pointer, the allocator, and
  the strategy manager and worker flags that allocation updates. A pointer is a 64-bit address; bit 0
  marks a leaf. The four node layouts share one record, whose arrays have the lengths of the layout
  that was allocated; memory that the code leaves uninitialised reads as the word \<open>junk\<close>, which
  is arbitrary.
\<close>

section \<open>Structures\<close>

record art_node =
  version :: u64
  prefix :: "u8 list"
  new_node :: u64
  parent :: u64
  sidle_meta :: node_metadata
  key :: "u8 list"
  index :: "u8 list"
  child :: "u64 list"

record leaf_node =
  key_length :: u8
  leaf_meta :: leaf_metadata
  leaf_key :: "u8 list"

definition sizeof_leaf_node :: nat where "sizeof_leaf_node = 4"

definition is_leaf :: "u64 \<Rightarrow> bool" where
  "is_leaf ptr \<longleftrightarrow> ptr AND 1 \<noteq> 0"

definition make_leaf :: "u64 \<Rightarrow> u64" where
  "make_leaf ptr = (ptr - 1) OR 1"

definition get_leaf :: "u64 \<Rightarrow> u64" where
  "get_leaf ptr = ptr AND NOT 1"

text \<open>
  \<open>get_leaf_len\<close> reads the length byte through \<open>char *\<close>, so a length above 127 is sign-extended
  to a huge \<open>size_t\<close>.
\<close>

definition get_leaf_len :: "leaf_node \<Rightarrow> nat" where
  "get_leaf_len l = unat (scast (key_length l) :: u64)"

lemma is_leaf_odd: "is_leaf p \<longleftrightarrow> odd p"
  by (simp add: is_leaf_def and_one_eq odd_iff_mod_2_eq_one)

text \<open>The leaf pointer of a node at an even address \<open>a\<close> is built from \<open>a + 1\<close>.\<close>

lemma make_leaf_even: "even a \<Longrightarrow> make_leaf (a + 1) = a + 1"
  by (simp add: make_leaf_def or_one_eq even_iff_mod_2_eq_zero)

lemma tagged_leaf:
  assumes "even a"
  shows "is_leaf (make_leaf (a + 1))" "get_leaf (make_leaf (a + 1)) = a" "make_leaf (a + 1) \<noteq> 0"
proof -
  have o: "odd (a + 1)" using assms by simp
  show "is_leaf (make_leaf (a + 1))"
    using o by (simp add: make_leaf_even [OF assms] is_leaf_odd)
  have "a + 1 = a OR 1"
    using assms by (simp add: or_one_eq even_iff_mod_2_eq_zero)
  then have "(a + 1) AND NOT 1 = a"
    using assms by (auto intro!: bit_word_eqI simp: bit_simps bit_1_iff bit_0)
  then show "get_leaf (make_leaf (a + 1)) = a"
    by (simp add: make_leaf_even [OF assms] get_leaf_def)
  show "make_leaf (a + 1) \<noteq> 0"
    using o by (metis make_leaf_even [OF assms] even_zero)
qed

lemma not_leaf_even: "even a \<Longrightarrow> \<not> is_leaf a"
  by (simp add: is_leaf_odd)

lemma not_leaf_0 [simp]: "\<not> is_leaf 0"
  by (simp add: is_leaf_def)

section \<open>State\<close>

record art_heap =
  nodes :: "u64 \<rightharpoonup> art_node"
  leaves :: "u64 \<rightharpoonup> leaf_node"
  art_root :: u64
  cxl :: cxl_state
  strategy_manager :: sidle_strategy
  base :: worker_base
  ndebug :: bool
  junk :: u64

definition load_node :: "u64 \<Rightarrow> art_heap \<Rightarrow> art_node res" where
  "load_node a h = (case nodes h a of None \<Rightarrow> Inl Null_Deref | Some n \<Rightarrow> Inr n)"

definition load_leaf :: "u64 \<Rightarrow> art_heap \<Rightarrow> leaf_node res" where
  "load_leaf a h = (case leaves h a of None \<Rightarrow> Inl Null_Deref | Some l \<Rightarrow> Inr l)"

definition store_node :: "u64 \<Rightarrow> art_node \<Rightarrow> art_heap \<Rightarrow> art_heap" where
  "store_node a n h = h\<lparr>nodes := (nodes h)(a \<mapsto> n)\<rparr>"

definition store_leaf :: "u64 \<Rightarrow> leaf_node \<Rightarrow> art_heap \<Rightarrow> art_heap" where
  "store_leaf a l h = h\<lparr>leaves := (leaves h)(a \<mapsto> l)\<rparr>"

definition modify_node :: "u64 \<Rightarrow> (art_node \<Rightarrow> art_node) \<Rightarrow> art_heap \<Rightarrow> art_heap res" where
  "modify_node a f h = and_then (load_node a h) (\<lambda>n. Inr (store_node a (f n) h))"

definition modify_leaf :: "u64 \<Rightarrow> (leaf_node \<Rightarrow> leaf_node) \<Rightarrow> art_heap \<Rightarrow> art_heap res" where
  "modify_leaf a f h = and_then (load_leaf a h) (\<lambda>l. Inr (store_leaf a (f l) h))"

lemma load_node_Inr [simp]: "load_node a h = Inr n \<longleftrightarrow> nodes h a = Some n"
  by (simp add: load_node_def split: option.splits)

lemma load_leaf_Inr [simp]: "load_leaf a h = Inr l \<longleftrightarrow> leaves h a = Some l"
  by (simp add: load_leaf_def split: option.splits)

lemma load_node_simp: "nodes h a = Some n \<Longrightarrow> load_node a h = Inr n"
  by simp

lemma modify_node_simp: "nodes h a = Some n \<Longrightarrow> modify_node a f h = Inr (store_node a (f n) h)"
  by (simp add: modify_node_def load_node_simp)

lemma modify_leaf_simp: "leaves h a = Some l \<Longrightarrow> modify_leaf a f h = Inr (store_leaf a (f l) h)"
  by (simp add: modify_leaf_def load_leaf_def)

lemma store_node_simps [simp]:
  "nodes (store_node a n h) = (nodes h)(a \<mapsto> n)" "leaves (store_node a n h) = leaves h"
  "art_root (store_node a n h) = art_root h" "cxl (store_node a n h) = cxl h"
  "strategy_manager (store_node a n h) = strategy_manager h" "base (store_node a n h) = base h"
  "ndebug (store_node a n h) = ndebug h" "junk (store_node a n h) = junk h"
  by (simp_all add: store_node_def)

lemma store_leaf_simps [simp]:
  "leaves (store_leaf a l h) = (leaves h)(a \<mapsto> l)" "nodes (store_leaf a l h) = nodes h"
  "art_root (store_leaf a l h) = art_root h" "cxl (store_leaf a l h) = cxl h"
  "strategy_manager (store_leaf a l h) = strategy_manager h" "base (store_leaf a l h) = base h"
  "ndebug (store_leaf a l h) = ndebug h" "junk (store_leaf a l h) = junk h"
  by (simp_all add: store_leaf_def)

text \<open>
  \<open>assert\<close> of the C library: with \<open>NDEBUG\<close> the macro drops its argument, side effects included.
\<close>

definition assert_eff :: "(art_heap \<Rightarrow> (bool \<times> art_heap) res) \<Rightarrow> art_heap \<Rightarrow> art_heap res" where
  "assert_eff f h =
     (if ndebug h then Inr h
      else and_then (f h) (\<lambda>(ok, h'). if ok then Inr h' else Inl Assert_Failed))"

end
