(* ===== verification/Sidle_Frontend.thy ===== *)
theory Sidle_Frontend
  imports Art_Heap
begin

text \<open>
  The frontend calls of SIDLE (\<open>third_party/sidle_utils/sidle_frontend.hh\<close>): where a new node goes,
  what its allocation does to the account of local memory, and the access counter of a leaf.
\<close>

text \<open>
  \<open>sidle_alloc\<close> takes the metadata of the parent (None for a null parent) and returns the address
  with the type and the depth it writes into the metadata of the new node; a null address is followed
  by that write.
\<close>

definition sidle_alloc ::
  "nat \<Rightarrow> node_metadata option \<Rightarrow> node_mem_type \<Rightarrow> bool \<Rightarrow> bool \<Rightarrow> nat \<Rightarrow> art_heap \<Rightarrow>
     (u64 \<times> node_mem_type \<times> u8 \<times> art_heap) res" where
  "sidle_alloc sz par target_type is_migration leaf_alloc old_size h =
     (let cur_depth = (case par of None \<Rightarrow> 1 | Some p \<Rightarrow> to_u8 (uint (md_depth p) + 1));
          parent_type = (case par of None \<Rightarrow> Mem_Unknown | Some p \<Rightarrow> md_type p);
          new_node_type = (if target_type = Mem_Unknown
            then decide_new_node_position (strategy_manager h) parent_type cur_depth
            else target_type)
      in and_then
          (if new_node_type = Mem_Remote
           then and_then (malloc_on_cxl (cxl h)) (\<lambda>(ok, an, c). Inr (an, c))
           else Inr (libc_alloc (cxl h)))
          (\<lambda>(an, c).
             if an = 0 then Inl Null_Deref
             else if new_node_type = Mem_Local \<or> is_migration
             then and_then
               (update_local_memory_usage (ndebug h) new_node_type
                 (if leaf_alloc then cur_depth else LEAF_DEPTH)
                 (of_nat sz - of_nat old_size) is_migration leaf_alloc (strategy_manager h) (base h))
               (\<lambda>(st, b). Inr (an, new_node_type, cur_depth,
                             h\<lparr>cxl := c, strategy_manager := st, base := b\<rparr>))
             else Inr (an, new_node_type, cur_depth, h\<lparr>cxl := c\<rparr>)))"

text \<open>
  \<open>sidle_free\<close> of an inner node: the account is updated with the type, the depth and the size of the
  node, then the memory is given back.
\<close>

definition sidle_free :: "u64 \<Rightarrow> nat \<Rightarrow> art_heap \<Rightarrow> art_heap res" where
  "sidle_free an sz h =
     and_then (load_node an h) (\<lambda>n.
     and_then (update_local_memory_usage (ndebug h) (md_type (sidle_meta n))
                (ucast (md_depth (sidle_meta n))) (of_nat sz) False False
                (strategy_manager h) (base h)) (\<lambda>(st, b).
     Inr (h\<lparr>nodes := (nodes h)(an := None), strategy_manager := st, base := b\<rparr>)))"

definition bump_access :: "leaf_node \<Rightarrow> leaf_node" where
  "bump_access l = l\<lparr>leaf_meta := (leaf_meta l)\<lparr>access_time := access_time (leaf_meta l) + 1\<rparr>\<rparr>"

definition update_access :: "u64 \<Rightarrow> art_heap \<Rightarrow> art_heap res" where
  "update_access leaf h =
     (if leaf = 0 \<and> \<not> ndebug h
      then Inl (Throw ''[DEBUG] [update_access] the leaf node shouldnt be nullptr'')
      else modify_leaf leaf bump_access h)"

end
