(* ===== verification/Art_Node.thy ===== *)
theory Art_Node
  imports Sidle_Frontend
begin

text \<open>
  The operations on one node of the adaptive radix tree (\<open>third_party/art/art_node.cc\<close>), run by one
  thread: allocation of the four layouts, child lookup (with the SIMD search of the 16-child
  layout), growth to the next layout, insertion of a child, compressed prefixes, the lock bits of the
  version word and the three structural updates of the tree. A slot is the place of a child pointer
  in the array of a node. A loop that waits for another thread is the error \<open>Spin\<close>. The checks
  \<open>debug_assert_art\<close> are off unless \<open>Debug\<close> is defined, and they have no model.
\<close>

section \<open>Allocation\<close>

text \<open>The lengths of the arrays \<open>key\<close>, \<open>index\<close> and \<open>child\<close> in a node of a given size.\<close>

definition node_arrays :: "nat \<Rightarrow> nat \<times> nat \<times> nat" where
  "node_arrays sz =
     (if sz = sizeof_art_node4 then (4, 0, 4)
      else if sz = sizeof_art_node16 then (16, 0, 16)
      else if sz = sizeof_art_node48 then (0, 256, 48)
      else if sz = sizeof_art_node256 then (0, 0, 256)
      else (0, 0, 0))"

definition parent_meta :: "u64 \<Rightarrow> art_heap \<Rightarrow> node_metadata option res" where
  "parent_meta p h =
     (if p = 0 then Inr None else and_then (load_node p h) (\<lambda>n. Inr (Some (sidle_meta n))))"

definition raw_node :: "nat \<Rightarrow> node_mem_type \<Rightarrow> u8 \<Rightarrow> u64 \<Rightarrow> art_node" where
  "raw_node sz ty d junk_word =
     (case node_arrays sz of (k, i, c) \<Rightarrow>
        \<lparr>version = 0, prefix = replicate 8 (ucast junk_word), new_node = 0, parent = 0,
         sidle_meta = make_node_metadata ty d, key = replicate k (ucast junk_word),
         index = replicate i (ucast junk_word), child = replicate c junk_word\<rparr>)"

definition new_sized_node ::
  "nat \<Rightarrow> u64 \<Rightarrow> nat \<Rightarrow> node_mem_type \<Rightarrow> bool \<Rightarrow> art_heap \<Rightarrow> (u64 \<times> art_heap) res" where
  "new_sized_node sz par old_size target_type is_migration h =
     and_then (parent_meta par h) (\<lambda>pm.
     and_then (sidle_alloc sz pm target_type is_migration False old_size h) (\<lambda>(an, ty, d, h1).
     Inr (an, store_node an (raw_node sz ty d (junk h)) h1)))"

definition new_art_node4 :: "u64 \<Rightarrow> nat \<Rightarrow> art_heap \<Rightarrow> (u64 \<times> art_heap) res" where
  "new_art_node4 par old_size h =
     and_then (new_sized_node sizeof_art_node4 par old_size Mem_Unknown False h) (\<lambda>(an, h1).
     and_then (modify_node an (\<lambda>n. n\<lparr>version := set_type (version n) node4\<rparr>) h1) (\<lambda>h2.
     Inr (an, h2)))"

definition new_art_node16 :: "u64 \<Rightarrow> nat \<Rightarrow> art_heap \<Rightarrow> (u64 \<times> art_heap) res" where
  "new_art_node16 par old_size h =
     and_then (new_sized_node sizeof_art_node16 par old_size Mem_Unknown False h) (\<lambda>(an, h1).
     and_then (modify_node an (\<lambda>n. n\<lparr>version := set_type (version n) node16\<rparr>) h1) (\<lambda>h2.
     Inr (an, h2)))"

definition new_art_node48 :: "u64 \<Rightarrow> nat \<Rightarrow> art_heap \<Rightarrow> (u64 \<times> art_heap) res" where
  "new_art_node48 par old_size h =
     and_then (new_sized_node sizeof_art_node48 par old_size Mem_Unknown False h) (\<lambda>(an, h1).
     and_then (modify_node an (\<lambda>n. n\<lparr>version := set_type (version n) node48,
                                       index := replicate 256 0\<rparr>) h1) (\<lambda>h2.
     Inr (an, h2)))"

definition new_art_node256 :: "u64 \<Rightarrow> nat \<Rightarrow> art_heap \<Rightarrow> (u64 \<times> art_heap) res" where
  "new_art_node256 par old_size h =
     and_then (new_sized_node sizeof_art_node256 par old_size Mem_Unknown False h) (\<lambda>(an, h1).
     and_then (modify_node an (\<lambda>n. n\<lparr>child := replicate 256 0,
                                       version := set_type (version n) node256\<rparr>) h1) (\<lambda>h2.
     Inr (an, h2)))"

definition new_art_node :: "u64 \<Rightarrow> art_heap \<Rightarrow> (u64 \<times> art_heap) res" where
  "new_art_node par h = new_art_node4 par 0 h"

text \<open>A key is the list of its bytes, and its length is the length of the list.\<close>

definition alloc_leaf ::
  "u64 \<Rightarrow> u8 list \<Rightarrow> node_mem_type \<Rightarrow> bool \<Rightarrow> art_heap \<Rightarrow> (u64 \<times> art_heap) res" where
  "alloc_leaf par k target_type is_migration h =
     and_then (parent_meta par h) (\<lambda>pm.
     and_then (sidle_alloc (sizeof_leaf_node + length k) pm target_type is_migration True 0 h)
       (\<lambda>(a, ty, d, h1).
     Inr (make_leaf (a + 1),
          store_leaf a \<lparr>key_length = of_nat (length k), leaf_meta = make_leaf_metadata ty d 0,
                        leaf_key = k\<rparr> h1)))"

definition art_node_size :: "u64 \<Rightarrow> nat" where
  "art_node_size v =
     (if get_node_type v = node4 then sizeof_art_node4
      else if get_node_type v = node16 then sizeof_art_node16
      else if get_node_type v = node48 then sizeof_art_node48
      else sizeof_art_node256)"

definition free_art_node :: "u64 \<Rightarrow> art_heap \<Rightarrow> art_heap res" where
  "free_art_node an h = and_then (load_node an h) (\<lambda>n. sidle_free an (art_node_size (version n)) h)"

section \<open>Finding a child\<close>

text \<open>The loop of the 4-child layout.\<close>

fun linear_find :: "u8 list \<Rightarrow> u8 \<Rightarrow> nat \<Rightarrow> nat \<Rightarrow> nat option res" where
  "linear_find ks byte i 0 = Inr None"
| "linear_find ks byte i (Suc left) =
     and_then (byte_at ks i) (\<lambda>k. if k = byte then Inr (Some i) else linear_find ks byte (Suc i) left)"

text \<open>
  The 16-child layout compares all bytes at once (\<open>_mm_cmpeq_epi8\<close>), collects the results as the bits
  of a word (\<open>_mm_movemask_epi8\<close>), masks the bits beyond the count and counts trailing zeros.
\<close>

definition cmpeq_epi8 :: "u8 \<Rightarrow> u8 list \<Rightarrow> bool list" where
  "cmpeq_epi8 byte ks = map (\<lambda>k. k = byte) ks"

definition movemask_epi8 :: "bool list \<Rightarrow> u32" where
  "movemask_epi8 bs = horner_sum of_bool 2 bs"

definition ctz :: "u32 \<Rightarrow> nat" where
  "ctz x = length (takeWhile (\<lambda>i. \<not> bit x i) [0..<32])"

definition simd_bitfield :: "u8 list \<Rightarrow> u8 \<Rightarrow> nat \<Rightarrow> u32" where
  "simd_bitfield ks byte count = movemask_epi8 (cmpeq_epi8 byte (take 16 ks)) AND (push_bit count 1 - 1)"

definition find_slot :: "art_node \<Rightarrow> u64 \<Rightarrow> u8 \<Rightarrow> nat option res" where
  "find_slot n v byte =
     (if get_node_type v = node4 then linear_find (key n) byte 0 (get_count v)
      else if get_node_type v = node16 then
        (let bitfield = simd_bitfield (key n) byte (get_count v)
         in Inr (if bitfield \<noteq> 0 then Some (ctz bitfield) else None))
      else if get_node_type v = node48 then
        and_then (byte_at (index n) (unat byte)) (\<lambda>i. Inr (if i \<noteq> 0 then Some (unat i - 1) else None))
      else
        and_then (byte_at (child n) (unat byte)) (\<lambda>c.
        Inr (if c \<noteq> 0 then Some (unat byte) else None)))"

definition art_node_find_child :: "u64 \<Rightarrow> u64 \<Rightarrow> u8 \<Rightarrow> art_heap \<Rightarrow> nat option res" where
  "art_node_find_child an v byte h = and_then (load_node an h) (\<lambda>n. find_slot n v byte)"

section \<open>Versions and locks\<close>

definition art_node_get_version :: "u64 \<Rightarrow> art_heap \<Rightarrow> u64 res" where
  "art_node_get_version an h = and_then (load_node an h) (\<lambda>n. Inr (version n))"

definition art_node_set_version :: "u64 \<Rightarrow> u64 \<Rightarrow> art_heap \<Rightarrow> art_heap res" where
  "art_node_set_version an v h = modify_node an (\<lambda>n. n\<lparr>version := v\<rparr>) h"

definition art_node_set_offset :: "u64 \<Rightarrow> nat \<Rightarrow> art_heap \<Rightarrow> art_heap res" where
  "art_node_set_offset an off h =
     modify_node an (\<lambda>n. n\<lparr>version := set_offset (version n) off\<rparr>) h"

definition art_node_get_parent :: "u64 \<Rightarrow> art_heap \<Rightarrow> u64 res" where
  "art_node_get_parent an h = and_then (load_node an h) (\<lambda>n. Inr (parent n))"

definition art_node_set_new_node :: "u64 \<Rightarrow> u64 \<Rightarrow> art_heap \<Rightarrow> art_heap res" where
  "art_node_set_new_node old new h = modify_node old (\<lambda>n. n\<lparr>new_node := new\<rparr>) h"

definition art_node_version_is_old :: "u64 \<Rightarrow> bool" where
  "art_node_version_is_old v = is_old v"

definition art_node_get_stable_expand_version :: "u64 \<Rightarrow> art_heap \<Rightarrow> u64 res" where
  "art_node_get_stable_expand_version an h =
     and_then (art_node_get_version an h) (\<lambda>v. if is_expanding v then Inl Spin else Inr v)"

text \<open>The result is 0 when the lock is taken and 1 when the node is old.\<close>

definition art_node_lock :: "u64 \<Rightarrow> art_heap \<Rightarrow> (int \<times> art_heap) res" where
  "art_node_lock an h =
     and_then (art_node_get_version an h) (\<lambda>v.
     if is_locked v then Inl Spin
     else if is_old v then Inr (1, h)
     else and_then (art_node_set_version an (set_lock v) h) (\<lambda>h1. Inr (0, h1)))"

definition art_node_unlock :: "u64 \<Rightarrow> art_heap \<Rightarrow> art_heap res" where
  "art_node_unlock an h =
     and_then (art_node_get_version an h) (\<lambda>v.
     let v1 = (if is_expanding v then unset_expand (incr_vexpand v) else v)
     in art_node_set_version an (unset_lock v1) h)"

text \<open>
  The parent is read again after it is locked. An old parent that is still the parent makes the loop
  go on for ever.
\<close>

definition art_node_get_locked_parent :: "u64 \<Rightarrow> art_heap \<Rightarrow> (u64 \<times> art_heap) res" where
  "art_node_get_locked_parent an h =
     and_then (art_node_get_parent an h) (\<lambda>par.
     if par = 0 then Inr (0, h)
     else and_then (art_node_lock par h) (\<lambda>(r, h1). if r \<noteq> 0 then Inl Spin else Inr (par, h1)))"

text \<open>The expression \<open>art_node_lock(new_) == 0\<close> that the code passes to \<open>assert\<close>.\<close>

definition lock_succeeds :: "u64 \<Rightarrow> art_heap \<Rightarrow> (bool \<times> art_heap) res" where
  "lock_succeeds an h = and_then (art_node_lock an h) (\<lambda>(r, h1). Inr (r = 0, h1))"

section \<open>Growing a node\<close>

text \<open>
  An iteration of a growth loop copies one entry and redirects the parent pointer of one inner
  child. The copies are collected in one step here, and \<open>adopt\<close> is the loop of the redirections.
\<close>

fun adopt :: "u64 \<Rightarrow> u64 list \<Rightarrow> art_heap \<Rightarrow> art_heap res" where
  "adopt new [] h = Inr h"
| "adopt new (c # cs) h =
     and_then (if is_leaf c then Inr h else modify_node c (\<lambda>n. n\<lparr>parent := new\<rparr>) h) (adopt new cs)"

definition grow_4_16 :: "art_node \<Rightarrow> art_node \<Rightarrow> art_node" where
  "grow_4_16 an4 an16 =
     an16\<lparr>prefix := prefix an4, parent := parent an4,
          key := take 4 (key an4) @ drop 4 (key an16),
          child := take 4 (child an4) @ drop 4 (child an16),
          version := set_count (set_prefix_len (version an16) (get_prefix_len (version an4))) 4\<rparr>"

fun index_keys :: "u8 list \<Rightarrow> nat \<Rightarrow> u8 list \<Rightarrow> u8 list" where
  "index_keys [] i idx = idx"
| "index_keys (k # ks) i idx = index_keys ks (Suc i) (idx[unat k := of_nat (i + 1)])"

definition grow_16_48 :: "art_node \<Rightarrow> art_node \<Rightarrow> art_node" where
  "grow_16_48 an16 an48 =
     an48\<lparr>prefix := prefix an16, parent := parent an16,
          child := take 16 (child an16) @ drop 16 (child an48),
          index := index_keys (take 16 (key an16)) 0 (index an48),
          version := set_count (set_prefix_len (version an48) (get_prefix_len (version an16))) 16\<rparr>"

definition indexed_child :: "art_node \<Rightarrow> u64 \<Rightarrow> nat \<Rightarrow> u64" where
  "indexed_child an48 old i =
     (let idx = index an48 ! i in if idx \<noteq> 0 then child an48 ! (unat idx - 1) else old)"

definition grow_48_256 :: "art_node \<Rightarrow> art_node \<Rightarrow> art_node" where
  "grow_48_256 an48 an256 =
     an256\<lparr>prefix := prefix an48, parent := parent an48,
           child := map (\<lambda>i. indexed_child an48 (child an256 ! i) i) [0..<256],
           version := set_prefix_len (version an256) (get_prefix_len (version an48))\<rparr>"

definition indexed_children :: "art_node \<Rightarrow> u64 list" where
  "indexed_children an48 =
     map (\<lambda>i. child an48 ! (unat (index an48 ! i) - 1)) (filter (\<lambda>i. index an48 ! i \<noteq> 0) [0..<256])"

definition grow_allocate :: "art_node \<Rightarrow> art_heap \<Rightarrow> (u64 \<times> art_heap) res" where
  "grow_allocate n h =
     (if get_node_type (version n) = node4
      then new_art_node16 (parent n) (sizeof_art_node16 - sizeof_art_node4) h
      else if get_node_type (version n) = node16
      then new_art_node48 (parent n) (sizeof_art_node48 - sizeof_art_node16) h
      else if get_node_type (version n) = node48
      then new_art_node256 (parent n) (sizeof_art_node256 - sizeof_art_node48) h
      else if ndebug h then Inl Undefined_Behaviour else Inl Assert_Failed)"

definition grow_copy :: "art_node \<Rightarrow> art_node \<Rightarrow> art_node" where
  "grow_copy n m =
     (if get_node_type (version n) = node4 then grow_4_16 n m
      else if get_node_type (version n) = node16 then grow_16_48 n m
      else grow_48_256 n m)"

definition grow_children :: "art_node \<Rightarrow> u64 list" where
  "grow_children n =
     (if get_node_type (version n) = node4 then take 4 (child n)
      else if get_node_type (version n) = node16 then take 16 (child n)
      else indexed_children n)"

definition art_node_grow :: "u64 \<Rightarrow> art_heap \<Rightarrow> (u64 \<times> art_heap) res" where
  "art_node_grow an h =
     and_then (load_node an h) (\<lambda>n.
     and_then (grow_allocate n h) (\<lambda>(new, h1).
     and_then (modify_node new (grow_copy n) h1) (\<lambda>h2.
     and_then (adopt new (grow_children n) h2) (\<lambda>h3.
     and_then (assert_eff (lock_succeeds new) h3) (\<lambda>h4.
     and_then (art_node_set_offset new (get_offset (version n)) h4) (\<lambda>h5.
     and_then (art_node_set_new_node an new h5) (\<lambda>h6.
     and_then (art_node_set_version an (set_old (version n)) h6) (\<lambda>h7.
     Inr (new, h7)))))))))"

section \<open>Adding a child\<close>

definition art_node_is_full :: "u64 \<Rightarrow> bool" where
  "art_node_is_full v =
     (if get_node_type v = node4 then get_count v = 4
      else if get_node_type v = node16 then get_count v = 16
      else if get_node_type v = node48 then get_count v = 48
      else False)"

text \<open>The store of the new entry, for each layout.\<close>

definition place_child :: "u8 \<Rightarrow> u64 \<Rightarrow> art_node \<Rightarrow> art_node res" where
  "place_child byte c n =
     (let v = version n; count = get_count v in
      if get_node_type v = node4 \<or> get_node_type v = node16 then
        and_then (write_at (child n) count c) (\<lambda>cs.
        and_then (write_at (key n) count byte) (\<lambda>ks.
        Inr (n\<lparr>child := cs, key := ks, version := incr_count v\<rparr>)))
      else if get_node_type v = node48 then
        (let v1 = incr_count v
         in and_then (write_at (child n) (get_count v1 - 1) c) (\<lambda>cs.
            and_then (write_at (index n) (unat byte) (of_nat (get_count v1))) (\<lambda>idx.
            Inr (n\<lparr>child := cs, index := idx, version := v1\<rparr>))))
      else
        and_then (write_at (child n) (unat byte) c) (\<lambda>cs. Inr (n\<lparr>child := cs\<rparr>)))"

text \<open>
  The caller passes the address of a null pointer variable that receives the grown node, or a null
  pointer (\<open>has_new\<close> False). The result is the slot found (None when the child was added), the
  final value of that variable, and the heap.
\<close>

definition art_node_add_child ::
  "u64 \<Rightarrow> u8 \<Rightarrow> u64 \<Rightarrow> bool \<Rightarrow> art_heap \<Rightarrow> (nat option \<times> u64 \<times> art_heap) res" where
  "art_node_add_child an byte c has_new h =
     and_then (load_node an h) (\<lambda>n.
     and_then (art_node_find_child an (version n) byte h) (\<lambda>next.
     if next \<noteq> None then Inr (next, 0, h)
     else
       and_then
         (if art_node_is_full (version n)
          then if has_new
               then and_then (art_node_grow an h) (\<lambda>(new, h1). Inr (new, new, h1))
               else Inl Null_Deref
          else Inr (0, an, h)) (\<lambda>(new, cur, h1).
       and_then (load_node cur h1) (\<lambda>m.
       and_then (place_child byte c m) (\<lambda>m1.
       and_then (if is_leaf c then Inr (store_node cur m1 h1)
                 else modify_node c (\<lambda>k. k\<lparr>parent := cur\<rparr>) (store_node cur m1 h1)) (\<lambda>h2.
       and_then (if new \<noteq> 0 then art_node_unlock new h2 else Inr h2) (\<lambda>h3.
       Inr (None, new, h3))))))))"

definition add_succeeds :: "u64 \<Rightarrow> u8 \<Rightarrow> u64 \<Rightarrow> art_heap \<Rightarrow> (bool \<times> art_heap) res" where
  "add_succeeds an byte c h =
     and_then (art_node_add_child an byte c False h) (\<lambda>(next, _, h1). Inr (next = None, h1))"

definition add_leaf_succeeds :: "u64 \<Rightarrow> u8 \<Rightarrow> u8 list \<Rightarrow> art_heap \<Rightarrow> (bool \<times> art_heap) res" where
  "add_leaf_succeeds an byte k h =
     and_then (alloc_leaf an k Mem_Remote False h) (\<lambda>(l, h1). add_succeeds an byte l h1)"

section \<open>Prefixes\<close>

text \<open>
  The copy into the 8-byte prefix reads \<open>len\<close> bytes of the key; a longer copy overwrites the
  fields behind the prefix.
\<close>

definition art_node_set_prefix :: "u64 \<Rightarrow> u8 list \<Rightarrow> nat \<Rightarrow> nat \<Rightarrow> art_heap \<Rightarrow> art_heap res" where
  "art_node_set_prefix an k off len h =
     (if length k < off + len then Inl Out_Of_Bounds
      else if 8 < len then Inl Undefined_Behaviour
      else modify_node an (\<lambda>n. n\<lparr>prefix := take len (drop off k) @ drop len (prefix n),
                                  version := set_prefix_len (version n) len\<rparr>) h)"

function prefix_mismatch :: "u8 list \<Rightarrow> u8 list \<Rightarrow> nat \<Rightarrow> nat \<Rightarrow> nat \<Rightarrow> nat res" where
  "prefix_mismatch pre k plen off i =
     (if i < plen \<and> off < length k
      then and_then (byte_at pre i) (\<lambda>x.
             if x \<noteq> k ! off then Inr i else prefix_mismatch pre k plen (off + 1) (i + 1))
      else Inr i)"
  by pat_completeness auto
termination
  by (relation "measure (\<lambda>(pre, k, plen, off, i). plen - i)") auto

declare prefix_mismatch.simps [simp del]

definition art_node_prefix_compare :: "u64 \<Rightarrow> u64 \<Rightarrow> u8 list \<Rightarrow> nat \<Rightarrow> art_heap \<Rightarrow> nat res" where
  "art_node_prefix_compare an v k off h =
     and_then (load_node an h) (\<lambda>n. prefix_mismatch (prefix n) k (get_prefix_len v) off 0)"

function shift_prefix :: "nat \<Rightarrow> nat \<Rightarrow> nat \<Rightarrow> u8 list \<Rightarrow> u8 list res" where
  "shift_prefix i j plen p =
     (if j < plen
      then and_then (byte_at p j) (\<lambda>x. and_then (write_at p i x) (shift_prefix (i + 1) (j + 1) plen))
      else Inr p)"
  by pat_completeness auto
termination
  by (relation "measure (\<lambda>(i, j, plen, p). plen - j)") auto

declare shift_prefix.simps [simp del]

definition art_node_truncate_prefix :: "u64 \<Rightarrow> nat \<Rightarrow> art_heap \<Rightarrow> (u8 \<times> art_heap) res" where
  "art_node_truncate_prefix an off h =
     and_then (art_node_get_version an h) (\<lambda>v0.
     let v = set_expand v0 in
     and_then (art_node_set_version an v h) (\<lambda>h1.
     and_then (load_node an h1) (\<lambda>n.
     and_then (byte_at (prefix n) off) (\<lambda>ret.
     and_then (shift_prefix 0 (off + 1) (get_prefix_len v) (prefix n)) (\<lambda>p.
     let v1 = set_prefix_len v (get_prefix_len v - off - 1);
         v2 = set_offset v1 (off + get_offset v1 + 1)
     in Inr (ret, store_node an (n\<lparr>prefix := p, version := v2\<rparr>) h1))))))"

section \<open>Structural updates\<close>

text \<open>
  The first difference of two keys from \<open>off\<close> on. The length of the key in the leaf is the one that
  \<open>get_leaf_len\<close> reads, which may exceed the bytes that are there.
\<close>

function key_mismatch :: "u8 list \<Rightarrow> nat \<Rightarrow> u8 list \<Rightarrow> nat \<Rightarrow> nat res" where
  "key_mismatch k1 l1 k2 i =
     (if i < l1 \<and> i < length k2
      then and_then (byte_at k1 i) (\<lambda>x. if x = k2 ! i then key_mismatch k1 l1 k2 (i + 1) else Inr i)
      else Inr i)"
  by pat_completeness auto
termination
  by (relation "measure (\<lambda>(k1, l1, k2, i). length k2 - i)") auto

declare key_mismatch.simps [simp del]

definition branch_byte :: "u8 list \<Rightarrow> nat \<Rightarrow> nat \<Rightarrow> u8 res" where
  "branch_byte k len off = (if off = len then Inr 0 else byte_at k off)"

text \<open>\<open>std::max\<close> of a depth and the depth below a node, stored into the six bits of a depth.\<close>

definition deeper :: "node_metadata \<Rightarrow> node_metadata \<Rightarrow> node_metadata" where
  "deeper upper m = m\<lparr>md_depth := ucast (max (ucast (md_depth m) :: u8) (ucast (md_depth upper) + 1))\<rparr>"

definition assert_cond :: "bool \<Rightarrow> art_heap \<Rightarrow> art_heap res" where
  "assert_cond b h = (if \<not> ndebug h \<and> \<not> b then Inl Assert_Failed else Inr h)"

definition art_node_replace_leaf_child ::
  "u64 \<Rightarrow> u64 \<Rightarrow> u8 list \<Rightarrow> nat \<Rightarrow> art_heap \<Rightarrow> (u64 \<times> art_heap) res" where
  "art_node_replace_leaf_child par an k off h =
     and_then (load_leaf (get_leaf an) h) (\<lambda>l.
     let k1 = leaf_key l; l1 = get_leaf_len l; l2 = length k in
     and_then (key_mismatch k1 l1 k off) (\<lambda>i.
     if i = l1 \<and> i = l2 then and_then (update_access (get_leaf an) h) (\<lambda>h1. Inr (0, h1))
     else
       and_then (new_art_node par h) (\<lambda>(new, h1).
       and_then (modify_node new (\<lambda>n. n\<lparr>parent := par\<rparr>) h1) (\<lambda>h2.
       and_then (art_node_set_offset new off h2) (\<lambda>h3.
       and_then (assert_eff (lock_succeeds new) h3) (\<lambda>h4.
       and_then (assert_cond (i - off \<le> 8) h4) (\<lambda>h5.
       and_then (art_node_set_prefix new k1 off (i - off) h5) (\<lambda>h6.
       and_then (branch_byte k1 l1 i) (\<lambda>b1.
       and_then (assert_eff (add_succeeds new b1 an) h6) (\<lambda>h7.
       and_then (branch_byte k l2 i) (\<lambda>b2.
       and_then (assert_eff (add_leaf_succeeds new b2 k) h7) (\<lambda>h8.
       and_then (load_node new h8) (\<lambda>n.
       and_then (modify_leaf (get_leaf an)
           (\<lambda>l. l\<lparr>leaf_meta := (leaf_meta l)\<lparr>metadata := deeper (sidle_meta n) (metadata (leaf_meta l))\<rparr>\<rparr>)
           h8) (\<lambda>h9.
       and_then (art_node_unlock new h9) (\<lambda>h10.
       Inr (new, h10))))))))))))))))"

definition art_node_expand_and_insert ::
  "u64 \<Rightarrow> u64 \<Rightarrow> u8 list \<Rightarrow> nat \<Rightarrow> nat \<Rightarrow> art_heap \<Rightarrow> (u64 \<times> art_heap) res" where
  "art_node_expand_and_insert par an k off common h =
     and_then (new_art_node par h) (\<lambda>(new, h1).
     and_then (modify_node new (\<lambda>n. n\<lparr>parent := par\<rparr>) h1) (\<lambda>h2.
     and_then (art_node_set_offset new off h2) (\<lambda>h3.
     and_then (assert_eff (lock_succeeds new) h3) (\<lambda>h4.
     and_then (art_node_set_prefix new k off common h4) (\<lambda>h5.
     let b1 = (if off + common < length k then k ! (off + common) else 0) in
     and_then (assert_eff (add_leaf_succeeds new b1 k) h5) (\<lambda>h6.
     and_then (art_node_truncate_prefix an common h6) (\<lambda>(b2, h7).
     and_then (assert_eff (add_succeeds new b2 an) h7) (\<lambda>h8.
     and_then (load_node new h8) (\<lambda>n.
     and_then (modify_node an (\<lambda>m. m\<lparr>sidle_meta := deeper (sidle_meta n) (sidle_meta m)\<rparr>) h8) (\<lambda>h9.
     Inr (new, h9)))))))))))"

text \<open>A child pointer of a node, read and written through its slot.\<close>

definition load_slot :: "u64 \<Rightarrow> nat \<Rightarrow> art_heap \<Rightarrow> u64 res" where
  "load_slot an i h = and_then (load_node an h) (\<lambda>n. byte_at (child n) i)"

definition store_slot :: "u64 \<Rightarrow> nat \<Rightarrow> u64 \<Rightarrow> art_heap \<Rightarrow> art_heap res" where
  "store_slot an i c h =
     and_then (load_node an h) (\<lambda>n. and_then (write_at (child n) i c) (\<lambda>cs.
       Inr (store_node an (n\<lparr>child := cs\<rparr>) h)))"

definition art_node_replace_child :: "u64 \<Rightarrow> u8 \<Rightarrow> u64 \<Rightarrow> art_heap \<Rightarrow> art_heap res" where
  "art_node_replace_child par byte new h =
     and_then (art_node_get_version par h) (\<lambda>v.
     and_then (art_node_find_child par v byte h) (\<lambda>slot.
     case slot of
       None \<Rightarrow> Inl Null_Deref
     | Some i \<Rightarrow> and_then (store_slot par i new h) (\<lambda>h1.
         modify_node new (\<lambda>n. n\<lparr>parent := par\<rparr>) h1)))"

section \<open>Visiting the children\<close>

definition visit_order :: "art_node \<Rightarrow> u64 list" where
  "visit_order n =
     (let v = version n in
      if get_node_type v = node4 \<or> get_node_type v = node16 then take (get_count v) (child n)
      else if get_node_type v = node48 then indexed_children n
      else filter (\<lambda>c. c \<noteq> 0) (take 256 (child n)))"

text \<open>The callback returns false to stop early.\<close>

fun visit :: "('s \<Rightarrow> u64 \<Rightarrow> (bool \<times> 's) res) \<Rightarrow> u64 list \<Rightarrow> 's \<Rightarrow> 's res" where
  "visit cb [] s = Inr s"
| "visit cb (c # cs) s = and_then (cb s c) (\<lambda>(go_on, s1). if go_on then visit cb cs s1 else Inr s1)"

definition art_node_traverse ::
  "u64 \<Rightarrow> (art_heap \<Rightarrow> u64 \<Rightarrow> (bool \<times> art_heap) res) \<Rightarrow> art_heap \<Rightarrow> art_heap res" where
  "art_node_traverse an cb h = and_then (load_node an h) (\<lambda>n. visit cb (visit_order n) h)"

end
