(* ===== verification/Art_Tree.thy ===== *)
theory Art_Tree
  imports Art_Node
begin

text \<open>
  The adaptive radix tree (\<open>third_party/art/art.cc\<close>): insertion, lookup and traversal as one thread
  runs them, with every check the code makes against concurrent updates. A jump back to the label
  \<open>begin\<close> is a recursive call with \<open>first\<close> False. The recursion takes fuel; a key of
  \<open>n\<close> bytes needs at most \<open>n + 1\<close> levels.
\<close>

section \<open>Pointers to child pointers\<close>

text \<open>The \<open>art_node **ptr\<close> of the code: the root field, or a slot of a node.\<close>

datatype ptr_place = Root | Child u64 nat

definition load_ptr :: "ptr_place \<Rightarrow> art_heap \<Rightarrow> u64 res" where
  "load_ptr ptr h = (case ptr of Root \<Rightarrow> Inr (art_root h) | Child an i \<Rightarrow> load_slot an i h)"

definition store_ptr :: "ptr_place \<Rightarrow> u64 \<Rightarrow> art_heap \<Rightarrow> art_heap res" where
  "store_ptr ptr c h =
     (case ptr of Root \<Rightarrow> Inr (h\<lparr>art_root := c\<rparr>) | Child an i \<Rightarrow> store_slot an i c h)"

definition art_node_version_compare_expand :: "u64 \<Rightarrow> u64 \<Rightarrow> bool" where
  "art_node_version_compare_expand v1 v2 \<longleftrightarrow>
     is_expanding v1 \<noteq> is_expanding v2 \<or> get_vexpand v1 \<noteq> get_vexpand v2"

section \<open>Insertion\<close>

text \<open>0 on success, 1 when the key exists, -1 to retry.\<close>

definition adaptive_radix_tree_replace_leaf ::
  "u64 \<Rightarrow> ptr_place \<Rightarrow> u64 \<Rightarrow> u8 list \<Rightarrow> nat \<Rightarrow> art_heap \<Rightarrow> (int \<times> art_heap) res" where
  "adaptive_radix_tree_replace_leaf par ptr an k off h =
     and_then (art_node_replace_leaf_child par an k off h) (\<lambda>(new, h1).
     if new = 0 then Inr (1, h1)
     else if par \<noteq> 0 then
       and_then (art_node_lock par h1) (\<lambda>(r, h2).
       if r \<noteq> 0 then and_then (free_art_node new h2) (\<lambda>h3. Inr (-1, h3))
       else
         and_then (load_ptr ptr h2) (\<lambda>now.
         if now \<noteq> an then
           and_then (art_node_unlock par h2) (\<lambda>h3.
           and_then (free_art_node new h3) (\<lambda>h4. Inr (-1, h4)))
         else
           and_then (store_ptr ptr new h2) (\<lambda>h3.
           and_then (art_node_unlock par h3) (\<lambda>h4. Inr (0, h4)))))
     else
       and_then (load_ptr ptr h1) (\<lambda>now.
       if now = an then and_then (store_ptr ptr new h1) (\<lambda>h2. Inr (0, h2))
       else and_then (free_art_node new h1) (\<lambda>h2. Inr (-1, h2))))"

text \<open>The byte of the key in front of an offset; at offset 0 the index of the code wraps.\<close>

definition byte_before :: "u8 list \<Rightarrow> nat \<Rightarrow> u8 res" where
  "byte_before k off = (if off = 0 then Inl Out_Of_Bounds else byte_at k (off - 1))"

text \<open>Both structural updates end by putting the new node where the old one was.\<close>

definition swing_pointer ::
  "u64 \<Rightarrow> ptr_place \<Rightarrow> u8 list \<Rightarrow> nat \<Rightarrow> u64 \<Rightarrow> art_heap \<Rightarrow> art_heap res" where
  "swing_pointer par ptr k off new h =
     (if par \<noteq> 0 then
        and_then (byte_before k off) (\<lambda>b.
        and_then (art_node_replace_child par b new h) (\<lambda>h1. art_node_unlock par h1))
      else store_ptr ptr new h)"

definition put_expand ::
  "ptr_place \<Rightarrow> u64 \<Rightarrow> u8 list \<Rightarrow> nat \<Rightarrow> nat \<Rightarrow> art_heap \<Rightarrow> (int \<times> art_heap) res" where
  "put_expand ptr an k off p h =
     and_then (art_node_get_locked_parent an h) (\<lambda>(par, h1).
     and_then (art_node_expand_and_insert par an k off p h1) (\<lambda>(new, h2).
     and_then (modify_node an (\<lambda>n. n\<lparr>parent := new\<rparr>) h2) (\<lambda>h3.
     and_then (swing_pointer par ptr k off new h3) (\<lambda>h4.
     and_then (art_node_unlock an h4) (\<lambda>h5.
     Inr (0, h5))))))"

text \<open>The insertion of a leaf below a locked node; the result is the slot another thread had filled.\<close>

definition put_child ::
  "ptr_place \<Rightarrow> u64 \<Rightarrow> u8 list \<Rightarrow> nat \<Rightarrow> nat \<Rightarrow> art_heap \<Rightarrow> (nat option \<times> art_heap) res" where
  "put_child ptr an k off p h =
     and_then (byte_at k off) (\<lambda>b.
     and_then (alloc_leaf an k Mem_Remote False h) (\<lambda>(leaf, h1).
     and_then (art_node_add_child an b leaf True h1) (\<lambda>(next, new, h2).
     and_then (if new \<noteq> 0
               then and_then (art_node_get_locked_parent an h2) (\<lambda>(par, h3).
                      swing_pointer par ptr k (off - p) new h3)
               else Inr h2) (\<lambda>h4.
     and_then (art_node_unlock an h4) (\<lambda>h5.
     Inr (next, h5))))))"

text \<open>The check at the label \<open>begin\<close>: from the second time on, is the parent old?\<close>

definition stale_parent :: "bool \<Rightarrow> u64 \<Rightarrow> art_heap \<Rightarrow> bool res" where
  "stale_parent first par h =
     (if \<not> first \<and> par \<noteq> 0
      then and_then (art_node_get_version par h) (\<lambda>v. Inr (art_node_version_is_old v))
      else Inr False)"

fun art_put ::
  "nat \<Rightarrow> bool \<Rightarrow> u64 \<Rightarrow> ptr_place \<Rightarrow> u8 list \<Rightarrow> nat \<Rightarrow> art_heap \<Rightarrow> (int \<times> art_heap) res" where
  "art_put 0 first par ptr k off h = Inl Out_Of_Fuel"
| "art_put (Suc fuel) first par ptr k off h =
     and_then (stale_parent first par h) (\<lambda>stale.
     if stale then Inr (-1, h)
     else and_then (load_ptr ptr h) (\<lambda>an.
     if is_leaf an then adaptive_radix_tree_replace_leaf par ptr an k off h
     else and_then (art_node_get_stable_expand_version an h) (\<lambda>v.
     if get_offset v \<noteq> off \<or> art_node_version_is_old v then art_put fuel False par ptr k off h
     else and_then (art_node_prefix_compare an v k off h) (\<lambda>p.
     and_then (art_node_get_version an h) (\<lambda>v1.
     if art_node_version_is_old v1 \<or> art_node_version_compare_expand v v1
     then art_put fuel False par ptr k off h
     else if p \<noteq> get_prefix_len v1 then
       and_then (art_node_lock an h) (\<lambda>(r, h1).
       if r \<noteq> 0 then art_put fuel False par ptr k off h1
       else and_then (art_node_get_version an h1) (\<lambda>v2.
         if art_node_version_compare_expand v1 v2
         then and_then (art_node_unlock an h1) (\<lambda>h2. art_put fuel False par ptr k off h2)
         else put_expand ptr an k off p h1))
     else
       and_then (byte_at k (off + p)) (\<lambda>b.
       and_then (art_node_find_child an v1 b h) (\<lambda>next.
       and_then (art_node_get_version an h) (\<lambda>v2.
       if art_node_version_is_old v2 then art_put fuel False par ptr k off h
       else (case next of
           Some i \<Rightarrow> art_put fuel True an (Child an i) k (off + p + 1) h
         | None \<Rightarrow>
             and_then (art_node_lock an h) (\<lambda>(r, h1).
             if r \<noteq> 0 then art_put fuel False par ptr k off h1
             else and_then (put_child ptr an k (off + p) p h1) (\<lambda>(next2, h2).
               case next2 of
                 Some i \<Rightarrow> art_put fuel True an (Child an i) k (off + p + 1) h2
               | None \<Rightarrow> Inr (0, h2))))))))))))"

text \<open>The retry loop at the root, 0 on success and 1 on duplication.\<close>

fun put_retry :: "nat \<Rightarrow> nat \<Rightarrow> u8 list \<Rightarrow> art_heap \<Rightarrow> (int \<times> art_heap) res" where
  "put_retry 0 fuel k h = Inl Out_Of_Fuel"
| "put_retry (Suc tries) fuel k h =
     and_then (art_put fuel True 0 Root k 0 h) (\<lambda>(ret, h1).
     if ret = -1 then put_retry tries fuel k h1 else Inr (ret, h1))"

definition adaptive_radix_tree_put :: "nat \<Rightarrow> nat \<Rightarrow> u8 list \<Rightarrow> art_heap \<Rightarrow> (int \<times> art_heap) res" where
  "adaptive_radix_tree_put tries fuel k h =
     (if art_root h = 0 then
        and_then (alloc_leaf 0 k Mem_Remote False h) (\<lambda>(leaf, h1).
        if art_root h1 = 0 then Inr (0, h1\<lparr>art_root := leaf\<rparr>) else put_retry tries fuel k h1)
      else put_retry tries fuel k h)"

section \<open>Lookup\<close>

text \<open>The address of the key in the leaf, 0 when the key is absent, 1 to retry.\<close>

definition get_leaf_key :: "u64 \<Rightarrow> u64" where
  "get_leaf_key an = get_leaf an + 4"

fun art_get ::
  "nat \<Rightarrow> bool \<Rightarrow> u64 \<Rightarrow> ptr_place \<Rightarrow> u8 list \<Rightarrow> nat \<Rightarrow> art_heap \<Rightarrow> (u64 \<times> art_heap) res" where
  "art_get 0 first par ptr k off h = Inl Out_Of_Fuel"
| "art_get (Suc fuel) first par ptr k off h =
     and_then (stale_parent first par h) (\<lambda>stale.
     if stale then Inr (1, h)
     else and_then (load_ptr ptr h) (\<lambda>an.
     if is_leaf an then
       and_then (load_leaf (get_leaf an) h) (\<lambda>l.
       and_then (key_mismatch (leaf_key l) (get_leaf_len l) k off) (\<lambda>i.
       if i = get_leaf_len l \<and> i = length k
       then and_then (update_access (get_leaf an) h) (\<lambda>h1. Inr (get_leaf_key an, h1))
       else Inr (0, h)))
     else and_then (art_node_get_stable_expand_version an h) (\<lambda>v.
     if get_offset v \<noteq> off \<or> art_node_version_is_old v then art_get fuel False par ptr k off h
     else and_then (art_node_prefix_compare an v k off h) (\<lambda>p.
     and_then (art_node_get_version an h) (\<lambda>v1.
     if art_node_version_is_old v1 \<or> art_node_version_compare_expand v v1
     then art_get fuel False par ptr k off h
     else if p \<noteq> get_prefix_len v1 then Inr (0, h)
     else
       let off1 = off + get_prefix_len v1; advance = off1 \<noteq> length k in
       and_then (if advance then byte_at k off1 else Inr 0) (\<lambda>b.
       and_then (art_node_find_child an v1 b h) (\<lambda>next.
       and_then (art_node_get_version an h) (\<lambda>v2.
       if art_node_version_is_old v2 then art_get fuel False par ptr k off1 h
       else (case next of
           Some i \<Rightarrow> art_get fuel True an (Child an i) k (off1 + of_bool advance) h
         | None \<Rightarrow> Inr (0, h))))))))))"

fun get_retry :: "nat \<Rightarrow> nat \<Rightarrow> u8 list \<Rightarrow> art_heap \<Rightarrow> (u64 \<times> art_heap) res" where
  "get_retry 0 fuel k h = Inl Out_Of_Fuel"
| "get_retry (Suc tries) fuel k h =
     and_then (art_get fuel True 0 Root k 0 h) (\<lambda>(ret, h1).
     if ret = 1 then get_retry tries fuel k h1 else Inr (ret, h1))"

definition adaptive_radix_tree_get :: "nat \<Rightarrow> nat \<Rightarrow> u8 list \<Rightarrow> art_heap \<Rightarrow> (u64 \<times> art_heap) res" where
  "adaptive_radix_tree_get tries fuel k h =
     (if art_root h = 0 then Inr (0, h) else get_retry tries fuel k h)"

section \<open>Traversal\<close>

text \<open>
  The callback is called with a parent and a leaf, or with an inner node and a null leaf. The calls
  are collected in their order; the callbacks of this program do not change the tree. A child that
  stays old below a valid node makes the retry loop go on for ever.
\<close>

fun traverse_children ::
  "(u64 \<Rightarrow> (bool \<times> (u64 \<times> u64) list) res) \<Rightarrow> u64 list \<Rightarrow> (bool \<times> (u64 \<times> u64) list) res" where
  "traverse_children f [] = Inr (True, [])"
| "traverse_children f (c # cs) =
     and_then (f c) (\<lambda>(ok, xs).
     if \<not> ok then Inl Spin
     else and_then (traverse_children f cs) (\<lambda>(ok1, ys). Inr (ok1, xs @ ys)))"

fun art_traverse :: "nat \<Rightarrow> u64 \<Rightarrow> u64 \<Rightarrow> bool \<Rightarrow> art_heap \<Rightarrow> (bool \<times> (u64 \<times> u64) list) res" where
  "art_traverse 0 par nd full h = Inl Out_Of_Fuel"
| "art_traverse (Suc fuel) par nd full h =
     (if is_leaf nd then Inr (True, [(par, get_leaf nd)])
      else
        and_then (art_node_get_version nd h) (\<lambda>pv.
        if art_node_version_is_old pv then Inr (False, if full then [(nd, 0)] else [])
        else
          and_then (art_node_get_stable_expand_version nd h) (\<lambda>v.
          and_then (load_node nd h) (\<lambda>n.
          and_then (traverse_children (\<lambda>c. art_traverse fuel nd c False h) (visit_order n))
            (\<lambda>(ok, xs). Inr (ok, (if full then [(nd, 0)] else []) @ xs))))))"

definition adaptive_radix_tree_traverse :: "nat \<Rightarrow> art_heap \<Rightarrow> (u64 \<times> u64) list res" where
  "adaptive_radix_tree_traverse fuel h =
     (if art_root h = 0 then Inr []
      else and_then (art_traverse fuel 0 (art_root h) False h) (\<lambda>(ok, xs). Inr xs))"

section \<open>A new tree\<close>

text \<open>
  \<open>new_adaptive_radix_tree\<close> initialises the allocator with the answers of the device
  calls and replaces the strategy manager.
\<close>

definition new_adaptive_radix_tree ::
  "int \<Rightarrow> u64 \<Rightarrow> int \<Rightarrow> u64 option \<Rightarrow> int \<Rightarrow> art_heap \<Rightarrow> art_heap res" where
  "new_adaptive_radix_tree cxl_percentage local_memory_amount opened mapped create_err h =
     and_then (cxl_init CXL_MAX_SIZE cxl_percentage opened mapped create_err (cxl h)) (\<lambda>c.
     and_then (make_sidle_strategy local_memory_amount cxl_percentage True) (\<lambda>st.
     Inr (h\<lparr>cxl := c, strategy_manager := st, art_root := 0\<rparr>)))"

end
