(* ===== verification/Art_Layout.thy ===== *)
theory Art_Layout
  imports Art_Node
begin

text \<open>
  The four node layouts behind one interface. \<open>slot_at n b i\<close> says that layout \<open>n\<close> keeps the child for
  byte \<open>b\<close> in slot \<open>i\<close>, and \<open>node_wf\<close> is the invariant of a layout. The lemmas give the
  behaviour of lookup, of a store to a slot, of insertion and of growth in these terms, so that the
  proofs about the tree do not see the layouts.
\<close>

section \<open>Kinds of nodes\<close>

lemma node_kinds [simp]:
  "node4 \<noteq> node16" "node4 \<noteq> node48" "node4 \<noteq> node256" "node16 \<noteq> node48" "node16 \<noteq> node256"
  "node48 \<noteq> node256" "node16 \<noteq> node4" "node48 \<noteq> node4" "node256 \<noteq> node4" "node48 \<noteq> node16"
  "node256 \<noteq> node16" "node256 \<noteq> node48"
  by (simp_all add: node4_def node16_def node48_def node256_def)

lemma node_type_cases:
  obtains "get_node_type v = node4" | "get_node_type v = node16"
    | "get_node_type v = node48" | "get_node_type v = node256"
proof -
  define x where "x = get_field 20 2 v"
  have "unat x < 4"
    using unat_get_field_less [of 20 2 v] by (simp add: x_def)
  then consider "unat x = 0" | "unat x = 1" | "unat x = 2" | "unat x = 3" by linarith
  moreover have x: "x = of_nat (unat x)" by simp
  moreover have "get_node_type v = push_bit 20 x"
    by (simp only: get_node_type_field x_def)
  moreover have "node4 = push_bit 20 (of_nat 0)" "node16 = push_bit 20 (of_nat 1)"
    "node48 = push_bit 20 (of_nat 2)" "node256 = push_bit 20 (of_nat 3)"
    by (simp_all add: node4_def node16_def node48_def node256_def)
  ultimately show thesis
    using that by metis
qed

lemma fresh_versions [simp]:
  "get_node_type (set_type 0 node4) = node4" "get_node_type (set_type 0 node16) = node16"
  "get_node_type (set_type 0 node48) = node48" "get_node_type (set_type 0 node256) = node256"
  "get_count (set_type 0 node4) = 0" "get_count (set_type 0 node16) = 0"
  "get_count (set_type 0 node48) = 0" "get_count (set_type 0 node256) = 0"
  by (simp_all add: get_node_type_def set_type_def get_count_def node4_def node16_def node48_def
      node256_def)

lemma fresh_flags [simp]:
  "\<not> is_old (set_type 0 node4)" "\<not> is_old (set_type 0 node16)"
  "\<not> is_old (set_type 0 node48)" "\<not> is_old (set_type 0 node256)"
  "\<not> is_locked (set_type 0 node4)" "\<not> is_locked (set_type 0 node16)"
  "\<not> is_locked (set_type 0 node48)" "\<not> is_locked (set_type 0 node256)"
  "\<not> is_expanding (set_type 0 node4)" "\<not> is_expanding (set_type 0 node16)"
  "\<not> is_expanding (set_type 0 node48)" "\<not> is_expanding (set_type 0 node256)"
  by (simp_all add: is_old_def is_locked_def is_expanding_def set_type_def OLD_BIT_def LOCK_BIT_def
      EXPAND_BIT_def node4_def node16_def node48_def node256_def)

lemma get_count_less: "get_count v < 256"
  using unat_get_field_less [of 40 8 v] by (simp add: version_getters)

section \<open>Slots\<close>

definition keyed :: "u64 \<Rightarrow> bool" where
  "keyed v \<longleftrightarrow> get_node_type v = node4 \<or> get_node_type v = node16"

definition slot_at :: "art_node \<Rightarrow> u8 \<Rightarrow> nat \<Rightarrow> bool" where
  "slot_at n b i \<longleftrightarrow>
     (if keyed (version n) then i < get_count (version n) \<and> key n ! i = b
      else if get_node_type (version n) = node48 then unat (index n ! unat b) = i + 1
      else i = unat b \<and> child n ! i \<noteq> 0)"

definition child_at :: "art_node \<Rightarrow> u8 \<Rightarrow> u64 \<Rightarrow> bool" where
  "child_at n b c \<longleftrightarrow> (\<exists>i. slot_at n b i \<and> child n ! i = c)"

definition arrays_wf :: "u64 \<Rightarrow> u8 list \<Rightarrow> u8 list \<Rightarrow> u64 list \<Rightarrow> bool" where
  "arrays_wf v ks idx cs \<longleftrightarrow>
     (if get_node_type v = node4
      then length ks = 4 \<and> length cs = 4 \<and> get_count v \<le> 4 \<and> distinct (take (get_count v) ks)
      else if get_node_type v = node16
      then length ks = 16 \<and> length cs = 16 \<and> get_count v \<le> 16 \<and> distinct (take (get_count v) ks)
      else if get_node_type v = node48
      then length idx = 256 \<and> length cs = 48 \<and> get_count v \<le> 48 \<and>
        (\<forall>j < 256. unat (idx ! j) \<le> get_count v) \<and>
        (\<forall>j < 256. \<forall>k < 256. idx ! j \<noteq> 0 \<and> idx ! j = idx ! k \<longrightarrow> j = k)
      else length cs = 256)"

definition node_wf :: "art_node \<Rightarrow> bool" where
  "node_wf n \<longleftrightarrow> length (prefix n) = 8 \<and> arrays_wf (version n) (key n) (index n) (child n)"

lemma unat_u8_less [simp]: "unat (b :: u8) < 256"
  using unsigned_less [of b, where 'a = nat] by simp

lemma unat_u8_inject: "unat (b :: u8) = unat c \<longleftrightarrow> b = c"
  by (simp add: word_unat_eq_iff)

lemma node_wf_4: "get_node_type (version n) = node4 \<Longrightarrow> node_wf n \<longleftrightarrow> length (prefix n) = 8 \<and>
    length (key n) = 4 \<and> length (child n) = 4 \<and> get_count (version n) \<le> 4 \<and>
    distinct (take (get_count (version n)) (key n))"
  by (simp add: node_wf_def arrays_wf_def)

lemma node_wf_16: "get_node_type (version n) = node16 \<Longrightarrow> node_wf n \<longleftrightarrow> length (prefix n) = 8 \<and>
    length (key n) = 16 \<and> length (child n) = 16 \<and> get_count (version n) \<le> 16 \<and>
    distinct (take (get_count (version n)) (key n))"
  by (simp add: node_wf_def arrays_wf_def)

lemma node_wf_48: "get_node_type (version n) = node48 \<Longrightarrow> node_wf n \<longleftrightarrow> length (prefix n) = 8 \<and>
    length (index n) = 256 \<and> length (child n) = 48 \<and> get_count (version n) \<le> 48 \<and>
    (\<forall>j < 256. unat (index n ! j) \<le> get_count (version n)) \<and>
    (\<forall>j < 256. \<forall>k < 256. index n ! j \<noteq> 0 \<and> index n ! j = index n ! k \<longrightarrow> j = k)"
  by (simp add: node_wf_def arrays_wf_def)

lemma node_wf_256: "get_node_type (version n) = node256 \<Longrightarrow> node_wf n \<longleftrightarrow>
    length (prefix n) = 8 \<and> length (child n) = 256"
  by (simp add: node_wf_def arrays_wf_def)

lemma keyed_simps [simp]:
  "get_node_type v = node4 \<Longrightarrow> keyed v" "get_node_type v = node16 \<Longrightarrow> keyed v"
  "get_node_type v = node48 \<Longrightarrow> \<not> keyed v" "get_node_type v = node256 \<Longrightarrow> \<not> keyed v"
  by (simp_all add: keyed_def)

lemma keyed_wf:
  "node_wf n \<Longrightarrow> keyed (version n) \<Longrightarrow>
     get_count (version n) \<le> length (key n) \<and> length (child n) = length (key n) \<and>
     length (key n) \<le> 16 \<and> distinct (take (get_count (version n)) (key n))"
  by (auto simp: keyed_def node_wf_4 node_wf_16)

lemma slot_at_less: "node_wf n \<Longrightarrow> slot_at n b i \<Longrightarrow> i < length (child n)"
proof (cases rule: node_type_cases [of "version n"])
  case 3
  assume "node_wf n" "slot_at n b i"
  then have "unat (index n ! unat b) \<le> get_count (version n)" "get_count (version n) \<le> 48"
    "unat (index n ! unat b) = i + 1" "length (child n) = 48"
    using 3 unat_u8_less [of b] by (auto simp: node_wf_48 slot_at_def simp del: unat_u8_less)
  then show ?thesis by linarith
qed (auto simp: slot_at_def node_wf_256 dest: keyed_wf)

lemma slot_at_unique: "node_wf n \<Longrightarrow> slot_at n b i \<Longrightarrow> slot_at n b j \<Longrightarrow> i = j"
proof (cases "keyed (version n)")
  case True
  assume h: "node_wf n" "slot_at n b i" "slot_at n b j"
  let ?ks = "take (get_count (version n)) (key n)"
  have "?ks ! i = ?ks ! j" "i < length ?ks" "j < length ?ks"
    using h True keyed_wf [OF h(1) True] by (auto simp: slot_at_def)
  then show ?thesis
    using keyed_wf [OF h(1) True] by (metis nth_eq_iff_index_eq)
qed (auto simp: slot_at_def split: if_splits)

lemma slot_at_inj: "node_wf n \<Longrightarrow> slot_at n b i \<Longrightarrow> slot_at n c i \<Longrightarrow> b = c"
proof (cases rule: node_type_cases [of "version n"])
  case 3
  assume h: "node_wf n" "slot_at n b i" "slot_at n c i"
  then have "index n ! unat b = index n ! unat c" "index n ! unat b \<noteq> 0"
    using 3 by (auto simp: slot_at_def word_unat_eq_iff)
  then have "unat b = unat c"
    using h(1) 3 unat_u8_less [of b] unat_u8_less [of c] by (auto simp: node_wf_48)
  then show ?thesis by (simp add: unat_u8_inject)
qed (auto simp: slot_at_def unat_u8_inject)

lemma child_at_unique: "node_wf n \<Longrightarrow> child_at n b c \<Longrightarrow> child_at n b d \<Longrightarrow> c = d"
  unfolding child_at_def using slot_at_unique by blast

section \<open>Lookup in a node\<close>

text \<open>The loop returns the first slot whose byte matches.\<close>

definition first_match :: "u8 list \<Rightarrow> u8 \<Rightarrow> nat \<Rightarrow> nat \<Rightarrow> nat option \<Rightarrow> bool" where
  "first_match ks b lo hi r \<longleftrightarrow>
     (case r of None \<Rightarrow> \<forall>m. lo \<le> m \<and> m < hi \<longrightarrow> ks ! m \<noteq> b
      | Some j \<Rightarrow> lo \<le> j \<and> j < hi \<and> ks ! j = b \<and> (\<forall>m. lo \<le> m \<and> m < j \<longrightarrow> ks ! m \<noteq> b))"

lemma first_match_unique: "first_match ks b lo hi r \<Longrightarrow> first_match ks b lo hi r' \<Longrightarrow> r = r'"
  by (cases r; cases r') (auto simp: first_match_def, metis linorder_neqE_nat)

lemma linear_find_first:
  "i + left \<le> length ks \<Longrightarrow> \<exists>r. linear_find ks b i left = Inr r \<and> first_match ks b i (i + left) r"
proof (induction left arbitrary: i)
  case (Suc left)
  from Suc.IH [of "Suc i"] Suc.prems obtain r
    where r: "linear_find ks b (Suc i) left = Inr r" "first_match ks b (Suc i) (i + Suc left) r"
    by auto
  show ?case
  proof (cases "ks ! i = b")
    case True
    with Suc.prems show ?thesis by (auto simp: first_match_def)
  next
    case False
    have "i \<le> m \<longleftrightarrow> m = i \<or> Suc i \<le> m" for m by auto
    with False have "first_match ks b i (i + Suc left) r"
      using r(2) by (cases r) (auto simp: first_match_def)
    with False r(1) Suc.prems show ?thesis by simp
  qed
qed (auto simp: first_match_def)

lemma bit_simd_bitfield:
  assumes "length ks = 16" and "cnt \<le> 16"
  shows "bit (simd_bitfield ks b cnt) i \<longleftrightarrow> i < cnt \<and> ks ! i = b"
proof -
  have "bit (movemask_epi8 (cmpeq_epi8 b (take 16 ks))) i \<longleftrightarrow> i < 16 \<and> ks ! i = b"
    using assms(1) by (auto simp: movemask_epi8_def cmpeq_epi8_def bit_horner_sum_bit_word_iff)
  moreover have "(push_bit cnt 1 - 1 :: u32) = mask cnt"
    by (simp add: mask_eq_exp_minus_1)
  ultimately show ?thesis
    using assms(2) by (auto simp: simd_bitfield_def bit_and_iff bit_mask_iff)
qed

lemma takeWhile_upt_first:
  assumes "P m" and "m < n" and "\<forall>j < m. \<not> P j"
  shows "length (takeWhile (\<lambda>i. \<not> P i) [0..<n]) = m"
proof -
  have "[0..<n] = [0..<m] @ m # [Suc m..<n]"
    using assms(2) by (metis less_imp_add_positive upt_add_eq_append upt_conv_Cons add_0 le0 less_add_same_cancel1)
  then show ?thesis
    using assms by (simp add: takeWhile_append)
qed

lemma ctz_first:
  assumes "x \<noteq> 0"
  shows "bit x (ctz x)" and "\<forall>j < ctz x. \<not> bit x j"
proof -
  define m where "m = (LEAST i. bit x i)"
  obtain i where i: "bit x i" using assms by (auto simp: bit_eq_iff)
  have m: "bit x m" "\<forall>j < m. \<not> bit x j"
    unfolding m_def by (rule LeastI, rule i) (auto dest: not_less_Least)
  have "m < 32" using bit_imp_le_length [OF m(1)] by simp
  then have "ctz x = m"
    unfolding ctz_def using m by (intro takeWhile_upt_first) auto
  with m show "bit x (ctz x)" "\<forall>j < ctz x. \<not> bit x j" by simp_all
qed

lemma simd_first:
  assumes "length ks = 16" and "cnt \<le> 16"
  shows "first_match ks b 0 cnt
    (if simd_bitfield ks b cnt \<noteq> 0 then Some (ctz (simd_bitfield ks b cnt)) else None)"
proof (cases "simd_bitfield ks b cnt = 0")
  case True
  then have "\<not> (i < cnt \<and> ks ! i = b)" for i
    using bit_simd_bitfield [OF assms, of b i] by simp
  then show ?thesis using True by (simp add: first_match_def)
next
  case False
  from ctz_first [OF this] have
    "ctz (simd_bitfield ks b cnt) < cnt \<and> ks ! ctz (simd_bitfield ks b cnt) = b"
    "\<forall>j < ctz (simd_bitfield ks b cnt). \<not> (j < cnt \<and> ks ! j = b)"
    by (simp_all only: bit_simd_bitfield [OF assms])
  with False show ?thesis by (auto simp: first_match_def)
qed

text \<open>
  C23. The vector search of the 16-child layout (compare all bytes, collect the bits, mask by the
  count, count trailing zeros) gives what the byte-by-byte loop of the 4-child layout would give on
  the same bytes and count.
\<close>

theorem simd_search_is_linear_search:
  assumes "length ks = 16" and "cnt \<le> 16"
  shows "Inr (if simd_bitfield ks b cnt \<noteq> 0 then Some (ctz (simd_bitfield ks b cnt)) else None) =
    linear_find ks b 0 cnt"
proof -
  obtain r where r: "linear_find ks b 0 cnt = Inr r" "first_match ks b 0 cnt r"
    using linear_find_first [of 0 cnt ks b] assms by auto
  from first_match_unique [OF simd_first [OF assms] r(2)] r(1) show ?thesis by simp
qed

lemma simd_search_is_linear_search_witness:
  "Inr (if simd_bitfield (replicate 9 1 @ replicate 7 5) 5 12 \<noteq> 0
        then Some (ctz (simd_bitfield (replicate 9 1 @ replicate 7 5) 5 12)) else None) =
    linear_find (replicate 9 1 @ replicate 7 5) 5 0 12"
  by (rule simd_search_is_linear_search) simp_all

lemma find_slot_spec:
  assumes "node_wf n"
  shows "\<exists>r. find_slot n (version n) b = Inr r \<and> (\<forall>i. r = Some i \<longleftrightarrow> slot_at n b i)"
proof (cases rule: node_type_cases [of "version n"])
  case 1
  let ?c = "get_count (version n)"
  have c: "0 + ?c \<le> length (key n)" using assms 1 by (simp add: node_wf_4)
  obtain r where r: "linear_find (key n) b 0 ?c = Inr r" "first_match (key n) b 0 ?c r"
    using linear_find_first [OF c, of b] by auto
  have "r = Some i \<longleftrightarrow> slot_at n b i" for i
    using r(2) 1 slot_at_unique [OF assms]
    by (cases r) (auto simp: first_match_def slot_at_def)
  then show ?thesis using r(1) 1 by (auto simp: find_slot_def)
next
  case 2
  let ?c = "get_count (version n)"
  let ?r = "if simd_bitfield (key n) b ?c \<noteq> 0 then Some (ctz (simd_bitfield (key n) b ?c)) else None"
  have "length (key n) = 16" "?c \<le> 16" using assms 2 by (simp_all add: node_wf_16)
  then have r: "first_match (key n) b 0 ?c ?r" by (rule simd_first)
  have "?r = Some i \<longleftrightarrow> slot_at n b i" for i
    using r 2 slot_at_unique [OF assms]
    by (cases ?r) (auto simp: first_match_def slot_at_def split: if_splits)
  then show ?thesis using 2 by (auto simp: find_slot_def Let_def)
next
  case 3
  then have "length (index n) = 256" using assms by (simp add: node_wf_48)
  then have "find_slot n (version n) b =
      Inr (if index n ! unat b \<noteq> 0 then Some (unat (index n ! unat b) - 1) else None)"
    using 3 by (simp add: find_slot_def)
  moreover have "unat (index n ! unat b) = 0 \<longleftrightarrow> index n ! unat b = 0"
    by (simp add: unat_eq_0)
  ultimately show ?thesis using 3 by (auto simp: slot_at_def)
next
  case 4
  then show ?thesis using assms by (auto simp: find_slot_def slot_at_def node_wf_256)
qed

lemma find_slot_cong:
  "get_node_type v = get_node_type w \<Longrightarrow> get_count v = get_count w \<Longrightarrow> find_slot n v b = find_slot n w b"
  by (simp add: find_slot_def)

lemma find_slot_Some: "node_wf n \<Longrightarrow> slot_at n b i \<Longrightarrow> find_slot n (version n) b = Inr (Some i)"
  using find_slot_spec [of n b] by auto

lemma find_slot_None: "node_wf n \<Longrightarrow> \<forall>c. \<not> child_at n b c \<Longrightarrow> find_slot n (version n) b = Inr None"
  using find_slot_spec [of n b] by (auto simp: child_at_def) (metis option.exhaust)

section \<open>Stores to a slot\<close>

text \<open>The invariant and the slots depend only on the arrays, the kind and the count.\<close>

lemma node_wf_cong:
  "length (prefix m) = length (prefix n) \<Longrightarrow> get_node_type (version m) = get_node_type (version n) \<Longrightarrow>
   get_count (version m) = get_count (version n) \<Longrightarrow> key m = key n \<Longrightarrow> index m = index n \<Longrightarrow>
   length (child m) = length (child n) \<Longrightarrow> node_wf m = node_wf n"
  by (simp add: node_wf_def arrays_wf_def)

lemma slot_at_cong:
  "get_node_type (version m) = get_node_type (version n) \<Longrightarrow>
   get_count (version m) = get_count (version n) \<Longrightarrow> key m = key n \<Longrightarrow> index m = index n \<Longrightarrow>
   child m = child n \<Longrightarrow> slot_at m b i = slot_at n b i"
  by (simp add: slot_at_def keyed_def)

lemma child_at_cong:
  "get_node_type (version m) = get_node_type (version n) \<Longrightarrow>
   get_count (version m) = get_count (version n) \<Longrightarrow> key m = key n \<Longrightarrow> index m = index n \<Longrightarrow>
   child m = child n \<Longrightarrow> child_at m b c = child_at n b c"
  by (simp add: child_at_def slot_at_def keyed_def)

lemma node_wf_store: "node_wf n \<Longrightarrow> node_wf (n\<lparr>child := (child n)[i := c]\<rparr>)"
  by (subst node_wf_cong [of _ n]) simp_all

lemma slot_at_store:
  assumes "node_wf n" and "slot_at n b i" and "c \<noteq> 0"
  shows "slot_at (n\<lparr>child := (child n)[i := c]\<rparr>) b' j \<longleftrightarrow> slot_at n b' j"
proof (cases "keyed (version n) \<or> get_node_type (version n) = node48")
  case False
  then have "i = unat b" "child n ! i \<noteq> 0" "i < length (child n)"
    using assms(2) slot_at_less [OF assms(1,2)] by (auto simp: slot_at_def)
  with False assms(3) show ?thesis
    by (auto simp: slot_at_def nth_list_update)
qed (auto simp: slot_at_def)

lemma child_at_store:
  assumes "node_wf n" and "slot_at n b i" and "c \<noteq> 0"
  shows "child_at (n\<lparr>child := (child n)[i := c]\<rparr>) b' d \<longleftrightarrow>
    (if b' = b then d = c else child_at n b' d)"
proof -
  have i: "i < length (child n)" by (rule slot_at_less [OF assms(1,2)])
  have "child_at (n\<lparr>child := (child n)[i := c]\<rparr>) b' d \<longleftrightarrow>
      (\<exists>j. slot_at n b' j \<and> (child n)[i := c] ! j = d)"
    by (simp add: child_at_def slot_at_store [OF assms])
  also have "\<dots> \<longleftrightarrow> (if b' = b then d = c else child_at n b' d)"
  proof (cases "b' = b")
    case True
    then have "slot_at n b' j \<longleftrightarrow> j = i" for j
      using slot_at_unique [OF assms(1)] assms(2) by blast
    with True i show ?thesis by auto
  next
    case False
    then have "(child n)[i := c] ! j = child n ! j" if "slot_at n b' j" for j
      using that assms slot_at_inj by (metis nth_list_update_neq)
    with False show ?thesis by (auto simp: child_at_def)
  qed
  finally show ?thesis .
qed

section \<open>Insertion into a node\<close>

definition same_header :: "art_node \<Rightarrow> art_node \<Rightarrow> bool" where
  "same_header m n \<longleftrightarrow>
     prefix m = prefix n \<and> new_node m = new_node n \<and> parent m = parent n \<and>
     sidle_meta m = sidle_meta n \<and> get_offset (version m) = get_offset (version n) \<and>
     get_prefix_len (version m) = get_prefix_len (version n) \<and>
     get_node_type (version m) = get_node_type (version n) \<and>
     (is_old (version m) \<longleftrightarrow> is_old (version n)) \<and> (is_locked (version m) \<longleftrightarrow> is_locked (version n)) \<and>
     (is_expanding (version m) \<longleftrightarrow> is_expanding (version n)) \<and>
     get_vexpand (version m) = get_vexpand (version n)"

lemma same_header_incr:
  "get_count (version n) < 255 \<Longrightarrow>
     same_header (n\<lparr>child := cs, key := ks, index := idx, version := incr_count (version n)\<rparr>) n"
  by (simp add: same_header_def bitfield)

lemma take_update_snoc: "c < length ks \<Longrightarrow> take (Suc c) (ks[c := b]) = take c ks @ [b]"
  by (simp add: take_Suc_conv_app_nth)

lemma place_keyed:
  assumes wf: "node_wf n" and k: "keyed (version n)" and absent: "\<forall>c. \<not> child_at n b c"
    and full: "\<not> art_node_is_full (version n)"
  shows "\<exists>m. place_child b q n = Inr m \<and> node_wf m \<and> same_header m n \<and>
    (\<forall>b' d. child_at m b' d \<longleftrightarrow> (if b' = b then d = q else child_at n b' d))"
proof -
  let ?c = "get_count (version n)"
  let ?m = "n\<lparr>child := (child n)[?c := q], key := (key n)[?c := b], version := incr_count (version n)\<rparr>"
  have c: "?c < length (key n)" "?c < length (child n)" "?c < 255"
    using wf full k by (auto simp: keyed_def node_wf_4 node_wf_16 art_node_is_full_def)
  have count: "get_count (incr_count (version n)) = Suc ?c"
    using c(3) by (rule get_count_incr)
  have type: "get_node_type (incr_count (version n)) = get_node_type (version n)"
    using c(3) by (rule incr_count_frame)
  have absent': "j < ?c \<Longrightarrow> key n ! j \<noteq> b" for j
    using absent k by (auto simp: child_at_def slot_at_def)
  then have "b \<notin> set (take ?c (key n))"
    by (auto simp: in_set_conv_nth)
  then have "distinct (take (Suc ?c) ((key n)[?c := b]))"
    using keyed_wf [OF wf k] c(1) by (simp add: take_update_snoc)
  then have "node_wf ?m"
    using wf k c count type by (auto simp: keyed_def node_wf_def arrays_wf_def)
  moreover have "place_child b q n = Inr ?m"
    using k c by (simp add: place_child_def keyed_def Let_def)
  moreover have "same_header ?m n"
    using c(3) by (simp add: same_header_def bitfield)
  moreover have "child_at ?m b' d \<longleftrightarrow> (if b' = b then d = q else child_at n b' d)" for b' d
  proof -
    have "keyed (version ?m)" using k by (simp add: keyed_def type)
    then have "slot_at ?m b' j \<longleftrightarrow> j < Suc ?c \<and> (key n)[?c := b] ! j = b'" for j
      by (simp add: slot_at_def count)
    then have "child_at ?m b' d \<longleftrightarrow>
        (\<exists>j < Suc ?c. (key n)[?c := b] ! j = b' \<and> (child n)[?c := q] ! j = d)"
      by (auto simp: child_at_def)
    also have "\<dots> \<longleftrightarrow> b' = b \<and> d = q \<or> (\<exists>j < ?c. key n ! j = b' \<and> child n ! j = d)"
      using c unfolding Ex_less_Suc by (auto simp: nth_list_update cong: conj_cong)
    finally have "child_at ?m b' d \<longleftrightarrow>
        b' = b \<and> d = q \<or> (\<exists>j < ?c. key n ! j = b' \<and> child n ! j = d)" .
    then show ?thesis
      using k absent' by (auto simp: child_at_def slot_at_def)
  qed
  ultimately show ?thesis by blast
qed

lemma place_48:
  assumes wf: "node_wf n" and k: "get_node_type (version n) = node48"
    and absent: "\<forall>c. \<not> child_at n b c" and full: "\<not> art_node_is_full (version n)"
  shows "\<exists>m. place_child b q n = Inr m \<and> node_wf m \<and> same_header m n \<and>
    (\<forall>b' d. child_at m b' d \<longleftrightarrow> (if b' = b then d = q else child_at n b' d))"
proof -
  let ?c = "get_count (version n)"
  let ?idx = "(index n)[unat b := of_nat (Suc ?c)]"
  let ?m = "n\<lparr>child := (child n)[?c := q], index := ?idx, version := incr_count (version n)\<rparr>"
  have c: "?c < 48" "?c < length (child n)" "length (index n) = 256" "?c < 255"
    using wf full k by (auto simp: node_wf_48 art_node_is_full_def)
  have count: "get_count (incr_count (version n)) = Suc ?c"
    using c(4) by (rule get_count_incr)
  have type: "get_node_type (incr_count (version n)) = node48"
    using c(4) k by (simp add: incr_count_frame)
  have u: "unat (of_nat (Suc ?c) :: u8) = Suc ?c"
    using c(1) by (simp add: unat_of_nat del: of_nat_Suc)
  have le: "j < 256 \<Longrightarrow> unat (index n ! j) \<le> ?c" for j
    using wf k by (simp add: node_wf_48)
  have inj: "index n ! i \<noteq> 0 \<Longrightarrow> index n ! i = index n ! j \<Longrightarrow> i < 256 \<Longrightarrow> j < 256 \<Longrightarrow> i = j" for i j
    using wf k by (simp add: node_wf_48)
  have le': "j < 256 \<Longrightarrow> unat (?idx ! j) \<le> Suc ?c" for j
    using le [of j] u c by (auto simp: nth_list_update simp del: of_nat_Suc)
  have new: "index n ! j \<noteq> of_nat (Suc ?c)" "of_nat (Suc ?c) \<noteq> index n ! j" if "j < 256" for j
    using le [OF that] u by (metis Suc_n_not_le_n)+
  have "node_wf ?m"
    unfolding node_wf_def arrays_wf_def
    using wf k c le' new inj
    by (auto simp: node_wf_48 count type nth_list_update simp del: of_nat_Suc split: if_splits)
  moreover have "place_child b q n = Inr ?m"
    using k c by (simp add: place_child_def Let_def count)
  moreover have "same_header ?m n"
    using c(4) by (simp add: same_header_def bitfield)
  moreover have "child_at ?m b' d \<longleftrightarrow> (if b' = b then d = q else child_at n b' d)" for b' d
  proof (cases "b' = b")
    case True
    have "slot_at ?m b j \<longleftrightarrow> j = ?c" for j
      using c u by (auto simp: slot_at_def type simp del: of_nat_Suc)
    with True c show ?thesis by (auto simp: child_at_def)
  next
    case False
    then have "unat b' \<noteq> unat b" by (simp add: unat_u8_inject)
    then have s: "slot_at ?m b' j \<longleftrightarrow> slot_at n b' j" for j
      by (simp add: slot_at_def type k)
    have "(child n)[?c := q] ! j = child n ! j" if "slot_at n b' j" for j
      using that le [of "unat b'"] k by (auto simp: slot_at_def)
    with False s show ?thesis by (auto simp: child_at_def)
  qed
  ultimately show ?thesis by blast
qed

lemma place_256:
  assumes wf: "node_wf n" and k: "get_node_type (version n) = node256" and q: "q \<noteq> 0"
  shows "\<exists>m. place_child b q n = Inr m \<and> node_wf m \<and> same_header m n \<and>
    (\<forall>b' d. child_at m b' d \<longleftrightarrow> (if b' = b then d = q else child_at n b' d))"
proof -
  let ?m = "n\<lparr>child := (child n)[unat b := q]\<rparr>"
  have c: "length (child n) = 256" using wf k by (simp add: node_wf_256)
  have "place_child b q n = Inr ?m"
    using k c by (simp add: place_child_def Let_def)
  moreover have "node_wf ?m" using wf k by (simp add: node_wf_256)
  moreover have "same_header ?m n" by (simp add: same_header_def)
  moreover have "child_at ?m b' d \<longleftrightarrow> (if b' = b then d = q else child_at n b' d)" for b' d
    using k c q by (auto simp: child_at_def slot_at_def nth_list_update unat_u8_inject)
  ultimately show ?thesis by blast
qed

lemma place_child_spec:
  assumes "node_wf n" and "\<forall>c. \<not> child_at n b c" and "\<not> art_node_is_full (version n)" and "q \<noteq> 0"
  shows "\<exists>m. place_child b q n = Inr m \<and> node_wf m \<and> same_header m n \<and>
    (\<forall>b' d. child_at m b' d \<longleftrightarrow> (if b' = b then d = q else child_at n b' d))"
  using assms place_keyed [of n b q] place_48 [of n b q] place_256 [of n q b]
  by (cases rule: node_type_cases [of "version n"]) auto

section \<open>The children in order\<close>

lemma u8_of_nat: "i < 256 \<Longrightarrow> unat (of_nat i :: u8) = i"
  by (simp add: unat_of_nat)

lemma set_indexed_children:
  assumes "get_node_type (version n) = node48"
  shows "set (indexed_children n) = {c. \<exists>b. child_at n b c}"
proof -
  have "c \<in> set (indexed_children n) \<longleftrightarrow> (\<exists>b. child_at n b c)" for c
  proof
    assume "c \<in> set (indexed_children n)"
    then obtain i where i: "i < 256" "index n ! i \<noteq> 0" "c = child n ! (unat (index n ! i) - 1)"
      by (auto simp: indexed_children_def)
    then have "unat (index n ! i) \<noteq> 0" by (simp add: unat_eq_0)
    then have "slot_at n (of_nat i) (unat (index n ! i) - 1)"
      using assms i(1) by (simp add: slot_at_def u8_of_nat)
    with i(3) show "\<exists>b. child_at n b c" by (auto simp: child_at_def)
  next
    assume "\<exists>b. child_at n b c"
    then obtain b j where "slot_at n b j" "child n ! j = c"
      unfolding child_at_def by blast
    then have "unat (index n ! unat b) = j + 1" "child n ! j = c"
      using assms by (simp_all add: slot_at_def)
    then show "c \<in> set (indexed_children n)"
      by (auto simp: indexed_children_def unat_eq_0 intro!: image_eqI [of _ _ "unat b"])
  qed
  then show ?thesis by blast
qed

lemma set_keyed_children:
  assumes "node_wf n" and "keyed (version n)"
  shows "set (take (get_count (version n)) (child n)) = {c. \<exists>b. child_at n b c}"
proof -
  have "set (take (get_count (version n)) (child n)) = (!) (child n) ` {0..<get_count (version n)}"
    using keyed_wf [OF assms] by (intro nth_image [symmetric]) simp
  then show ?thesis
    using assms(2) by (auto simp: child_at_def slot_at_def)
qed

lemma set_visit_order:
  assumes "node_wf n"
  shows "set (visit_order n) = {c. \<exists>b. child_at n b c}"
proof (cases rule: node_type_cases [of "version n"])
  case 4
  have l: "length (child n) = 256" using assms 4 by (simp add: node_wf_256)
  have "c \<noteq> 0 \<and> c \<in> set (child n) \<longleftrightarrow> (\<exists>b. child_at n b c)" for c
  proof
    assume "c \<noteq> 0 \<and> c \<in> set (child n)"
    then obtain i where "i < 256" "child n ! i = c" "c \<noteq> 0"
      using l by (auto simp: in_set_conv_nth)
    then show "\<exists>b. child_at n b c"
      using 4 by (auto simp: child_at_def slot_at_def u8_of_nat intro!: exI [of _ "of_nat i"])
  qed (use 4 l in \<open>auto simp: child_at_def slot_at_def\<close>)
  with 4 l show ?thesis by (auto simp: visit_order_def Let_def)
qed (use assms set_keyed_children set_indexed_children in \<open>simp_all add: visit_order_def Let_def\<close>)

section \<open>Growth\<close>

text \<open>A freshly allocated node of the next layout.\<close>

definition grow_target :: "art_node \<Rightarrow> art_node \<Rightarrow> bool" where
  "grow_target n m \<longleftrightarrow>
     (if get_node_type (version n) = node4
      then version m = set_type 0 node16 \<and> length (key m) = 16 \<and> length (child m) = 16
      else if get_node_type (version n) = node16
      then version m = set_type 0 node48 \<and> index m = replicate 256 0 \<and> length (child m) = 48
      else version m = set_type 0 node256 \<and> child m = replicate 256 0)"

definition grown :: "art_node \<Rightarrow> art_node \<Rightarrow> art_node \<Rightarrow> bool" where
  "grown n m g \<longleftrightarrow>
     node_wf g \<and> (\<forall>b c. child_at g b c \<longleftrightarrow> child_at n b c) \<and> \<not> art_node_is_full (version g) \<and>
     prefix g = prefix n \<and> parent g = parent n \<and> sidle_meta g = sidle_meta m \<and> new_node g = new_node m \<and>
     get_prefix_len (version g) = get_prefix_len (version n) \<and>
     \<not> is_old (version g) \<and> \<not> is_locked (version g) \<and> \<not> is_expanding (version g)"

lemma get_prefix_len_less: "get_prefix_len v < 256"
  using unat_get_field_less [of 32 8 v] by (simp add: version_getters)

lemma grown_4_16:
  assumes wf: "node_wf n" and k: "get_node_type (version n) = node4" and full: "art_node_is_full (version n)"
    and m: "grow_target n m"
  shows "grown n m (grow_4_16 n m)"
proof -
  have n: "length (key n) = 4" "length (child n) = 4" "get_count (version n) = 4" "distinct (key n)"
    "length (prefix n) = 8"
    using wf k full by (auto simp: node_wf_4 art_node_is_full_def)
  have v: "get_node_type (version (grow_4_16 n m)) = node16" "get_count (version (grow_4_16 n m)) = 4"
    "get_prefix_len (version (grow_4_16 n m)) = get_prefix_len (version n)"
    "\<not> is_old (version (grow_4_16 n m))" "\<not> is_locked (version (grow_4_16 n m))"
    "\<not> is_expanding (version (grow_4_16 n m))"
    using m k by (simp_all add: grow_target_def grow_4_16_def bitfield get_prefix_len_less)
  have a: "length (key (grow_4_16 n m)) = 16" "length (child (grow_4_16 n m)) = 16"
    "take 4 (key (grow_4_16 n m)) = key n" "take 4 (child (grow_4_16 n m)) = child n"
    "prefix (grow_4_16 n m) = prefix n" "parent (grow_4_16 n m) = parent n"
    "sidle_meta (grow_4_16 n m) = sidle_meta m" "new_node (grow_4_16 n m) = new_node m"
    using m k n by (simp_all add: grow_target_def grow_4_16_def)
  have nth: "j < 4 \<Longrightarrow> key (grow_4_16 n m) ! j = key n ! j \<and> child (grow_4_16 n m) ! j = child n ! j" for j
    using a(3,4) by (metis nth_take)
  have "child_at (grow_4_16 n m) b c \<longleftrightarrow> child_at n b c" for b c
    using nth v k n by (auto simp: child_at_def slot_at_def)
  then show ?thesis
    using v a n by (simp add: grown_def node_wf_16 art_node_is_full_def)
qed

lemma index_keys_spec:
  "distinct ks \<Longrightarrow> length idx = 256 \<Longrightarrow> length (index_keys ks i idx) = 256 \<and>
    (\<forall>b. b \<notin> set ks \<longrightarrow> index_keys ks i idx ! unat b = idx ! unat b) \<and>
    (\<forall>j < length ks. index_keys ks i idx ! unat (ks ! j) = of_nat (i + j + 1))"
proof (induction ks arbitrary: i idx)
  case (Cons k ks)
  let ?idx = "idx[unat k := of_nat (i + 1)]"
  have IH: "length (index_keys ks (Suc i) ?idx) = 256"
    "\<And>b. b \<notin> set ks \<Longrightarrow> index_keys ks (Suc i) ?idx ! unat b = ?idx ! unat b"
    "\<And>j. j < length ks \<Longrightarrow> index_keys ks (Suc i) ?idx ! unat (ks ! j) = of_nat (Suc i + j + 1)"
    using Cons.IH [of ?idx "Suc i"] Cons.prems by simp_all
  have k: "index_keys ks (Suc i) ?idx ! unat k = of_nat (i + 1)"
    using IH(2) [of k] Cons.prems by simp
  have "index_keys (k # ks) i idx ! unat ((k # ks) ! j) = of_nat (i + j + 1)" if "j < length (k # ks)" for j
    using that IH(3) k by (cases j) simp_all
  moreover have "index_keys (k # ks) i idx ! unat b = idx ! unat b" if "b \<notin> set (k # ks)" for b
  proof -
    have "unat k \<noteq> unat b" using that by (auto simp: unat_u8_inject)
    then show ?thesis using that IH(2) [of b] by simp
  qed
  ultimately show ?case using IH(1) by simp
qed simp

lemma grown_16_48:
  assumes wf: "node_wf n" and k: "get_node_type (version n) = node16" and full: "art_node_is_full (version n)"
    and m: "grow_target n m"
  shows "grown n m (grow_16_48 n m)"
proof -
  let ?g = "grow_16_48 n m"
  have n: "length (key n) = 16" "length (child n) = 16" "get_count (version n) = 16" "distinct (key n)"
    "length (prefix n) = 8"
    using wf k full by (auto simp: node_wf_16 art_node_is_full_def)
  have t: "version m = set_type 0 node48" "index m = replicate 256 0" "length (child m) = 48"
    using m k by (simp_all add: grow_target_def)
  have v: "get_node_type (version ?g) = node48" "get_count (version ?g) = 16"
    "get_prefix_len (version ?g) = get_prefix_len (version n)"
    "\<not> is_old (version ?g)" "\<not> is_locked (version ?g)" "\<not> is_expanding (version ?g)"
    using t by (simp_all add: grow_16_48_def bitfield get_prefix_len_less)
  have a: "length (index ?g) = 256" "length (child ?g) = 48" "take 16 (child ?g) = child n"
    "index ?g = index_keys (key n) 0 (replicate 256 0)"
    "prefix ?g = prefix n" "parent ?g = parent n"
    "sidle_meta ?g = sidle_meta m" "new_node ?g = new_node m"
    using t n index_keys_spec [of "key n" "replicate 256 0" 0] by (simp_all add: grow_16_48_def)
  have out: "b \<notin> set (key n) \<Longrightarrow> index ?g ! unat b = 0" for b
    using index_keys_spec [of "key n" "replicate 256 0" 0] n a(4) by simp
  have hit: "j < 16 \<Longrightarrow> index ?g ! unat (key n ! j) = of_nat (j + 1)" for j
    using index_keys_spec [of "key n" "replicate 256 0" 0] n a(4) by simp
  have u: "j < 16 \<Longrightarrow> unat (of_nat (j + 1) :: u8) = j + 1" for j
    by (simp add: u8_of_nat del: of_nat_add of_nat_Suc)
  have slot: "slot_at ?g b i \<longleftrightarrow> i < 16 \<and> key n ! i = b" for b i
  proof (cases "b \<in> set (key n)")
    case True
    then obtain j where j: "j < 16" "key n ! j = b" using n by (auto simp: in_set_conv_nth)
    then have "slot_at ?g b i \<longleftrightarrow> i = j"
      using v hit u by (auto simp: slot_at_def simp del: of_nat_add of_nat_Suc)
    with j n show ?thesis by (auto simp: nth_eq_iff_index_eq)
  next
    case False
    then show ?thesis using v out n by (auto simp: slot_at_def)
  qed
  have nth: "j < 16 \<Longrightarrow> child ?g ! j = child n ! j" for j
    using a(3) by (metis nth_take)
  have child: "child_at ?g b c \<longleftrightarrow> child_at n b c" for b c
  proof -
    have "slot_at n b i \<longleftrightarrow> i < 16 \<and> key n ! i = b" for i
      using k n by (simp add: slot_at_def)
    then show ?thesis using nth slot by (auto simp: child_at_def)
  qed
  have le: "unat (index ?g ! j) \<le> 16" if "j < 256" for j
  proof (cases "(of_nat j :: u8) \<in> set (key n)")
    case True
    then obtain i where "i < 16" "key n ! i = of_nat j" using n by (auto simp: in_set_conv_nth)
    with hit [of i] u [of i] that show ?thesis by (simp add: u8_of_nat del: of_nat_add of_nat_Suc)
  next
    case False
    with out [of "of_nat j"] that show ?thesis by (simp add: u8_of_nat)
  qed
  have inj: "i = j" if "i < 256" "j < 256" "index ?g ! i \<noteq> 0" "index ?g ! i = index ?g ! j" for i j
  proof -
    have "unat (index ?g ! i) \<noteq> 0" using that(3) by (simp add: unat_eq_0)
    then have "slot_at ?g (of_nat i) (unat (index ?g ! i) - 1)"
      "slot_at ?g (of_nat j) (unat (index ?g ! i) - 1)"
      using that v by (simp_all add: slot_at_def u8_of_nat)
    then have "(of_nat i :: u8) = of_nat j" using slot by metis
    then show ?thesis using that u8_of_nat by metis
  qed
  have inj': "\<forall>i < 256. \<forall>j < 256. index ?g ! i \<noteq> 0 \<and> index ?g ! i = index ?g ! j \<longrightarrow> i = j"
    using inj by blast
  have "node_wf ?g"
    by (rule iffD2 [OF node_wf_48 [OF v(1)]], intro conjI inj')
      (use v(2) a(1,2,5) n(5) le in simp_all)
  then show ?thesis
    using v a child by (simp add: grown_def art_node_is_full_def)
qed

lemma grown_48_256:
  assumes wf: "node_wf n" and k: "get_node_type (version n) = node48"
    and m: "grow_target n m" and nz: "\<And>b c. child_at n b c \<Longrightarrow> c \<noteq> 0"
  shows "grown n m (grow_48_256 n m)"
proof -
  let ?g = "grow_48_256 n m"
  have t: "version m = set_type 0 node256" "child m = replicate 256 0"
    using m k by (simp_all add: grow_target_def)
  have v: "get_node_type (version ?g) = node256"
    "get_prefix_len (version ?g) = get_prefix_len (version n)"
    "\<not> is_old (version ?g)" "\<not> is_locked (version ?g)" "\<not> is_expanding (version ?g)"
    using t by (simp_all add: grow_48_256_def bitfield get_prefix_len_less)
  have c: "child ?g ! unat b =
      (if index n ! unat b \<noteq> 0 then child n ! (unat (index n ! unat b) - 1) else 0)" for b :: u8
  proof -
    have "map f [0..<256] ! unat b = f (unat b)" for f :: "nat \<Rightarrow> u64"
      using unat_u8_less [of b] by (subst nth_map) (simp_all del: unat_u8_less)
    moreover have "replicate 256 (0 :: u64) ! unat b = 0"
      using unat_u8_less [of b] by (rule nth_replicate)
    ultimately show ?thesis
      using t by (simp add: grow_48_256_def indexed_child_def Let_def)
  qed
  have child: "child_at ?g b d \<longleftrightarrow> child_at n b d" for b d
  proof (cases "index n ! unat b = 0")
    case True
    then show ?thesis using c [of b] v k by (simp add: child_at_def slot_at_def)
  next
    case False
    then have "unat (index n ! unat b) \<noteq> 0" by (simp add: unat_eq_0)
    then have s: "slot_at n b i \<longleftrightarrow> i = unat (index n ! unat b) - 1" for i
      using k by (auto simp: slot_at_def)
    then have "child n ! (unat (index n ! unat b) - 1) \<noteq> 0"
      using nz by (auto simp: child_at_def)
    with s c [of b] False v show ?thesis by (auto simp: child_at_def slot_at_def)
  qed
  have "node_wf ?g"
    using wf k v by (simp add: node_wf_256 node_wf_48) (simp add: grow_48_256_def)
  then show ?thesis
    using v child by (simp add: grown_def art_node_is_full_def) (simp add: grow_48_256_def)
qed

lemma grow_copy_spec:
  assumes "node_wf n" and "art_node_is_full (version n)" and "grow_target n m"
    and "\<And>b c. child_at n b c \<Longrightarrow> c \<noteq> 0"
  shows "grown n m (grow_copy n m)"
  using assms grown_4_16 [of n m] grown_16_48 [of n m] grown_48_256 [of n m]
  by (cases rule: node_type_cases [of "version n"]) (auto simp: grow_copy_def art_node_is_full_def)

lemma set_grow_children:
  assumes "node_wf n" and "art_node_is_full (version n)"
  shows "set (grow_children n) = {c. \<exists>b. child_at n b c}"
  using assms set_keyed_children [of n] set_indexed_children [of n]
  by (cases rule: node_type_cases [of "version n"]) (auto simp: grow_children_def art_node_is_full_def)

end
