(* ===== verification/Art_Space.thy ===== *)
theory Art_Space
  imports Art_Layout
begin

text \<open>
  Memory for the tree. \<open>room n h\<close> is what \<open>n\<close> allocations rely on: the allocator is initialised and
  will answer each call with an even address that is not in use, and the account of local memory is
  not negative and far from its 64-bit limit. \<open>alloc_step\<close> is what one allocation does to the state.
  The second half evaluates the operations on the version word and on a single node.
\<close>

section \<open>Addresses to come\<close>

definition spare :: "art_heap \<Rightarrow> u64 set" where
  "spare h = set (local_next (cxl h)) \<union> set (cxl_next (cxl h))"

definition spare_fresh :: "art_heap \<Rightarrow> bool" where
  "spare_fresh h \<longleftrightarrow> (\<forall>a \<in> spare h. even a \<and> a \<noteq> 0 \<and> nodes h a = None \<and> leaves h a = None)"

definition usage_of :: "art_heap \<Rightarrow> int" where
  "usage_of h = sint (cur_local_memory_usage (strategy_manager h))"

definition room :: "nat \<Rightarrow> art_heap \<Rightarrow> bool" where
  "room n h \<longleftrightarrow> cxl_kind (cxl h) \<and> n \<le> length (local_next (cxl h)) \<and> n \<le> length (cxl_next (cxl h)) \<and>
     distinct (local_next (cxl h) @ cxl_next (cxl h)) \<and> spare_fresh h \<and>
     0 \<le> usage_of h \<and> usage_of h + 4096 * int n < 2 ^ 63"

lemma room_spare: "room n h \<Longrightarrow> a \<in> spare h \<Longrightarrow> even a \<and> a \<noteq> 0 \<and> nodes h a = None \<and> leaves h a = None"
  by (simp add: room_def spare_fresh_def)

lemma room_mono: "room n h \<Longrightarrow> m \<le> n \<Longrightarrow> room m h"
  by (auto simp: room_def)

text \<open>Room does not depend on what is stored outside the addresses to come.\<close>

definition same_state :: "art_heap \<Rightarrow> art_heap \<Rightarrow> bool" where
  "same_state h h' \<longleftrightarrow> cxl h' = cxl h \<and> strategy_manager h' = strategy_manager h"

lemma spare_cong: "cxl h' = cxl h \<Longrightarrow> spare h' = spare h"
  by (simp add: spare_def)

lemma room_cong:
  assumes "room n h" and "cxl h' = cxl h" and "strategy_manager h' = strategy_manager h"
    and "\<And>a. a \<in> spare h \<Longrightarrow> nodes h' a = None \<and> leaves h' a = None"
  shows "room n h'"
  using assms by (auto simp: room_def spare_fresh_def usage_of_def spare_cong [OF assms(2)])

lemma spare_store [simp]: "spare (store_node a n h) = spare h" "spare (store_leaf a l h) = spare h"
  "spare (h\<lparr>art_root := r\<rparr>) = spare h"
  by (simp_all add: spare_def)

lemma room_store:
  "room m h \<Longrightarrow> a \<notin> spare h \<Longrightarrow> room m (store_node a n h)"
  "room m h \<Longrightarrow> a \<notin> spare h \<Longrightarrow> room m (store_leaf a l h)"
  "room m h \<Longrightarrow> room m (h\<lparr>art_root := r\<rparr>)"
  by (rule room_cong [of m h]; auto dest: room_spare)+

section \<open>One allocation\<close>

definition alloc_step :: "art_heap \<Rightarrow> u64 \<Rightarrow> art_heap \<Rightarrow> bool" where
  "alloc_step h a h1 \<longleftrightarrow>
     nodes h1 = nodes h \<and> leaves h1 = leaves h \<and> art_root h1 = art_root h \<and> ndebug h1 = ndebug h \<and>
     junk h1 = junk h \<and> a \<in> spare h \<and> a \<notin> spare h1 \<and> spare h1 \<subseteq> spare h \<and>
     (\<forall>m. room (Suc m) h \<longrightarrow> room m h1)"

lemma usage_add:
  assumes "0 \<le> sint u" and "sint u + int s < 2 ^ 63"
  shows "sint (u + of_nat s :: i64) = sint u + int s"
proof -
  have s: "sint (of_nat s :: i64) = int s"
    using assms by (simp add: signed_of_nat signed_take_bit_int_eq_self)
  have "sint (u + of_nat s) = signed_take_bit 63 (sint u + sint (of_nat s :: i64))"
    by (simp add: sint_word_ariths)
  also have "\<dots> = sint u + int s"
    using assms s by (simp add: signed_take_bit_int_eq_self)
  finally show ?thesis .
qed

lemma update_usage_ok:
  assumes "0 \<le> sint (cur_local_memory_usage st)"
    and "sint (cur_local_memory_usage st) + int s < 2 ^ 63"
  shows "\<exists>st' b'. update_local_memory_usage nd ty d (of_nat s) False lf st b = Inr (st', b') \<and>
    sint (cur_local_memory_usage st') \<in>
      {sint (cur_local_memory_usage st), sint (cur_local_memory_usage st) + int s}"
proof -
  define st1 where "st1 = account_memory ty d (of_nat s) False lf st"
  have u: "sint (cur_local_memory_usage st1) \<in>
      {sint (cur_local_memory_usage st), sint (cur_local_memory_usage st) + int s}"
    using usage_add [OF assms] by (auto simp: st1_def account_memory_def Let_def)
  then have nn: "\<not> sint (cur_local_memory_usage st1) < 0"
    using assms(1) by auto
  have "cur_local_memory_usage (fst (signal_memory_status st1 b)) = cur_local_memory_usage st1"
    by (simp add: signal_memory_status_def Let_def)
  with u nn show ?thesis
    by (cases "signal_memory_status st1 b")
      (auto simp: update_local_memory_usage_def Let_def st1_def [symmetric])
qed

lemma malloc_on_cxl_room:
  assumes "room (Suc m) h"
  shows "\<exists>a r. cxl_next (cxl h) = a # r \<and>
    malloc_on_cxl (cxl h) = Inr (1, a, (cxl h)\<lparr>cxl_next := r\<rparr>)"
proof -
  from assms obtain a r where a: "cxl_next (cxl h) = a # r"
    by (cases "cxl_next (cxl h)") (auto simp: room_def)
  then have "a \<noteq> 0" using room_spare [OF assms, of a] by (simp add: spare_def)
  with a assms show ?thesis
    by (simp add: malloc_on_cxl_def memkind_alloc_def room_def)
qed

lemma libc_alloc_room:
  assumes "room (Suc m) h"
  shows "\<exists>a r. local_next (cxl h) = a # r \<and> libc_alloc (cxl h) = (a, (cxl h)\<lparr>local_next := r\<rparr>)"
  using assms by (cases "local_next (cxl h)") (auto simp: room_def libc_alloc_def)

lemma alloc_step_room:
  assumes r: "room (Suc m) h"
    and c: "(\<exists>xs. cxl_next (cxl h) = a # xs \<and> c = (cxl h)\<lparr>cxl_next := xs\<rparr>) \<or>
            (\<exists>xs. local_next (cxl h) = a # xs \<and> c = (cxl h)\<lparr>local_next := xs\<rparr>)"
    and u: "sint (cur_local_memory_usage st) \<in> {usage_of h, usage_of h + int s}" "s \<le> 4096"
  shows "alloc_step h a (h\<lparr>cxl := c, strategy_manager := st, base := b\<rparr>)"
proof -
  let ?h = "h\<lparr>cxl := c, strategy_manager := st, base := b\<rparr>"
  have d: "distinct (local_next (cxl h) @ cxl_next (cxl h))" using r by (simp add: room_def)
  have s: "a \<in> spare h" "a \<notin> spare ?h" "spare ?h \<subseteq> spare h"
    using c d by (auto simp: spare_def)
  have "room k ?h" if "room (Suc k) h" for k
  proof -
    have "spare_fresh ?h"
      using that s(3) by (auto simp: room_def spare_fresh_def)
    moreover have "0 \<le> usage_of ?h" "usage_of ?h + 4096 * int k < 2 ^ 63"
      using that u by (auto simp: room_def usage_of_def)
    moreover have "cxl_kind c" "k \<le> length (local_next c)" "k \<le> length (cxl_next c)"
      "distinct (local_next c @ cxl_next c)"
      using that c d by (auto simp: room_def)
    ultimately show ?thesis by (simp add: room_def)
  qed
  with s show ?thesis by (simp add: alloc_step_def)
qed

lemma sidle_alloc_room:
  assumes r: "room (Suc m) h" and s: "old \<le> sz" "sz - old \<le> 4096"
  shows "\<exists>a ty d h1. sidle_alloc sz pm tt False lf old h = Inr (a, ty, d, h1) \<and> alloc_step h a h1"
proof -
  have sz: "(of_nat sz - of_nat old :: i64) = of_nat (sz - old)"
    using s(1) by (simp add: of_nat_diff)
  define cur where "cur = (case pm of None \<Rightarrow> 1 | Some p \<Rightarrow> to_u8 (uint (md_depth p) + 1))"
  define ty where "ty = (if tt = Mem_Unknown then decide_new_node_position (strategy_manager h)
    (case pm of None \<Rightarrow> Mem_Unknown | Some p \<Rightarrow> md_type p) cur else tt)"
  have "usage_of h + int (sz - old) < 2 ^ 63"
    using r s(2) by (simp add: room_def)
  then obtain st b where u: "update_local_memory_usage (ndebug h) ty (if lf then cur else LEAF_DEPTH)
      (of_nat (sz - old)) False lf (strategy_manager h) (base h) = Inr (st, b)"
    "sint (cur_local_memory_usage st) \<in> {usage_of h, usage_of h + int (sz - old)}"
    using update_usage_ok [of "strategy_manager h" "sz - old" "ndebug h" ty
      "if lf then cur else LEAF_DEPTH" lf "base h"] r by (auto simp: usage_of_def room_def)
  have keep: "sint (cur_local_memory_usage (strategy_manager h)) \<in> {usage_of h, usage_of h + int (sz - old)}"
    by (simp add: usage_of_def)
  show ?thesis
  proof (cases "ty = Mem_Remote")
    case True
    from malloc_on_cxl_room [OF r] obtain a xs where a: "cxl_next (cxl h) = a # xs"
      "malloc_on_cxl (cxl h) = Inr (1, a, (cxl h)\<lparr>cxl_next := xs\<rparr>)" by blast
    then have "a \<noteq> 0" using room_spare [OF r, of a] by (simp add: spare_def)
    then have "sidle_alloc sz pm tt False lf old h = Inr (a, ty, cur, h\<lparr>cxl := (cxl h)\<lparr>cxl_next := xs\<rparr>\<rparr>)"
      using a(2) True
      by (simp add: sidle_alloc_def Let_def cur_def [symmetric] ty_def [symmetric])
    moreover have "alloc_step h a (h\<lparr>cxl := (cxl h)\<lparr>cxl_next := xs\<rparr>, strategy_manager := strategy_manager h, base := base h\<rparr>)"
      by (rule alloc_step_room [OF r _ keep s(2)]) (use a(1) in blast)
    ultimately show ?thesis by auto
  next
    case False
    from libc_alloc_room [OF r] obtain a xs where a: "local_next (cxl h) = a # xs"
      "libc_alloc (cxl h) = (a, (cxl h)\<lparr>local_next := xs\<rparr>)" by blast
    then have nz: "a \<noteq> 0" using room_spare [OF r, of a] by (simp add: spare_def)
    have step: "sint (cur_local_memory_usage st') \<in> {usage_of h, usage_of h + int (sz - old)} \<Longrightarrow>
      alloc_step h a (h\<lparr>cxl := (cxl h)\<lparr>local_next := xs\<rparr>, strategy_manager := st', base := b'\<rparr>)" for st' b'
      by (rule alloc_step_room [OF r _ _ s(2)]) (use a(1) in blast)
    show ?thesis
    proof (cases "ty = Mem_Local")
      case True
      then have "sidle_alloc sz pm tt False lf old h =
          Inr (a, ty, cur, h\<lparr>cxl := (cxl h)\<lparr>local_next := xs\<rparr>, strategy_manager := st, base := b\<rparr>)"
        using a(2) nz u(1) \<open>ty \<noteq> Mem_Remote\<close>
        by (simp add: sidle_alloc_def Let_def cur_def [symmetric] ty_def [symmetric] sz)
      then show ?thesis using step [OF u(2)] by blast
    next
      case False
      then have "sidle_alloc sz pm tt False lf old h =
          Inr (a, ty, cur, h\<lparr>cxl := (cxl h)\<lparr>local_next := xs\<rparr>\<rparr>)"
        using a(2) nz \<open>ty \<noteq> Mem_Remote\<close>
        by (simp add: sidle_alloc_def Let_def cur_def [symmetric] ty_def [symmetric])
      then show ?thesis using step [OF keep, of "base h"] by auto
    qed
  qed
qed

section \<open>New nodes and leaves\<close>

lemma store_node_twice [simp]: "store_node a n (store_node a m h) = store_node a n h"
  by (simp add: store_node_def)

lemma store_node_same: "nodes h a = Some n \<Longrightarrow> store_node a n h = h"
  by (simp add: store_node_def fun_upd_idem)

lemma parent_meta_ok: "p = 0 \<or> nodes h p \<noteq> None \<Longrightarrow> \<exists>pm. parent_meta p h = Inr pm"
  by (auto simp: parent_meta_def load_node_def)

lemma new_sized_node_room:
  assumes "room (Suc m) h" and "par = 0 \<or> nodes h par \<noteq> None" and "old \<le> sz" and "sz - old \<le> 4096"
  shows "\<exists>a ty d h1. new_sized_node sz par old tt False h =
      Inr (a, store_node a (raw_node sz ty d (junk h)) h1) \<and> alloc_step h a h1"
proof -
  obtain pm where pm: "parent_meta par h = Inr pm" using parent_meta_ok [OF assms(2)] by blast
  obtain a ty d h1 where "sidle_alloc sz pm tt False False old h = Inr (a, ty, d, h1)" "alloc_step h a h1"
    using sidle_alloc_room [OF assms(1,3,4)] by blast
  with pm show ?thesis by (auto simp: new_sized_node_def)
qed

definition blank :: "art_node \<Rightarrow> bool" where
  "blank n \<longleftrightarrow> length (prefix n) = 8 \<and> new_node n = 0 \<and> parent n = 0"

lemma raw_node_blank: "blank (raw_node sz ty d j)" "version (raw_node sz ty d j) = 0"
  by (simp_all add: raw_node_def blank_def split: prod.splits)

lemma raw_arrays [simp]:
  "length (key (raw_node sizeof_art_node4 ty d j)) = 4"
  "length (child (raw_node sizeof_art_node4 ty d j)) = 4"
  "length (key (raw_node sizeof_art_node16 ty d j)) = 16"
  "length (child (raw_node sizeof_art_node16 ty d j)) = 16"
  "length (child (raw_node sizeof_art_node48 ty d j)) = 48"
  by (simp_all add: raw_node_def node_arrays_def sizeof_art_node4_def sizeof_art_node16_def
      sizeof_art_node48_def)

lemma sizes: "sizeof_art_node4 = 80" "sizeof_art_node16 = 184" "sizeof_art_node48 = 680"
  "sizeof_art_node256 = 2088"
  by (simp_all add: sizeof_art_node4_def sizeof_art_node16_def sizeof_art_node48_def
      sizeof_art_node256_def)

lemma new_art_node_room:
  assumes "room (Suc m) h" and "par = 0 \<or> nodes h par \<noteq> None"
  shows "\<exists>a n h1. new_art_node par h = Inr (a, store_node a n h1) \<and> alloc_step h a h1 \<and> blank n \<and>
    version n = set_type 0 node4 \<and> length (key n) = 4 \<and> length (child n) = 4"
proof -
  obtain a ty d h1 where "new_sized_node sizeof_art_node4 par 0 Mem_Unknown False h =
      Inr (a, store_node a (raw_node sizeof_art_node4 ty d (junk h)) h1)" "alloc_step h a h1"
    using new_sized_node_room [OF assms, of 0 sizeof_art_node4 Mem_Unknown] by (auto simp: sizes)
  then show ?thesis
    by (intro exI [of _ a] exI [of _ "(raw_node sizeof_art_node4 ty d (junk h))
        \<lparr>version := set_type 0 node4\<rparr>"] exI [of _ h1])
      (simp add: new_art_node_def new_art_node4_def modify_node_simp raw_node_blank
        raw_node_blank(1) [unfolded blank_def] blank_def)
qed

lemma grow_allocate_room:
  assumes "room (Suc m) h" and "parent n = 0 \<or> nodes h (parent n) \<noteq> None"
    and "art_node_is_full (version n)"
  shows "\<exists>a t h1. grow_allocate n h = Inr (a, store_node a t h1) \<and> alloc_step h a h1 \<and> blank t \<and>
    grow_target n t"
proof (cases rule: node_type_cases [of "version n"])
  case 1
  obtain a ty d h1 where "new_sized_node sizeof_art_node16 (parent n) (sizeof_art_node16 - sizeof_art_node4)
      Mem_Unknown False h = Inr (a, store_node a (raw_node sizeof_art_node16 ty d (junk h)) h1)"
    "alloc_step h a h1"
    using new_sized_node_room [OF assms(1,2), of "sizeof_art_node16 - sizeof_art_node4" sizeof_art_node16 Mem_Unknown]
    by (auto simp: sizes)
  with 1 show ?thesis
    by (intro exI [of _ a] exI [of _ "(raw_node sizeof_art_node16 ty d (junk h))
        \<lparr>version := set_type 0 node16\<rparr>"] exI [of _ h1])
      (simp add: grow_allocate_def new_art_node16_def modify_node_simp raw_node_blank grow_target_def
        raw_node_blank(1) [unfolded blank_def] blank_def)
next
  case 2
  obtain a ty d h1 where "new_sized_node sizeof_art_node48 (parent n) (sizeof_art_node48 - sizeof_art_node16)
      Mem_Unknown False h = Inr (a, store_node a (raw_node sizeof_art_node48 ty d (junk h)) h1)"
    "alloc_step h a h1"
    using new_sized_node_room [OF assms(1,2), of "sizeof_art_node48 - sizeof_art_node16" sizeof_art_node48 Mem_Unknown]
    by (auto simp: sizes)
  with 2 show ?thesis
    by (intro exI [of _ a] exI [of _ "(raw_node sizeof_art_node48 ty d (junk h))
        \<lparr>version := set_type 0 node48, index := replicate 256 0\<rparr>"] exI [of _ h1])
      (simp add: grow_allocate_def new_art_node48_def modify_node_simp raw_node_blank grow_target_def
        raw_node_blank(1) [unfolded blank_def] blank_def)
next
  case 3
  obtain a ty d h1 where "new_sized_node sizeof_art_node256 (parent n) (sizeof_art_node256 - sizeof_art_node48)
      Mem_Unknown False h = Inr (a, store_node a (raw_node sizeof_art_node256 ty d (junk h)) h1)"
    "alloc_step h a h1"
    using new_sized_node_room [OF assms(1,2), of "sizeof_art_node256 - sizeof_art_node48" sizeof_art_node256 Mem_Unknown]
    by (auto simp: sizes)
  with 3 show ?thesis
    by (intro exI [of _ a] exI [of _ "(raw_node sizeof_art_node256 ty d (junk h))
        \<lparr>child := replicate 256 0, version := set_type 0 node256\<rparr>"] exI [of _ h1])
      (simp add: grow_allocate_def new_art_node256_def modify_node_simp raw_node_blank grow_target_def
        raw_node_blank(1) [unfolded blank_def] blank_def)
next
  case 4
  with assms(3) show ?thesis by (simp add: art_node_is_full_def)
qed

lemma alloc_leaf_room:
  assumes "room (Suc m) h" and "par = 0 \<or> nodes h par \<noteq> None" and "length k \<le> 4000"
  shows "\<exists>a l h1. alloc_leaf par k tt False h = Inr (a + 1, store_leaf a l h1) \<and> alloc_step h a h1 \<and>
    leaf_key l = k \<and> key_length l = of_nat (length k)"
proof -
  obtain pm where pm: "parent_meta par h = Inr pm" using parent_meta_ok [OF assms(2)] by blast
  obtain a ty d h1 where s: "sidle_alloc (sizeof_leaf_node + length k) pm tt False True 0 h =
      Inr (a, ty, d, h1)" "alloc_step h a h1"
    using sidle_alloc_room [OF assms(1), of 0 "sizeof_leaf_node + length k" pm tt True] assms(3)
    by (auto simp: sizeof_leaf_node_def)
  then have "even a" using room_spare [OF assms(1)] by (auto simp: alloc_step_def)
  with pm s show ?thesis
    by (intro exI [of _ a] exI [of _ "\<lparr>key_length = of_nat (length k),
        leaf_meta = make_leaf_metadata ty d 0, leaf_key = k\<rparr>"] exI [of _ h1])
      (simp add: alloc_leaf_def make_leaf_even)
qed

section \<open>The lock of one node\<close>

lemma unset_set_lock: "\<not> is_locked v \<Longrightarrow> unset_lock (set_lock v) = v"
proof (rule bit_word_eqI)
  fix n assume "\<not> is_locked v" "n < LENGTH(64)"
  then show "bit (unset_lock (set_lock v)) n \<longleftrightarrow> bit v n"
    by (cases "n = 18") (auto simp: version_flags version_flag_setters bit_set_field bit_1_iff)
qed

lemma get_version_simp: "nodes h a = Some n \<Longrightarrow> art_node_get_version a h = Inr (version n)"
  by (simp add: art_node_get_version_def load_node_simp)

lemma set_version_simp:
  "nodes h a = Some n \<Longrightarrow> art_node_set_version a v h = Inr (store_node a (n\<lparr>version := v\<rparr>) h)"
  by (simp add: art_node_set_version_def modify_node_simp)

lemma lock_simp:
  "nodes h a = Some n \<Longrightarrow> \<not> is_locked (version n) \<Longrightarrow> \<not> is_old (version n) \<Longrightarrow>
     art_node_lock a h = Inr (0, store_node a (n\<lparr>version := set_lock (version n)\<rparr>) h)"
  by (simp add: art_node_lock_def get_version_simp set_version_simp)

lemma lock_spin: "nodes h a = Some n \<Longrightarrow> is_locked (version n) \<Longrightarrow> art_node_lock a h = Inl Spin"
  by (simp add: art_node_lock_def get_version_simp)

lemma unlock_simp:
  "nodes h a = Some n \<Longrightarrow> \<not> is_expanding (version n) \<Longrightarrow>
     art_node_unlock a h = Inr (store_node a (n\<lparr>version := unset_lock (version n)\<rparr>) h)"
  by (simp add: art_node_unlock_def get_version_simp set_version_simp Let_def)

lemma unlock_expanding_simp:
  "nodes h a = Some n \<Longrightarrow> is_expanding (version n) \<Longrightarrow>
     art_node_unlock a h =
       Inr (store_node a (n\<lparr>version := unset_lock (unset_expand (incr_vexpand (version n)))\<rparr>) h)"
  by (simp add: art_node_unlock_def get_version_simp set_version_simp Let_def)

lemma set_offset_simp:
  "nodes h a = Some n \<Longrightarrow>
     art_node_set_offset a k h = Inr (store_node a (n\<lparr>version := set_offset (version n) k\<rparr>) h)"
  by (simp add: art_node_set_offset_def modify_node_simp)

lemma set_new_node_simp:
  "nodes h a = Some n \<Longrightarrow> art_node_set_new_node a b h = Inr (store_node a (n\<lparr>new_node := b\<rparr>) h)"
  by (simp add: art_node_set_new_node_def modify_node_simp)

lemma assert_lock_simp:
  "\<not> ndebug h \<Longrightarrow> nodes h a = Some n \<Longrightarrow> \<not> is_locked (version n) \<Longrightarrow> \<not> is_old (version n) \<Longrightarrow>
     assert_eff (lock_succeeds a) h = Inr (store_node a (n\<lparr>version := set_lock (version n)\<rparr>) h)"
  by (simp add: assert_eff_def lock_succeeds_def lock_simp)

lemma find_child_simp: "nodes h a = Some n \<Longrightarrow> art_node_find_child a v b h = find_slot n v b"
  by (simp add: art_node_find_child_def load_node_simp)

section \<open>Redirecting the parent pointers\<close>

definition reparent :: "u64 \<Rightarrow> u64 set \<Rightarrow> (u64 \<rightharpoonup> art_node) \<Rightarrow> (u64 \<rightharpoonup> art_node)" where
  "reparent new cs ns =
     (\<lambda>a. if a \<in> cs \<and> \<not> is_leaf a then map_option (\<lambda>n. n\<lparr>parent := new\<rparr>) (ns a) else ns a)"

lemma adopt_simp:
  "(\<And>c. c \<in> set cs \<Longrightarrow> \<not> is_leaf c \<Longrightarrow> nodes h c \<noteq> None) \<Longrightarrow>
     adopt new cs h = Inr (h\<lparr>nodes := reparent new (set cs) (nodes h)\<rparr>)"
proof (induction cs arbitrary: h)
  case (Cons c cs)
  show ?case
  proof (cases "is_leaf c")
    case True
    then have "reparent new (set (c # cs)) (nodes h) = reparent new (set cs) (nodes h)"
      by (auto simp: reparent_def)
    with True Cons.IH [of h] Cons.prems show ?thesis by simp
  next
    case False
    then obtain n where n: "nodes h c = Some n" using Cons.prems by fastforce
    let ?h = "store_node c (n\<lparr>parent := new\<rparr>) h"
    have "adopt new cs ?h = Inr (?h\<lparr>nodes := reparent new (set cs) (nodes ?h)\<rparr>)"
      by (rule Cons.IH) (use Cons.prems in auto)
    moreover have "reparent new (set cs) (nodes ?h) = reparent new (set (c # cs)) (nodes h)"
      using False n by (auto simp: reparent_def)
    ultimately show ?thesis using False n by (simp add: modify_node_simp store_node_def)
  qed
qed (simp add: reparent_def)

end
