(* ===== verification/Art_Trie.thy ===== *)
theory Art_Trie
  imports Art_Space Art_Tree "HOL-Library.AList"
begin

text \<open>
  The abstract tree behind the heap. A \<open>trie\<close> has the shape of a radix tree with path compression and
  records the address of every node; \<open>rep\<close> says that the heap holds such a trie below a pointer.
  Keys have one fixed length (the indexes of the program are keyed by integers of eight bytes).
\<close>

section \<open>Tries\<close>

datatype trie = Leaf_T u64 "u8 list" | Node_T u64 "u8 list" "(u8 \<times> trie) list"

fun ptr_of :: "trie \<Rightarrow> u64" where
  "ptr_of (Leaf_T a k) = a + 1"
| "ptr_of (Node_T a p f) = a"

fun keys_of :: "trie \<Rightarrow> u8 list set" where
  "keys_of (Leaf_T a k) = {k}"
| "keys_of (Node_T a p f) = (\<Union>x \<in> set f. keys_of (snd x))"

fun nodes_of :: "trie \<Rightarrow> u64 set" where
  "nodes_of (Leaf_T a k) = {}"
| "nodes_of (Node_T a p f) = insert a (\<Union>x \<in> set f. nodes_of (snd x))"

fun leaves_of :: "trie \<Rightarrow> u64 set" where
  "leaves_of (Leaf_T a k) = {a}"
| "leaves_of (Node_T a p f) = (\<Union>x \<in> set f. leaves_of (snd x))"

text \<open>No address occurs twice.\<close>

definition apart :: "trie \<Rightarrow> trie \<Rightarrow> bool" where
  "apart t u \<longleftrightarrow> nodes_of t \<inter> nodes_of u = {} \<and> leaves_of t \<inter> leaves_of u = {}"

fun linear :: "trie \<Rightarrow> bool" where
  "linear (Leaf_T a k) \<longleftrightarrow> True"
| "linear (Node_T a p f) \<longleftrightarrow>
     (\<forall>x \<in> set f. linear (snd x) \<and> a \<notin> nodes_of (snd x)) \<and>
     (\<forall>x \<in> set f. \<forall>y \<in> set f. fst x \<noteq> fst y \<longrightarrow> apart (snd x) (snd y))"

section \<open>Representation\<close>

definition node_rep ::
  "art_node \<Rightarrow> u64 \<Rightarrow> nat \<Rightarrow> u8 list \<Rightarrow> (u8 \<times> trie) list \<Rightarrow> bool" where
  "node_rep n par off p f \<longleftrightarrow>
     node_wf n \<and> \<not> is_old (version n) \<and> \<not> is_expanding (version n) \<and>
     get_offset (version n) = off \<and> get_prefix_len (version n) = length p \<and> length p \<le> 8 \<and>
     take (length p) (prefix n) = p \<and> parent n = par \<and>
     (\<forall>b c. child_at n b c \<longleftrightarrow> (\<exists>t. (b, t) \<in> set f \<and> c = ptr_of t))"

definition leaf_rep :: "leaf_node \<Rightarrow> u8 list \<Rightarrow> bool" where
  "leaf_rep l k \<longleftrightarrow> leaf_key l = k \<and> key_length l = of_nat (length k)"

fun rep :: "art_heap \<Rightarrow> nat \<Rightarrow> u64 \<Rightarrow> u8 list \<Rightarrow> trie \<Rightarrow> bool" where
  "rep h L par path (Leaf_T a k) \<longleftrightarrow>
     even a \<and> a \<noteq> 0 \<and> length k = L \<and> length path \<le> L \<and> take (length path) k = path \<and>
     (\<exists>l. leaves h a = Some l \<and> leaf_rep l k)"
| "rep h L par path (Node_T a p f) \<longleftrightarrow>
     even a \<and> a \<noteq> 0 \<and> f \<noteq> [] \<and> distinct (map fst f) \<and>
     (\<exists>n. nodes h a = Some n \<and> node_rep n par (length path) p f) \<and>
     (\<forall>x \<in> set f. rep h L a (path @ p @ [fst x]) (snd x))"

lemma rep_ptr:
  "rep h L par path t \<Longrightarrow> ptr_of t \<noteq> 0"
  "rep h L par path (Leaf_T a k) \<Longrightarrow> is_leaf (a + 1) \<and> get_leaf (a + 1) = a"
  "rep h L par path (Node_T a p f) \<Longrightarrow> \<not> is_leaf a"
proof -
  show "rep h L par path (Leaf_T a k) \<Longrightarrow> is_leaf (a + 1) \<and> get_leaf (a + 1) = a"
    using tagged_leaf [of a] make_leaf_even [of a] by simp
  show "rep h L par path (Node_T a p f) \<Longrightarrow> \<not> is_leaf a"
    by (simp add: not_leaf_even)
  show "rep h L par path t \<Longrightarrow> ptr_of t \<noteq> 0"
    using tagged_leaf(3) make_leaf_even by (cases t) auto
qed

lemma rep_path:
  "rep h L par path t \<Longrightarrow> length path \<le> L \<and> (\<forall>a p f. t = Node_T a p f \<longrightarrow> length path + length p < L)"
proof (induction t arbitrary: par path)
  case (Node_T a p f)
  obtain x where x: "x \<in> set f" using Node_T.prems by (cases f) auto
  then have "rep h L a (path @ p @ [fst x]) (snd x)" using Node_T.prems by auto
  then have "length (path @ p @ [fst x]) \<le> L"
    using Node_T.IH [of x "snd x"] x by (metis snds.intros surj_pair snd_conv)
  then show ?case by simp
qed simp

lemma rep_keys:
  "rep h L par path t \<Longrightarrow> k \<in> keys_of t \<Longrightarrow> length k = L \<and> take (length path) k = path"
proof (induction t arbitrary: par path)
  case (Node_T a p f)
  then obtain x where x: "x \<in> set f" "k \<in> keys_of (snd x)" by auto
  then have "rep h L a (path @ p @ [fst x]) (snd x)" using Node_T.prems by auto
  then have "length k = L" "take (length (path @ p @ [fst x])) k = path @ p @ [fst x]"
    using Node_T.IH [of x "snd x"] x by (metis snds.intros surj_pair snd_conv)+
  then show ?case by (metis append_eq_append_conv_if append_take_drop_id append.assoc append_eq_conv_conj)
qed simp

lemma rep_key_node:
  assumes "rep h L par path (Node_T a p f)" and "k \<in> keys_of (Node_T a p f)"
  shows "take (length p) (drop (length path) k) = p"
    and "\<exists>t. (k ! (length path + length p), t) \<in> set f \<and> k \<in> keys_of t"
proof -
  obtain b t where x: "(b, t) \<in> set f" "k \<in> keys_of t" using assms(2) by auto
  then have "rep h L a (path @ p @ [b]) t" using assms(1) by auto
  then have t: "take (length (path @ p @ [b])) k = path @ p @ [b]"
    using rep_keys x(2) by blast
  then have "k = path @ p @ [b] @ drop (length (path @ p @ [b])) k"
    by (metis append.assoc append_take_drop_id)
  then obtain r where k: "k = path @ p @ [b] @ r" by blast
  show "take (length p) (drop (length path) k) = p" by (simp add: k)
  have "k ! (length path + length p) = b" by (simp add: k nth_append)
  with x show "\<exists>t. (k ! (length path + length p), t) \<in> set f \<and> k \<in> keys_of t" by blast
qed

text \<open>The representation depends on the cells of the trie only, and not on access counters.\<close>

lemma rep_frame:
  assumes "rep h L par path t"
    and "\<And>a. a \<in> nodes_of t \<Longrightarrow> nodes h' a = nodes h a"
    and "\<And>a l. a \<in> leaves_of t \<Longrightarrow> leaves h a = Some l \<Longrightarrow>
      \<exists>l'. leaves h' a = Some l' \<and> leaf_key l' = leaf_key l \<and> key_length l' = key_length l"
  shows "rep h' L par path t"
  using assms
proof (induction t arbitrary: par path)
  case (Leaf_T a k)
  then show ?case by (fastforce simp: leaf_rep_def)
next
  case (Node_T a p f)
  have "rep h' L a (path @ p @ [fst x]) (snd x)" if x: "x \<in> set f" for x
  proof (rule Node_T.IH [of x])
    show "rep h L a (path @ p @ [fst x]) (snd x)" using Node_T.prems(1) x by simp
    show "snd x \<in> Basic_BNFs.snds x" by (metis snds.intros surj_pair snd_conv)
    show "\<And>c. c \<in> nodes_of (snd x) \<Longrightarrow> nodes h' c = nodes h c"
      by (rule Node_T.prems(2)) (use x in auto)
    show "\<And>c l. c \<in> leaves_of (snd x) \<Longrightarrow> leaves h c = Some l \<Longrightarrow>
        \<exists>l'. leaves h' c = Some l' \<and> leaf_key l' = leaf_key l \<and> key_length l' = key_length l"
      using Node_T.prems(3) x by auto
  qed (use x in simp)
  moreover have "nodes h' a = nodes h a" using Node_T.prems(2) by simp
  ultimately show ?case using Node_T.prems(1) by auto
qed

section \<open>Comparing keys\<close>

lemma get_leaf_len_rep: "leaf_rep l k \<Longrightarrow> length k < 128 \<Longrightarrow> get_leaf_len l = length k"
proof -
  assume "leaf_rep l k" "length k < 128"
  then have "sint (key_length l) = int (length k)"
    by (simp add: leaf_rep_def signed_of_nat signed_take_bit_int_eq_self)
  then have "(scast (key_length l) :: u64) = of_nat (length k)"
    by (metis of_int_of_nat_eq of_int_sint)
  then show ?thesis
    using \<open>length k < 128\<close> by (simp add: get_leaf_len_def unat_of_nat)
qed

lemma key_mismatch_spec:
  "l1 \<le> length k1 \<Longrightarrow> i \<le> l1 \<Longrightarrow> i \<le> length k2 \<Longrightarrow>
   \<exists>m. key_mismatch k1 l1 k2 i = Inr m \<and> i \<le> m \<and> m \<le> l1 \<and> m \<le> length k2 \<and>
     (\<forall>j. i \<le> j \<and> j < m \<longrightarrow> k1 ! j = k2 ! j) \<and> (m < l1 \<and> m < length k2 \<longrightarrow> k1 ! m \<noteq> k2 ! m)"
proof (induction "length k2 - i" arbitrary: i)
  case 0
  then show ?case by (subst key_mismatch.simps) auto
next
  case (Suc d)
  show ?case
  proof (cases "i < l1 \<and> k1 ! i = k2 ! i")
    case True
    have "d = length k2 - Suc i" "Suc i \<le> l1" "Suc i \<le> length k2"
      using Suc(2) True by auto
    from Suc(1) [OF this(1) Suc(3) this(2,3)] obtain m where
      m: "key_mismatch k1 l1 k2 (Suc i) = Inr m" "Suc i \<le> m" "m \<le> l1"
      "m \<le> length k2" "\<forall>j. Suc i \<le> j \<and> j < m \<longrightarrow> k1 ! j = k2 ! j"
      "m < l1 \<and> m < length k2 \<longrightarrow> k1 ! m \<noteq> k2 ! m"
      by blast
    have e: "\<forall>j. i \<le> j \<and> j < m \<longrightarrow> k1 ! j = k2 ! j"
      using m(5) True by (metis le_neq_implies_less Suc_leI)
    have "key_mismatch k1 l1 k2 i = Inr m"
      using m(1,2,4) True Suc(3) by (subst key_mismatch.simps) simp
    with m(2-4,6) e show ?thesis by (intro exI [of _ m]) simp
  next
    case False
    with Suc show ?thesis by (subst key_mismatch.simps) auto
  qed
qed

lemma prefix_mismatch_spec:
  "plen \<le> length pre \<Longrightarrow> i \<le> plen \<Longrightarrow>
   \<exists>m. prefix_mismatch pre k plen off i = Inr m \<and> i \<le> m \<and> m \<le> plen \<and>
     (\<forall>j. i \<le> j \<and> j < m \<longrightarrow> off + (j - i) < length k \<and> pre ! j = k ! (off + (j - i))) \<and>
     (m < plen \<and> off + (m - i) < length k \<longrightarrow> pre ! m \<noteq> k ! (off + (m - i)))"
proof (induction "plen - i" arbitrary: i off)
  case 0
  then show ?case by (subst prefix_mismatch.simps) auto
next
  case (Suc d)
  show ?case
  proof (cases "off < length k \<and> pre ! i = k ! off")
    case True
    have "d = plen - Suc i" "Suc i \<le> plen" using Suc by auto
    from Suc(1) [OF this(1) Suc(3) this(2), of "off + 1"] obtain m where m:
      "prefix_mismatch pre k plen (off + 1) (Suc i) = Inr m" "Suc i \<le> m" "m \<le> plen"
      "\<forall>j. Suc i \<le> j \<and> j < m \<longrightarrow> off + 1 + (j - Suc i) < length k \<and> pre ! j = k ! (off + 1 + (j - Suc i))"
      "m < plen \<and> off + 1 + (m - Suc i) < length k \<longrightarrow> pre ! m \<noteq> k ! (off + 1 + (m - Suc i))"
      by blast
    have e: "off + 1 + (j - Suc i) = off + (j - i)" if "Suc i \<le> j" for j using that by simp
    have "off + (j - i) < length k \<and> pre ! j = k ! (off + (j - i))" if "i \<le> j" "j < m" for j
    proof (cases "j = i")
      case False
      then have j: "Suc i \<le> j" using that by simp
      from m(4) [rule_format, OF conjI [OF j that(2)]] show ?thesis unfolding e [OF j] .
    qed (use True in simp)
    moreover have "m < plen \<and> off + (m - i) < length k \<longrightarrow> pre ! m \<noteq> k ! (off + (m - i))"
      using m(5) unfolding e [OF m(2)] .
    ultimately show ?thesis
      using m(1-3) True Suc(2,3) by (subst prefix_mismatch.simps) auto
  next
    case False
    with Suc show ?thesis by (subst prefix_mismatch.simps) auto
  qed
qed

text \<open>Both comparisons for the keys of a trie.\<close>

lemma take_eq_nth: "take n xs = take n ys \<Longrightarrow> j < n \<Longrightarrow> xs ! j = ys ! j"
  by (metis nth_take)

lemma key_mismatch_full:
  assumes "leaf_rep l k1" and "length k1 = L" and "length k2 = L" and "L < 128" and "off \<le> L"
    and "take off k1 = take off k2"
  obtains m where "key_mismatch (leaf_key l) (get_leaf_len l) k2 off = Inr m" and "off \<le> m"
    and "m \<le> L" and "take m k1 = take m k2" and "m < L \<Longrightarrow> k1 ! m \<noteq> k2 ! m" and "m = L \<longleftrightarrow> k1 = k2"
proof -
  have l: "leaf_key l = k1" "get_leaf_len l = L"
    using assms get_leaf_len_rep [of l k1] by (simp_all add: leaf_rep_def)
  obtain m where m: "key_mismatch k1 L k2 off = Inr m" "off \<le> m" "m \<le> L"
    "\<forall>j. off \<le> j \<and> j < m \<longrightarrow> k1 ! j = k2 ! j" "m < L \<longrightarrow> k1 ! m \<noteq> k2 ! m"
    using key_mismatch_spec [of L k1 off k2] assms by auto
  have "k1 ! j = k2 ! j" if "j < m" for j
    using that m(4) take_eq_nth [OF assms(6), of j] by (cases "j < off") auto
  then have t: "take m k1 = take m k2"
    using assms m(3) by (intro nth_equalityI) auto
  have "m = L \<longleftrightarrow> k1 = k2"
    using t m(3,5) assms(2,3) by (metis le_neq_implies_less take_all order_refl)
  with t m l that show thesis by simp
qed

lemma prefix_mismatch_full:
  assumes "node_rep n par off p f" and "off + length p < length k"
  obtains m where "prefix_mismatch (prefix n) k (length p) off 0 = Inr m" and "m \<le> length p"
    and "take m p = take m (drop off k)" and "m < length p \<Longrightarrow> p ! m \<noteq> k ! (off + m)"
    and "m = length p \<longleftrightarrow> take (length p) (drop off k) = p"
proof -
  have pre: "length p \<le> length (prefix n)" "take (length p) (prefix n) = p"
    using assms(1) by (auto simp: node_rep_def node_wf_def)
  then have nth: "prefix n ! j = p ! j" if "j < length p" for j
    using that by (metis nth_take)
  obtain m where m: "prefix_mismatch (prefix n) k (length p) off 0 = Inr m" "m \<le> length p"
    "\<forall>j. j < m \<longrightarrow> off + j < length k \<and> prefix n ! j = k ! (off + j)"
    "m < length p \<and> off + m < length k \<longrightarrow> prefix n ! m \<noteq> k ! (off + m)"
    using prefix_mismatch_spec [of "length p" "prefix n" 0 k off] pre(1) by auto
  have t: "take m p = take m (drop off k)"
    using m(2,3) nth assms(2) by (intro nth_equalityI) auto
  have d: "m < length p \<Longrightarrow> p ! m \<noteq> k ! (off + m)"
    using m(4) nth assms(2) by simp
  have "m = length p \<longleftrightarrow> take (length p) (drop off k) = p"
  proof
    assume "m = length p"
    with t show "take (length p) (drop off k) = p" by simp
  next
    assume h: "take (length p) (drop off k) = p"
    have "p ! m = k ! (off + m)" if "m < length p"
      using that assms(2) arg_cong [OF h, of "\<lambda>xs. xs ! m"] by simp
    with d m(2) show "m = length p" by (metis le_neq_implies_less)
  qed
  with m t d that show thesis by blast
qed

end
