(* ===== verification/Art_Lookup.thy ===== *)
theory Art_Lookup
  imports Art_Trie
begin

text \<open>
  Lookup is correct: on a heap that represents a trie, \<open>adaptive_radix_tree_get\<close> answers membership
  of the key and changes nothing but the access counter of the leaf it finds.
\<close>

section \<open>One level\<close>

lemma no_compare_expand [simp]: "\<not> art_node_version_compare_expand v v"
  by (simp add: art_node_version_compare_expand_def)

lemma stale_parent_first [simp]: "stale_parent True par h = Inr False"
  by (simp add: stale_parent_def)

lemma stable_simp:
  "nodes h a = Some n \<Longrightarrow> \<not> is_expanding (version n) \<Longrightarrow>
     art_node_get_stable_expand_version a h = Inr (version n)"
  by (simp add: art_node_get_stable_expand_version_def get_version_simp)

lemma prefix_compare_simp:
  "nodes h a = Some n \<Longrightarrow>
     art_node_prefix_compare a v k off h = prefix_mismatch (prefix n) k (get_prefix_len v) off 0"
  by (simp add: art_node_prefix_compare_def load_node_simp)

lemma update_access_simp:
  "leaves h a = Some l \<Longrightarrow> a \<noteq> 0 \<Longrightarrow> update_access a h = Inr (store_leaf a (bump_access l) h)"
  by (simp add: update_access_def modify_leaf_simp)

text \<open>The child of a represented node for a byte, if it has one.\<close>

lemma node_rep_child:
  assumes "node_rep n par off p f" and "(b, t) \<in> set f"
  obtains i where "slot_at n b i" and "i < length (child n)" and "child n ! i = ptr_of t"
    and "find_slot n (version n) b = Inr (Some i)"
proof -
  have wf: "node_wf n" and "child_at n b (ptr_of t)"
    using assms by (auto simp: node_rep_def)
  then obtain i where i: "slot_at n b i" "child n ! i = ptr_of t" by (auto simp: child_at_def)
  then show thesis using that slot_at_less [OF wf i(1)] find_slot_Some [OF wf i(1)] by blast
qed

lemma node_rep_no_child:
  assumes "node_rep n par off p f" and "\<And>t. (b, t) \<notin> set f"
  shows "find_slot n (version n) b = Inr None" and "\<forall>c. \<not> child_at n b c"
proof -
  show c: "\<forall>c. \<not> child_at n b c" using assms by (auto simp: node_rep_def)
  show "find_slot n (version n) b = Inr None"
    using assms(1) find_slot_None [OF _ c] by (simp add: node_rep_def)
qed

lemma load_slot_simp:
  "nodes h a = Some n \<Longrightarrow> i < length (child n) \<Longrightarrow> load_ptr (Child a i) h = Inr (child n ! i)"
  by (simp add: load_ptr_def load_slot_def load_node_simp)

lemma rep_key_child:
  assumes "rep h L par path (Node_T a p f)" and "(k ! (length path + length p), u) \<in> set f"
  shows "k \<in> keys_of (Node_T a p f) \<longleftrightarrow> k \<in> keys_of u"
proof
  assume "k \<in> keys_of (Node_T a p f)"
  then obtain t where "(k ! (length path + length p), t) \<in> set f" "k \<in> keys_of t"
    using rep_key_node(2) [OF assms(1)] by blast
  moreover have "distinct (map fst f)" using assms(1) by simp
  ultimately show "k \<in> keys_of u" using assms(2) eq_key_imp_eq_value by metis
qed (use assms(2) in force)

section \<open>The whole path\<close>

definition leaf_for :: "art_heap \<Rightarrow> u64 \<Rightarrow> u8 list \<Rightarrow> bool" where
  "leaf_for h a k \<longleftrightarrow> a \<noteq> 0 \<and> (\<exists>l. leaves h a = Some l \<and> leaf_rep l k)"

definition bump_at :: "u64 \<Rightarrow> art_heap \<Rightarrow> art_heap" where
  "bump_at a h = (case leaves h a of Some l \<Rightarrow> store_leaf a (bump_access l) h | None \<Rightarrow> h)"

definition lookup_result ::
  "art_heap \<Rightarrow> trie \<Rightarrow> u8 list \<Rightarrow> (u64 \<times> art_heap) res \<Rightarrow> bool" where
  "lookup_result h t k r \<longleftrightarrow>
     (if k \<in> keys_of t
      then \<exists>a \<in> leaves_of t. even a \<and> leaf_for h a k \<and> r = Inr (a + 4, bump_at a h)
      else r = Inr (0, h))"

lemma art_get_leaf:
  assumes "rep h L par path (Leaf_T a k1)" and "load_ptr ptr h = Inr (a + 1)" and "L < 128"
    and "length k = L" and "take (length path) k = path"
  shows "lookup_result h (Leaf_T a k1) k (art_get (Suc fuel) True par ptr k (length path) h)"
proof -
  from assms(1) obtain l where l: "leaves h a = Some l" "leaf_rep l k1" and a: "a \<noteq> 0" "even a"
    and k1: "length k1 = L" "length path \<le> L" "take (length path) k1 = path" by auto
  obtain m where m: "key_mismatch (leaf_key l) (get_leaf_len l) k (length path) = Inr m"
    "m = L \<longleftrightarrow> k1 = k"
    using key_mismatch_full [OF l(2) k1(1) assms(4,3) k1(2)] k1(3) assms(5) by metis
  have "get_leaf_len l = L" using get_leaf_len_rep [OF l(2)] k1 assms(3) by simp
  then have "art_get (Suc fuel) True par ptr k (length path) h =
      (if k1 = k then Inr (a + 4, bump_at a h) else Inr (0, h))"
    using m assms(2,4) rep_ptr(2) [OF assms(1)] l(1) a(1)
    by (simp add: load_leaf_def update_access_simp bump_at_def get_leaf_key_def)
  with l a show ?thesis by (auto simp: lookup_result_def leaf_for_def)
qed

lemma art_get_node:
  assumes n: "nodes h a = Some n" "node_rep n par (length path) p f" "\<not> is_leaf a"
    and "load_ptr ptr h = Inr a" and k: "length path + length p < length k"
  shows "art_get (Suc fuel) True par ptr k (length path) h =
    (if take (length p) (drop (length path) k) \<noteq> p then Inr (0, h)
     else and_then (find_slot n (version n) (k ! (length path + length p))) (\<lambda>next.
       case next of
         Some i \<Rightarrow> art_get fuel True a (Child a i) k (Suc (length path + length p)) h
       | None \<Rightarrow> Inr (0, h)))"
proof -
  obtain m where m: "prefix_mismatch (prefix n) k (length p) (length path) 0 = Inr m" "m \<le> length p"
    "m = length p \<longleftrightarrow> take (length p) (drop (length path) k) = p"
    by (rule prefix_mismatch_full [OF n(2) k]) blast
  have v: "\<not> is_old (version n)" "\<not> is_expanding (version n)" "get_offset (version n) = length path"
    "get_prefix_len (version n) = length p"
    using n(2) by (simp_all add: node_rep_def)
  show ?thesis
    using n(1,3) assms(4) k m v
    by (simp add: stable_simp art_node_version_is_old_def prefix_compare_simp get_version_simp
        find_child_simp Let_def)
qed

lemma art_get_correct:
  "rep h L par path t \<Longrightarrow> load_ptr ptr h = Inr (ptr_of t) \<Longrightarrow> L < 128 \<Longrightarrow> length k = L \<Longrightarrow>
   take (length path) k = path \<Longrightarrow> L - length path < fuel \<Longrightarrow>
   lookup_result h t k (art_get fuel True par ptr k (length path) h)"
proof (induction fuel arbitrary: par path t ptr)
  case (Suc fuel)
  show ?case
  proof (cases t)
    case (Leaf_T a k1)
    with Suc.prems art_get_leaf show ?thesis by simp
  next
    case (Node_T a p f)
    from Suc.prems(1) Node_T obtain n where n: "nodes h a = Some n" "node_rep n par (length path) p f"
      by auto
    have len: "length path + length p < length k"
      using rep_path [OF Suc.prems(1)] Node_T Suc.prems(4) by simp
    have r: "rep h L par path (Node_T a p f)" using Suc.prems(1) Node_T by simp
    note step = art_get_node [OF n rep_ptr(3) [OF r] Suc.prems(2) [unfolded Node_T ptr_of.simps] len, of fuel]
    let ?b = "k ! (length path + length p)"
    show ?thesis
    proof (cases "take (length p) (drop (length path) k) = p")
      case False
      then have "k \<notin> keys_of t" using rep_key_node(1) [OF r] Node_T by blast
      with False step show ?thesis by (simp add: lookup_result_def)
    next
      case True
      have path': "take (length (path @ p @ [?b])) k = path @ p @ [?b]"
        using True Suc.prems(5) len
        by (simp add: take_Suc_conv_app_nth) (metis append_take_drop_id append.assoc take_add)
      show ?thesis
      proof (cases "\<exists>u. (?b, u) \<in> set f")
        case False
        then have "k \<notin> keys_of t" using rep_key_node(2) [OF r] Node_T by blast
        with True step node_rep_no_child(1) [OF n(2)] False show ?thesis
          by (simp add: lookup_result_def)
      next
        case True' : True
        then obtain u where u: "(?b, u) \<in> set f" by blast
        obtain i where i: "i < length (child n)" "child n ! i = ptr_of u"
          "find_slot n (version n) ?b = Inr (Some i)"
          using node_rep_child [OF n(2) u] by blast
        have ru: "rep h L a (path @ p @ [?b]) u" using r u by auto
        have "lookup_result h u k (art_get fuel True a (Child a i) k (length (path @ p @ [?b])) h)"
          by (rule Suc.IH [OF ru _ Suc.prems(3,4) path'])
            (use i n(1) Suc.prems(6) len Suc.prems(4) in \<open>simp_all add: load_slot_simp\<close>)
        moreover have "k \<in> keys_of t \<longleftrightarrow> k \<in> keys_of u"
          using rep_key_child [OF r u] Node_T by simp
        moreover have "leaves_of u \<subseteq> leaves_of t" using u Node_T by auto
        ultimately show ?thesis
          using step True i(3) by (auto simp: lookup_result_def split: if_splits)
      qed
    qed
  qed
qed simp

end
