(* ===== verification/Art_Insert.thy ===== *)
theory Art_Insert
  imports Art_Lookup
begin

text \<open>
  Insertion is correct. The lemmas evaluate each structural update of the tree (splitting a leaf,
  inserting a child with and without growth, splitting a compressed prefix) on a heap that represents
  a trie, and \<open>art_put_correct\<close> composes them: the heap represents a trie with the key added, no
  cell outside the trie changes, and the only way to get no answer is to wait for a lock.
\<close>

section \<open>Adding a child to a node\<close>

lemma add_leaf_child:
  assumes "nodes h x = Some n" and "node_wf n" and "\<forall>c. \<not> child_at n b c"
    and "\<not> art_node_is_full (version n)" and "is_leaf c" and "place_child b c n = Inr m"
  shows "art_node_add_child x b c hn h = Inr (None, 0, store_node x m h)"
  using assms find_slot_None [OF assms(2,3)]
  by (simp add: art_node_add_child_def load_node_simp find_child_simp)

lemma add_inner_child:
  assumes "nodes h x = Some n" and "node_wf n" and "\<forall>c. \<not> child_at n b c"
    and "\<not> art_node_is_full (version n)" and "\<not> is_leaf c" and "place_child b c n = Inr m"
    and "nodes h c = Some k" and "c \<noteq> x"
  shows "art_node_add_child x b c hn h =
    Inr (None, 0, store_node c (k\<lparr>parent := x\<rparr>) (store_node x m h))"
  using assms find_slot_None [OF assms(2,3)]
  by (simp add: art_node_add_child_def load_node_simp find_child_simp modify_node_simp)

lemma full_frame:
  "art_node_is_full (set_lock v) = art_node_is_full v"
  "o' < 256 \<Longrightarrow> art_node_is_full (set_offset v o') = art_node_is_full v"
  by (simp_all add: art_node_is_full_def bitfield)

section \<open>Preparing the node of a split\<close>

text \<open>The new 4-child node after its parent, offset, lock and prefix are set.\<close>

definition prepared :: "art_node \<Rightarrow> u64 \<Rightarrow> nat \<Rightarrow> u8 list \<Rightarrow> art_node \<Rightarrow> bool" where
  "prepared n0 par off pre n \<longleftrightarrow>
     n = n0\<lparr>parent := par, prefix := pre @ drop (length pre) (prefix n0),
           version := set_prefix_len (set_lock (set_offset (version n0) off)) (length pre)\<rparr>"

lemma prepared_facts:
  assumes "blank n0" and "version n0 = set_type 0 node4" and "length (key n0) = 4"
    and "length (child n0) = 4" and "off < 256" and "length pre \<le> 8" and "prepared n0 par off pre n"
  shows "node_wf n" and "\<not> child_at n b c" and "\<not> art_node_is_full (version n)"
    and "get_node_type (version n) = node4" and "get_count (version n) = 0"
    and "parent n = par" and "get_offset (version n) = off" and "get_prefix_len (version n) = length pre"
    and "take (length pre) (prefix n) = pre" and "\<not> is_old (version n)" and "\<not> is_expanding (version n)"
    and "is_locked (version n)" and "new_node n = 0"
proof -
  have v: "version n = set_prefix_len (set_lock (set_offset (set_type 0 node4) off)) (length pre)"
    and l: "length pre < 256"
    using assms by (simp_all add: prepared_def)
  show t: "get_node_type (version n) = node4" and c: "get_count (version n) = 0"
    and "get_offset (version n) = off" and "get_prefix_len (version n) = length pre"
    and "\<not> is_old (version n)" and "\<not> is_expanding (version n)" and "is_locked (version n)"
    using assms(5) l by (simp_all add: v bitfield)
  have "length (prefix n) = 8" "length (key n) = 4" "length (child n) = 4"
    using assms by (simp_all add: prepared_def blank_def)
  then show "node_wf n" unfolding node_wf_4 [OF t] using c by simp
  show "\<not> child_at n b c" using t c by (simp add: child_at_def slot_at_def)
  show "\<not> art_node_is_full (version n)" using t c by (simp add: art_node_is_full_def)
  show "parent n = par" "take (length pre) (prefix n) = pre" "new_node n = 0"
    using assms by (simp_all add: prepared_def blank_def)
qed

text \<open>The locked and the unlocked state of a node represent the same children.\<close>

lemma node_rep_version:
  assumes "node_rep n par off p f"
    and "get_node_type v = get_node_type (version n)" and "get_count v = get_count (version n)"
    and "get_offset v = get_offset (version n)" and "get_prefix_len v = get_prefix_len (version n)"
    and "\<not> is_old v" and "\<not> is_expanding v"
  shows "node_rep (n\<lparr>version := v\<rparr>) par off p f"
  using assms node_wf_cong [of "n\<lparr>version := v\<rparr>" n] child_at_cong [of "n\<lparr>version := v\<rparr>" n]
  by (simp add: node_rep_def)

lemma node_rep_unlock: "node_rep n par off p f \<Longrightarrow> node_rep (n\<lparr>version := unset_lock (version n)\<rparr>) par off p f"
  by (rule node_rep_version) (simp_all add: bitfield node_rep_def)

lemma node_rep_meta:
  assumes "node_rep n par off p f"
  shows "node_rep (n\<lparr>sidle_meta := md\<rparr>) par off p f" "node_rep (n\<lparr>new_node := x\<rparr>) par off p f"
    "node_rep (n\<lparr>parent := par'\<rparr>) par' off p f"
  using assms node_wf_cong [of "n\<lparr>sidle_meta := md\<rparr>" n] child_at_cong [of "n\<lparr>sidle_meta := md\<rparr>" n]
    node_wf_cong [of "n\<lparr>new_node := x\<rparr>" n] child_at_cong [of "n\<lparr>new_node := x\<rparr>" n]
    node_wf_cong [of "n\<lparr>parent := par'\<rparr>" n] child_at_cong [of "n\<lparr>parent := par'\<rparr>" n]
  by (simp_all add: node_rep_def)

text \<open>Adding an entry to a represented node.\<close>

lemma node_rep_place:
  assumes "node_rep n par off p f" and "\<And>t. (b, t) \<notin> set f" and "\<not> art_node_is_full (version n)"
    and "ptr_of t \<noteq> 0"
  shows "\<exists>m. place_child b (ptr_of t) n = Inr m \<and> node_rep m par off p ((b, t) # f) \<and> same_header m n"
proof -
  have n: "node_wf n" "\<forall>c. \<not> child_at n b c"
    using assms(1) node_rep_no_child [OF assms(1,2)] by (simp_all add: node_rep_def)
  obtain m where m: "place_child b (ptr_of t) n = Inr m" "node_wf m" "same_header m n"
    "\<And>b' d. child_at m b' d \<longleftrightarrow> (if b' = b then d = ptr_of t else child_at n b' d)"
    using place_child_spec [OF n assms(3,4)] by blast
  have "node_rep m par off p ((b, t) # f)"
    using assms(1,2) m by (auto simp: node_rep_def same_header_def)
  with m show ?thesis by blast
qed

lemma node_rep_empty:
  assumes "blank n0" and "version n0 = set_type 0 node4" and "length (key n0) = 4"
    and "length (child n0) = 4" and "off < 256" and "length pre \<le> 8" and "prepared n0 par off pre n"
  shows "node_rep n par off pre []"
  using prepared_facts [OF assms] assms(6) by (simp add: node_rep_def)

lemma place_version4:
  "place_child b c n = Inr m \<Longrightarrow> get_node_type (version n) = node4 \<Longrightarrow> version m = incr_count (version n)"
  by (auto simp: place_child_def Let_def and_then_Inr_iff)

lemma not_full_after_first:
  assumes "place_child b c n = Inr m" and "get_node_type (version n) = node4" and "get_count (version n) = 0"
  shows "\<not> art_node_is_full (version m)" and "get_node_type (version m) = node4"
  using place_version4 [OF assms(1,2)] assms(2,3) by (simp_all add: art_node_is_full_def bitfield)

section \<open>Splitting a leaf\<close>

text \<open>
  What an update of the tree may do to the rest of the state: it consumes at most \<open>n\<close> addresses
  to come, and leaves the build flag alone.
\<close>

definition consumes :: "nat \<Rightarrow> art_heap \<Rightarrow> art_heap \<Rightarrow> bool" where
  "consumes n h h' \<longleftrightarrow>
     ndebug h' = ndebug h \<and> spare h' \<subseteq> spare h \<and> (\<forall>m. room (m + n) h \<longrightarrow> room m h')"

lemma alloc_consumes: "alloc_step h a h1 \<Longrightarrow> consumes 1 h h1"
  by (simp add: alloc_step_def consumes_def)

lemma consumes_trans: "consumes m h1 h2 \<Longrightarrow> consumes n h2 h3 \<Longrightarrow> consumes (m + n) h1 h3"
  unfolding consumes_def by (metis add.assoc add.commute order_trans)

lemma consumes_store:
  "a \<notin> spare h \<Longrightarrow> consumes 0 h (store_node a n h)"
  "a \<notin> spare h \<Longrightarrow> consumes 0 h (store_leaf a l h)"
  "consumes 0 h (h\<lparr>art_root := r\<rparr>)"
  by (auto simp: consumes_def intro: room_store)

lemma leaf_update_rep: "leaf_rep l k \<Longrightarrow> leaf_rep (l\<lparr>leaf_meta := m\<rparr>) k"
  by (simp add: leaf_rep_def)

lemma split_leaf:
  assumes r: "room (Suc (Suc m0)) h" and nd: "\<not> ndebug h" and par: "par = 0 \<or> nodes h par \<noteq> None"
    and l: "leaves h a = Some l" "leaf_rep l k1" "even a" "a \<noteq> 0"
    and len: "length k1 = L" "length k = L" "L < 128" "off \<le> L" "take off k1 = take off k"
    and ne: "take (off + 9) k1 \<noteq> take (off + 9) k"
  shows "\<exists>new b n la lb h' m.
    art_node_replace_leaf_child par (a + 1) k off h = Inr (new, h') \<and>
    off \<le> m \<and> m < L \<and> take m k1 = take m k \<and> k1 ! m \<noteq> k ! m \<and>
    new \<in> spare h \<and> b \<in> spare h \<and> new \<notin> spare h' \<and> b \<notin> spare h' \<and>
    nodes h' = (nodes h)(new \<mapsto> n) \<and> leaves h' = (leaves h)(b \<mapsto> lb, a \<mapsto> la) \<and>
    node_rep n par off (drop off (take m k)) [(k ! m, Leaf_T b k), (k1 ! m, Leaf_T a k1)] \<and>
    leaf_rep lb k \<and> leaf_rep la k1 \<and> art_root h' = art_root h \<and> consumes 2 h h'"
proof -
  have L4: "length k \<le> 4000" using len by simp
  obtain m where m: "key_mismatch (leaf_key l) (get_leaf_len l) k off = Inr m" "off \<le> m" "m \<le> L"
    "take m k1 = take m k" "m < L \<Longrightarrow> k1 ! m \<noteq> k ! m" "m = L \<longleftrightarrow> k1 = k"
    by (rule key_mismatch_full [OF l(2) len(1-5)]) blast
  have mL: "m < L" and diff: "k1 ! m \<noteq> k ! m" using m ne by auto
  have m8: "m - off \<le> 8"
  proof (rule ccontr)
    assume "\<not> m - off \<le> 8"
    then have "off + 9 \<le> m" by simp
    then have "take (off + 9) k1 = take (off + 9) k" using m(4) by (metis min.absorb1 take_take)
    with ne show False by simp
  qed
  have ll: "get_leaf_len l = L" "leaf_key l = k1"
    using get_leaf_len_rep [OF l(2)] len(1,3) l(2) by (simp_all add: leaf_rep_def)
  have tag: "get_leaf (a + 1) = a" "is_leaf (a + 1)" "a + 1 \<noteq> 0"
    using tagged_leaf [OF l(3)] make_leaf_even [OF l(3)] by simp_all
  have a_used: "a \<notin> spare h" using room_spare [OF r] l(1) by fastforce
  let ?pre = "take (m - off) (drop off k1)"
  have pre: "length ?pre = m - off" "?pre = drop off (take m k)"
    using m(2,4) mL len by (simp_all add: take_drop)
  obtain new n0 h1 where new: "new_art_node par h = Inr (new, store_node new n0 h1)" "alloc_step h new h1"
    and n0: "blank n0" "version n0 = set_type 0 node4" "length (key n0) = 4" "length (child n0) = 4"
    using new_art_node_room [OF r par] by blast
  have h1: "nodes h1 = nodes h" "leaves h1 = leaves h" "ndebug h1 = ndebug h" "art_root h1 = art_root h"
    "new \<in> spare h" "new \<notin> spare h1" "spare h1 \<subseteq> spare h" "room (Suc m0) h1"
    using new(2) r by (simp_all add: alloc_step_def)
  define n3 where "n3 = n0\<lparr>parent := par, prefix := ?pre @ drop (length ?pre) (prefix n0),
    version := set_prefix_len (set_lock (set_offset (version n0) off)) (length ?pre)\<rparr>"
  have prep: "prepared n0 par off ?pre n3" by (simp add: prepared_def n3_def)
  have off: "off < 256" "length ?pre \<le> 8" using len pre m(2,3) m8 by simp_all
  have rep0: "node_rep n3 par off ?pre []" and full0: "\<not> art_node_is_full (version n3)"
    using node_rep_empty [OF n0 off prep] prepared_facts [OF n0 off prep] by simp_all
  obtain n4 where n4: "place_child (k1 ! m) (a + 1) n3 = Inr n4"
    "node_rep n4 par off ?pre [(k1 ! m, Leaf_T a k1)]" "same_header n4 n3"
    using node_rep_place [OF rep0 _ full0, of "k1 ! m" "Leaf_T a k1"] tag by auto
  have full4: "\<not> art_node_is_full (version n4)"
    using not_full_after_first [OF n4(1)] prepared_facts(4,5) [OF n0 off prep] by simp
  let ?hA = "store_node new n4 h1"
  have hA: "room (Suc m0) ?hA" "new = 0 \<or> nodes ?hA new \<noteq> None"
    using h1(6,8) by (simp_all add: room_store)
  obtain b lb h2 where b: "alloc_leaf new k Mem_Remote False ?hA = Inr (b + 1, store_leaf b lb h2)"
    "alloc_step ?hA b h2" "leaf_key lb = k" "key_length lb = of_nat (length k)"
    using alloc_leaf_room [OF hA L4, of Mem_Remote] by blast
  have h2: "nodes h2 = (nodes h)(new \<mapsto> n4)" "leaves h2 = leaves h" "ndebug h2 = ndebug h"
    "art_root h2 = art_root h" "b \<in> spare h" "b \<notin> spare h2" "new \<notin> spare h2" "spare h2 \<subseteq> spare h"
    using b(2) h1 by (auto simp: alloc_step_def)
  have ab: "a \<noteq> b" using a_used h2(5) by blast
  have btag: "is_leaf (b + 1)" "b + 1 \<noteq> 0"
    using room_spare [OF r h2(5)] tagged_leaf [of b] make_leaf_even [of b] by simp_all
  obtain n5 where n5: "place_child (k ! m) (b + 1) n4 = Inr n5"
    "node_rep n5 par off ?pre [(k ! m, Leaf_T b k), (k1 ! m, Leaf_T a k1)]" "same_header n5 n4"
    using node_rep_place [OF n4(2) _ full4, of "k ! m" "Leaf_T b k"] btag diff by auto
  let ?n6 = "n5\<lparr>version := unset_lock (version n5)\<rparr>"
  let ?la = "l\<lparr>leaf_meta := (leaf_meta l)\<lparr>metadata := deeper (sidle_meta n5) (metadata (leaf_meta l))\<rparr>\<rparr>"
  let ?h' = "store_node new ?n6 (store_leaf a ?la (store_node new n5 (store_leaf b lb h2)))"
  have add1: "art_node_add_child new (k1 ! m) (a + 1) False (store_node new n3 h1) = Inr (None, 0, ?hA)"
    using add_leaf_child [of "store_node new n3 h1" new n3 "k1 ! m" "a + 1" n4] rep0 full0 tag n4(1)
      node_rep_no_child(2) [OF rep0] by (simp add: node_rep_def)
  have add2: "art_node_add_child new (k ! m) (b + 1) False (store_leaf b lb h2) =
      Inr (None, 0, store_node new n5 (store_leaf b lb h2))"
    using add_leaf_child [of "store_leaf b lb h2" new n4 "k ! m" "b + 1" n5] n4(2) full4 btag n5(1) h2(1) diff
      node_rep_no_child(2) [OF n4(2), of "k ! m"] by (simp add: node_rep_def)
  have nl: "\<not> is_locked (set_offset (version n0) off)" "\<not> is_old (set_offset (version n0) off)"
    using n0(2) off(1) by (simp_all add: bitfield)
  have pfx: "art_node_set_prefix new k1 off (m - off)
      (store_node new (n0\<lparr>parent := par, version := set_lock (set_offset (version n0) off)\<rparr>) h1) =
      Inr (store_node new n3 h1)"
    using len(1) m(2,3) off(2) pre(1) n0(1)
    by (simp add: art_node_set_prefix_def modify_node_simp n3_def blank_def)
  have km: "key_mismatch k1 L k off = Inr m" using m(1) ll by simp
  have bytes: "branch_byte k1 L m = Inr (k1 ! m)" "branch_byte k L m = Inr (k ! m)"
    using mL len by (simp_all add: branch_byte_def)
  have lv: "leaves (store_node new n5 (store_leaf b lb h2)) a = Some l"
    using ab h2(2) l(1) by simp
  have ex5: "\<not> is_expanding (version n5)" using n5(2) by (simp add: node_rep_def)
  have eval: "art_node_replace_leaf_child par (a + 1) k off h = Inr (new, ?h')"
    using mL len(2) m(2,3) off(2) pre(1) nd h1(3) h2(3) nl ex5
    by (simp add: art_node_replace_leaf_child_def tag load_leaf_def l(1) ll km Let_def new(1)
        modify_node_simp set_offset_simp assert_lock_simp assert_cond_def pfx bytes assert_eff_def
        lock_succeeds_def lock_simp add_succeeds_def add1 add_leaf_succeeds_def b(1) add2 load_node_simp
        modify_leaf_simp [OF lv] unlock_simp)
  have rep6: "node_rep ?n6 par off (drop off (take m k)) [(k ! m, Leaf_T b k), (k1 ! m, Leaf_T a k1)]"
    using node_rep_unlock [OF n5(2)] pre(2) by simp
  have nodes': "nodes ?h' = (nodes h)(new \<mapsto> ?n6)" and leaves': "leaves ?h' = (leaves h)(b \<mapsto> lb, a \<mapsto> ?la)"
    using h2 by simp_all
  have spare': "new \<notin> spare ?h'" "b \<notin> spare ?h'" using h2 by simp_all
  have used2: "a \<notin> spare h2" using a_used h2(8) by blast
  have "consumes 2 h ?h'"
  proof -
    have "consumes (1 + 0 + 1 + 0 + 0 + 0 + 0) h ?h'"
      using h2(6,7) used2 h1(6)
      by (intro consumes_trans [OF _ consumes_store(1)] consumes_trans [OF _ consumes_store(2)]
          consumes_trans [OF _ alloc_consumes [OF b(2)]] alloc_consumes [OF new(2)]) simp_all
    then show ?thesis by (simp add: eval_nat_numeral)
  qed
  moreover have "leaf_rep lb k" "leaf_rep ?la k1"
    using b(3,4) l(2) leaf_update_rep by (simp_all add: leaf_rep_def)
  moreover have "art_root ?h' = art_root h" using h2(4) by simp
  ultimately show ?thesis
    using eval m(2,4) mL diff h1(5) h2(5) spare' nodes' leaves' rep6 by blast
qed

text \<open>Two keys that agree in more bytes than a prefix can hold fail an assertion.\<close>

lemma split_leaf_long:
  assumes r: "room (Suc m0) h" and nd: "\<not> ndebug h" and par: "par = 0 \<or> nodes h par \<noteq> None"
    and l: "leaves h a = Some l" "leaf_rep l k1" "even a"
    and len: "length k1 = L" "length k = L" "L < 128" "off \<le> L" "take off k1 = take off k"
    and long: "take (off + 9) k1 = take (off + 9) k" and ne: "k1 \<noteq> k"
  shows "art_node_replace_leaf_child par (a + 1) k off h = Inl Assert_Failed"
proof -
  obtain m where m: "key_mismatch (leaf_key l) (get_leaf_len l) k off = Inr m" "off \<le> m" "m \<le> L"
    "take m k1 = take m k" "m < L \<Longrightarrow> k1 ! m \<noteq> k ! m" "m = L \<longleftrightarrow> k1 = k"
    by (rule key_mismatch_full [OF l(2) len(1-5)]) blast
  have mL: "m < L" and diff: "k1 ! m \<noteq> k ! m" using m ne by auto
  have m8: "\<not> m - off \<le> 8"
  proof
    assume "m - off \<le> 8"
    then have "m < off + 9" by simp
    then show False using take_eq_nth [OF long] diff by blast
  qed
  have ll: "get_leaf_len l = L" "leaf_key l = k1"
    using get_leaf_len_rep [OF l(2)] len(1,3) l(2) by (simp_all add: leaf_rep_def)
  have tag: "get_leaf (a + 1) = a" "is_leaf (a + 1)" "a + 1 \<noteq> 0"
    using tagged_leaf [OF l(3)] make_leaf_even [OF l(3)] by simp_all
  obtain new n0 h1 where new: "new_art_node par h = Inr (new, store_node new n0 h1)" "alloc_step h new h1"
    and n0: "blank n0" "version n0 = set_type 0 node4"
    using new_art_node_room [OF r par] by blast
  have nl: "\<not> is_locked (set_offset (version n0) off)" "\<not> is_old (set_offset (version n0) off)"
    using n0(2) len(3,4) by (simp_all add: bitfield)
  have km: "key_mismatch k1 L k off = Inr m" using m(1) ll by simp
  have "ndebug h1 = ndebug h" using new(2) by (simp add: alloc_step_def)
  then show ?thesis
    using mL len(2) m(2,3) nd nl m8
    by (simp add: art_node_replace_leaf_child_def tag load_leaf_def l(1) ll km Let_def new(1)
        modify_node_simp set_offset_simp assert_cond_def assert_eff_def lock_succeeds_def lock_simp)
qed

section \<open>The outcome of an insertion\<close>

text \<open>
  Where the pointer to the trie is kept: the root field, or the slot of the parent for the last byte of
  the path.
\<close>

definition slot_ok :: "art_heap \<Rightarrow> ptr_place \<Rightarrow> u64 \<Rightarrow> u8 list \<Rightarrow> u64 \<Rightarrow> bool" where
  "slot_ok h ptr par path c \<longleftrightarrow>
     (case ptr of
        Root \<Rightarrow> par = 0 \<and> path = [] \<and> art_root h = c
      | Child x i \<Rightarrow> x = par \<and> par \<noteq> 0 \<and> path \<noteq> [] \<and>
          (\<exists>n. nodes h par = Some n \<and> node_wf n \<and> \<not> is_old (version n) \<and> \<not> is_expanding (version n) \<and>
             slot_at n (last path) i \<and> child n ! i = c))"

definition slot_updated :: "art_heap \<Rightarrow> ptr_place \<Rightarrow> u64 \<Rightarrow> art_heap \<Rightarrow> bool" where
  "slot_updated h ptr c h' \<longleftrightarrow>
     (case ptr of
        Root \<Rightarrow> art_root h' = c
      | Child x i \<Rightarrow> art_root h' = art_root h \<and>
          (\<exists>n. nodes h x = Some n \<and> nodes h' x = Some (n\<lparr>child := (child n)[i := c]\<rparr>)))"

definition busy :: "art_heap \<Rightarrow> u64 \<Rightarrow> bool" where
  "busy h x \<longleftrightarrow> (\<exists>n. nodes h x = Some n \<and> is_locked (version n))"

definition frame :: "art_heap \<Rightarrow> u64 \<Rightarrow> trie \<Rightarrow> art_heap \<Rightarrow> bool" where
  "frame h par t h' \<longleftrightarrow>
     (\<forall>x. x \<notin> nodes_of t \<and> x \<notin> spare h \<and> x \<noteq> par \<longrightarrow> nodes h' x = nodes h x) \<and>
     (\<forall>x. x \<notin> leaves_of t \<and> x \<notin> spare h \<longrightarrow> leaves h' x = leaves h x)"

definition put_done ::
  "art_heap \<Rightarrow> nat \<Rightarrow> u64 \<Rightarrow> u8 list \<Rightarrow> trie \<Rightarrow> ptr_place \<Rightarrow> u8 list \<Rightarrow> trie \<Rightarrow> art_heap \<Rightarrow> bool" where
  "put_done h L par path t ptr k t' h' \<longleftrightarrow>
     rep h' L par path t' \<and> linear t' \<and> keys_of t' = insert k (keys_of t) \<and>
     slot_updated h ptr (ptr_of t') h' \<and> frame h par t h' \<and> consumes 2 h h' \<and>
     nodes_of t' \<subseteq> nodes_of t \<union> (spare h - spare h') \<and>
     leaves_of t' \<subseteq> leaves_of t \<union> (spare h - spare h')"

definition long_clash :: "u8 list \<Rightarrow> u8 list \<Rightarrow> bool" where
  "long_clash k k1 \<longleftrightarrow> k1 \<noteq> k \<and> take 9 k1 = take 9 k"

definition put_result ::
  "art_heap \<Rightarrow> nat \<Rightarrow> u64 \<Rightarrow> u8 list \<Rightarrow> trie \<Rightarrow> ptr_place \<Rightarrow> u8 list \<Rightarrow> (int \<times> art_heap) res \<Rightarrow> bool" where
  "put_result h L par path t ptr k r \<longleftrightarrow>
     (case r of
        Inl e \<Rightarrow> e = Spin \<and> (\<exists>x \<in> insert par (nodes_of t). busy h x) \<or>
          e = Assert_Failed \<and> (\<exists>k1 \<in> keys_of t. long_clash k k1)
      | Inr (ret, h') \<Rightarrow> ret = of_bool (k \<in> keys_of t) \<and> (\<exists>t'. put_done h L par path t ptr k t' h'))"

lemma consumes_more: "consumes m h h' \<Longrightarrow> m \<le> n \<Longrightarrow> consumes n h h'"
  unfolding consumes_def using room_mono by (metis add_le_cancel_left)

lemma slot_updated_same:
  assumes "slot_ok h ptr par path c" and "nodes h' par = nodes h par" and "art_root h' = art_root h"
  shows "slot_updated h ptr c h'"
proof (cases ptr)
  case Root
  with assms show ?thesis by (simp add: slot_ok_def slot_updated_def)
next
  case (Child x i)
  with assms(1) obtain n where "x = par" "nodes h par = Some n" "child n ! i = c"
    by (auto simp: slot_ok_def)
  moreover from this have "n\<lparr>child := (child n)[i := c]\<rparr> = n"
    by (metis list_update_id art_node.surjective art_node.update_convs(8))
  ultimately show ?thesis using Child assms(2,3) by (simp add: slot_updated_def)
qed

text \<open>An existing key.\<close>

lemma bump_at_simps [simp]:
  "nodes (bump_at a h) = nodes h" "art_root (bump_at a h) = art_root h" "ndebug (bump_at a h) = ndebug h"
  "spare (bump_at a h) = spare h" "cxl (bump_at a h) = cxl h"
  by (simp_all add: bump_at_def split: option.splits)

lemma bump_at_rep:
  assumes "rep h L par path t"
  shows "rep (bump_at a h) L par path t"
  by (rule rep_frame [OF assms]) (auto simp: bump_at_def bump_access_def split: option.splits)

lemma bump_at_leaves: "x \<noteq> a \<Longrightarrow> leaves (bump_at a h) x = leaves h x"
  by (simp add: bump_at_def split: option.splits)

lemma bump_at_consumes: "leaves h a \<noteq> None \<Longrightarrow> consumes n h (bump_at a h)"
proof -
  assume a: "leaves h a \<noteq> None"
  have "room m (bump_at a h)" if "room m h" for m
    using that a room_spare [OF that, of a] room_store(2) [OF that, of a]
    by (fastforce simp: bump_at_def split: option.splits)
  then show ?thesis
    using room_mono by (simp add: consumes_def)
qed

lemma replace_leaf_exists:
  assumes r: "rep h L par path (Leaf_T a k)" and "L < 128" and "slot_ok h ptr par path (a + 1)"
  shows "put_result h L par path (Leaf_T a k) ptr k
    (adaptive_radix_tree_replace_leaf par ptr (a + 1) k (length path) h)"
proof -
  from r obtain l where l: "leaves h a = Some l" "leaf_rep l k" and k: "length k = L" "length path \<le> L" "a \<noteq> 0"
    by auto
  obtain m where m: "key_mismatch (leaf_key l) (get_leaf_len l) k (length path) = Inr m" "m = L \<longleftrightarrow> k = k"
    using key_mismatch_full [OF l(2) k(1) k(1) assms(2) k(2)] by metis
  have "get_leaf_len l = L" using get_leaf_len_rep [OF l(2)] k assms(2) by simp
  then have "adaptive_radix_tree_replace_leaf par ptr (a + 1) k (length path) h = Inr (1, bump_at a h)"
    using m k l(1) rep_ptr(2) [OF r]
    by (simp add: adaptive_radix_tree_replace_leaf_def art_node_replace_leaf_child_def load_leaf_def
        Let_def update_access_simp bump_at_def)
  moreover have "put_done h L par path (Leaf_T a k) ptr k (Leaf_T a k) (bump_at a h)"
    unfolding put_done_def
  proof (intro conjI)
    show "rep (bump_at a h) L par path (Leaf_T a k)" by (rule bump_at_rep [OF r])
    show "slot_updated h ptr (ptr_of (Leaf_T a k)) (bump_at a h)"
      using slot_updated_same [OF assms(3)] by simp
    show "consumes 2 h (bump_at a h)" using l(1) by (intro bump_at_consumes) simp
  qed (simp_all add: frame_def bump_at_leaves)
  ultimately show ?thesis by (auto simp: put_result_def)
qed

text \<open>A pointer that is overwritten while its holder is locked.\<close>

lemma locked_store_slot:
  assumes "nodes h x = Some n" and "i < length (child n)" and "\<not> is_locked (version n)"
    and "\<not> is_expanding (version n)"
  shows "and_then (store_ptr (Child x i) c (store_node x (n\<lparr>version := set_lock (version n)\<rparr>) h))
      (\<lambda>h3. and_then (art_node_unlock x h3) f) =
    f (store_node x (n\<lparr>child := (child n)[i := c]\<rparr>) h)"
  using assms
  by (simp add: store_ptr_def store_slot_def load_node_simp unlock_simp bitfield unset_set_lock)

lemma rep_two_leaves:
  assumes "even new" and "new \<noteq> 0"
    and "nodes h new = Some n" and "node_rep n par (length path) p [(b, Leaf_T x k), (c, Leaf_T y k1)]"
    and "b \<noteq> c" and "path @ p = take m k" and "path @ p = take m k1" and "m < L" and "k ! m = b" and "k1 ! m = c"
    and "length k = L" and "length k1 = L"
    and "even x" "x \<noteq> 0" "leaves h x = Some lx" "leaf_rep lx k"
    and "even y" "y \<noteq> 0" "leaves h y = Some ly" "leaf_rep ly k1"
  shows "rep h L par path (Node_T new p [(b, Leaf_T x k), (c, Leaf_T y k1)])"
proof -
  have len: "length path + length p = m"
    using arg_cong [OF assms(6), of length] assms(8,11) by simp
  have "take (Suc m) k = path @ p @ [b]" "take (Suc m) k1 = path @ p @ [c]"
    using assms(6-12) by (simp_all add: take_Suc_conv_app_nth)
  then show ?thesis using assms by (simp add: len)
qed

lemma replace_leaf_new:
  assumes rep: "rep h L par path (Leaf_T a k1)" and slot: "slot_ok h ptr par path (a + 1)"
    and r: "room (Suc (Suc m0)) h" and nd: "\<not> ndebug h" and L: "L < 128"
    and k: "length k = L" "take (length path) k = path" "k1 \<noteq> k"
  shows "put_result h L par path (Leaf_T a k1) ptr k
    (adaptive_radix_tree_replace_leaf par ptr (a + 1) k (length path) h)"
proof -
  from rep obtain l where l: "leaves h a = Some l" "leaf_rep l k1" "even a" "a \<noteq> 0"
    and k1: "length k1 = L" "length path \<le> L" "take (length path) k1 = path" by auto
  have par: "par = 0 \<or> nodes h par \<noteq> None"
    using slot by (cases ptr) (auto simp: slot_ok_def)
  have tk: "take (length path) k1 = take (length path) k" using k k1 by simp
  show ?thesis
  proof (cases "take (length path + 9) k1 = take (length path + 9) k")
    case True
    then have "art_node_replace_leaf_child par (a + 1) k (length path) h = Inl Assert_Failed"
      by (rule split_leaf_long [OF r nd par l(1-3) k1(1) k(1) L k1(2) tk _ k(3)])
    moreover have "take 9 k1 = take 9 k"
      using arg_cong [OF True, of "take 9"] by simp
    ultimately show ?thesis
      using k(3) by (simp add: adaptive_radix_tree_replace_leaf_def put_result_def long_clash_def)
  next
  case short: False
  obtain new b n la lb h1 m where
    eval: "art_node_replace_leaf_child par (a + 1) k (length path) h = Inr (new, h1)" and
    m: "length path \<le> m" "m < L" "take m k1 = take m k" "k1 ! m \<noteq> k ! m" and
    fresh: "new \<in> spare h" "b \<in> spare h" "new \<notin> spare h1" "b \<notin> spare h1" and
    h1: "nodes h1 = (nodes h)(new \<mapsto> n)" "leaves h1 = (leaves h)(b \<mapsto> lb, a \<mapsto> la)"
      "art_root h1 = art_root h" "consumes 2 h h1" and
    reps: "node_rep n par (length path) (drop (length path) (take m k))
        [(k ! m, Leaf_T b k), (k1 ! m, Leaf_T a k1)]" "leaf_rep lb k" "leaf_rep la k1"
    using split_leaf [OF r nd par l k1(1) k(1) L k1(2) tk short] by blast
  let ?p = "drop (length path) (take m k)"
  let ?t = "Node_T new ?p [(k ! m, Leaf_T b k), (k1 ! m, Leaf_T a k1)]"
  have new: "even new" "new \<noteq> 0" "nodes h new = None" and b: "even b" "b \<noteq> 0" "leaves h b = None"
    using room_spare [OF r] fresh by blast+
  have ab: "a \<noteq> b" using l(1) b(3) by auto
  have pp: "path @ ?p = take m k"
    using m(1) k(2) by (metis append_take_drop_id min.absorb1 take_take)
  have rep_in: "rep h' L par path ?t"
    if "nodes h' new = Some n" "leaves h' = leaves h1" for h'
    by (rule rep_two_leaves [where m = m and lx = lb and ly = la])
      (use that new b l m k k1 reps h1 ab pp in auto)
  have lin: "linear ?t" using ab by (auto simp: apart_def)
  have fin: "put_done h L par path (Leaf_T a k1) ptr k ?t h'"
    if "nodes h' new = Some n" "leaves h' = leaves h1" "slot_updated h ptr new h'" "consumes 2 h h'"
      "\<forall>x. x \<noteq> new \<and> x \<noteq> par \<longrightarrow> nodes h' x = nodes h x" "spare h' = spare h1" for h'
    unfolding put_done_def using rep_in [OF that(1,2)] lin that fresh h1(2)
    by (auto simp: frame_def)
  show ?thesis
  proof (cases ptr)
    case Root
    with slot have root: "par = 0" "art_root h = a + 1" by (simp_all add: slot_ok_def)
    let ?h = "h1\<lparr>art_root := new\<rparr>"
    have "adaptive_radix_tree_replace_leaf par ptr (a + 1) k (length path) h = Inr (0, ?h)"
      using eval new(2) root Root h1(3)
      by (simp add: adaptive_radix_tree_replace_leaf_def load_ptr_def store_ptr_def)
    moreover have "put_done h L par path (Leaf_T a k1) ptr k ?t ?h"
      using h1 Root consumes_trans [OF h1(4) consumes_store(3)]
      by (intro fin) (simp_all add: slot_updated_def)
    ultimately show ?thesis using k(3) by (auto simp: put_result_def)
  next
    case (Child x i)
    with slot obtain np where np: "x = par" "par \<noteq> 0" "nodes h par = Some np" "node_wf np"
      "\<not> is_old (version np)" "\<not> is_expanding (version np)" "slot_at np (last path) i" "child np ! i = a + 1"
      by (auto simp: slot_ok_def)
    have i: "i < length (child np)" by (rule slot_at_less [OF np(4,7)])
    have pn: "par \<noteq> new" using np(3) new(3) by auto
    then have par1: "nodes h1 par = Some np" using h1(1) np(3) by simp
    show ?thesis
    proof (cases "is_locked (version np)")
      case True
      then have "adaptive_radix_tree_replace_leaf par ptr (a + 1) k (length path) h = Inl Spin"
        using eval new(2) np(2) lock_spin [OF par1]
        by (simp add: adaptive_radix_tree_replace_leaf_def)
      then show ?thesis using True np(3) by (auto simp: put_result_def busy_def)
    next
      case False
      let ?h = "store_node par (np\<lparr>child := (child np)[i := new]\<rparr>) h1"
      have "load_ptr ptr (store_node par (np\<lparr>version := set_lock (version np)\<rparr>) h1) = Inr (a + 1)"
        using Child np(1,8) i by (simp add: load_slot_simp)
      then have "adaptive_radix_tree_replace_leaf par ptr (a + 1) k (length path) h = Inr (0, ?h)"
        using eval new(2) np(1,2,5,6) lock_simp [OF par1 False np(5)]
          locked_store_slot [OF par1 i False np(6), of new "\<lambda>h4. Inr (0, h4)"] Child
        by (simp add: adaptive_radix_tree_replace_leaf_def)
      moreover have "par \<notin> spare h1"
        using np(3) room_spare [OF r] h1(4) by (auto simp: consumes_def)
      then have "consumes 2 h ?h"
        using consumes_trans [OF h1(4) consumes_store(1), of par] by simp
      then have "put_done h L par path (Leaf_T a k1) ptr k ?t ?h"
        using h1 pn np(1,3) Child by (intro fin) (simp_all add: slot_updated_def)
      ultimately show ?thesis using k(3) by (auto simp: put_result_def)
    qed
  qed
  qed
qed

section \<open>Locking the parent and swinging its pointer\<close>

definition lock_at :: "u64 \<Rightarrow> art_heap \<Rightarrow> art_heap" where
  "lock_at x h =
     (if x = 0 then h
      else case nodes h x of
        None \<Rightarrow> h
      | Some n \<Rightarrow> store_node x (n\<lparr>version := set_lock (version n)\<rparr>) h)"

lemma lock_at_simps [simp]:
  "leaves (lock_at x h) = leaves h" "art_root (lock_at x h) = art_root h"
  "ndebug (lock_at x h) = ndebug h" "spare (lock_at x h) = spare h"
  "y \<noteq> x \<Longrightarrow> nodes (lock_at x h) y = nodes h y" "nodes (lock_at x h) y = None \<longleftrightarrow> nodes h y = None"
  by (auto simp: lock_at_def split: option.splits)

lemma lock_at_consumes: "room m h \<Longrightarrow> consumes 0 h (lock_at x h)"
  by (cases "nodes h x") (auto simp: lock_at_def consumes_def intro: room_store dest: room_spare)

lemma get_locked_parent_slot:
  assumes "slot_ok h0 ptr par path c" and "nodes h a = Some n" and "parent n = par"
    and "nodes h par = nodes h0 par"
  shows "art_node_get_locked_parent a h =
    (if par \<noteq> 0 \<and> busy h par then Inl Spin else Inr (par, lock_at par h))"
proof (cases ptr)
  case Root
  with assms show ?thesis
    by (simp add: slot_ok_def art_node_get_locked_parent_def art_node_get_parent_def load_node_simp
        lock_at_def)
next
  case (Child x i)
  with assms obtain np where np: "par \<noteq> 0" "nodes h par = Some np" "\<not> is_old (version np)"
    by (auto simp: slot_ok_def)
  with assms(2,3) show ?thesis
    by (cases "is_locked (version np)")
      (simp_all add: art_node_get_locked_parent_def art_node_get_parent_def load_node_simp lock_spin
        lock_simp busy_def lock_at_def)
qed

lemma parent_update_same: "parent n = x \<Longrightarrow> n\<lparr>parent := x\<rparr> = n"
  by simp

lemma swing_pointer_slot:
  assumes slot: "slot_ok h0 ptr par path c" and free: "par = 0 \<or> \<not> busy h0 par"
    and held: "par \<noteq> 0 \<Longrightarrow> nodes h par = nodes (lock_at par h0) par"
    and nn: "nodes h new = Some nn" "parent nn = par" and ne: "new \<noteq> par"
    and k: "take (length path) k = path" and root: "art_root h = art_root h0"
    and r: "par \<notin> spare h" "new \<notin> spare h"
  shows "\<exists>h'. swing_pointer par ptr k (length path) new h = Inr h' \<and>
    (\<forall>x. x \<noteq> par \<longrightarrow> nodes h' x = nodes h x) \<and> slot_updated h0 ptr new h' \<and>
    leaves h' = leaves h \<and> consumes 0 h h'"
proof (cases ptr)
  case Root
  with slot have "par = 0" by (simp add: slot_ok_def)
  then show ?thesis
    using Root consumes_store(3)
    by (intro exI [of _ "h\<lparr>art_root := new\<rparr>"])
      (simp add: swing_pointer_def store_ptr_def slot_updated_def)
next
  case (Child x i)
  with slot obtain np where np: "x = par" "par \<noteq> 0" "path \<noteq> []" "nodes h0 par = Some np" "node_wf np"
    "\<not> is_old (version np)" "\<not> is_expanding (version np)" "slot_at np (last path) i"
    by (auto simp: slot_ok_def)
  let ?np = "np\<lparr>version := set_lock (version np)\<rparr>" and ?nq = "np\<lparr>child := (child np)[i := new]\<rparr>"
  have i: "i < length (child np)" by (rule slot_at_less [OF np(5,8)])
  have lk: "\<not> is_locked (version np)" using free np(2,4) by (auto simp: busy_def)
  have hp: "nodes h par = Some ?np" using held np(2,4) by (simp add: lock_at_def)
  have byte: "byte_before k (length path) = Inr (last path)"
  proof -
    have "length path - 1 < length path" "length path \<le> length k"
      using np(3) arg_cong [OF k, of length] by simp_all
    then have "length path - 1 < length k" "k ! (length path - 1) = path ! (length path - 1)"
      using k by (metis less_le_trans, metis nth_take)
    then show ?thesis using np(3) by (simp add: byte_before_def last_conv_nth)
  qed
  have find: "find_slot ?np (set_lock (version np)) (last path) = Inr (Some i)"
  proof -
    have "find_slot ?np (set_lock (version np)) (last path) = find_slot np (version np) (last path)"
      by (simp add: find_slot_def bitfield)
    then show ?thesis using find_slot_Some [OF np(5,8)] by simp
  qed
  let ?h' = "store_node par ?nq (store_node new nn h)"
  have ord: "store_node new nn (store_node par m h) = store_node par m (store_node new nn h)" for m
    using ne by (simp add: store_node_def fun_upd_twist)
  have "swing_pointer par ptr k (length path) new h = Inr ?h'"
    using np(2) byte hp find i ne nn lk np(7) Child
    by (simp add: swing_pointer_def art_node_replace_child_def get_version_simp find_child_simp
        store_slot_def load_node_simp modify_node_simp unlock_simp bitfield unset_set_lock ord
        parent_update_same)
  moreover have "slot_updated h0 ptr new ?h'"
    using Child np(1,4) root by (simp add: slot_updated_def)
  moreover have "consumes 0 h ?h'"
    using consumes_trans [OF consumes_store(1) [OF r(2)] consumes_store(1)] r(1) by simp
  ultimately show ?thesis
    using nn(1) by (intro exI [of _ ?h']) auto
qed

section \<open>Splitting a prefix\<close>

lemma shift_step:
  assumes h: "i < j" "j < plen" "plen \<le> length p"
  shows "take (Suc i) (p[i := p ! j]) @ take (plen - Suc j) (drop (Suc j) (p[i := p ! j])) @
     drop (Suc i + (plen - Suc j)) (p[i := p ! j]) =
   take i p @ take (plen - j) (drop j p) @ drop (i + (plen - j)) p"
proof -
  have "take (Suc i) (p[i := p ! j]) = take i p @ [p ! j]"
    using h by (simp add: take_Suc_conv_app_nth)
  moreover have "take (plen - j) (drop j p) = p ! j # take (plen - Suc j) (drop (Suc j) p)"
    using h by (simp add: Cons_nth_drop_Suc [symmetric] Suc_diff_Suc [symmetric] del: Cons_nth_drop_Suc)
  moreover have "Suc i + (plen - Suc j) = i + (plen - j)" using h by simp
  ultimately show ?thesis using h by simp
qed

lemma shift_prefix_eq:
  "i < j \<Longrightarrow> j \<le> plen \<Longrightarrow> plen \<le> length p \<Longrightarrow>
     shift_prefix i j plen p = Inr (take i p @ take (plen - j) (drop j p) @ drop (i + (plen - j)) p)"
proof (induction "plen - j" arbitrary: i j p)
  case 0
  then show ?case by (subst shift_prefix.simps) simp
next
  case (Suc d)
  let ?p = "p[i := p ! j]"
  have "d = plen - Suc j" "Suc i < Suc j" "Suc j \<le> plen" "plen \<le> length ?p" "j < plen"
    using Suc by auto
  from Suc(1) [OF this(1-4)] shift_step [OF Suc(3) \<open>j < plen\<close> Suc(5)]
  have "shift_prefix (Suc i) (Suc j) plen ?p =
      Inr (take i p @ take (plen - j) (drop j p) @ drop (i + (plen - j)) p)" by simp
  with Suc(3,5) \<open>j < plen\<close> show ?case by (subst shift_prefix.simps) simp
qed

text \<open>
  What truncation leaves of a node. The node is marked as expanding until it is unlocked, and then
  represents the rest of its prefix.
\<close>

definition truncated :: "art_node \<Rightarrow> nat \<Rightarrow> nat \<Rightarrow> nat \<Rightarrow> art_node" where
  "truncated n plen off m =
     n\<lparr>prefix := take (plen - Suc m) (drop (Suc m) (prefix n)) @ drop (plen - Suc m) (prefix n),
       version := set_offset (set_prefix_len (set_expand (version n)) (plen - m - 1)) (m + off + 1)\<rparr>"

definition settled :: "art_node \<Rightarrow> art_node" where
  "settled n = n\<lparr>version := unset_lock (unset_expand (incr_vexpand (version n)))\<rparr>"

lemma truncate_simp:
  assumes "nodes h a = Some n" and "node_rep n par off p f" and "m < length p"
    and "off + length p < 256"
  shows "art_node_truncate_prefix a m h = Inr (p ! m, store_node a (truncated n (length p) off m) h)"
proof -
  have p: "length p \<le> 8" "length (prefix n) = 8" "take (length p) (prefix n) = p"
    "get_offset (version n) = off" "get_prefix_len (version n) = length p"
    using assms(2) by (auto simp: node_rep_def node_wf_def)
  have nth: "prefix n ! m = p ! m" using p(3) assms(3) by (metis nth_take)
  have sh: "shift_prefix 0 (Suc m) (length p) (prefix n) =
      Inr (take (length p - Suc m) (drop (Suc m) (prefix n)) @ drop (length p - Suc m) (prefix n))"
    using shift_prefix_eq [of 0 "Suc m" "length p" "prefix n"] assms(3) p(1,2) by simp
  have small: "length p - m - 1 < 256" using p(1) by simp
  show ?thesis
    using assms(1,3,4) p small
    by (simp add: art_node_truncate_prefix_def get_version_simp set_version_simp load_node_simp Let_def
        bitfield sh nth truncated_def)
qed

lemma truncated_rep:
  assumes "node_rep n par off p f" and "m < length p" and "off + length p < 256"
  shows "node_rep (settled ((truncated n (length p) off m)\<lparr>parent := new, sidle_meta := md\<rparr>)) new
      (off + m + 1) (drop (Suc m) p) f"
    and "is_expanding (version (truncated n (length p) off m))"
proof -
  let ?v = "version (truncated n (length p) off m)"
  let ?w = "unset_lock (unset_expand (incr_vexpand ?v))"
  have n: "length p \<le> 8" "length (prefix n) = 8" "take (length p) (prefix n) = p"
    "get_offset (version n) = off" "get_prefix_len (version n) = length p" "\<not> is_old (version n)"
    "\<not> is_expanding (version n)" "node_wf n"
    using assms(1) by (auto simp: node_rep_def node_wf_def)
  have b: "length p - m - 1 < 256" "m + off + 1 < 256" using n(1) assms(2,3) by simp_all
  show "is_expanding ?v" using b by (simp add: truncated_def bitfield)
  have w: "get_node_type ?w = get_node_type (version n)" "get_count ?w = get_count (version n)"
    "get_offset ?w = m + off + 1" "get_prefix_len ?w = length p - m - 1" "\<not> is_old ?w" "\<not> is_expanding ?w"
    using b n(6) by (simp_all add: truncated_def bitfield)
  let ?n = "settled ((truncated n (length p) off m)\<lparr>parent := new, sidle_meta := md\<rparr>)"
  have f: "version ?n = ?w" "key ?n = key n" "index ?n = index n" "child ?n = child n" "parent ?n = new"
    "prefix ?n = take (length p - Suc m) (drop (Suc m) (prefix n)) @ drop (length p - Suc m) (prefix n)"
    by (simp_all add: settled_def truncated_def)
  have "length (prefix ?n) = 8" using f(6) n(1,2) assms(2) by simp
  then have "node_wf ?n" using n(2,8) f w(1,2) by (subst node_wf_cong [of _ n]) simp_all
  moreover have "child_at ?n b c \<longleftrightarrow> child_at n b c" for b c
    using f w(1,2) by (intro child_at_cong) simp_all
  moreover have "take (length (drop (Suc m) p)) (prefix ?n) = drop (Suc m) p"
  proof -
    have "take (length p - Suc m) (drop (Suc m) (prefix n)) = drop (Suc m) (take (length p) (prefix n))"
      using assms(2) by (simp add: drop_take)
    then show ?thesis using f(6) n(1-3) assms(2) by simp
  qed
  ultimately show "node_rep ?n new (off + m + 1) (drop (Suc m) p) f"
    using assms(1) f w n(1) by (simp add: node_rep_def)
qed

lemma expand_and_insert:
  assumes r: "room (Suc (Suc m0)) h" and nd: "\<not> ndebug h" and par: "par = 0 \<or> nodes h par \<noteq> None"
    and a: "nodes h a = Some n" "node_rep n par off p f" "\<not> is_leaf a" "a \<noteq> 0"
    and m: "m < length p" "take m p = take m (drop off k)" "p ! m \<noteq> k ! (off + m)"
    and len: "length k < 128" "off + length p < length k"
  shows "\<exists>new b n5 lb nF h'. art_node_expand_and_insert par a k off m h = Inr (new, h') \<and>
    new \<in> spare h \<and> b \<in> spare h \<and> new \<notin> spare h' \<and> b \<notin> spare h' \<and>
    nodes h' = (nodes h)(new \<mapsto> n5, a \<mapsto> nF) \<and> leaves h' = (leaves h)(b \<mapsto> lb) \<and>
    node_rep n5 par off (take m p) [(p ! m, Node_T a (drop (Suc m) p) f), (k ! (off + m), Leaf_T b k)] \<and>
    node_rep (settled nF) new (off + m + 1) (drop (Suc m) p) f \<and> parent nF = new \<and>
    is_expanding (version nF) \<and>
    is_locked (version n5) \<and> leaf_rep lb k \<and> art_root h' = art_root h \<and> consumes 2 h h'"
proof -
  have a_used: "a \<notin> spare h" using room_spare [OF r] a(1) by fastforce
  let ?pre = "take m (drop off k)"
  have pre: "length ?pre = m" "?pre = take m p" using m(1,2) len by simp_all
  obtain new n0 h1 where new: "new_art_node par h = Inr (new, store_node new n0 h1)" "alloc_step h new h1"
    and n0: "blank n0" "version n0 = set_type 0 node4" "length (key n0) = 4" "length (child n0) = 4"
    using new_art_node_room [OF r par] by blast
  have h1: "nodes h1 = nodes h" "leaves h1 = leaves h" "ndebug h1 = ndebug h" "art_root h1 = art_root h"
    "new \<in> spare h" "new \<notin> spare h1" "spare h1 \<subseteq> spare h" "room (Suc m0) h1"
    using new(2) r by (simp_all add: alloc_step_def)
  have na: "new \<noteq> a" using a_used h1(5) by blast
  define n3 where "n3 = n0\<lparr>parent := par, prefix := ?pre @ drop (length ?pre) (prefix n0),
    version := set_prefix_len (set_lock (set_offset (version n0) off)) (length ?pre)\<rparr>"
  have prep: "prepared n0 par off ?pre n3" by (simp add: prepared_def n3_def)
  have "length p \<le> 8" using a(2) by (simp add: node_rep_def)
  then have off: "off < 256" "length ?pre \<le> 8" using len pre(1) m(1) by simp_all
  have rep0: "node_rep n3 par off ?pre []" and full0: "\<not> art_node_is_full (version n3)"
    using node_rep_empty [OF n0 off prep] prepared_facts [OF n0 off prep] by simp_all
  let ?h3 = "store_node new n3 h1"
  have h3: "room (Suc m0) ?h3" "new = 0 \<or> nodes ?h3 new \<noteq> None" "length k \<le> 4000"
    using h1(6,8) len(1) by (simp_all add: room_store)
  obtain b lb h2 where b: "alloc_leaf new k Mem_Remote False ?h3 = Inr (b + 1, store_leaf b lb h2)"
    "alloc_step ?h3 b h2" "leaf_key lb = k" "key_length lb = of_nat (length k)"
    using alloc_leaf_room [OF h3, of Mem_Remote] by blast
  have h2: "nodes h2 = (nodes h)(new \<mapsto> n3)" "leaves h2 = leaves h" "ndebug h2 = ndebug h"
    "art_root h2 = art_root h" "b \<in> spare h" "b \<notin> spare h2" "new \<notin> spare h2" "spare h2 \<subseteq> spare h"
    using b(2) h1 by (auto simp: alloc_step_def)
  have btag: "is_leaf (b + 1)" "b + 1 \<noteq> 0"
    using room_spare [OF r h2(5)] tagged_leaf [of b] make_leaf_even [of b] by simp_all
  obtain n4 where n4: "place_child (k ! (off + m)) (b + 1) n3 = Inr n4"
    "node_rep n4 par off ?pre [(k ! (off + m), Leaf_T b k)]" "same_header n4 n3"
    using node_rep_place [OF rep0 _ full0, of "k ! (off + m)" "Leaf_T b k"] btag by auto
  have full4: "\<not> art_node_is_full (version n4)"
    using not_full_after_first [OF n4(1)] prepared_facts(4,5) [OF n0 off prep] by simp
  obtain n5 where n5: "place_child (p ! m) a n4 = Inr n5"
    "node_rep n5 par off ?pre [(p ! m, Node_T a (drop (Suc m) p) f), (k ! (off + m), Leaf_T b k)]"
    "same_header n5 n4"
    using node_rep_place [OF n4(2) _ full4, of "p ! m" "Node_T a (drop (Suc m) p) f"] a(4) m(3) by auto
  have "is_locked (version n3)" using n0(2) off by (simp add: n3_def bitfield)
  then have locked: "is_locked (version n5)" using n4(3) n5(3) by (simp add: same_header_def)
  let ?hB = "store_node new n4 (store_leaf b lb h2)"
  let ?nT = "truncated n (length p) off m"
  let ?nF = "?nT\<lparr>parent := new, sidle_meta := deeper (sidle_meta n5) (sidle_meta ?nT)\<rparr>"
  let ?h' = "store_node a ?nF (store_node new n5 (store_node a ?nT ?hB))"
  have add1: "art_node_add_child new (k ! (off + m)) (b + 1) False (store_leaf b lb h2) = Inr (None, 0, ?hB)"
    using add_leaf_child [of "store_leaf b lb h2" new n3 "k ! (off + m)" "b + 1" n4] rep0 full0 btag
      n4(1) h2(1) node_rep_no_child(2) [OF rep0] by (simp add: node_rep_def)
  have small: "off + length p < 256" using len by simp
  have trunc: "art_node_truncate_prefix a m ?hB = Inr (p ! m, store_node a ?nT ?hB)"
    by (rule truncate_simp [OF _ a(2) m(1) small]) (use h2(1) a(1) na in simp)
  have add2: "art_node_add_child new (p ! m) a False (store_node a ?nT ?hB) =
      Inr (None, 0, store_node a (?nT\<lparr>parent := new\<rparr>) (store_node new n5 (store_node a ?nT ?hB)))"
    using add_inner_child [of "store_node a ?nT ?hB" new n4 "p ! m" a n5 ?nT] n4(2) full4 a(3) n5(1) na m(3)
      node_rep_no_child(2) [OF n4(2), of "p ! m"] by (simp add: node_rep_def)
  have nl: "\<not> is_locked (set_offset (version n0) off)" "\<not> is_old (set_offset (version n0) off)"
    using n0(2) off(1) by (simp_all add: bitfield)
  have pfx: "art_node_set_prefix new k off m
      (store_node new (n0\<lparr>parent := par, version := set_lock (set_offset (version n0) off)\<rparr>) h1) =
      Inr ?h3"
    using len m(1) off(2) pre(1) n0(1)
    by (simp add: art_node_set_prefix_def modify_node_simp n3_def blank_def)
  have eval: "art_node_expand_and_insert par a k off m h = Inr (new, ?h')"
    using len(2) m(1) nd h1(3) h2(3) nl na
    by (simp add: art_node_expand_and_insert_def new(1) modify_node_simp set_offset_simp assert_eff_def
        lock_succeeds_def lock_simp pfx add_leaf_succeeds_def b(1) add_succeeds_def add1 trunc add2
        load_node_simp Let_def)
  have sp: "new \<notin> spare ?h'" "b \<notin> spare ?h'" "a \<notin> spare h2" using h2 a_used by auto
  have "consumes (1 + 0 + 1 + 0 + 0 + 0 + 0 + 0) h ?h'"
    using h2(6,7) sp(3) h1(6)
    by (intro consumes_trans [OF _ consumes_store(1)] consumes_trans [OF _ consumes_store(2)]
        consumes_trans [OF _ alloc_consumes [OF b(2)]] alloc_consumes [OF new(2)]) simp_all
  then have c: "consumes 2 h ?h'" by (simp add: eval_nat_numeral)
  have ns: "nodes ?h' = (nodes h)(new \<mapsto> n5, a \<mapsto> ?nF)" "leaves ?h' = (leaves h)(b \<mapsto> lb)"
    "art_root ?h' = art_root h"
    using h2 na by (simp_all add: fun_upd_twist)
  have F: "node_rep (settled ?nF) new (off + m + 1) (drop (Suc m) p) f" "is_expanding (version ?nF)"
    using truncated_rep [OF a(2) m(1) small] by simp_all
  have "leaf_rep lb k" using b(3,4) by (simp add: leaf_rep_def)
  moreover have "parent ?nF = new" by simp
  ultimately show ?thesis
    using eval h1(5) h2(5) sp(1,2) ns n5(2) [unfolded pre(2)] F locked c by blast
qed

lemma rep_dom:
  "rep h L par path t \<Longrightarrow> x \<in> nodes_of t \<Longrightarrow> nodes h x \<noteq> None"
  "rep h L par path t \<Longrightarrow> x \<in> leaves_of t \<Longrightarrow> leaves h x \<noteq> None"
proof (induction t arbitrary: par path)
  case (Node_T a p f)
  { case 1
    show ?case
    proof (cases "x = a")
      case False
      with 1 obtain y where y: "y \<in> set f" "x \<in> nodes_of (snd y)" by auto
      with 1 have "rep h L a (path @ p @ [fst y]) (snd y)" by auto
      then show ?thesis
        using Node_T.IH(1) [of y "snd y"] y by (metis snds.intros surj_pair snd_conv)
    qed (use 1 in auto) }
  { case 2
    then obtain y where y: "y \<in> set f" "x \<in> leaves_of (snd y)" by auto
    with 2 have "rep h L a (path @ p @ [fst y]) (snd y)" by auto
    then show ?case
      using Node_T.IH(2) [of y "snd y"] y by (metis snds.intros surj_pair snd_conv) }
qed auto

lemma rep_not_spare:
  assumes "rep h L par path t" and "room m h"
  shows "nodes_of t \<inter> spare h = {}" and "leaves_of t \<inter> spare h = {}"
  using rep_dom [OF assms(1)] room_spare [OF assms(2)] by blast+

lemma slot_ok_par:
  assumes "slot_ok h ptr par path c" and "room m h"
  shows "par \<notin> spare h" and "par = 0 \<or> nodes h par \<noteq> None"
  using assms room_spare [OF assms(2), of par] by (cases ptr; auto simp: slot_ok_def)+

lemma put_expand_ok:
  assumes rep: "rep h L par path (Node_T a p f)" and lin: "linear (Node_T a p f)"
    and slot: "slot_ok h ptr par path a" and par: "par \<notin> nodes_of (Node_T a p f)"
    and r: "room (Suc (Suc m0)) h" and nd: "\<not> ndebug h" and L: "L < 128"
    and k: "length k = L" "take (length path) k = path"
    and n: "nodes h a = Some n" "\<not> is_locked (version n)"
    and m: "m < length p" "take m p = take m (drop (length path) k)" "p ! m \<noteq> k ! (length path + m)"
  shows "put_result h L par path (Node_T a p f) ptr k
    (put_expand ptr a k (length path) m (store_node a (n\<lparr>version := set_lock (version n)\<rparr>) h))"
    and "put_expand ptr a k (length path) m (store_node a (n\<lparr>version := set_lock (version n)\<rparr>) h) =
      Inr (ret, h') \<Longrightarrow>
    \<exists>new b. put_done h L par path (Node_T a p f) ptr k (Node_T new (take m p)
        [(p ! m, Node_T a (drop (Suc m) p) f), (k ! (length path + m), Leaf_T b k)]) h' \<and> busy h' new"
    and "par = 0 \<Longrightarrow> \<exists>h'. put_expand ptr a k (length path) m
      (store_node a (n\<lparr>version := set_lock (version n)\<rparr>) h) = Inr (0, h')"
proof -
  let ?off = "length path"
  let ?nl = "n\<lparr>version := set_lock (version n)\<rparr>"
  let ?hl = "store_node a ?nl h"
  have nrep: "node_rep n par ?off p f" and a: "even a" "a \<noteq> 0" using rep n(1) by auto
  have nlrep: "node_rep ?nl par ?off p f"
    using nrep by (intro node_rep_version) (simp_all add: bitfield node_rep_def)
  have len: "length path + length p < length k" using rep_path [OF rep] k(1) by simp
  have pa: "par \<noteq> a" using par by auto
  have a_used: "a \<notin> spare h" using rep_not_spare(1) [OF rep r] by auto
  have rl: "room (Suc (Suc m0)) ?hl" using r a_used by (simp add: room_store)
  have absent: "k \<notin> keys_of (Node_T a p f)"
  proof
    assume "k \<in> keys_of (Node_T a p f)"
    then have "take (length p) (drop ?off k) = p" by (rule rep_key_node(1) [OF rep])
    then have "p ! m = take (length p) (drop ?off k) ! m" by simp
    then have "p ! m = k ! (?off + m)" using m(1) len by simp
    with m(3) show False by simp
  qed
  have glp: "art_node_get_locked_parent a ?hl =
      (if par \<noteq> 0 \<and> busy ?hl par then Inl Spin else Inr (par, lock_at par ?hl))"
  proof (rule get_locked_parent_slot [OF slot])
    show "nodes ?hl a = Some ?nl" by simp
    show "parent ?nl = par" using nrep by (simp add: node_rep_def)
    show "nodes ?hl par = nodes h par" using pa by simp
  qed
  have busy: "busy ?hl par = busy h par" using pa by (simp add: busy_def)
  have "put_result h L par path (Node_T a p f) ptr k (put_expand ptr a k ?off m ?hl) \<and>
    (\<forall>ret h'. put_expand ptr a k ?off m ?hl = Inr (ret, h') \<longrightarrow>
      (\<exists>new b. put_done h L par path (Node_T a p f) ptr k (Node_T new (take m p)
        [(p ! m, Node_T a (drop (Suc m) p) f), (k ! (?off + m), Leaf_T b k)]) h' \<and> busy h' new)) \<and>
    (par = 0 \<longrightarrow> (\<exists>h'. put_expand ptr a k ?off m ?hl = Inr (0, h')))"
    (is "?done")
  proof (cases "par \<noteq> 0 \<and> busy h par")
    case True
    then have "put_expand ptr a k ?off m ?hl = Inl Spin"
      using glp busy by (simp add: put_expand_def)
    with True show ?done by (auto simp: put_result_def)
  next
    case False
    let ?hp = "lock_at par ?hl"
    have c1: "consumes 0 h ?hp"
      using consumes_trans [OF consumes_store(1) [OF a_used] lock_at_consumes [OF rl]] by simp
    have rp: "room (Suc (Suc m0)) ?hp" using c1 r by (simp add: consumes_def)
    have ndp: "\<not> ndebug ?hp" using nd by simp
    have parp: "par = 0 \<or> nodes ?hp par \<noteq> None" using slot_ok_par(2) [OF slot r] by simp
    have ap: "nodes ?hp a = Some ?nl" using pa by simp
    have la: "\<not> is_leaf a" using a by (simp add: not_leaf_even)
    have L8: "length k < 128" using L k(1) by simp
    obtain new b n5 lb nF h2 where
      ei: "art_node_expand_and_insert par a k ?off m ?hp = Inr (new, h2)" and
      fresh: "new \<in> spare ?hp" "b \<in> spare ?hp" "new \<notin> spare h2" "b \<notin> spare h2" and
      h2: "nodes h2 = (nodes ?hp)(new \<mapsto> n5, a \<mapsto> nF)" "leaves h2 = (leaves ?hp)(b \<mapsto> lb)" and
      r5: "node_rep n5 par ?off (take m p)
        [(p ! m, Node_T a (drop (Suc m) p) f), (k ! (?off + m), Leaf_T b k)]" and
      rF: "node_rep (settled nF) new (?off + m + 1) (drop (Suc m) p) f" and
      nF: "parent nF = new" "is_expanding (version nF)" and
      lb: "leaf_rep lb k" and root2: "art_root h2 = art_root ?hp" and c2: "consumes 2 ?hp h2" and
      locked: "is_locked (version n5)"
      using expand_and_insert [OF rp ndp parp ap nlrep la a(2) m L8 len] by blast
    have fresh': "new \<in> spare h" "b \<in> spare h" using fresh(1,2) by simp_all
    have new: "even new" "new \<noteq> 0" "nodes h new = None" and b: "even b" "b \<noteq> 0" "leaves h b = None"
      using room_spare [OF r] fresh' by blast+
    have np: "new \<noteq> par" using slot_ok_par(2) [OF slot r] new by auto
    have na: "new \<noteq> a" using a_used fresh'(1) by auto
    have sp2: "spare h2 \<subseteq> spare h" using c1 c2 by (auto simp: consumes_def)
    have par2: "par \<noteq> 0 \<Longrightarrow> nodes h2 par = nodes (lock_at par h) par"
      using h2(1) np pa by (simp add: lock_at_def split: option.splits)
    have n52: "nodes h2 new = Some n5" "parent n5 = par"
      using h2(1) na r5 by (simp_all add: node_rep_def)
    have root2': "art_root h2 = art_root h" using root2 by simp
    have p2: "par \<notin> spare h2" using slot_ok_par(1) [OF slot r] sp2 by blast
    have free: "par = 0 \<or> \<not> busy h par" using False by simp
    obtain h3 where
      sw: "swing_pointer par ptr k ?off new h2 = Inr h3" and
      h3: "\<forall>x. x \<noteq> par \<longrightarrow> nodes h3 x = nodes h2 x" "slot_updated h ptr new h3" "leaves h3 = leaves h2"
        "consumes 0 h2 h3"
      using swing_pointer_slot [OF slot free par2 n52 np k(2) root2' p2 fresh(3)] by blast
    have a2: "nodes h2 a = Some nF" using h2(1) by simp
    have a3: "nodes h3 a = Some nF" using h3(1) a2 pa by metis
    let ?h4 = "store_node a (settled nF) h3"
    have ul: "art_node_unlock a h3 = Inr ?h4"
      using unlock_expanding_simp [OF a3 nF(2)] by (simp add: settled_def)
    have mp: "modify_node a (\<lambda>n. n\<lparr>parent := new\<rparr>) h2 = Inr h2"
      using a2 nF(1) by (simp add: modify_node_simp parent_update_same store_node_same)
    have eval: "put_expand ptr a k ?off m ?hl = Inr (0, ?h4)"
      using glp busy False ei mp sw ul by (simp add: put_expand_def)
    let ?t = "Node_T new (take m p) [(p ! m, Node_T a (drop (Suc m) p) f), (k ! (?off + m), Leaf_T b k)]"
    have other: "nodes ?h4 x = nodes h x" if "x \<noteq> par" "x \<noteq> a" "x \<noteq> new" for x
      using that h3(1) h2(1) by simp
    have lv: "leaves ?h4 = (leaves h)(b \<mapsto> lb)" using h3(3) h2(2) by simp
    have "rep ?h4 L par path ?t"
    proof -
      have sub: "rep ?h4 L a (path @ p @ [fst x]) (snd x)" if x: "x \<in> set f" for x
      proof (rule rep_frame [of h])
        show "rep h L a (path @ p @ [fst x]) (snd x)" using rep x by simp
        show "nodes ?h4 c = nodes h c" if "c \<in> nodes_of (snd x)" for c
        proof (rule other)
          have c: "c \<in> nodes_of (Node_T a p f)" using that x by auto
          show "c \<noteq> par" using par c by blast
          show "c \<noteq> a" using lin x that by auto
          show "c \<noteq> new" using rep_dom(1) [OF rep c] new(3) by auto
        qed
        show "\<exists>l'. leaves ?h4 c = Some l' \<and> leaf_key l' = leaf_key l \<and> key_length l' = key_length l"
          if "c \<in> leaves_of (snd x)" "leaves h c = Some l" for c l
          using that b(3) lv by auto
      qed
      have split: "path @ take m p @ [p ! m] @ drop (Suc m) p = path @ p"
        using id_take_nth_drop [OF m(1)] by simp
      have len': "length (path @ take m p @ [p ! m]) = ?off + m + 1" using m(1) by simp
      have "rep ?h4 L new (path @ take m p @ [p ! m]) (Node_T a (drop (Suc m) p) f)"
        unfolding rep.simps
      proof (intro conjI ballI)
        show "\<exists>n. nodes ?h4 a = Some n \<and>
            node_rep n new (length (path @ take m p @ [p ! m])) (drop (Suc m) p) f"
          using rF len' by simp
        show "rep ?h4 L a ((path @ take m p @ [p ! m]) @ drop (Suc m) p @ [fst x]) (snd x)" if "x \<in> set f" for x
        proof -
          have "(path @ take m p @ [p ! m]) @ drop (Suc m) p @ [fst x] = path @ p @ [fst x]"
            using split by (metis append.assoc)
          then show ?thesis using sub [OF that] by metis
        qed
      qed (use rep a in auto)
      moreover have "rep ?h4 L new (path @ take m p @ [k ! (?off + m)]) (Leaf_T b k)"
      proof -
        have "take (length path + m) k = path @ take m p"
          using k(2) m(2) by (simp add: take_add)
        then have "take (Suc (length path + m)) k = path @ take m p @ [k ! (length path + m)]"
          using len m(1) by (simp add: take_Suc_conv_app_nth)
        then show ?thesis using b lb lv k(1) len m(1) by simp
      qed
      moreover have "nodes ?h4 new = Some n5" using h3(1) np na n52(1) by simp
      ultimately show ?thesis using new(1,2) r5 m(3) by simp
    qed
    moreover have "linear ?t"
    proof -
      have "new \<notin> nodes_of (Node_T a p f)" using rep_dom(1) [OF rep] new(3) by blast
      moreover have "b \<notin> leaves_of (Node_T a p f)" using rep_dom(2) [OF rep] b(3) by blast
      ultimately show ?thesis using lin by (auto simp: apart_def)
    qed
    moreover have "slot_updated h ptr new ?h4"
    proof (cases ptr)
      case (Child x i)
      then have "x = par" using slot by (simp add: slot_ok_def)
      with Child h3(2) pa show ?thesis by (simp add: slot_updated_def)
    qed (use h3(2) in \<open>simp add: slot_updated_def\<close>)
    moreover have "frame h par (Node_T a p f) ?h4"
      using other fresh' lv by (auto simp: frame_def)
    moreover have c4: "consumes 2 h ?h4"
    proof -
      have "a \<notin> spare h3" using h3(4) sp2 a_used by (auto simp: consumes_def)
      from consumes_trans [OF consumes_trans [OF consumes_trans [OF c1 c2] h3(4)] consumes_store(1) [OF this]]
      show ?thesis by (simp add: eval_nat_numeral)
    qed
    moreover have "new \<notin> spare ?h4" "b \<notin> spare ?h4"
      using fresh(3,4) h3(4) by (auto simp: consumes_def)
    ultimately have "put_done h L par path (Node_T a p f) ptr k ?t ?h4"
      using fresh' by (auto simp: put_done_def)
    moreover have "busy ?h4 new" using h3(1) np na n52(1) locked by (simp add: busy_def)
    ultimately show ?done using eval absent by (auto simp: put_result_def)
  qed
  then show "put_result h L par path (Node_T a p f) ptr k (put_expand ptr a k ?off m ?hl)"
    and "put_expand ptr a k ?off m ?hl = Inr (ret, h') \<Longrightarrow>
      \<exists>new b. put_done h L par path (Node_T a p f) ptr k (Node_T new (take m p)
        [(p ! m, Node_T a (drop (Suc m) p) f), (k ! (?off + m), Leaf_T b k)]) h' \<and> busy h' new"
    and "par = 0 \<Longrightarrow> \<exists>h'. put_expand ptr a k ?off m ?hl = Inr (0, h')"
    by blast+
qed

section \<open>Inserting a child\<close>

lemma rep_new_child:
  assumes "even a" and "a \<noteq> 0" and "nodes h a = Some n" and "node_rep n par (length path) p ((b, Leaf_T c k) # f)"
    and "distinct (map fst f)" and "\<And>t. (b, t) \<notin> set f"
    and "\<And>x. x \<in> set f \<Longrightarrow> rep h L a (path @ p @ [fst x]) (snd x)"
    and "even c" and "c \<noteq> 0" and "leaves h c = Some l" and "leaf_rep l k"
    and "length k = L" and "take (length path) k = path" and "take (length p) (drop (length path) k) = p"
    and "length path + length p < L" and "k ! (length path + length p) = b"
  shows "rep h L par path (Node_T a p ((b, Leaf_T c k) # f))"
proof -
  have "take (length path + length p) k = path @ p" using assms(13,14) by (simp add: take_add)
  then have "take (Suc (length path + length p)) k = path @ p @ [b]"
    using assms(12,15,16) by (simp add: take_Suc_conv_app_nth)
  moreover have "b \<notin> fst ` set f" using assms(6) by force
  ultimately show ?thesis using assms by simp
qed

lemma put_child_not_full:
  assumes rep: "rep h L par path (Node_T a p f)" and lin: "linear (Node_T a p f)"
    and slot: "slot_ok h ptr par path a" and par: "par \<notin> nodes_of (Node_T a p f)"
    and r: "room (Suc m0) h" and L: "L < 128"
    and k: "length k = L" "take (length path) k = path" "take (length p) (drop (length path) k) = p"
    and n: "nodes h a = Some n" "\<not> is_locked (version n)" "\<not> art_node_is_full (version n)"
    and absent: "\<And>t. (k ! (length path + length p), t) \<notin> set f"
  shows "\<exists>h' t'. put_child ptr a k (length path + length p) (length p)
      (store_node a (n\<lparr>version := set_lock (version n)\<rparr>) h) = Inr (None, h') \<and>
    put_done h L par path (Node_T a p f) ptr k t' h'"
proof -
  let ?off = "length path + length p" and ?nl = "n\<lparr>version := set_lock (version n)\<rparr>"
  let ?hl = "store_node a ?nl h" and ?b = "k ! (length path + length p)"
  have nrep: "node_rep n par (length path) p f" and a: "even a" "a \<noteq> 0" using rep n(1) by auto
  have nlrep: "node_rep ?nl par (length path) p f"
    using nrep by (intro node_rep_version) (simp_all add: bitfield node_rep_def)
  have len: "?off < length k" using rep_path [OF rep] k(1) by simp
  have pa: "par \<noteq> a" using par by auto
  have a_used: "a \<notin> spare h" using rep_not_spare(1) [OF rep r] by auto
  have rl: "room (Suc m0) ?hl" using r a_used by (simp add: room_store)
  have adom: "a = 0 \<or> nodes ?hl a \<noteq> None" and k4: "length k \<le> 4000" using k(1) L by simp_all
  obtain c lc h2 where c: "alloc_leaf a k Mem_Remote False ?hl = Inr (c + 1, store_leaf c lc h2)"
    "alloc_step ?hl c h2" "leaf_key lc = k" "key_length lc = of_nat (length k)"
    using alloc_leaf_room [OF rl adom k4, of Mem_Remote] by blast
  have h2: "nodes h2 = nodes ?hl" "leaves h2 = leaves h" "art_root h2 = art_root h" "c \<in> spare h"
    "c \<notin> spare h2" "spare h2 \<subseteq> spare h"
    using c(2) by (simp_all add: alloc_step_def)
  have cfresh: "even c" "c \<noteq> 0" "leaves h c = None" using room_spare [OF r h2(4)] by simp_all
  have ctag: "is_leaf (c + 1)" "c + 1 \<noteq> 0"
    using tagged_leaf [OF cfresh(1)] make_leaf_even [OF cfresh(1)] by simp_all
  have full: "\<not> art_node_is_full (version ?nl)"
    using n(3) by (simp add: full_frame)
  obtain m where m: "place_child ?b (c + 1) ?nl = Inr m"
    "node_rep m par (length path) p ((?b, Leaf_T c k) # f)"
    using node_rep_place [OF nlrep absent full, of "Leaf_T c k"] ctag by auto
  let ?m = "m\<lparr>version := unset_lock (version m)\<rparr>"
  let ?h' = "store_node a ?m (store_leaf c lc h2)"
  have add: "art_node_add_child a ?b (c + 1) True (store_leaf c lc h2) =
      Inr (None, 0, store_node a m (store_leaf c lc h2))"
    using add_leaf_child [of "store_leaf c lc h2" a ?nl ?b "c + 1" m] nlrep full ctag m(1) h2(1)
      node_rep_no_child(2) [OF nlrep absent] by (simp add: node_rep_def)
  have eval: "put_child ptr a k ?off (length p) ?hl = Inr (None, ?h')"
    using len c(1) add m(2) by (simp add: put_child_def unlock_simp node_rep_def)
  have ns: "nodes ?h' x = nodes h x" if "x \<noteq> a" for x using that h2(1) by simp
  have lv: "leaves ?h' = (leaves h)(c \<mapsto> lc)" using h2(2) by simp
  let ?t = "Node_T a p ((?b, Leaf_T c k) # f)"
  have "rep ?h' L par path ?t"
  proof (rule rep_new_child)
    show "rep ?h' L a (path @ p @ [fst x]) (snd x)" if x: "x \<in> set f" for x
    proof (rule rep_frame [of h])
      show "rep h L a (path @ p @ [fst x]) (snd x)" using rep x by simp
      show "nodes ?h' y = nodes h y" if "y \<in> nodes_of (snd x)" for y
        using lin x that by (intro ns) auto
      show "\<exists>l'. leaves ?h' y = Some l' \<and> leaf_key l' = leaf_key l \<and> key_length l' = key_length l"
        if "y \<in> leaves_of (snd x)" "leaves h y = Some l" for y l
        using that cfresh(3) lv by auto
    qed
    show "node_rep ?m par (length path) p ((?b, Leaf_T c k) # f)" by (rule node_rep_unlock [OF m(2)])
  qed (use a rep absent cfresh lv c(3,4) k len in \<open>auto simp: leaf_rep_def\<close>)
  moreover have "linear ?t"
  proof -
    have "c \<notin> leaves_of (Node_T a p f)" using rep_dom(2) [OF rep] cfresh(3) by blast
    then show ?thesis using lin by (auto simp: apart_def)
  qed
  moreover have "slot_updated h ptr a ?h'"
    using slot_updated_same [OF slot, of ?h'] ns [OF pa] h2(3) by simp
  moreover have "frame h par (Node_T a p f) ?h'"
    using ns lv h2(4) by (auto simp: frame_def)
  moreover have "consumes 2 h ?h'"
  proof -
    have "a \<notin> spare h2" using a_used h2(6) by blast
    then have "consumes (0 + 1 + 0 + 0) h ?h'" using h2(5) a_used
      by (intro consumes_trans [OF _ consumes_store(1)] consumes_trans [OF _ consumes_store(2)]
          consumes_trans [OF _ alloc_consumes [OF c(2)]] consumes_store(1)) simp_all
    then show ?thesis by (rule consumes_more) simp
  qed
  moreover have "c \<notin> spare ?h'" using h2(5) by simp
  ultimately have "put_done h L par path (Node_T a p f) ptr k ?t ?h'"
    using h2(4) by (auto simp: put_done_def)
  with eval show ?thesis by blast
qed

end
