(* ===== verification/Art_Put.thy ===== *)
theory Art_Put
  imports Art_Insert
begin

text \<open>
  Insertion, continued: the case in which a full node grows to the next layout, the composition of the
  cases along a path, and the two entry points \<open>adaptive_radix_tree_put\<close> and
  \<open>adaptive_radix_tree_get\<close> as an implementation of a set of keys.
\<close>

section \<open>Growing a represented node\<close>

lemma grow_represented:
  assumes r: "room (Suc m0) h" and nd: "\<not> ndebug h" and par: "par = 0 \<or> nodes h par \<noteq> None"
    and a: "nodes h a = Some n" "node_rep n par off p f" "off < 256" "\<not> is_leaf a"
    and full: "art_node_is_full (version n)"
    and kids: "\<And>x. x \<in> set f \<Longrightarrow> ptr_of (snd x) \<noteq> 0 \<and> ptr_of (snd x) \<noteq> a \<and>
      (\<not> is_leaf (ptr_of (snd x)) \<longrightarrow> nodes h (ptr_of (snd x)) \<noteq> None)"
  shows "\<exists>new g h'. art_node_grow a h = Inr (new, h') \<and> new \<in> spare h \<and> new \<notin> spare h' \<and>
    nodes h' = (reparent new ((\<lambda>x. ptr_of (snd x)) ` set f) (nodes h))
      (new \<mapsto> g, a \<mapsto> n\<lparr>new_node := new, version := set_old (version n)\<rparr>) \<and>
    leaves h' = leaves h \<and> art_root h' = art_root h \<and> ndebug h' = ndebug h \<and>
    node_rep g par off p f \<and> \<not> art_node_is_full (version g) \<and> consumes 1 h h'"
proof -
  let ?C = "(\<lambda>x. ptr_of (snd x)) ` set f"
  have n: "node_wf n" "parent n = par" "get_offset (version n) = off" "get_prefix_len (version n) = length p"
    "\<And>b c. child_at n b c \<longleftrightarrow> (\<exists>t. (b, t) \<in> set f \<and> c = ptr_of t)"
    "length p \<le> 8" "take (length p) (prefix n) = p"
    using a(2) by (auto simp: node_rep_def)
  have a_used: "a \<notin> spare h" using room_spare [OF r] a(1) by fastforce
  have C: "set (grow_children n) = ?C"
    unfolding set_grow_children [OF n(1) full] using n(5) by force
  have par': "parent n = 0 \<or> nodes h (parent n) \<noteq> None" using par n(2) by simp
  obtain new t h1 where alloc: "grow_allocate n h = Inr (new, store_node new t h1)" "alloc_step h new h1"
    "blank t" "grow_target n t"
    using grow_allocate_room [OF r par' full] by blast
  have h1: "nodes h1 = nodes h" "leaves h1 = leaves h" "ndebug h1 = ndebug h" "art_root h1 = art_root h"
    "new \<in> spare h" "new \<notin> spare h1" "spare h1 \<subseteq> spare h"
    using alloc(2) by (simp_all add: alloc_step_def)
  have new: "even new" "nodes h new = None" using room_spare [OF r h1(5)] by simp_all
  have na: "new \<noteq> a" using a_used h1(5) by blast
  have newC: "new \<notin> ?C"
  proof
    assume "new \<in> ?C"
    then obtain x where "x \<in> set f" "new = ptr_of (snd x)" by blast
    then show False using kids [of x] new not_leaf_even by auto
  qed
  have aC: "a \<notin> ?C" using kids by fastforce
  let ?g = "grow_copy n t"
  have g: "grown n t ?g"
    using kids by (intro grow_copy_spec [OF n(1) full alloc(4)]) (force simp: n(5))
  let ?h2 = "store_node new ?g h1"
  let ?h3 = "?h2\<lparr>nodes := reparent new ?C (nodes ?h2)\<rparr>"
  have ad: "adopt new (grow_children n) ?h2 = Inr ?h3"
    unfolding C [symmetric] by (rule adopt_simp) (use kids C h1(1) in fastforce)
  have h3: "nodes ?h3 = (reparent new ?C (nodes h))(new \<mapsto> ?g)" "nodes ?h3 a = Some n" "ndebug ?h3 = ndebug h"
    "leaves ?h3 = leaves h" "art_root ?h3 = art_root h" "nodes ?h3 new = Some ?g"
    using newC aC na a(1) h1 by (auto simp: reparent_def)
  let ?g1 = "?g\<lparr>version := set_lock (version ?g)\<rparr>"
  let ?g2 = "?g\<lparr>version := set_offset (set_lock (version ?g)) off\<rparr>"
  let ?n1 = "n\<lparr>new_node := new\<rparr>" and ?n2 = "n\<lparr>new_node := new, version := set_old (version n)\<rparr>"
  let ?h4 = "store_node new ?g1 ?h3"
  let ?h5 = "store_node new ?g2 ?h3"
  let ?h7 = "store_node a ?n2 ?h5"
  have lk: "assert_eff (lock_succeeds new) ?h3 = Inr ?h4"
    using g nd h3(3,6) by (intro assert_lock_simp) (simp_all add: grown_def)
  have so: "art_node_set_offset new off ?h4 = Inr ?h5"
    using set_offset_simp [of ?h4 new ?g1 off] by simp
  have sn: "art_node_set_new_node a new ?h5 = Inr (store_node a ?n1 ?h5)"
    using set_new_node_simp [of ?h5 a n new] h3(2) na by simp
  have sv: "art_node_set_version a (set_old (version n)) (store_node a ?n1 ?h5) = Inr ?h7"
    using set_version_simp [of "store_node a ?n1 ?h5" a ?n1] by simp
  have md: "modify_node new (grow_copy n) (store_node new t h1) = Inr ?h2"
    by (simp add: modify_node_simp)
  have eval: "art_node_grow a h = Inr (new, ?h7)"
    using alloc(1) md ad lk so sn sv n(3)
    by (simp only: art_node_grow_def load_node_simp [OF a(1)] and_then_simps prod.case)
  have g2: "node_rep ?g2 par off p f"
  proof -
    have v: "get_node_type (version ?g2) = get_node_type (version ?g)"
      "get_count (version ?g2) = get_count (version ?g)"
      using a(3) by (simp_all add: bitfield)
    have "node_wf ?g2" using g v node_wf_cong [of ?g2 ?g] by (simp add: grown_def)
    moreover have "child_at ?g2 b c \<longleftrightarrow> (\<exists>t. (b, t) \<in> set f \<and> c = ptr_of t)" for b c
      using g v child_at_cong [of ?g2 ?g b c] n(5) by (simp add: grown_def)
    moreover have "get_offset (version ?g2) = off" "get_prefix_len (version ?g2) = length p"
      "\<not> is_old (version ?g2)" "\<not> is_expanding (version ?g2)" "parent ?g2 = par" "prefix ?g2 = prefix n"
      using g a(3) n(2,4) by (simp_all add: grown_def bitfield)
    ultimately show ?thesis using n(6,7) by (simp add: node_rep_def)
  qed
  have nf: "\<not> art_node_is_full (version ?g2)"
    using g a(3) by (simp add: grown_def full_frame)
  have sp: "spare ?h7 = spare h1" by (simp add: spare_def)
  have "consumes 1 h ?h7"
  proof -
    have "room m ?h7" if "room (Suc m) h" for m
    proof (rule room_cong [of m h1])
      show "room m h1" using that alloc(2) by (simp add: alloc_step_def)
      show "nodes ?h7 x = None \<and> leaves ?h7 x = None" if "x \<in> spare h1" for x
        using that room_spare [OF r, of x] h1(6,7) a_used h3(1,4) by (auto simp: reparent_def)
    qed simp_all
    then show ?thesis using h1(3,7) sp by (simp add: consumes_def)
  qed
  moreover have "nodes ?h7 = (reparent new ?C (nodes h))(new \<mapsto> ?g2, a \<mapsto> ?n2)"
    using h3(1) by simp
  ultimately show ?thesis
    using eval h1(5,6) sp h3(3-5) g2 nf
    by (intro exI [of _ new] exI [of _ ?g2] exI [of _ ?h7]) simp
qed

text \<open>A trie whose top node gets another parent.\<close>

lemma rep_reparent:
  assumes "rep h L par path t" and "linear t"
    and "\<And>x. x \<in> nodes_of t \<Longrightarrow>
      nodes h' x = (if x = ptr_of t then map_option (\<lambda>n. n\<lparr>parent := par'\<rparr>) (nodes h x) else nodes h x)"
    and "\<And>x l. x \<in> leaves_of t \<Longrightarrow> leaves h x = Some l \<Longrightarrow> leaves h' x = Some l"
  shows "rep h' L par' path t"
proof (cases t)
  case (Leaf_T a k)
  with assms show ?thesis by auto
next
  case (Node_T a p f)
  have "rep h' L a (path @ p @ [fst x]) (snd x)" if x: "x \<in> set f" for x
  proof (rule rep_frame [of h])
    show "rep h L a (path @ p @ [fst x]) (snd x)" using assms(1) Node_T x by simp
    show "nodes h' y = nodes h y" if "y \<in> nodes_of (snd x)" for y
    proof -
      have "y \<in> nodes_of t" "y \<noteq> ptr_of t" using assms(2) Node_T x that by auto
      then show ?thesis using assms(3) [of y] by simp
    qed
    show "\<exists>l'. leaves h' y = Some l' \<and> leaf_key l' = leaf_key l \<and> key_length l' = key_length l"
      if "y \<in> leaves_of (snd x)" "leaves h y = Some l" for y l
      using assms(4) [of y l] Node_T x that by auto
  qed
  then show ?thesis
    using assms(1,3) Node_T node_rep_meta(3) by auto
qed

lemma leaf_ptr: "rep h L par path t \<Longrightarrow> is_leaf (ptr_of t) \<longleftrightarrow> (\<exists>a k. t = Leaf_T a k)"
  using rep_ptr(2,3) by (cases t) (metis ptr_of.simps(1), metis ptr_of.simps(2) trie.distinct(1))

lemma child_ptr:
  assumes "rep h L par path (Node_T a p f)" and "linear (Node_T a p f)" and "x \<in> set f"
  shows "ptr_of (snd x) \<noteq> 0" and "ptr_of (snd x) \<noteq> a"
    and "\<not> is_leaf (ptr_of (snd x)) \<Longrightarrow> ptr_of (snd x) \<in> nodes_of (snd x)"
    and "\<not> is_leaf (ptr_of (snd x)) \<Longrightarrow> nodes h (ptr_of (snd x)) \<noteq> None"
    and "is_leaf (ptr_of (snd x)) \<Longrightarrow> nodes_of (snd x) = {}"
proof -
  have r: "rep h L a (path @ p @ [fst x]) (snd x)" using assms(1,3) by simp
  show "ptr_of (snd x) \<noteq> 0" by (rule rep_ptr(1) [OF r])
  show n: "ptr_of (snd x) \<in> nodes_of (snd x)" if "\<not> is_leaf (ptr_of (snd x))"
    using that leaf_ptr [OF r] by (cases "snd x") auto
  show "nodes h (ptr_of (snd x)) \<noteq> None" if "\<not> is_leaf (ptr_of (snd x))"
    using rep_dom(1) [OF r n [OF that]] .
  show "nodes_of (snd x) = {}" if "is_leaf (ptr_of (snd x))"
    using that leaf_ptr [OF r] by auto
  have "even a" "a \<notin> nodes_of (snd x)" using assms by auto
  then show "ptr_of (snd x) \<noteq> a"
    using n by (cases "is_leaf (ptr_of (snd x))") (auto simp: is_leaf_odd)
qed

lemma reparented_child:
  assumes "rep h L par path (Node_T a p f)" and "linear (Node_T a p f)" and "x \<in> set f"
    and "y \<in> nodes_of (snd x)"
  shows "reparent new ((\<lambda>x. ptr_of (snd x)) ` set f) (nodes h) y =
    (if y = ptr_of (snd x) then map_option (\<lambda>n. n\<lparr>parent := new\<rparr>) (nodes h y) else nodes h y)"
proof (cases "y = ptr_of (snd x)")
  case True
  then have "\<not> is_leaf y" using assms(4) child_ptr(5) [OF assms(1-3)] by auto
  then show ?thesis using True assms(3) by (auto simp: reparent_def)
next
  case False
  have "\<not> (y \<in> (\<lambda>x. ptr_of (snd x)) ` set f \<and> \<not> is_leaf y)"
  proof
    assume "y \<in> (\<lambda>x. ptr_of (snd x)) ` set f \<and> \<not> is_leaf y"
    then obtain z where z: "z \<in> set f" "y = ptr_of (snd z)" "\<not> is_leaf y" by blast
    then have yz: "y \<in> nodes_of (snd z)" using child_ptr(3) [OF assms(1,2) z(1)] by simp
    have "fst x = fst z"
      using assms(2-4) z(1) yz by (auto simp: apart_def)
    moreover have "distinct (map fst f)" using assms(1) by simp
    ultimately have "x = z" using assms(3) z(1) by (metis eq_key_imp_eq_value prod.collapse)
    with z(2) False show False by simp
  qed
  then show ?thesis using False by (auto simp: reparent_def)
qed

lemma put_child_full:
  assumes rep: "rep h L par path (Node_T a p f)" and lin: "linear (Node_T a p f)"
    and slot: "slot_ok h ptr par path a" and par: "par \<notin> nodes_of (Node_T a p f)"
    and r: "room (Suc (Suc m0)) h" and nd: "\<not> ndebug h" and L: "L < 128"
    and k: "length k = L" "take (length path) k = path" "take (length p) (drop (length path) k) = p"
    and n: "nodes h a = Some n" "\<not> is_locked (version n)" "art_node_is_full (version n)"
    and absent: "\<And>t. (k ! (length path + length p), t) \<notin> set f"
  shows "case put_child ptr a k (length path + length p) (length p)
      (store_node a (n\<lparr>version := set_lock (version n)\<rparr>) h) of
    Inl e \<Rightarrow> e = Spin \<and> busy h par
  | Inr (next, h') \<Rightarrow> next = None \<and> (\<exists>t'. put_done h L par path (Node_T a p f) ptr k t' h')"
proof -
  let ?off = "length path + length p" and ?nl = "n\<lparr>version := set_lock (version n)\<rparr>"
  let ?hl = "store_node a ?nl h" and ?b = "k ! (length path + length p)"
  let ?C = "(\<lambda>x. ptr_of (snd x)) ` set f"
  have nrep: "node_rep n par (length path) p f" and a: "even a" "a \<noteq> 0" using rep n(1) by auto
  have nlrep: "node_rep ?nl par (length path) p f"
    using nrep by (intro node_rep_version) (simp_all add: bitfield node_rep_def)
  have len: "?off < length k" using rep_path [OF rep] k(1) by simp
  have pa: "par \<noteq> a" using par by auto
  have a_used: "a \<notin> spare h" using rep_not_spare(1) [OF rep r] by auto
  have la: "\<not> is_leaf a" using a by (simp add: not_leaf_even)
  have rl: "room (Suc (Suc m0)) ?hl" using r a_used by (simp add: room_store)
  have adom: "a = 0 \<or> nodes ?hl a \<noteq> None" and k4: "length k \<le> 4000" using k(1) L by simp_all
  obtain c lc h2 where c: "alloc_leaf a k Mem_Remote False ?hl = Inr (c + 1, store_leaf c lc h2)"
    "alloc_step ?hl c h2" "leaf_key lc = k" "key_length lc = of_nat (length k)"
    using alloc_leaf_room [OF rl adom k4, of Mem_Remote] by blast
  have h2: "nodes h2 = nodes ?hl" "leaves h2 = leaves h" "art_root h2 = art_root h" "ndebug h2 = ndebug h"
    "c \<in> spare h" "c \<notin> spare h2" "spare h2 \<subseteq> spare h" "room (Suc m0) h2"
    using c(2) rl by (simp_all add: alloc_step_def)
  have cfresh: "even c" "c \<noteq> 0" "leaves h c = None" using room_spare [OF r h2(5)] by simp_all
  have ctag: "is_leaf (c + 1)" "c + 1 \<noteq> 0"
    using tagged_leaf [OF cfresh(1)] make_leaf_even [OF cfresh(1)] by simp_all
  let ?hA = "store_leaf c lc h2"
  have full: "art_node_is_full (version ?nl)" using n(3) by (simp add: full_frame)
  have rA: "room (Suc m0) ?hA" using h2(6,8) by (simp add: room_store)
  have parA: "par = 0 \<or> nodes ?hA par \<noteq> None" using slot_ok_par(2) [OF slot r] pa h2(1) by simp
  have aA: "nodes ?hA a = Some ?nl" using h2(1) by simp
  have off256: "length path < 256" using len k(1) L by simp
  have ndA: "\<not> ndebug ?hA" using nd h2(4) by simp
  have kids: "ptr_of (snd x) \<noteq> 0 \<and> ptr_of (snd x) \<noteq> a \<and>
      (\<not> is_leaf (ptr_of (snd x)) \<longrightarrow> nodes ?hA (ptr_of (snd x)) \<noteq> None)" if "x \<in> set f" for x
    using child_ptr [OF rep lin that] h2(1) by simp
  obtain new g hG where
    grow: "art_node_grow a ?hA = Inr (new, hG)" "new \<in> spare ?hA" "new \<notin> spare hG" and
    nG: "nodes hG = (reparent new ?C (nodes ?hA))
      (new \<mapsto> g, a \<mapsto> ?nl\<lparr>new_node := new, version := set_old (version ?nl)\<rparr>)" and
    G: "leaves hG = leaves ?hA" "art_root hG = art_root ?hA" "node_rep g par (length path) p f"
      "\<not> art_node_is_full (version g)" "consumes 1 ?hA hG"
    using grow_represented [OF rA ndA parA aA nlrep off256 la full kids] by blast
  have newh: "new \<in> spare h" using grow(2) h2(7) by auto
  have new: "even new" "new \<noteq> 0" "nodes h new = None" using room_spare [OF r newh] by simp_all
  have na: "new \<noteq> a" using a_used newh by blast
  have np: "new \<noteq> par" using slot_ok_par(2) [OF slot r] new by auto
  have nc: "new \<noteq> c" using grow(2) h2(6) by auto
  let ?old = "?nl\<lparr>new_node := new, version := set_old (version ?nl)\<rparr>"
  obtain m where m: "place_child ?b (c + 1) g = Inr m"
    "node_rep m par (length path) p ((?b, Leaf_T c k) # f)"
    using node_rep_place [OF G(3) absent G(4), of "Leaf_T c k"] ctag by auto
  let ?m = "m\<lparr>version := unset_lock (version m)\<rparr>"
  let ?h3 = "store_node new ?m hG"
  have find: "find_slot ?nl (version ?nl) ?b = Inr None"
    by (rule node_rep_no_child(1) [OF nlrep absent])
  have exm: "\<not> is_expanding (version m)" using m(2) by (simp add: node_rep_def)
  have gN: "nodes hG new = Some g" using nG na by simp
  have add: "art_node_add_child a ?b (c + 1) True ?hA = Inr (None, new, ?h3)"
    using find full grow(1) gN m(1) ctag new(2) exm
    by (simp add: art_node_add_child_def load_node_simp [OF aA] find_child_simp [OF aA] load_node_simp
        unlock_simp)
  have a3: "nodes ?h3 a = Some ?old" using nG na by simp
  have parC: "par \<notin> ?C \<or> is_leaf par"
  proof -
    have "par \<in> nodes_of (Node_T a p f)" if "x \<in> set f" "par = ptr_of (snd x)" "\<not> is_leaf par" for x
      using child_ptr(3) [OF rep lin that(1)] that by auto
    then show ?thesis using par by blast
  qed
  have par3: "nodes ?h3 par = nodes h par"
    using nG np pa parC h2(1) by (auto simp: reparent_def)
  have glp: "art_node_get_locked_parent a ?h3 =
      (if par \<noteq> 0 \<and> busy ?h3 par then Inl Spin else Inr (par, lock_at par ?h3))"
  proof (rule get_locked_parent_slot [OF slot a3 _ par3])
    show "parent ?old = par" using nrep by (simp add: node_rep_def)
  qed
  have bz: "busy ?h3 par = busy h par" using par3 by (simp add: busy_def)
  show ?thesis
  proof (cases "par \<noteq> 0 \<and> busy h par")
    case True
    then have "put_child ptr a k ?off (length p) ?hl = Inl Spin"
      using len c(1) add glp bz new(2) by (simp add: put_child_def)
    with True show ?thesis by simp
  next
    case False
    let ?hp = "lock_at par ?h3"
    have c3: "consumes 2 h ?h3"
    proof -
      have "consumes (0 + 1 + 0 + 1 + 0) h ?h3" using h2(6) a_used grow(3)
        by (intro consumes_trans [OF _ consumes_store(1)] consumes_trans [OF _ G(5)]
            consumes_trans [OF _ consumes_store(2)] consumes_trans [OF _ alloc_consumes [OF c(2)]]
            consumes_store(1)) simp_all
      then show ?thesis by (simp add: eval_nat_numeral)
    qed
    have r3: "room m0 ?h3" using c3 r by (auto simp: consumes_def)
    have sp3: "spare ?h3 \<subseteq> spare h" using c3 by (simp add: consumes_def)
    have heldp: "par \<noteq> 0 \<Longrightarrow> nodes ?hp par = nodes (lock_at par h) par"
      using par3 by (simp add: lock_at_def split: option.splits)
    have newp: "nodes ?hp new = Some ?m" using np by simp
    have mpar: "parent ?m = par" using m(2) by (simp add: node_rep_def)
    have rootp: "art_root ?hp = art_root h" using G(2) h2(3) by simp
    have parp: "par \<notin> spare ?hp" using slot_ok_par(1) [OF slot r] sp3 by auto
    have newsp: "new \<notin> spare ?hp" using grow(3) by simp
    have free: "par = 0 \<or> \<not> busy h par" using False by simp
    obtain h4 where
      sw: "swing_pointer par ptr k (length path) new ?hp = Inr h4" and
      h4: "\<forall>x. x \<noteq> par \<longrightarrow> nodes h4 x = nodes ?hp x" "slot_updated h ptr new h4" "leaves h4 = leaves ?hp"
        "consumes 0 ?hp h4"
      using swing_pointer_slot [OF slot free heldp newp mpar np k(2) rootp parp newsp] by blast
    have a4: "nodes h4 a = Some ?old" using h4(1) a3 pa by simp
    let ?h5 = "store_node a (?old\<lparr>version := unset_lock (version ?old)\<rparr>) h4"
    have "\<not> is_expanding (version ?old)"
      using nrep by (simp add: node_rep_def bitfield)
    then have ul: "art_node_unlock a h4 = Inr ?h5" by (rule unlock_simp [OF a4])
    have eval: "put_child ptr a k ?off (length p) ?hl = Inr (None, ?h5)"
      using len c(1) add glp bz False new(2) sw ul by (simp add: put_child_def)
    have lv: "leaves ?h5 = (leaves h)(c \<mapsto> lc)" using h4(3) G(1) h2(2) by simp
    have ns: "nodes ?h5 x = reparent new ?C (nodes h) x" if "x \<noteq> a" "x \<noteq> new" "x \<noteq> par" for x
      using that h4(1) nG h2(1) by (simp add: reparent_def)
    have n5: "nodes ?h5 new = Some ?m" using h4(1) np na newp by simp
    let ?t = "Node_T new p ((?b, Leaf_T c k) # f)"
    have "rep ?h5 L par path ?t"
    proof (rule rep_new_child)
      show "rep ?h5 L new (path @ p @ [fst x]) (snd x)" if x: "x \<in> set f" for x
      proof (rule rep_reparent [of h])
        show "rep h L a (path @ p @ [fst x]) (snd x)" using rep x by simp
        show "linear (snd x)" using lin x by simp
        show "nodes ?h5 y = (if y = ptr_of (snd x) then map_option (\<lambda>n. n\<lparr>parent := new\<rparr>) (nodes h y)
            else nodes h y)" if y: "y \<in> nodes_of (snd x)" for y
        proof -
          have yt: "y \<in> nodes_of (Node_T a p f)" using x y by auto
          have "y \<noteq> a" using lin x y by auto
          moreover have "y \<noteq> par" using par yt by blast
          moreover have "y \<noteq> new" using rep_dom(1) [OF rep yt] new(3) by auto
          ultimately show ?thesis
            using ns [of y] reparented_child [OF rep lin x y] by simp
        qed
        show "leaves ?h5 y = Some l" if "y \<in> leaves_of (snd x)" "leaves h y = Some l" for y l
          using that cfresh(3) lv by auto
      qed
      show "node_rep ?m par (length path) p ((?b, Leaf_T c k) # f)" by (rule node_rep_unlock [OF m(2)])
      show "nodes ?h5 new = Some ?m" by (rule n5)
    qed (use new rep absent cfresh lv c(3,4) k len in \<open>auto simp: leaf_rep_def\<close>)
    moreover have "linear ?t"
    proof -
      have "c \<notin> leaves_of (Node_T a p f)" using rep_dom(2) [OF rep] cfresh(3) by blast
      moreover have "new \<notin> nodes_of (Node_T a p f)" using rep_dom(1) [OF rep] new(3) by blast
      ultimately show ?thesis using lin by (auto simp: apart_def)
    qed
    moreover have "slot_updated h ptr new ?h5"
    proof (cases ptr)
      case (Child x i)
      then have "x = par" using slot by (simp add: slot_ok_def)
      with Child h4(2) pa show ?thesis by (simp add: slot_updated_def)
    qed (use h4(2) in \<open>simp add: slot_updated_def\<close>)
    moreover have "frame h par (Node_T a p f) ?h5"
    proof -
      have "nodes ?h5 x = nodes h x" if "x \<notin> nodes_of (Node_T a p f)" "x \<notin> spare h" "x \<noteq> par" for x
      proof -
        have "\<not> (x \<in> ?C \<and> \<not> is_leaf x)"
          using that(1) child_ptr(3) [OF rep lin] by auto
        moreover have "x \<noteq> a" "x \<noteq> new" using that newh by auto
        ultimately show ?thesis using ns [of x] that by (auto simp: reparent_def)
      qed
      then show ?thesis using lv h2(5) by (auto simp: frame_def)
    qed
    moreover have cc: "consumes 2 h ?h5"
    proof -
      have "a \<notin> spare h4" using h4(4) sp3 a_used by (auto simp: consumes_def)
      from consumes_trans [OF consumes_trans [OF consumes_trans [OF c3 lock_at_consumes [OF r3]] h4(4)]
          consumes_store(1) [OF this]]
      show ?thesis by (simp add: eval_nat_numeral)
    qed
    moreover have "new \<notin> spare ?h5" "c \<notin> spare ?h5"
    proof -
      have "spare hG \<subseteq> spare h2" using G(5) by (simp add: consumes_def)
      then show "new \<notin> spare ?h5" "c \<notin> spare ?h5"
        using h4(4) grow(3) h2(6) by (auto simp: consumes_def)
    qed
    ultimately have "put_done h L par path (Node_T a p f) ptr k ?t ?h5"
      using newh h2(5) by (auto simp: put_done_def)
    with eval show ?thesis by auto
  qed
qed

section \<open>Composition along the path\<close>

lemma set_update:
  assumes "distinct (map fst f)"
  shows "(c, t) \<in> set (AList.update b u f) \<longleftrightarrow> (if c = b then t = u else (c, t) \<in> set f)"
proof -
  have "distinct (map fst (AList.update b u f))" using assms by (rule distinct_update)
  then have "(c, t) \<in> set (AList.update b u f) \<longleftrightarrow> map_of (AList.update b u f) c = Some t"
    by (simp add: map_of_eq_Some_iff)
  then show ?thesis
    using assms by (auto simp: update_conv' map_of_eq_Some_iff)
qed

lemma put_done_child:
  assumes rep: "rep h L par path (Node_T a p f)" and lin: "linear (Node_T a p f)"
    and slot: "slot_ok h ptr par path a" and par: "par \<notin> nodes_of (Node_T a p f)" and r: "room m0 h"
    and n: "nodes h a = Some n" and u: "(b, u) \<in> set f" and i: "slot_at n b i"
    and put: "put_done h L a (path @ p @ [b]) u (Child a i) k u' h'"
  shows "put_done h L par path (Node_T a p f) ptr k (Node_T a p (AList.update b u' f)) h'"
proof -
  let ?f = "AList.update b u' f"
  have dist: "distinct (map fst f)" and nrep: "node_rep n par (length path) p f" and a: "even a" "a \<noteq> 0"
    using rep n by auto
  have wf: "node_wf n" using nrep by (simp add: node_rep_def)
  have u': "rep h' L a (path @ p @ [b]) u'" "linear u'" "keys_of u' = insert k (keys_of u)"
    "frame h a u h'" "consumes 2 h h'" "nodes_of u' \<subseteq> nodes_of u \<union> (spare h - spare h')"
    "leaves_of u' \<subseteq> leaves_of u \<union> (spare h - spare h')" "art_root h' = art_root h"
    "nodes h' a = Some (n\<lparr>child := (child n)[i := ptr_of u']\<rparr>)"
    using put n by (auto simp: put_done_def slot_updated_def)
  have nsp: "nodes_of (Node_T a p f) \<inter> spare h = {}" "leaves_of (Node_T a p f) \<inter> spare h = {}"
    using rep_not_spare [OF rep r] .
  have other: "c \<noteq> b \<Longrightarrow> (c, t) \<in> set f \<Longrightarrow> apart t u" for c t
    using lin u by force
  have sub: "nodes_of t \<subseteq> nodes_of (Node_T a p f)" "leaves_of t \<subseteq> leaves_of (Node_T a p f)"
    if "(c, t) \<in> set f" for c t using that by force+
  have set_f: "(c, t) \<in> set ?f \<longleftrightarrow> (if c = b then t = u' else (c, t) \<in> set f)" for c t
    by (rule set_update [OF dist])
  have ptr: "ptr_of u' \<noteq> 0" by (rule rep_ptr(1) [OF u'(1)])
  have "node_rep (n\<lparr>child := (child n)[i := ptr_of u']\<rparr>) par (length path) p ?f"
    using nrep node_wf_store [OF wf, of i "ptr_of u'"] child_at_store [OF wf i ptr]
    by (auto simp: node_rep_def set_f)
  moreover have "rep h' L a (path @ p @ [c]) t" if ct: "(c, t) \<in> set ?f" for c t
  proof (cases "c = b")
    case True
    with ct u'(1) set_f show ?thesis by simp
  next
    case False
    with ct have t: "(c, t) \<in> set f" using set_f by simp
    have ap: "apart t u" by (rule other [OF False t])
    show ?thesis
    proof (rule rep_frame [of h])
      show "rep h L a (path @ p @ [c]) t" using rep t by auto
      show "nodes h' x = nodes h x" if "x \<in> nodes_of t" for x
      proof -
        have "x \<noteq> a" using lin t that by auto
        moreover have "x \<notin> spare h" using sub(1) [OF t] nsp(1) that by blast
        moreover have "x \<notin> nodes_of u" using ap that by (auto simp: apart_def)
        ultimately show ?thesis using u'(4) by (simp add: frame_def)
      qed
      show "\<exists>l'. leaves h' x = Some l' \<and> leaf_key l' = leaf_key l \<and> key_length l' = key_length l"
        if "x \<in> leaves_of t" "leaves h x = Some l" for x l
      proof -
        have "x \<notin> spare h" using sub(2) [OF t] nsp(2) that by blast
        moreover have "x \<notin> leaves_of u" using ap that by (auto simp: apart_def)
        ultimately show ?thesis using u'(4) that(2) by (simp add: frame_def)
      qed
    qed
  qed
  moreover have "?f \<noteq> []" using set_f [of b u'] by auto
  moreover have "distinct (map fst ?f)" using dist by (rule distinct_update)
  ultimately have "rep h' L par path (Node_T a p ?f)"
    using a u'(9) by auto
  moreover have "linear (Node_T a p ?f)"
  proof -
    have 1: "linear t \<and> a \<notin> nodes_of t" if "(c, t) \<in> set ?f" for c t
    proof (cases "c = b")
      case True
      have "a \<notin> nodes_of u" "a \<notin> spare h" using lin u nsp(1) by auto
      with True that set_f u'(2,6) show ?thesis by auto
    qed (use that set_f lin in auto)
    have fresh: "apart t u'" if "c \<noteq> b" "(c, t) \<in> set f" for c t
      using other [OF that] sub [OF that(2)] nsp u'(6,7) unfolding apart_def by blast
    have sym: "apart t v \<longleftrightarrow> apart v t" for t v by (auto simp: apart_def)
    have 2: "apart t v" if "(c, t) \<in> set ?f" "(d, v) \<in> set ?f" "c \<noteq> d" for c t d v
      using that set_f [of c t] set_f [of d v] fresh [of c t] fresh [of d v] sym lin
      by (cases "c = b"; cases "d = b") force+
    show ?thesis using 1 2 by auto
  qed
  moreover have "keys_of (Node_T a p ?f) = insert k (keys_of (Node_T a p f))"
  proof -
    have "x \<in> keys_of (Node_T a p ?f) \<longleftrightarrow> x \<in> insert k (keys_of (Node_T a p f))" for x
    proof -
      have "x \<in> keys_of (Node_T a p ?f) \<longleftrightarrow> (\<exists>c t. (c, t) \<in> set ?f \<and> x \<in> keys_of t)" by force
      also have "\<dots> \<longleftrightarrow> x = k \<or> x \<in> keys_of u \<or> (\<exists>c t. c \<noteq> b \<and> (c, t) \<in> set f \<and> x \<in> keys_of t)"
        using u'(3) by (auto simp: set_f split: if_splits)
      also have "\<dots> \<longleftrightarrow> x = k \<or> (\<exists>c t. (c, t) \<in> set f \<and> x \<in> keys_of t)"
        using u eq_key_imp_eq_value [OF dist u] by metis
      also have "\<dots> \<longleftrightarrow> x \<in> insert k (keys_of (Node_T a p f))" by force
      finally show ?thesis .
    qed
    then show ?thesis by blast
  qed
  moreover have "slot_updated h ptr a h'"
  proof (rule slot_updated_same [OF slot])
    have "par \<notin> spare h" by (rule slot_ok_par(1) [OF slot r])
    moreover have "par \<noteq> a" "par \<notin> nodes_of u" using par sub(1) [OF u] by auto
    ultimately show "nodes h' par = nodes h par" using u'(4) by (simp add: frame_def)
  qed (rule u'(8))
  moreover have "frame h par (Node_T a p f) h'"
    using u'(4) sub [OF u] by (auto simp: frame_def)
  moreover have "nodes_of (Node_T a p ?f) \<subseteq> nodes_of (Node_T a p f) \<union> (spare h - spare h')"
  proof -
    have "nodes_of t \<subseteq> nodes_of (Node_T a p f) \<union> (spare h - spare h')" if "(c, t) \<in> set ?f" for c t
      using that set_f [of c t] u'(6) sub(1) [OF u] sub(1) [of c t] by (cases "c = b") auto
    then have "(\<Union>x \<in> set ?f. nodes_of (snd x)) \<subseteq> nodes_of (Node_T a p f) \<union> (spare h - spare h')"
      by (intro UN_least) (metis prod.collapse)
    then show ?thesis by simp
  qed
  moreover have "leaves_of (Node_T a p ?f) \<subseteq> leaves_of (Node_T a p f) \<union> (spare h - spare h')"
  proof -
    have "leaves_of t \<subseteq> leaves_of (Node_T a p f) \<union> (spare h - spare h')" if "(c, t) \<in> set ?f" for c t
      using that set_f [of c t] u'(7) sub(2) [OF u] sub(2) [of c t] by (cases "c = b") auto
    then have "(\<Union>x \<in> set ?f. leaves_of (snd x)) \<subseteq> leaves_of (Node_T a p f) \<union> (spare h - spare h')"
      by (intro UN_least) (metis prod.collapse)
    then show ?thesis by simp
  qed
  ultimately show ?thesis using u'(5) by (simp add: put_done_def)
qed

lemma art_put_node:
  assumes n: "nodes h a = Some n" "node_rep n par (length path) p f" "\<not> is_leaf a"
    and "load_ptr ptr h = Inr a" and k: "length path + length p < length k"
  obtains (split) m where "m < length p" and "take m p = take m (drop (length path) k)"
    and "p ! m \<noteq> k ! (length path + m)"
    and "art_put (Suc fuel) True par ptr k (length path) h =
      (if is_locked (version n) then Inl Spin
       else put_expand ptr a k (length path) m
         (store_node a (n\<lparr>version := set_lock (version n)\<rparr>) h))"
  | (descend) i u where "take (length p) (drop (length path) k) = p"
    and "(k ! (length path + length p), u) \<in> set f" and "slot_at n (k ! (length path + length p)) i"
    and "i < length (child n)" and "child n ! i = ptr_of u"
    and "art_put (Suc fuel) True par ptr k (length path) h =
      art_put fuel True a (Child a i) k (length path + length p + 1) h"
  | (insert) "take (length p) (drop (length path) k) = p"
    and "\<And>t. (k ! (length path + length p), t) \<notin> set f"
    and "art_put (Suc fuel) True par ptr k (length path) h =
      (if is_locked (version n) then Inl Spin
       else and_then (put_child ptr a k (length path + length p) (length p)
           (store_node a (n\<lparr>version := set_lock (version n)\<rparr>) h)) (\<lambda>(next2, h2).
         case next2 of
           Some i \<Rightarrow> art_put fuel True a (Child a i) k (length path + length p + 1) h2
         | None \<Rightarrow> Inr (0, h2)))"
proof -
  obtain m where m: "prefix_mismatch (prefix n) k (length p) (length path) 0 = Inr m" "m \<le> length p"
    "take m p = take m (drop (length path) k)" "m < length p \<Longrightarrow> p ! m \<noteq> k ! (length path + m)"
    "m = length p \<longleftrightarrow> take (length p) (drop (length path) k) = p"
    by (rule prefix_mismatch_full [OF n(2) k]) blast
  have v: "\<not> is_old (version n)" "\<not> is_expanding (version n)" "get_offset (version n) = length path"
    "get_prefix_len (version n) = length p"
    using n(2) by (simp_all add: node_rep_def)
  have ce: "\<not> art_node_version_compare_expand (version n) (set_lock (version n))"
    by (simp add: art_node_version_compare_expand_def bitfield)
  note eval = stable_simp art_node_version_is_old_def prefix_compare_simp get_version_simp
    find_child_simp lock_simp lock_spin
  show thesis
  proof (cases "m < length p")
    case True
    have "art_put (Suc fuel) True par ptr k (length path) h =
      (if is_locked (version n) then Inl Spin
       else put_expand ptr a k (length path) m
         (store_node a (n\<lparr>version := set_lock (version n)\<rparr>) h))"
      using n(1,3) assms(4) m(1) True v ce by (simp add: eval)
    with split True m show thesis by blast
  next
    case False
    then have ml: "m = length p" and tp: "take (length p) (drop (length path) k) = p"
      using m(2,5) by simp_all
    let ?b = "k ! (length path + length p)"
    show thesis
    proof (cases "\<exists>u. (?b, u) \<in> set f")
      case True
      then obtain u where u: "(?b, u) \<in> set f" by blast
      obtain i where i: "slot_at n ?b i" "i < length (child n)" "child n ! i = ptr_of u"
        "find_slot n (version n) ?b = Inr (Some i)"
        by (rule node_rep_child [OF n(2) u]) blast
      have "art_put (Suc fuel) True par ptr k (length path) h =
          art_put fuel True a (Child a i) k (length path + length p + 1) h"
        using n(1,3) assms(4) m(1) ml v ce i(4) k by (simp add: eval)
      with descend tp u i show thesis by blast
    next
      case False
      then have absent: "\<And>t. (?b, t) \<notin> set f" by blast
      have "find_slot n (version n) ?b = Inr None" by (rule node_rep_no_child(1) [OF n(2) absent])
      then have "art_put (Suc fuel) True par ptr k (length path) h =
        (if is_locked (version n) then Inl Spin
         else and_then (put_child ptr a k (length path + length p) (length p)
             (store_node a (n\<lparr>version := set_lock (version n)\<rparr>) h)) (\<lambda>(next2, h2).
           case next2 of
             Some i \<Rightarrow> art_put fuel True a (Child a i) k (length path + length p + 1) h2
           | None \<Rightarrow> Inr (0, h2)))"
        using n(1,3) assms(4) m(1) ml v ce k by (simp add: eval)
      with insert tp absent show thesis by blast
    qed
  qed
qed

lemma art_put_correct:
  "rep h L par path t \<Longrightarrow> linear t \<Longrightarrow> slot_ok h ptr par path (ptr_of t) \<Longrightarrow> par \<notin> nodes_of t \<Longrightarrow>
   room (Suc (Suc m0)) h \<Longrightarrow> \<not> ndebug h \<Longrightarrow> L < 128 \<Longrightarrow> length k = L \<Longrightarrow> take (length path) k = path \<Longrightarrow>
   L - length path < fuel \<Longrightarrow>
   put_result h L par path t ptr k (art_put fuel True par ptr k (length path) h)"
proof (induction fuel arbitrary: par path t ptr)
  case (Suc fuel)
  note rep = Suc.prems(1) and slot = Suc.prems(3) and r = Suc.prems(5)
  have lp: "load_ptr ptr h = Inr (ptr_of t)"
    using slot slot_at_less by (cases ptr) (fastforce simp: slot_ok_def load_ptr_def load_slot_def load_node_simp)+
  show ?case
  proof (cases t)
    case (Leaf_T a k1)
    have leaf: "is_leaf (a + 1)" using rep_ptr(2) rep Leaf_T by blast
    have "art_put (Suc fuel) True par ptr k (length path) h =
        adaptive_radix_tree_replace_leaf par ptr (a + 1) k (length path) h"
      using lp Leaf_T leaf by simp
    moreover have "put_result h L par path t ptr k
        (adaptive_radix_tree_replace_leaf par ptr (a + 1) k (length path) h)"
    proof (cases "k1 = k")
      case True
      with Suc.prems Leaf_T replace_leaf_exists [of h L par path a k ptr] show ?thesis by simp
    next
      case False
      with Suc.prems Leaf_T replace_leaf_new [of h L par path a k1 ptr m0 k] show ?thesis by simp
    qed
    ultimately show ?thesis by simp
  next
    case (Node_T a p f)
    from rep Node_T obtain n where n: "nodes h a = Some n" "node_rep n par (length path) p f"
      by auto
    have rep': "rep h L par path (Node_T a p f)" and lin: "linear (Node_T a p f)"
      and slot': "slot_ok h ptr par path a" and par: "par \<notin> nodes_of (Node_T a p f)"
      using Suc.prems Node_T by simp_all
    have len: "length path + length p < length k"
      using rep_path [OF rep] Node_T Suc.prems(8) by simp
    have lpa: "load_ptr ptr h = Inr a" using lp Node_T by simp
    let ?b = "k ! (length path + length p)"
    have spin: "put_result h L par path t ptr k (Inl Spin)" if "is_locked (version n)"
      using that n(1) Node_T by (auto simp: put_result_def busy_def)
    from n rep_ptr(3) [OF rep'] lpa len show ?thesis
    proof (cases rule: art_put_node [where fuel = fuel])
      case (split m)
      then show ?thesis
        using spin Node_T
          put_expand_ok(1) [OF rep' lin slot' par r Suc.prems(6-9) n(1) _ split(1-3)] by simp
    next
      case (descend i u)
      have ru: "rep h L a (path @ p @ [?b]) u" and lu: "linear u" "a \<notin> nodes_of u"
        using rep' lin descend(2) by auto
      have path': "take (length (path @ p @ [?b])) k = path @ p @ [?b]"
        using descend(1) Suc.prems(9) len
        by (simp add: take_Suc_conv_app_nth) (metis append_take_drop_id append.assoc take_add)
      have a0: "a \<noteq> 0" using rep' by simp
      have slotu: "slot_ok h (Child a i) a (path @ p @ [?b]) (ptr_of u)"
        using n a0 descend(3,5) by (simp add: slot_ok_def node_rep_def)
      have "L - length (path @ p @ [?b]) < fuel"
        using Suc.prems(8,10) len by simp
      from Suc.IH [OF ru lu(1) slotu lu(2) r Suc.prems(6-8) path' this]
      have IH: "put_result h L a (path @ p @ [?b]) u (Child a i) k
          (art_put (Suc fuel) True par ptr k (length path) h)"
        using descend(6) by simp
      have keys: "k \<in> keys_of t \<longleftrightarrow> k \<in> keys_of u"
        using rep_key_child [OF rep' descend(2)] Node_T by simp
      show ?thesis
      proof (cases "art_put (Suc fuel) True par ptr k (length path) h")
        case (Inl e)
        have "insert a (nodes_of u) \<subseteq> nodes_of t" "keys_of u \<subseteq> keys_of t" using Node_T descend(2) by force+
        then show ?thesis using IH unfolding Inl put_result_def sum.case by blast
      next
        case (Inr x)
        obtain ret h' where x: "x = (ret, h')" by (cases x)
        with IH Inr obtain u' where "ret = of_bool (k \<in> keys_of u)"
          "put_done h L a (path @ p @ [?b]) u (Child a i) k u' h'"
          by (auto simp: put_result_def)
        with put_done_child [OF rep' lin slot' par r n(1) descend(2,3)] keys Inr x Node_T show ?thesis
          by (auto simp: put_result_def)
      qed
    next
      case insert
      have absent: "k \<notin> keys_of t"
        using rep_key_node(2) [OF rep'] insert(2) Node_T by blast
      show ?thesis
      proof (cases "is_locked (version n)")
        case True
        with spin insert(3) show ?thesis by simp
      next
        case False
        have r1: "room (Suc m0) h" using r room_mono by (metis le_SucI order_refl)
        let ?pc = "put_child ptr a k (length path + length p) (length p)
          (store_node a (n\<lparr>version := set_lock (version n)\<rparr>) h)"
        have pc: "case ?pc of Inl e \<Rightarrow> e = Spin \<and> busy h par
          | Inr (next, h') \<Rightarrow> next = None \<and> (\<exists>t'. put_done h L par path (Node_T a p f) ptr k t' h')"
        proof (cases "art_node_is_full (version n)")
          case True
          show ?thesis
            by (rule put_child_full [OF rep' lin slot' par r Suc.prems(6-9) insert(1) n(1) False True insert(2)])
        next
          case nf: False
          from put_child_not_full [OF rep' lin slot' par r1 Suc.prems(7-9) insert(1) n(1) False nf insert(2)]
          show ?thesis by auto
        qed
        then show ?thesis
          using insert(3) False absent Node_T
          by (cases ?pc) (auto simp: put_result_def)
      qed
    qed
  qed
qed simp

end
