(* ===== verification/Art_Index.thy ===== *)
theory Art_Index
  imports Art_Put
begin

text \<open>
  The entry points of the radix tree as an index. \<open>set_index\<close> is the contract a client of an index
  relies on: an insertion answers whether the key was there and adds it, a lookup answers membership
  and changes no key; an insertion can fail only by waiting for a lock or by an assertion, and by an assertion only
  when the key clashes with one that is there. The contract is proved for
  \<open>adaptive_radix_tree_put\<close> and \<open>adaptive_radix_tree_get\<close>, and with it every sequence of operations
  behaves as on a set.
\<close>

section \<open>Sequences of operations\<close>

datatype 'k index_op = Put 'k | Get 'k

text \<open>The answers of a sequence of operations, on an index and on a set.\<close>

fun run_ops ::
  "('k \<Rightarrow> 's \<Rightarrow> (int \<times> 's) res) \<Rightarrow> ('k \<Rightarrow> 's \<Rightarrow> (u64 \<times> 's) res) \<Rightarrow> 'k index_op list \<Rightarrow> 's \<Rightarrow>
     (bool list \<times> 's) res" where
  "run_ops put get [] s = Inr ([], s)"
| "run_ops put get (Put k # ops) s =
     and_then (put k s) (\<lambda>(r, s1). and_then (run_ops put get ops s1) (\<lambda>(rs, s2). Inr ((r = 1) # rs, s2)))"
| "run_ops put get (Get k # ops) s =
     and_then (get k s) (\<lambda>(a, s1). and_then (run_ops put get ops s1) (\<lambda>(rs, s2). Inr ((a \<noteq> 0) # rs, s2)))"

fun set_run :: "'k index_op list \<Rightarrow> 'k set \<Rightarrow> bool list \<times> 'k set" where
  "set_run [] K = ([], K)"
| "set_run (Put k # ops) K = (let (rs, K2) = set_run ops (insert k K) in ((k \<in> K) # rs, K2))"
| "set_run (Get k # ops) K = (let (rs, K2) = set_run ops K in ((k \<in> K) # rs, K2))"

fun op_key :: "'k index_op \<Rightarrow> 'k" where
  "op_key (Put k) = k"
| "op_key (Get k) = k"

locale set_index =
  fixes put :: "'k \<Rightarrow> 's \<Rightarrow> (int \<times> 's) res"
    and get :: "'k \<Rightarrow> 's \<Rightarrow> (u64 \<times> 's) res"
    and valid :: "'k \<Rightarrow> bool"
    and inv :: "nat \<Rightarrow> 's \<Rightarrow> 'k set \<Rightarrow> bool"
    and clash :: "'k \<Rightarrow> 'k \<Rightarrow> bool"
  assumes put_ok: "inv (Suc n) s K \<Longrightarrow> valid k \<Longrightarrow> put k s = Inr (r, s') \<Longrightarrow>
      r = of_bool (k \<in> K) \<and> inv n s' (insert k K)"
    and put_fails: "inv (Suc n) s K \<Longrightarrow> valid k \<Longrightarrow> put k s = Inl e \<Longrightarrow>
      e = Spin \<or> e = Assert_Failed \<and> (\<exists>k1 \<in> K. clash k k1)"
    and get_ok: "inv n s K \<Longrightarrow> valid k \<Longrightarrow> \<exists>a s'. get k s = Inr (a, s') \<and> (a \<noteq> 0 \<longleftrightarrow> k \<in> K) \<and> inv n s' K"
    and inv_mono: "inv (Suc n) s K \<Longrightarrow> inv n s K"
begin

lemma run_refines:
  "inv (length ops) s K \<Longrightarrow> \<forall>x \<in> set ops. valid (op_key x) \<Longrightarrow>
   case run_ops put get ops s of
     Inl e \<Rightarrow> e = Spin \<or> e = Assert_Failed \<and> (\<exists>k \<in> op_key ` set ops. \<exists>k1 \<in> K \<union> op_key ` set ops. clash k k1)
   | Inr (rs, s') \<Rightarrow> rs = fst (set_run ops K) \<and> inv 0 s' (snd (set_run ops K))"
proof (induction ops arbitrary: s K)
  case (Cons x ops)
  then have valid: "valid (op_key x)" "\<forall>y \<in> set ops. valid (op_key y)"
    and i: "inv (Suc (length ops)) s K" by simp_all
  show ?case
  proof (cases x)
    case (Put k)
    show ?thesis
    proof (cases "put k s")
      case (Inl e)
      with Put put_fails [OF i, of k e] valid show ?thesis by auto
    next
      case (Inr y)
      obtain r s1 where y: "y = (r, s1)" by (cases y)
      with put_ok [OF i] Inr Put valid have "r = of_bool (k \<in> K)" "inv (length ops) s1 (insert k K)"
        by simp_all
      with Cons.IH [OF this(2) valid(2)] Inr y Put show ?thesis
        by (cases "run_ops put get ops s1") (fastforce simp: split_beta Let_def)+
    qed
  next
    case (Get k)
    obtain a s1 where g: "get k s = Inr (a, s1)" "a \<noteq> 0 \<longleftrightarrow> k \<in> K" "inv (length ops) s1 K"
      using get_ok [OF inv_mono [OF i], of k] valid(1) Get by auto
    with Cons.IH [OF g(3) valid(2)] Get show ?thesis
      by (cases "run_ops put get ops s1") (fastforce simp: split_beta Let_def)+
  qed
qed simp

lemma get_after_puts:
  assumes "inv (length ks) s {}" and "\<forall>x \<in> set ks. valid x" and "valid k"
    and "run_ops put get (map Put ks) s = Inr (rs, s')"
  shows "\<exists>a s2. get k s' = Inr (a, s2) \<and> (a \<noteq> 0 \<longleftrightarrow> k \<in> set ks)"
proof -
  have keys: "snd (set_run (map Put ks) K) = K \<union> set ks" for K
    by (induction ks arbitrary: K) (auto simp: split_beta Let_def)
  have "inv 0 s' (set ks)"
    using run_refines [of "map Put ks" s "{}"] assms keys [of "{}"] by auto
  with get_ok assms(3) show ?thesis by blast
qed

end

section \<open>The tree as an index\<close>

text \<open>The keys of a tree: none when the root pointer is null, those of the represented trie otherwise.\<close>

definition holds :: "nat \<Rightarrow> art_heap \<Rightarrow> u8 list set \<Rightarrow> bool" where
  "holds L h K \<longleftrightarrow>
     art_root h = 0 \<and> K = {} \<or>
     (\<exists>t. rep h L 0 [] t \<and> linear t \<and> art_root h = ptr_of t \<and> keys_of t = K)"

text \<open>
  The invariant of the index, with room for \<open>n\<close> further insertions of two allocations each. A leaf
  does not lie in the last four bytes of the address space: the address of its key would be null.
\<close>

definition no_wrap :: "art_heap \<Rightarrow> bool" where
  "no_wrap h \<longleftrightarrow> (\<forall>a. leaves h a \<noteq> None \<or> a \<in> spare h \<longrightarrow> a + 4 \<noteq> 0)"

definition index_inv :: "nat \<Rightarrow> nat \<Rightarrow> art_heap \<Rightarrow> u8 list set \<Rightarrow> bool" where
  "index_inv L n h K \<longleftrightarrow> holds L h K \<and> room (n + n) h \<and> no_wrap h \<and> \<not> ndebug h \<and> L < 128"

lemma rep_not_zero: "rep h L par path t \<Longrightarrow> 0 \<notin> nodes_of t"
proof (induction t arbitrary: par path)
  case (Node_T a p f)
  have "0 \<notin> nodes_of (snd x)" if x: "x \<in> set f" for x
  proof (rule Node_T.IH [OF x])
    show "snd x \<in> Basic_BNFs.snds x" by (metis snds.intros surj_pair snd_conv)
    show "rep h L a (path @ p @ [fst x]) (snd x)" using Node_T.prems x by simp
  qed
  with Node_T.prems show ?case by simp
qed simp

lemma rep_leaves: "rep h L par path t \<Longrightarrow> x \<in> leaves_of t \<Longrightarrow> leaves h x \<noteq> None"
proof (induction t arbitrary: par path)
  case (Node_T a p f)
  then obtain y where y: "y \<in> set f" "x \<in> leaves_of (snd y)" by auto
  show ?case
  proof (rule Node_T.IH [OF y(1) _ _ y(2)])
    show "snd y \<in> Basic_BNFs.snds y" by (metis snds.intros surj_pair snd_conv)
    show "rep h L a (path @ p @ [fst y]) (snd y)" using Node_T.prems y by simp
  qed
qed auto

lemma empty_put:
  assumes "art_root h = 0" and "room (Suc m) h" and "length k = L" and "L < 128"
  shows "\<exists>h'. adaptive_radix_tree_put tries fuel k h = Inr (0, h') \<and> holds L h' {k} \<and> consumes 1 h h' \<and>
    (no_wrap h \<longrightarrow> no_wrap h')"
proof -
  obtain a l h1 where a: "alloc_leaf 0 k Mem_Remote False h = Inr (a + 1, store_leaf a l h1)"
    "alloc_step h a h1" "leaf_key l = k" "key_length l = of_nat (length k)"
    using alloc_leaf_room [OF assms(2), of 0 k Mem_Remote] assms(3,4) by auto
  let ?h = "store_leaf a l h1\<lparr>art_root := a + 1\<rparr>"
  have ev: "even a" "a \<noteq> 0"
    using a(2) room_spare [OF assms(2)] by (auto simp: alloc_step_def)
  have e: "adaptive_radix_tree_put tries fuel k h = Inr (0, ?h)"
    using a(1,2) assms(1) by (simp add: adaptive_radix_tree_put_def alloc_step_def)
  have "rep ?h L 0 [] (Leaf_T a k)"
    using a(3,4) ev assms(3) by (simp add: leaf_rep_def)
  then have "holds L ?h {k}"
    by (auto simp: holds_def intro!: exI [of _ "Leaf_T a k"])
  moreover have "consumes 1 h ?h"
  proof -
    have "consumes 0 h1 (store_leaf a l h1)" "consumes 0 (store_leaf a l h1) ?h"
      using a(2) consumes_store by (auto simp: alloc_step_def)
    from consumes_trans [OF alloc_consumes [OF a(2)] consumes_trans [OF this]] show ?thesis by simp
  qed
  moreover have "no_wrap h \<longrightarrow> no_wrap ?h"
    using a(2) by (auto simp: no_wrap_def alloc_step_def)
  ultimately show ?thesis using e by blast
qed

lemma tree_put:
  assumes "rep h L 0 [] t" and "linear t" and "art_root h = ptr_of t" and "room (Suc (Suc m)) h"
    and "\<not> ndebug h" and "length k = L" and "L < 128"
  shows "case adaptive_radix_tree_put (Suc tries) (Suc L) k h of
    Inl e \<Rightarrow> e = Spin \<and> (\<exists>x. busy h x) \<or> e = Assert_Failed \<and> (\<exists>k1 \<in> keys_of t. long_clash k k1)
  | Inr (r, h') \<Rightarrow> r = of_bool (k \<in> keys_of t) \<and> holds L h' (insert k (keys_of t)) \<and> consumes 2 h h' \<and>
      (no_wrap h \<longrightarrow> no_wrap h')"
proof -
  have root: "art_root h \<noteq> 0" using assms(1,3) rep_ptr(1) by simp
  have "put_result h L 0 [] t Root k (art_put (Suc L) True 0 Root k (length ([] :: u8 list)) h)"
    using assms rep_not_zero [OF assms(1)]
    by (intro art_put_correct) (simp_all add: slot_ok_def)
  moreover have "no_wrap h \<longrightarrow> no_wrap h'" if "frame h 0 t h'" "spare h' \<subseteq> spare h" for h'
    using that rep_leaves [OF assms(1)] by (fastforce simp: no_wrap_def frame_def)
  ultimately show ?thesis
    using root
    by (cases "art_put (Suc L) True 0 Root k 0 h")
      (auto simp: adaptive_radix_tree_put_def put_result_def put_done_def slot_updated_def holds_def
        consumes_def)
qed

lemma holds_put:
  assumes "holds L h K" and "room (Suc (Suc m)) h" and "\<not> ndebug h" and "length k = L" and "L < 128"
  shows "case adaptive_radix_tree_put (Suc tries) (Suc L) k h of
    Inl e \<Rightarrow> e = Spin \<and> (\<exists>x. busy h x) \<or> e = Assert_Failed \<and> (\<exists>k1 \<in> K. long_clash k k1)
  | Inr (r, h') \<Rightarrow> r = of_bool (k \<in> K) \<and> holds L h' (insert k K) \<and> consumes 2 h h' \<and>
      (no_wrap h \<longrightarrow> no_wrap h')"
proof (cases "art_root h = 0")
  case True
  with assms(1) rep_ptr(1) have "K = {}" by (auto simp: holds_def)
  then show ?thesis
    using empty_put [OF True assms(2,4,5), of "Suc tries" "Suc L"] consumes_more [of 1 h _ 2] by auto
next
  case False
  then obtain t where "rep h L 0 [] t" "linear t" "art_root h = ptr_of t" and K: "K = keys_of t"
    using assms(1) by (auto simp: holds_def)
  from tree_put [OF this(1-3) assms(2-5)] show ?thesis unfolding K .
qed

lemma holds_get:
  assumes "holds L h K" and "length k = L" and "L < 128"
  shows "if k \<in> K
    then \<exists>a. even a \<and> leaf_for h a k \<and>
      adaptive_radix_tree_get (Suc tries) (Suc L) k h = Inr (a + 4, bump_at a h) \<and> holds L (bump_at a h) K
    else adaptive_radix_tree_get (Suc tries) (Suc L) k h = Inr (0, h)"
proof (cases "art_root h = 0")
  case True
  with assms(1) rep_ptr(1) show ?thesis by (auto simp: holds_def adaptive_radix_tree_get_def)
next
  case False
  then obtain t where t: "rep h L 0 [] t" "linear t" "art_root h = ptr_of t" "keys_of t = K"
    using assms(1) by (auto simp: holds_def)
  have "lookup_result h t k (art_get (Suc L) True 0 Root k (length ([] :: u8 list)) h)"
    by (rule art_get_correct [OF t(1)]) (use t(3) assms in \<open>simp_all add: load_ptr_def\<close>)
  moreover have "holds L (bump_at a h) K" for a
    using t bump_at_rep [OF t(1), of a] by (auto simp: holds_def)
  moreover have "a + 4 \<noteq> 1" if "even a" for a :: u64
    using that by (metis even_add even_numeral odd_one)
  ultimately show ?thesis
    using False t(4) by (auto simp: adaptive_radix_tree_get_def lookup_result_def)
qed

lemma index_inv_mono: "index_inv L (Suc n) h K \<Longrightarrow> index_inv L n h K"
  using room_mono by (fastforce simp: index_inv_def)

lemma index_put:
  assumes "index_inv L (Suc n) h K" and "length k = L"
  shows "case adaptive_radix_tree_put (Suc tries) (Suc L) k h of
    Inl e \<Rightarrow> e = Spin \<and> (\<exists>x. busy h x) \<or> e = Assert_Failed \<and> (\<exists>k1 \<in> K. long_clash k k1)
  | Inr (r, h') \<Rightarrow> r = of_bool (k \<in> K) \<and> index_inv L n h' (insert k K)"
proof -
  have r: "room (Suc (Suc (n + n))) h" and d: "\<not> ndebug h" and L: "L < 128" and K: "holds L h K"
    using assms(1) by (simp_all add: index_inv_def)
  from holds_put [OF K r d assms(2) L, of tries] d L assms(1) show ?thesis
    by (cases "adaptive_radix_tree_put (Suc tries) (Suc L) k h") (auto simp: index_inv_def consumes_def)
qed

lemma index_get:
  assumes "index_inv L n h K" and "length k = L"
  shows "\<exists>a h'. adaptive_radix_tree_get (Suc tries) (Suc L) k h = Inr (a, h') \<and>
    (a \<noteq> 0 \<longleftrightarrow> k \<in> K) \<and> index_inv L n h' K"
proof (cases "k \<in> K")
  case True
  have "holds L h K" "L < 128" using assms(1) by (simp_all add: index_inv_def)
  from holds_get [OF this(1) assms(2) this(2), of tries] True obtain a where
    a: "even a" "leaf_for h a k" "holds L (bump_at a h) K"
    "adaptive_radix_tree_get (Suc tries) (Suc L) k h = Inr (a + 4, bump_at a h)" by auto
  have "leaves h a \<noteq> None" using a(2) by (auto simp: leaf_for_def)
  then have "consumes 0 h (bump_at a h)" by (rule bump_at_consumes)
  moreover have "no_wrap (bump_at a h)" "a + 4 \<noteq> 0"
    using assms(1) a(2)
    by (auto simp: index_inv_def no_wrap_def leaf_for_def bump_at_def split: option.splits if_splits)
  ultimately show ?thesis
    using a assms(1) True by (auto simp: index_inv_def consumes_def)
next
  case False
  have "holds L h K" "L < 128" using assms(1) by (simp_all add: index_inv_def)
  from holds_get [OF this(1) assms(2) this(2), of tries] False assms(1) show ?thesis by simp
qed

interpretation art: set_index
  "adaptive_radix_tree_put (Suc tries) (Suc L)" "adaptive_radix_tree_get (Suc tries) (Suc L)"
  "\<lambda>k. length k = L" "index_inv L" long_clash
  for tries L
proof unfold_locales
  fix n h K k r h'
  assume "index_inv L (Suc n) h K" "length k = L"
    and "adaptive_radix_tree_put (Suc tries) (Suc L) k h = Inr (r, h')"
  with index_put [of L n h K k tries] show "r = of_bool (k \<in> K) \<and> index_inv L n h' (insert k K)" by simp
next
  fix n h K k e
  assume "index_inv L (Suc n) h K" "length k = L"
    and "adaptive_radix_tree_put (Suc tries) (Suc L) k h = Inl e"
  with index_put [of L n h K k tries] show "e = Spin \<or> e = Assert_Failed \<and> (\<exists>k1 \<in> K. long_clash k k1)" by auto
next
  fix n h K and k :: "u8 list"
  assume "index_inv L n h K" "length k = L"
  then show "\<exists>a h'. adaptive_radix_tree_get (Suc tries) (Suc L) k h = Inr (a, h') \<and>
    (a \<noteq> 0) = (k \<in> K) \<and> index_inv L n h' K"
    by (rule index_get)
next
  show "index_inv L (Suc n) h K \<Longrightarrow> index_inv L n h K" for n h K by (rule index_inv_mono)
qed

section \<open>A lock that is never released\<close>

text \<open>An insertion that has to change a locked root never returns.\<close>

lemma locked_root_spins:
  assumes "rep h L 0 [] (Node_T a p f)" and "art_root h = a" and "busy h a" and "length k = L"
    and "\<not> (take (length p) k = p \<and> (\<exists>u. (k ! length p, u) \<in> set f))"
  shows "adaptive_radix_tree_put (Suc tries) (Suc fuel) k h = Inl Spin"
proof -
  obtain n where n: "nodes h a = Some n" "node_rep n 0 (length ([] :: u8 list)) p f"
    using assms(1) by auto
  have locked: "is_locked (version n)" using assms(3) n(1) by (simp add: busy_def)
  have root: "art_root h \<noteq> 0" using assms(1,2) by simp
  have lp: "load_ptr Root h = Inr a" using assms(2) by (simp add: load_ptr_def)
  have len: "length ([] :: u8 list) + length p < length k"
    using rep_path [OF assms(1)] assms(4) by simp
  from n rep_ptr(3) [OF assms(1)] lp len have "art_put (Suc fuel) True 0 Root k 0 h = Inl Spin"
    by (cases rule: art_put_node [where fuel = fuel]) (use locked assms(5) in auto)
  with root show ?thesis by (simp add: adaptive_radix_tree_put_def)
qed

definition splits_at :: "u8 list \<Rightarrow> u8 list \<Rightarrow> nat \<Rightarrow> bool" where
  "splits_at p k m \<longleftrightarrow> m < length p \<and> take m k = take m p \<and> k ! m \<noteq> p ! m"

text \<open>
  C2. After an insertion that splits the compressed prefix of the root, the next insertion whose key
  branches off at the new root never returns: the new root was left locked
  (\<open>art_node_expand_and_insert\<close> unlocks it only in a build with \<open>RECORD_NODE_GEN\<close>).
\<close>

theorem split_then_hang:
  assumes rep: "rep h L 0 [] (Node_T a p f)" and lin: "linear (Node_T a p f)" and root: "art_root h = a"
    and r: "room (Suc (Suc m0)) h" and nd: "\<not> ndebug h" and L: "L < 128"
    and k: "length k = L" "splits_at p k m" and k2: "length k2 = L" and free: "\<not> busy h a"
    and off: "take m k2 \<noteq> take m p \<or> k2 ! m \<notin> {p ! m, k ! m}"
  shows "\<exists>h'. adaptive_radix_tree_put (Suc tries) (Suc L) k h = Inr (0, h') \<and>
    adaptive_radix_tree_put (Suc tries2) (Suc L) k2 h' = Inl Spin"
proof -
  obtain n where n: "nodes h a = Some n" "node_rep n 0 (length ([] :: u8 list)) p f"
    using rep by auto
  have unlocked: "\<not> is_locked (version n)" using free n(1) by (simp add: busy_def)
  have a0: "art_root h \<noteq> 0" using rep root by simp
  have lp: "load_ptr Root h = Inr a" using root by (simp add: load_ptr_def)
  have slot: "slot_ok h Root 0 [] a" using root by (simp add: slot_ok_def)
  have len: "length ([] :: u8 list) + length p < length k" using rep_path [OF rep] k(1) by simp
  let ?hl = "store_node a (n\<lparr>version := set_lock (version n)\<rparr>) h"
  have diff: "take (length p) k \<noteq> p" using k(2) len by (auto simp: splits_at_def dest!: arg_cong [of _ _ "\<lambda>xs. xs ! m"])
  from n rep_ptr(3) [OF rep] lp len obtain j where j: "j < length p" "take j p = take j k" "p ! j \<noteq> k ! j"
    "art_put (Suc L) True 0 Root k 0 h = put_expand Root a k 0 j ?hl"
    by (cases rule: art_put_node [where fuel = L]) (use unlocked diff in auto)
  have jm: "j = m"
    using k(2) j take_eq_nth [of m k p j] take_eq_nth [of j p k m]
    by (auto simp: splits_at_def) (metis linorder_neqE_nat)
  obtain h' where h': "put_expand Root a k 0 j ?hl = Inr (0, h')"
    using put_expand_ok(3) [OF rep lin slot rep_not_zero [OF rep] r nd L k(1) _ n(1) unlocked j(1)] j(2,3) by auto
  obtain new b where
    pd: "put_done h L 0 [] (Node_T a p f) Root k (Node_T new (take j p)
        [(p ! j, Node_T a (drop (Suc j) p) f), (k ! j, Leaf_T b k)]) h'" and busy: "busy h' new"
    using put_expand_ok(2) [OF rep lin slot rep_not_zero [OF rep] r nd L k(1) _ n(1) unlocked j(1), of 0 h']
      j(2,3) h' by auto
  have "adaptive_radix_tree_put (Suc tries2) (Suc L) k2 h' = Inl Spin"
  proof (rule locked_root_spins)
    show "rep h' L 0 [] (Node_T new (take j p) [(p ! j, Node_T a (drop (Suc j) p) f), (k ! j, Leaf_T b k)])"
      "art_root h' = new"
      using pd by (simp_all add: put_done_def slot_updated_def)
  qed (use busy k2 off jm j(1) in auto)
  moreover have "adaptive_radix_tree_put (Suc tries) (Suc L) k h = Inr (0, h')"
    using a0 j(4) h' by (simp add: adaptive_radix_tree_put_def)
  ultimately show ?thesis by blast
qed

section \<open>Concrete trees\<close>

text \<open>
  The state after the set-up of an allocator with eight addresses of each kind, and the tree of the
  keys 1,1 and 1,2 in it.
\<close>

definition sample_threshold :: sidle_threshold where
  "sample_threshold = \<lparr>local_allocation_layer_threshold = 2, demotion_depth_threshold = 1,
     default_demotion_depth_threshold = 1, upper_watermark = 0.95, lower_watermark = 0.85,
     hot_watermark = 10, original_hot_watermark = 10, hot_watermark_upper_bound = 15,
     cold_watermark = 75, original_cold_watermark = 75, cold_watermark_upper_bound = 85\<rparr>"

definition sample_heap :: art_heap where
  "sample_heap = \<lparr>nodes = (\<lambda>_. None), leaves = (\<lambda>_. None), art_root = 0,
     cxl = (cxl_boot [4096, 8192, 12288, 16384, 20480, 24576, 28672, 32768]
              [65536, 69632, 73728, 77824, 81920, 86016, 90112, 94208])
             \<lparr>cxl_kind := True, local_stride := 1, cxl_stride := 1\<rparr>,
     strategy_manager = \<lparr>threshold_manager = sample_threshold, max_local_memory_usage = 4096,
       cur_local_memory_usage = 0, slow_down_in_load = False\<rparr>,
     base = initial_worker_base, ndebug = False, junk = 0\<rparr>"

lemma sample_heap_inv: "n \<le> 4 \<Longrightarrow> L < 128 \<Longrightarrow> index_inv L n sample_heap {}"
  by (auto simp: index_inv_def holds_def room_def spare_fresh_def spare_def usage_of_def no_wrap_def
      sample_heap_def cxl_boot_def)

definition sample_node :: art_node where
  "sample_node = \<lparr>version = set_prefix_len (incr_count (incr_count (set_type 0 node4))) 1,
     prefix = [1, 0, 0, 0, 0, 0, 0, 0], new_node = 0, parent = 0,
     sidle_meta = make_node_metadata Mem_Local 1, key = [1, 2, 0, 0], index = [],
     child = [513, 1025, 0, 0]\<rparr>"

definition sample_leaf :: "u8 list \<Rightarrow> leaf_node" where
  "sample_leaf k = \<lparr>key_length = of_nat (length k), leaf_meta = make_leaf_metadata Mem_Local 2 0,
     leaf_key = k\<rparr>"

definition sample_tree :: art_heap where
  "sample_tree = sample_heap\<lparr>nodes := [256 \<mapsto> sample_node], art_root := 256,
     leaves := [512 \<mapsto> sample_leaf [1, 1], 1024 \<mapsto> sample_leaf [1, 2]]\<rparr>"

definition sample_trie :: trie where
  "sample_trie = Node_T 256 [1] [(1, Leaf_T 512 [1, 1]), (2, Leaf_T 1024 [1, 2])]"

lemma sample_version:
  "get_node_type (version sample_node) = node4" "get_count (version sample_node) = 2"
  "get_prefix_len (version sample_node) = 1" "get_offset (version sample_node) = 0"
  "\<not> is_old (version sample_node)" "\<not> is_expanding (version sample_node)"
  "\<not> is_locked (version sample_node)"
  by (simp_all add: sample_node_def) code_simp+

lemma sample_child_at:
  "child_at sample_node b c \<longleftrightarrow> b = 1 \<and> c = 513 \<or> b = 2 \<and> c = 1025"
proof -
  have slot: "slot_at sample_node b i \<longleftrightarrow> i < 2 \<and> key sample_node ! i = b" for i
    using sample_version by (simp add: slot_at_def keyed_def)
  have two: "i < 2 \<longleftrightarrow> i = 0 \<or> i = Suc 0" for i :: nat by (simp add: less_2_cases_iff)
  have fields: "key sample_node = [1, 2, 0, 0]" "child sample_node = [513, 1025, 0, 0]"
    by (simp_all add: sample_node_def)
  show ?thesis unfolding child_at_def slot two fields by fastforce
qed

lemma sample_node_rep:
  "node_rep sample_node 0 0 [1] [(1, Leaf_T 512 [1, 1]), (2, Leaf_T 1024 [1, 2])]"
proof -
  have "node_wf sample_node"
    using sample_version by (simp add: node_wf_4) (simp add: sample_node_def)
  moreover have "prefix sample_node = [1, 0, 0, 0, 0, 0, 0, 0]" "parent sample_node = 0"
    by (simp_all add: sample_node_def)
  ultimately show ?thesis
    using sample_version sample_child_at by (auto simp: node_rep_def)
qed

lemma sample_tree_cells:
  "nodes sample_tree 256 = Some sample_node" "leaves sample_tree 512 = Some (sample_leaf [1, 1])"
  "leaves sample_tree 1024 = Some (sample_leaf [1, 2])"
  by (simp_all add: sample_tree_def)

lemma sample_leaf_rep: "leaf_rep (sample_leaf k) k"
  by (simp add: sample_leaf_def leaf_rep_def)

lemma sample_tree_rep: "rep sample_tree 2 0 [] sample_trie" "linear sample_trie"
proof -
  have "rep sample_tree 2 256 [1, 1] (Leaf_T 512 [1, 1])" "rep sample_tree 2 256 [1, 2] (Leaf_T 1024 [1, 2])"
    using sample_tree_cells(2,3) sample_leaf_rep by auto
  then show "rep sample_tree 2 0 [] sample_trie"
    using sample_tree_cells(1) sample_node_rep unfolding sample_trie_def rep.simps by simp
  show "linear sample_trie" by (simp add: sample_trie_def apart_def)
qed

lemma sample_tree_room: "room 8 sample_tree" "\<not> ndebug sample_tree" "art_root sample_tree = 256"
  "\<not> busy sample_tree 256"
  using sample_version
  by (auto simp: room_def spare_fresh_def spare_def usage_of_def sample_tree_def busy_def
      sample_heap_def cxl_boot_def)

lemma sample_tree_inv: "n \<le> 4 \<Longrightarrow> index_inv 2 n sample_tree {[1, 1], [1, 2]}"
proof -
  assume "n \<le> 4"
  then have "room (n + n) sample_tree" using room_mono [OF sample_tree_room(1)] by simp
  moreover have "holds 2 sample_tree {[1, 1], [1, 2]}"
    using sample_tree_rep sample_tree_room(3)
    by (auto simp: holds_def sample_trie_def intro!: exI [of _ sample_trie])
  moreover have "no_wrap sample_tree"
    by (auto simp: no_wrap_def spare_def sample_tree_def sample_heap_def cxl_boot_def)
  ultimately show ?thesis using sample_tree_room(2) by (simp add: index_inv_def)
qed

lemma split_then_hang_witness:
  "\<exists>h'. adaptive_radix_tree_put 1 3 [2, 1] sample_tree = Inr (0, h') \<and>
    adaptive_radix_tree_put 1 3 [3, 1] h' = Inl Spin"
proof -
  have room: "room (Suc (Suc 0)) sample_tree" using room_mono [OF sample_tree_room(1)] by simp
  show ?thesis
    using split_then_hang [OF sample_tree_rep [unfolded sample_trie_def] sample_tree_room(3) room
        sample_tree_room(2), of "[2, 1]" 0 "[3, 1]" 0 0] sample_tree_room(4)
    by (simp add: splits_at_def numeral_3_eq_3 eval_nat_numeral)
qed

section \<open>The index behaves as a set of keys\<close>

lemma sample_tree_unlocked: "\<not> busy sample_tree x"
  using sample_tree_room(4) sample_tree_cells(1) by (cases "x = 256") (auto simp: busy_def sample_tree_def)

lemma sample_tree_put:
  "\<exists>h'. adaptive_radix_tree_put 1 3 [1, 7] sample_tree = Inr (0, h') \<and> index_inv 2 2 h' {[1, 7], [1, 1], [1, 2]}"
  using index_put [OF sample_tree_inv, of 2 "[1, 7]" 0] sample_tree_unlocked
  by (cases "adaptive_radix_tree_put 1 3 [1, 7] sample_tree") (auto simp: numeral_3_eq_3 long_clash_def)

text \<open>
  C1. In a build with assertions, on a tree whose keys all have one length below 128 bytes and with local memory for all
  insertions: every sequence of insertions and lookups of keys of that length answers as a set of keys does and leaves
  a tree of exactly those keys, unless an insertion waits for a lock or fails the assertion that a prefix has at most eight
  bytes; that assertion fails only if two different keys agree in their first nine bytes.
\<close>

theorem art_operations_refine_set:
  assumes "index_inv L (length ops) h K" and "\<forall>x \<in> set ops. length (op_key x) = L"
  shows "case run_ops (adaptive_radix_tree_put (Suc tries) (Suc L))
      (adaptive_radix_tree_get (Suc tries) (Suc L)) ops h of
    Inl e \<Rightarrow> e = Spin \<or> e = Assert_Failed \<and> (\<exists>k \<in> op_key ` set ops. \<exists>k1 \<in> K \<union> op_key ` set ops. long_clash k k1)
  | Inr (rs, h') \<Rightarrow> rs = fst (set_run ops K) \<and> index_inv L 0 h' (snd (set_run ops K))"
  using assms by (rule art.run_refines)

lemma art_operations_refine_set_witness:
  "\<exists>h'. run_ops (adaptive_radix_tree_put (Suc 0) (Suc 2)) (adaptive_radix_tree_get (Suc 0) (Suc 2))
      [Put [1, 7], Get [1, 7], Get [2, 2]] sample_tree = Inr ([False, True, False], h') \<and>
    index_inv 2 0 h' {[1, 7], [1, 1], [1, 2]}"
proof -
  let ?ops = "[Put [1, 7], Get [1, 7], Get [2, 2]] :: u8 list index_op list"
  let ?run = "run_ops (adaptive_radix_tree_put (Suc 0) (Suc 2)) (adaptive_radix_tree_get (Suc 0) (Suc 2)) ?ops sample_tree"
  have set: "set_run ?ops {[1, 1], [1, 2]} = ([False, True, False], {[1, 7], [1, 1], [1, 2]})" by simp
  have inv: "index_inv 2 (length ?ops) sample_tree {[1, 1], [1, 2]}" by (rule sample_tree_inv) simp
  have valid: "\<forall>x \<in> set ?ops. length (op_key x) = 2" by simp
  obtain h1 where h1: "adaptive_radix_tree_put (Suc 0) (Suc 2) [1, 7] sample_tree = Inr (0, h1)" "index_inv 2 2 h1 {[1, 7], [1, 1], [1, 2]}"
    using sample_tree_put by (auto simp: numeral_3_eq_3)
  obtain a h2 where h2: "adaptive_radix_tree_get (Suc 0) (Suc 2) [1, 7] h1 = Inr (a, h2)" "index_inv 2 2 h2 {[1, 7], [1, 1], [1, 2]}"
    using index_get [OF h1(2), of "[1, 7]" 0] by auto
  obtain b h3 where "adaptive_radix_tree_get (Suc 0) (Suc 2) [2, 2] h2 = Inr (b, h3)"
    using index_get [OF h2(2), of "[2, 2]" 0] by auto
  then obtain rs h' where run: "?run = Inr (rs, h')" using h1(1) h2(1) by simp
  from art_operations_refine_set [OF inv valid, of 0] have "rs = [False, True, False] \<and> index_inv 2 0 h' {[1, 7], [1, 1], [1, 2]}"
    unfolding run set by simp
  then show ?thesis using run by blast
qed

text \<open>
  After any sequence of insertions into an empty tree that did not have to wait, a lookup finds a
  key if and only if it was inserted.
\<close>

theorem art_get_after_puts:
  assumes "index_inv L (length ks) h {}" and "\<forall>x \<in> set ks. length x = L" and "length k = L"
    and "run_ops (adaptive_radix_tree_put (Suc tries) (Suc L))
      (adaptive_radix_tree_get (Suc tries) (Suc L)) (map Put ks) h = Inr (rs, h')"
  shows "\<exists>a h2. adaptive_radix_tree_get (Suc tries) (Suc L) k h' = Inr (a, h2) \<and>
    (a \<noteq> 0 \<longleftrightarrow> k \<in> set ks)"
  using assms by (rule art.get_after_puts)

lemma art_get_after_puts_witness:
  "\<exists>rs h' a h2. run_ops (adaptive_radix_tree_put 1 3) (adaptive_radix_tree_get 1 3)
      (map Put [[1, 1]]) sample_heap = Inr (rs, h') \<and>
    adaptive_radix_tree_get 1 3 [1, 1] h' = Inr (a, h2) \<and> a \<noteq> 0"
proof -
  have inv: "index_inv 2 (length [[1, 1 :: u8]]) sample_heap {}" by (rule sample_heap_inv) simp_all
  have "index_inv 2 1 sample_heap {}" by (rule sample_heap_inv) simp_all
  then have "room (1 + 1) sample_heap" by (simp only: index_inv_def)
  then have "room (Suc 0) sample_heap" by (rule room_mono) simp
  moreover have "art_root sample_heap = 0" by (simp add: sample_heap_def)
  ultimately have "room (Suc 0) sample_heap" "art_root sample_heap = 0" .
  from empty_put [OF this(2,1), of "[1, 1]" 2 1 3] obtain h' where
    "adaptive_radix_tree_put 1 3 [1, 1] sample_heap = Inr (0, h')" by auto
  then have run: "run_ops (adaptive_radix_tree_put 1 3) (adaptive_radix_tree_get 1 3)
      (map Put [[1, 1]]) sample_heap = Inr ([False], h')" by simp
  show ?thesis
    using art_get_after_puts [OF inv, of "[1, 1]" 0 "[False]" h'] run by (auto simp: numeral_3_eq_3)
qed

text \<open>
  C4. A lookup answers with the address of a leaf that holds the key, or with null; its only effect is
  on the access counter of that leaf.
\<close>

theorem art_get_finds_leaf:
  assumes "index_inv L n h K" and "length k = L"
  shows "if k \<in> K
    then \<exists>a. leaf_for h a k \<and> adaptive_radix_tree_get (Suc tries) (Suc L) k h = Inr (a + 4, bump_at a h)
    else adaptive_radix_tree_get (Suc tries) (Suc L) k h = Inr (0, h)"
proof -
  have "holds L h K" "L < 128" using assms(1) by (simp_all add: index_inv_def)
  from holds_get [OF this(1) assms(2) this(2), of tries] show ?thesis by (auto split: if_splits)
qed

lemma art_get_finds_leaf_witness:
  "(\<exists>a. leaf_for sample_tree a [1, 2] \<and>
      adaptive_radix_tree_get 1 3 [1, 2] sample_tree = Inr (a + 4, bump_at a sample_tree)) \<and>
   adaptive_radix_tree_get 1 3 [2, 2] sample_tree = Inr (0, sample_tree)"
  using art_get_finds_leaf [OF sample_tree_inv, of 0 "[1, 2]" 0]
    art_get_finds_leaf [OF sample_tree_inv, of 0 "[2, 2]" 0]
  by (simp add: numeral_3_eq_3)

text \<open>
  C3. In a build with assertions, an insertion of a key into a tree of keys of the same length, below 128 bytes, with local memory left,
  answers whether the key was there and adds exactly that key. It fails only by waiting, when some node of the tree is
  locked, or by the assertion on the length of a prefix, when another key agrees with it in the first nine bytes.
\<close>

theorem art_put_adds_key:
  assumes "index_inv L (Suc n) h K" and "length k = L"
  shows "case adaptive_radix_tree_put (Suc tries) (Suc L) k h of
    Inl e \<Rightarrow> e = Spin \<and> (\<exists>x. busy h x) \<or> e = Assert_Failed \<and> (\<exists>k1 \<in> K. long_clash k k1)
  | Inr (r, h') \<Rightarrow> r = of_bool (k \<in> K) \<and> index_inv L n h' (insert k K)"
  using assms by (rule index_put)

lemma art_put_adds_key_witness:
  "\<exists>r h'. adaptive_radix_tree_put 1 3 [1, 7] sample_tree = Inr (r, h') \<and> r = 0 \<and>
    index_inv 2 1 h' {[1, 7], [1, 1], [1, 2]}"
  using art_put_adds_key [OF sample_tree_inv, of 1 "[1, 7]" 0] sample_tree_unlocked
  by (cases "adaptive_radix_tree_put 1 3 [1, 7] sample_tree") (auto simp: numeral_3_eq_3 long_clash_def)

text \<open>
  A new tree over an allocator with enough room is the empty index.
\<close>

theorem new_tree_is_empty_index:
  assumes "new_adaptive_radix_tree pct mem opened mapped err h = Inr h'"
    and "cxl_fd (cxl h) = 0" and "2 * n \<le> length (local_next (cxl h))" and "2 * n \<le> length (cxl_next (cxl h))"
    and "distinct (local_next (cxl h) @ cxl_next (cxl h))" and "spare_fresh h" and "no_wrap h"
    and "\<not> ndebug h" and "L < 128" and "n < 2 ^ 40"
  shows "index_inv L n h' {}"
proof -
  from assms(1) obtain c st where c: "cxl_init CXL_MAX_SIZE pct opened mapped err (cxl h) = Inr c"
    and st: "make_sidle_strategy mem pct True = Inr st"
    and h': "h' = h\<lparr>cxl := c, strategy_manager := st, art_root := 0\<rparr>"
    by (auto simp: new_adaptive_radix_tree_def and_then_Inr_iff)
  have strides: "local_next (init_strides s) = local_next s" "cxl_next (init_strides s) = cxl_next s"
    "cxl_kind (init_strides s) = cxl_kind s" for s
    by (simp_all add: init_strides_def Let_def)
  have c': "local_next c = local_next (cxl h)" "cxl_next c = cxl_next (cxl h)" "cxl_kind c"
    using c assms(2) strides by (auto simp: cxl_init_def Let_def split: if_splits option.splits)
  have u: "cur_local_memory_usage st = 0"
    using st by (auto simp: make_sidle_strategy_def Let_def and_then_Inr_iff)
  have "spare h' = spare h" using c' h' by (simp add: spare_def)
  then have "spare_fresh h'" "no_wrap h'" "usage_of h' = 0"
    using assms(6,7) h' u by (simp_all add: spare_fresh_def no_wrap_def usage_of_def)
  then show ?thesis
    using assms(3-5,8-10) c' h' by (simp add: index_inv_def holds_def room_def)
qed

lemma new_tree_is_empty_index_witness:
  "\<exists>h'. new_adaptive_radix_tree 50 110 3 (Some 0x100000) 0 sample_heap = Inr h' \<and> index_inv 2 4 h' {}"
proof -
  have st: "\<exists>st. make_sidle_strategy 110 50 True = Inr st"
    by (simp add: make_sidle_strategy_def make_sidle_threshold_def Let_def
        get_art_local_allocation_threshold_def strategy_node_count_def sizes)
  obtain c where "cxl_init CXL_MAX_SIZE 50 3 (Some 0x100000) 0 (cxl sample_heap) = Inr c"
    by (simp add: cxl_init_def sample_heap_def cxl_boot_def Let_def)
  with st obtain h' where h': "new_adaptive_radix_tree 50 110 3 (Some 0x100000) 0 sample_heap = Inr h'"
    by (auto simp: new_adaptive_radix_tree_def)
  have "index_inv 2 4 sample_heap {}" by (rule sample_heap_inv) simp_all
  then show ?thesis
    using h' new_tree_is_empty_index [OF h', of 4 2]
    by (auto simp: index_inv_def room_def) (auto simp: sample_heap_def cxl_boot_def)
qed

end
