(* ===== verification/Sidle_Key.thy ===== *)
theory Sidle_Key
  imports Sidle_Prelude
begin

text \<open>
  Keys as the indexes see them. The indexes compare keys byte by byte, so a key is handed to them as
  the bytes of its object representation, turned around on a little-endian machine
  (\<open>Key::to_str_key\<close> of the benchmarks, \<open>little_endian\<close> and the byte comparisons of \<open>helper.h\<close>).
  The lemmas show that the conversion is its own inverse and turns the order of the integers into the
  order of the byte strings.
\<close>

section \<open>Object representations\<close>

text \<open>The bytes of an integer object in memory order; the byte order is that of the machine.\<close>

definition low_bytes :: "nat \<Rightarrow> 'a::len word \<Rightarrow> u8 list" where
  "low_bytes n w = map (\<lambda>i. ucast (drop_bit (8 * i) w)) [0..<n]"

definition object_bytes :: "bool \<Rightarrow> nat \<Rightarrow> 'a::len word \<Rightarrow> u8 list" where
  "object_bytes le n w = (if le then low_bytes n w else rev (low_bytes n w))"

text \<open>Reading the bytes of an object back as an integer, most significant byte first.\<close>

fun be_value :: "u8 list \<Rightarrow> nat" where
  "be_value [] = 0"
| "be_value (x # xs) = unat x * 256 ^ length xs + be_value xs"

definition object_value :: "bool \<Rightarrow> u8 list \<Rightarrow> u64" where
  "object_value le bs = of_nat (be_value (if le then rev bs else bs))"

text \<open>\<open>little_endian\<close>: is the first byte of the \<open>int\<close> 1 equal to 1?\<close>

definition little_endian :: "bool \<Rightarrow> bool" where
  "little_endian le \<longleftrightarrow> hd (object_bytes le 4 (1 :: 32 word)) = 1"

text \<open>\<open>memcmp\<close> of the C library, by the sign of its answer.\<close>

fun memcmp :: "u8 list \<Rightarrow> u8 list \<Rightarrow> nat \<Rightarrow> int res" where
  "memcmp xs ys 0 = Inr 0"
| "memcmp (x # xs) (y # ys) (Suc n) =
     (if x = y then memcmp xs ys n else Inr (if x < y then -1 else 1))"
| "memcmp xs ys (Suc n) = Inl Out_Of_Bounds"

section \<open>The conversion\<close>

text \<open>
  \<open>to_str_key\<close> builds a second object byte by byte; \<open>bytes\<close> are the bytes of this key in memory
  order. \<open>to_normal_key\<close> is the same function.
\<close>

definition to_str_key :: "bool \<Rightarrow> u8 list \<Rightarrow> u8 list" where
  "to_str_key le bytes =
     (if little_endian le
      then map (\<lambda>byte_i. bytes ! (length bytes - byte_i - 1)) [0..<length bytes] else bytes)"

definition to_normal_key :: "bool \<Rightarrow> u8 list \<Rightarrow> u8 list" where
  "to_normal_key le bytes = to_str_key le bytes"

lemma little_endian_iff [simp]: "little_endian le \<longleftrightarrow> le"
  by (cases le) (simp_all add: little_endian_def object_bytes_def low_bytes_def upt_rec)

lemma to_str_key_rev: "to_str_key le bytes = (if le then rev bytes else bytes)"
  by (auto simp: to_str_key_def rev_nth intro!: nth_equalityI)

lemma length_object_bytes [simp]: "length (object_bytes le n w) = n"
  by (simp add: object_bytes_def low_bytes_def)

lemma length_to_str_key [simp]: "length (to_str_key le bs) = length bs"
  by (simp add: to_str_key_rev)

lemma be_value_less: "be_value bs < 256 ^ length bs"
proof (induction bs)
  case (Cons b bs)
  have b: "unat b + 1 \<le> 256" using unsigned_less [of b, where 'a = nat] by simp
  have "unat b * 256 ^ length bs + be_value bs < (unat b + 1) * 256 ^ length bs" using Cons by simp
  also have "\<dots> \<le> 256 * 256 ^ length bs" using b by (rule mult_right_mono) simp
  finally show ?case by simp
qed simp

lemma be_value_append: "be_value (xs @ ys) = be_value xs * 256 ^ length ys + be_value ys"
  by (induction xs) (simp_all add: power_add algebra_simps)

lemma be_value_low_bytes: "be_value (rev (low_bytes n w)) = unat w mod 256 ^ n"
proof (induction n)
  case (Suc n)
  have "low_bytes (Suc n) w = low_bytes n w @ [ucast (drop_bit (8 * n) w)]"
    by (simp add: low_bytes_def)
  moreover have "unat (ucast (drop_bit (8 * n) w) :: u8) = unat w div 256 ^ n mod 256"
  proof -
    have "unat (drop_bit (8 * n) w) = drop_bit (8 * n) (unat w)"
      by (simp add: unsigned_drop_bit_eq take_bit_nat_eq_self)
    also have "\<dots> = unat w div 256 ^ n" by (simp add: drop_bit_eq_div power_mult)
    finally show ?thesis by (simp add: unsigned_ucast_eq take_bit_eq_mod)
  qed
  moreover have "length (rev (low_bytes n w)) = n" by (simp add: low_bytes_def)
  ultimately have "be_value (rev (low_bytes (Suc n) w)) =
      unat w div 256 ^ n mod 256 * 256 ^ n + unat w mod 256 ^ n"
    using Suc by simp
  also have "\<dots> = unat w mod 256 ^ Suc n"
    by (metis mod_mult2_eq add.commute mult.commute power_Suc)
  finally show ?case .
qed (simp add: low_bytes_def)

lemma str_key_value: "be_value (to_str_key le (object_bytes le 8 (k :: u64))) = unat k"
  using unsigned_less [of k, where 'a = nat]
  by (simp add: to_str_key_rev object_bytes_def be_value_low_bytes)

lemma object_value_bytes: "object_value le (object_bytes le 8 k) = k"
  using str_key_value [of le k] by (simp add: object_value_def to_str_key_rev split: if_splits)

lemma memcmp_value:
  "length xs = n \<Longrightarrow> length ys = n \<Longrightarrow> memcmp xs ys n =
     Inr (if be_value xs = be_value ys then 0 else if be_value xs < be_value ys then -1 else 1)"
proof (induction xs ys n rule: memcmp.induct)
  case (2 x xs y ys n)
  have l: "be_value xs < 256 ^ n" "be_value ys < 256 ^ n"
    using be_value_less [of xs] be_value_less [of ys] 2 by simp_all
  show ?case
  proof (cases "x = y")
    case True
    with 2 show ?thesis by simp
  next
    case False
    have step: "a * 256 ^ n + u < b * 256 ^ n + v" if "a < b" "u < 256 ^ n" for a b u v :: nat
    proof -
      have "(a + 1) * 256 ^ n \<le> b * 256 ^ n" using that(1) by (intro mult_right_mono) simp_all
      then show ?thesis using that(2) by simp
    qed
    from False have "unat x < unat y \<or> unat y < unat x"
      by (metis linorder_neqE_nat word_unat_eq_iff)
    then show ?thesis
      using False 2(2,3) step [of "unat x" "unat y" "be_value xs" "be_value ys"]
        step [of "unat y" "unat x" "be_value ys" "be_value xs"] l
      by (auto simp: word_less_nat_alt)
  qed
qed simp_all

text \<open>
  \<open>to_normal_key\<close> undoes \<open>to_str_key\<close>, on either byte order.
\<close>

theorem normal_key_of_str_key: "to_normal_key le (to_str_key le bytes) = bytes"
  by (simp add: to_normal_key_def to_str_key_rev)

text \<open>
  C30. The byte comparison of converted keys is the comparison of the integers: the indexes order the
  keys of the program numerically.
\<close>

theorem str_key_order:
  "memcmp (to_str_key le (object_bytes le 8 k1)) (to_str_key le (object_bytes le 8 k2)) 8 =
     Inr (if k1 = k2 then 0 else if k1 < k2 then -1 else 1)" for k1 k2 :: u64
  by (simp add: memcmp_value str_key_value word_less_nat_alt word_unat_eq_iff)

lemma str_key_inject:
  "to_str_key le (object_bytes le 8 k1) = to_str_key le (object_bytes le 8 k2) \<longleftrightarrow> k1 = k2" for k1 k2 :: u64
  by (metis str_key_value word_unat_eq_iff)

section \<open>The contract of a key type\<close>

text \<open>
  What the wrappers rely on of their key type: the converted keys have the size of the key object and
  determine the key.
\<close>

locale index_key =
  fixes str :: "'k \<Rightarrow> u8 list" and key_size :: nat
  assumes length_str: "length (str k) = key_size"
    and str_inject: "str k = str k' \<longleftrightarrow> k = k'"
begin

lemma str_in_image: "str k \<in> str ` K \<longleftrightarrow> k \<in> K"
  by (auto simp: str_inject image_iff)

end

text \<open>The key of eight bytes of the benchmarks.\<close>

definition key8_str :: "bool \<Rightarrow> u64 \<Rightarrow> u8 list" where
  "key8_str le k = to_str_key le (object_bytes le 8 k)"

interpretation key8: index_key "key8_str le" 8 for le
  by unfold_locales (simp_all add: key8_str_def str_key_inject)

section \<open>Keys of bytes\<close>

text \<open>A \<open>StrKey\<close> made from a string: the rest of the buffer is zero, and a longer string runs over its end.\<close>

definition make_str_key :: "nat \<Rightarrow> u8 list \<Rightarrow> u8 list res" where
  "make_str_key len s =
     (if length s \<le> len then Inr (s @ replicate (len - length s) 0) else Inl Out_Of_Bounds)"

text \<open>\<open>StrBagKey\<close> asserts that the string fits.\<close>

definition make_str_bag_key :: "bool \<Rightarrow> nat \<Rightarrow> u8 list \<Rightarrow> u8 list res" where
  "make_str_bag_key nd len s = (if len < length s \<and> \<not> nd then Inl Assert_Failed else make_str_key len s)"

definition max_key :: "nat \<Rightarrow> u8 list" where "max_key len = replicate len 255"
definition min_key :: "nat \<Rightarrow> u8 list" where "min_key len = replicate len 0"

text \<open>The comparison operators of both classes go through \<open>memcmp\<close>.\<close>

definition buf_less :: "nat \<Rightarrow> u8 list \<Rightarrow> u8 list \<Rightarrow> bool res" where
  "buf_less len l r = and_then (memcmp l r len) (\<lambda>c. Inr (c < 0))"

definition buf_greater :: "nat \<Rightarrow> u8 list \<Rightarrow> u8 list \<Rightarrow> bool res" where
  "buf_greater len l r = and_then (memcmp l r len) (\<lambda>c. Inr (c > 0))"

definition buf_equal :: "nat \<Rightarrow> u8 list \<Rightarrow> u8 list \<Rightarrow> bool res" where
  "buf_equal len l r = and_then (memcmp l r len) (\<lambda>c. Inr (c = 0))"

text \<open>
  A \<open>StrBagKey\<close> as numbers for a learned model, eight bytes per number and the rest in the last one, which must have
  one, two, four or eight bytes. On a little-endian machine the bytes are turned around before they are read.
  \<open>feat\<close> is the conversion to the number type of the template; the length is checked by the last branches,
  which are evaluated before the result can be used.
\<close>

definition model_unit :: nat where "model_unit = 8"

definition model_key_size :: "nat \<Rightarrow> nat" where
  "model_key_size len = (if len mod model_unit = 0 then len div model_unit else len div model_unit + 1)"

definition unit_value :: "bool \<Rightarrow> u8 list \<Rightarrow> u64" where
  "unit_value le bytes = object_value le (if little_endian le then rev bytes else bytes)"

fun model_units :: "bool \<Rightarrow> (u64 \<Rightarrow> 'f) \<Rightarrow> nat \<Rightarrow> u8 list \<Rightarrow> 'f list" where
  "model_units le feat 0 buf = []"
| "model_units le feat (Suc n) buf = feat (unit_value le (take model_unit buf)) # model_units le feat n (drop model_unit buf)"

definition to_model_key :: "bool \<Rightarrow> (u64 \<Rightarrow> 'f) \<Rightarrow> nat \<Rightarrow> u8 list \<Rightarrow> 'f list res" where
  "to_model_key le feat len buf =
     (let full = model_key_size len - 1; trailing_byte_n = len - full * model_unit
      in if trailing_byte_n \<in> {1, 2, 4, 8}
         then Inr (model_units le feat full buf @ [feat (unit_value le (take trailing_byte_n (drop (full * model_unit) buf)))])
         else Inl Abort)"

fun keycmp :: "'f :: linorder list \<Rightarrow> 'f list \<Rightarrow> nat \<Rightarrow> int res" where
  "keycmp lk rk 0 = Inr 0"
| "keycmp (x # lk) (y # rk) (Suc l) = (if x > y then Inr 1 else if x < y then Inr (- 1) else keycmp lk rk l)"
| "keycmp lk rk (Suc l) = Inl Out_Of_Bounds"

text \<open>
  The number type of the benchmarks is \<open>double\<close>: 53 bits and the rest rounded to the nearest, a tie to the even
  number.
\<close>

fun excess_bits :: "nat \<Rightarrow> nat" where
  "excess_bits n = (if n < 2 ^ 53 then 0 else Suc (excess_bits (n div 2)))"

declare excess_bits.simps [simp del]

definition to_double :: "u64 \<Rightarrow> nat" where
  "to_double v =
     (let n = unat v; e = excess_bits n; q = n div 2 ^ e; r = 2 * (n mod 2 ^ e)
      in if r > 2 ^ e \<or> r = 2 ^ e \<and> odd q then (q + 1) * 2 ^ e else q * 2 ^ e)"

lemma unit_value_be: "length bs \<le> 8 \<Longrightarrow> unat (unit_value le bs) = be_value bs"
proof -
  assume "length bs \<le> 8"
  then have "(256::nat) ^ length bs \<le> 256 ^ 8" by (intro power_increasing) auto
  with be_value_less [of bs] have "be_value bs < 2 ^ 64" by simp
  moreover have "object_value le (if le then rev bs else bs) = of_nat (be_value bs)" by (simp add: object_value_def)
  ultimately show ?thesis by (simp add: unit_value_def unat_of_nat take_bit_nat_eq_self)
qed

lemma memcmp_append:
  "length xs = length xs' \<Longrightarrow> length ys = n \<Longrightarrow> length ys' = n \<Longrightarrow>
     memcmp (xs @ ys) (xs' @ ys') (length xs + n) =
       (if xs = xs' then memcmp ys ys' n else memcmp xs xs' (length xs))"
proof (induction xs arbitrary: xs')
  case (Cons x xs)
  then show ?case by (cases xs') auto
qed simp

lemma memcmp_equal: "length xs = n \<Longrightarrow> length ys = n \<Longrightarrow> memcmp xs ys n = Inr 0 \<longleftrightarrow> xs = ys"
  by (induction xs ys n rule: memcmp.induct) auto

lemma unit_value_cmp:
  assumes "length xs = n" and "length ys = n" and "n \<le> 8"
  shows "memcmp xs ys n = Inr (if unit_value le xs = unit_value le ys then 0
      else if unit_value le xs < unit_value le ys then -1 else 1)"
    and "unit_value le xs = unit_value le ys \<longleftrightarrow> xs = ys"
proof -
  show 1: "memcmp xs ys n = Inr (if unit_value le xs = unit_value le ys then 0
      else if unit_value le xs < unit_value le ys then -1 else 1)"
    using memcmp_value [OF assms(1,2)] assms by (simp add: word_less_nat_alt word_unat_eq_iff unit_value_be)
  show "unit_value le xs = unit_value le ys \<longleftrightarrow> xs = ys"
    using 1 memcmp_equal [OF assms(1,2)] by (auto split: if_splits)
qed

text \<open>The numbers of eight bytes in a key, which a \<open>double\<close> represents up to \<open>2 ^ 53\<close>.\<close>

definition exact_units :: "bool \<Rightarrow> nat \<Rightarrow> u8 list \<Rightarrow> bool" where
  "exact_units le n buf \<longleftrightarrow> (\<forall>i < n. unit_value le (take 8 (drop (8 * i) buf)) \<le> 2 ^ 53)"

lemma exact_units_Suc:
  "exact_units le (Suc n) buf \<longleftrightarrow> unit_value le (take 8 buf) \<le> 2 ^ 53 \<and> exact_units le n (drop 8 buf)"
proof -
  have "(\<forall>i < Suc n. P i) \<longleftrightarrow> P 0 \<and> (\<forall>i < n. P (Suc i))" for P
    using less_Suc_eq_0_disj by auto
  then show ?thesis by (simp add: exact_units_def add.commute)
qed

lemma to_double_exact:
  assumes "v \<le> 2 ^ 53"
  shows "to_double v = unat v"
proof (cases "unat v < 2 ^ 53")
  case True
  then have "excess_bits (unat v) = 0" by (simp add: excess_bits.simps)
  then show ?thesis by (simp add: to_double_def Let_def)
next
  case False
  with assms have "unat v = 2 ^ 53" by (simp add: word_le_nat_alt)
  moreover have "excess_bits (2 ^ 53) = 1" by (simp add: excess_bits.simps)
  ultimately show ?thesis by (simp add: to_double_def Let_def)
qed

lemma double_units:
  assumes "length xs = n" and "length ys = n" and "n \<le> 8"
    and "unit_value le xs \<le> 2 ^ 53" and "unit_value le ys \<le> 2 ^ 53"
  shows "memcmp xs ys n = Inr (if to_double (unit_value le xs) = to_double (unit_value le ys) then 0
      else if to_double (unit_value le xs) < to_double (unit_value le ys) then -1 else 1)"
    and "to_double (unit_value le xs) = to_double (unit_value le ys) \<longleftrightarrow> xs = ys"
  using unit_value_cmp [OF assms(1-3), of le] to_double_exact [OF assms(4)] to_double_exact [OF assms(5)]
  by (simp_all add: word_less_nat_alt word_unat_eq_iff)

lemma model_units_cmp:
  "length a = 8 * n + t \<Longrightarrow> length b = 8 * n + t \<Longrightarrow> t \<le> 8 \<Longrightarrow> exact_units le n a \<Longrightarrow> exact_units le n b \<Longrightarrow>
     unit_value le (take t (drop (8 * n) a)) \<le> 2 ^ 53 \<Longrightarrow> unit_value le (take t (drop (8 * n) b)) \<le> 2 ^ 53 \<Longrightarrow>
     keycmp (model_units le to_double n a @ [to_double (unit_value le (take t (drop (8 * n) a)))])
       (model_units le to_double n b @ [to_double (unit_value le (take t (drop (8 * n) b)))]) (Suc n) = memcmp a b (8 * n + t)"
proof (induction n arbitrary: a b)
  case 0
  then show ?case using double_units [of a t b le] by (auto simp: neq_iff dest: less_asym)
next
  case (Suc n)
  have len8: "length (take 8 a) = 8" using Suc.prems by simp
  have "memcmp (take 8 a @ drop 8 a) (take 8 b @ drop 8 b) (length (take 8 a) + (8 * n + t)) =
      (if take 8 a = take 8 b then memcmp (drop 8 a) (drop 8 b) (8 * n + t) else memcmp (take 8 a) (take 8 b) (length (take 8 a)))"
    using Suc.prems by (intro memcmp_append) simp_all
  then have "memcmp a b (8 * Suc n + t) =
      (if take 8 a = take 8 b then memcmp (drop 8 a) (drop 8 b) (8 * n + t) else memcmp (take 8 a) (take 8 b) 8)"
    using len8 by (simp only: append_take_drop_id mult_Suc_right add.assoc)
  moreover have "memcmp (drop 8 a) (drop 8 b) (8 * n + t) =
      keycmp (model_units le to_double n (drop 8 a) @ [to_double (unit_value le (take t (drop (8 * n) (drop 8 a))))])
        (model_units le to_double n (drop 8 b) @ [to_double (unit_value le (take t (drop (8 * n) (drop 8 b))))]) (Suc n)"
    using Suc.prems by (intro Suc.IH [symmetric]) (simp_all add: exact_units_Suc add.commute)
  ultimately show ?case
    using Suc.prems double_units [of "take 8 a" 8 "take 8 b" le]
    by (auto simp: exact_units_Suc model_unit_def add.commute simp del: keycmp.simps(2)) (simp_all add: add.commute)
qed

text \<open>
  C31. Comparing the model keys of two keys number by number is comparing their bytes, on either byte order, for
  the number type of the benchmarks, \<open>double\<close>, as long as no number of eight bytes in the keys is above \<open>2 ^ 53\<close>. This is for every
  length whose last number has one, two, four or eight bytes; for any other length the conversion aborts.
\<close>

theorem model_key_order:
  assumes "0 < len" and "length a = len" and "length b = len"
    and "exact_units le (len div 8) a" and "exact_units le (len div 8) b"
  shows "if (len - 1) mod 8 + 1 \<in> {1, 2, 4, 8}
    then \<exists>ma mb. to_model_key le to_double len a = Inr ma \<and> to_model_key le to_double len b = Inr mb \<and>
      keycmp ma mb (model_key_size len) = memcmp a b len
    else to_model_key le to_double len a = Inl Abort"
proof -
  define n where "n = (len - 1) div 8"
  define t where "t = (len - 1) mod 8 + 1"
  have len: "len = 8 * n + t" "t \<le> 8" using assms(1) by (simp_all add: n_def t_def)
  have "model_key_size len = Suc n"
  proof (cases "t = 8")
    case True
    then show ?thesis by (simp add: model_key_size_def model_unit_def len)
  next
    case False
    then have "t mod 8 \<noteq> 0" "t div 8 = 0" using len(2) by (simp_all add: t_def)
    then show ?thesis by (simp add: model_key_size_def model_unit_def len)
  qed
  then have conv: "to_model_key le to_double len x = (if t \<in> {1, 2, 4, 8}
      then Inr (model_units le to_double n x @ [to_double (unit_value le (take t (drop (8 * n) x)))]) else Inl Abort)" for x
    by (simp add: to_model_key_def Let_def model_unit_def len(1) mult.commute)
  have exact: "exact_units le n x \<and> unit_value le (take t (drop (8 * n) x)) \<le> 2 ^ 53"
    if x: "exact_units le (len div 8) x" "length x = len" and small: "t \<in> {1, 2, 4, 8}" for x
  proof (cases "t = 8")
    case True
    then have "len div 8 = Suc n" using len(1) by simp
    with x(1) True show ?thesis by (auto simp: exact_units_def)
  next
    case False
    with small have t: "t \<le> 4" by auto
    then have "len div 8 = n" using len(1) by (simp add: div_mult_self2 add.commute)
    moreover have "unat (unit_value le (take t (drop (8 * n) x))) = be_value (take t (drop (8 * n) x))"
      using t by (intro unit_value_be) simp
    moreover have "be_value (take t (drop (8 * n) x)) < 256 ^ t"
      using be_value_less [of "take t (drop (8 * n) x)"] x(2) len(1) by simp
    moreover have "(256 :: nat) ^ t \<le> 256 ^ 4" using t by (intro power_increasing) simp_all
    ultimately show ?thesis using x(1) by (simp add: word_le_nat_alt)
  qed
  have "keycmp (model_units le to_double n a @ [to_double (unit_value le (take t (drop (8 * n) a)))])
      (model_units le to_double n b @ [to_double (unit_value le (take t (drop (8 * n) b)))]) (model_key_size len) = memcmp a b len"
    if "t \<in> {1, 2, 4, 8}"
    unfolding \<open>model_key_size len = Suc n\<close>
    using len assms(2,3) exact [OF assms(4,2) that] exact [OF assms(5,3) that] by (simp only: model_units_cmp)
  then show ?thesis unfolding conv t_def [symmetric] by simp
qed

lemma model_key_order_witness:
  "\<exists>ma mb. to_model_key True to_double 10 [0, 2, 3, 4, 5, 6, 7, 8, 9, 10] = Inr ma \<and>
    to_model_key True to_double 10 [0, 2, 3, 4, 5, 6, 7, 8, 10, 9] = Inr mb \<and> keycmp ma mb 2 = Inr (- 1)"
proof -
  have m: "model_key_size 10 = 2" "(10 - 1) mod 8 + 1 = (2 :: nat)"
    by (simp_all add: model_key_size_def model_unit_def)
  have n: "10 = Suc (Suc (Suc (Suc (Suc (Suc (Suc (Suc (Suc (Suc 0)))))))))" by simp
  have c: "memcmp [0, 2, 3, 4, 5, 6, 7, 8, 9, 10] [0, 2, 3, 4, 5, 6, 7, 8, 10, 9] 10 = Inr (- 1)"
    by (subst n) simp
  have e: "exact_units True (10 div 8) [0, 2, 3, 4, 5, 6, 7, 8, x, y]" for x y
    by (simp add: exact_units_def unit_value_def object_value_def word_le_nat_alt)
  from model_key_order [of 10 "[0, 2, 3, 4, 5, 6, 7, 8, 9, 10]" "[0, 2, 3, 4, 5, 6, 7, 8, 10, 9]" True] c e
  show ?thesis unfolding m by (simp del: keycmp.simps memcmp.simps)
qed

text \<open>With \<open>double\<close> the order is lost, and in keys of two numbers it can turn round.\<close>

lemma double_model_keys_misorder:
  "memcmp [0, 32, 0, 0, 0, 0, 0, 0, 0, 0, 0, 0, 0, 0, 0, 1] [0, 32, 0, 0, 0, 0, 0, 1, 0, 0, 0, 0, 0, 0, 0, 0] 16 = Inr (- 1)"
  "\<exists>ma mb. to_model_key True to_double 16 [0, 32, 0, 0, 0, 0, 0, 0, 0, 0, 0, 0, 0, 0, 0, 1] = Inr ma \<and>
     to_model_key True to_double 16 [0, 32, 0, 0, 0, 0, 0, 1, 0, 0, 0, 0, 0, 0, 0, 0] = Inr mb \<and>
     keycmp ma mb (model_key_size 16) = Inr 1"
proof -
  have n: "16 = Suc (Suc (Suc (Suc (Suc (Suc (Suc (Suc (Suc (Suc (Suc (Suc (Suc (Suc (Suc (Suc 0)))))))))))))))" by simp
  show "memcmp [0, 32, 0, 0, 0, 0, 0, 0, 0, 0, 0, 0, 0, 0, 0, 1] [0, 32, 0, 0, 0, 0, 0, 1, 0, 0, 0, 0, 0, 0, 0, 0] 16 = Inr (- 1)"
    by (subst n) simp
  have u: "unit_value True [0, 32, 0, 0, 0, 0, 0, 0] = 2 ^ 53" "unit_value True [0, 32, 0, 0, 0, 0, 0, 1] = 2 ^ 53 + 1"
    "unit_value True [0, 0, 0, 0, 0, 0, 0, 0] = 0" "unit_value True [0, 0, 0, 0, 0, 0, 0, 1] = 1"
    by (simp_all add: unit_value_def object_value_def)
  have e: "excess_bits 9007199254740992 = 1" "excess_bits 9007199254740993 = 1" "excess_bits 0 = 0" "excess_bits (Suc 0) = 0"
    by (simp_all add: excess_bits.simps)
  have d: "to_double (2 ^ 53) = to_double (2 ^ 53 + 1)" "to_double 0 < to_double 1"
    by (simp_all add: to_double_def Let_def e)
  show "\<exists>ma mb. to_model_key True to_double 16 [0, 32, 0, 0, 0, 0, 0, 0, 0, 0, 0, 0, 0, 0, 0, 1] = Inr ma \<and>
     to_model_key True to_double 16 [0, 32, 0, 0, 0, 0, 0, 1, 0, 0, 0, 0, 0, 0, 0, 0] = Inr mb \<and>
     keycmp ma mb (model_key_size 16) = Inr 1"
    using d by (simp add: to_model_key_def model_key_size_def model_unit_def u numeral_2_eq_2)
qed

end
