(* ===== verification/Sidle_Helper.thy ===== *)
theory Sidle_Helper
  imports Sidle_Key
begin

text \<open>
  The helpers of \<open>src/src/helper.h\<close> and \<open>src/src/helper.cpp\<close>: the maxima and the mean of a
  vector, the cycle counter, key comparators, the callback of range scans, the stop watch, matrix
  printing and the binding of threads to cores. A failed \<open>INVARIANT\<close> and \<open>COUT_N_EXIT\<close> abort the
  program. The debug output goes to no one and is left out; \<open>double\<close> sums are exact.
\<close>

section \<open>Vectors\<close>

fun min_max_loop :: "'a::linorder list \<Rightarrow> 'a \<times> 'a \<Rightarrow> 'a \<times> 'a" where
  "min_max_loop [] (mx, mn) = (mx, mn)"
| "min_max_loop (v # vs) (mx, mn) =
     min_max_loop vs (if v > mx then v else mx, if v < mn then v else mn)"

text \<open>The answers are the maximum and the minimum, in this order.\<close>

definition min_max :: "'a::linorder list \<Rightarrow> ('a \<times> 'a) res" where
  "min_max vals = (if vals = [] then Inl Assert_Failed else Inr (min_max_loop vals (vals ! 0, vals ! 0)))"

fun max_loop :: "'a::linorder list \<Rightarrow> 'a \<Rightarrow> 'a" where
  "max_loop [] mx = mx"
| "max_loop (v # vs) mx = max_loop vs (if v > mx then v else mx)"

definition vec_max :: "'a::linorder list \<Rightarrow> 'a res" where
  "vec_max vals = (if vals = [] then Inl Assert_Failed else Inr (max_loop vals (vals ! 0)))"

text \<open>The iterators are indices of a vector; an end before the begin runs off the vector.\<close>

fun max_range_loop :: "'a::linorder list \<Rightarrow> nat \<Rightarrow> 'a \<Rightarrow> 'a res" where
  "max_range_loop vals 0 mx = Inr mx"
| "max_range_loop vals (Suc rest) mx =
     (case vals of [] \<Rightarrow> Inl Out_Of_Bounds
      | v # vs \<Rightarrow> max_range_loop vs rest (if mx < v then v else mx))"

definition max_range :: "'a::linorder list \<Rightarrow> nat \<Rightarrow> nat \<Rightarrow> 'a res" where
  "max_range vals b e =
     (if e = b then Inl Assert_Failed
      else if e < b then Inl Out_Of_Bounds
      else and_then (byte_at vals b) (\<lambda>mx. max_range_loop (drop b vals) (e - b) mx))"

text \<open>The mean of no values divides zero by zero.\<close>

definition vec_mean :: "real list \<Rightarrow> c_double" where
  "vec_mean vals =
     (let sum = foldl (+) 0 vals in
      if length vals = 0 then NaN else Finite (sum / real (length vals)))"

section \<open>The cycle counter\<close>

text \<open>
  \<open>rdtsc\<close> leaves the high half of the counter in \<open>edx\<close> and the low half in \<open>eax\<close>; the three
  functions around \<open>rdtsc\<close> combine them alike.
\<close>

definition util_rdtsc :: "u32 \<Rightarrow> u32 \<Rightarrow> u64" where
  "util_rdtsc hi lo = ucast lo OR push_bit 32 (ucast hi)"

definition rdtscp :: "u64 \<Rightarrow> u64 \<Rightarrow> u64" where
  "rdtscp rdx rax = push_bit 32 rdx + rax"

section \<open>Comparators\<close>

definition sorted_array_key_compare :: "(u8 list \<Rightarrow> 'k::linorder) \<Rightarrow> u8 list \<Rightarrow> u8 list \<Rightarrow> bool" where
  "sorted_array_key_compare read_key l r \<longleftrightarrow> read_key l < read_key r"

text \<open>Strings are compared as bytes; the segment size is checked first.\<close>

fun str_less :: "u8 list \<Rightarrow> u8 list \<Rightarrow> bool" where
  "str_less xs [] \<longleftrightarrow> False"
| "str_less [] (y # ys) \<longleftrightarrow> True"
| "str_less (x # xs) (y # ys) \<longleftrightarrow> x < y \<or> x = y \<and> str_less xs ys"

definition str_compare :: "nat \<Rightarrow> u8 list \<Rightarrow> u8 list \<Rightarrow> bool res" where
  "str_compare key_seg_size l r =
     (if key_seg_size = 1 then Inr (str_less l r) else Inl Assert_Failed)"

section \<open>Range scans\<close>

text \<open>
  \<open>RangeScanCallback\<close>: \<open>f\<close> is the list of requested columns and \<open>snapshot\<close> the columns of the row.
  The answer says whether to go on. A row of several columns without a selection aborts.
\<close>

record ('k, 'v) range_scan_callback =
  cb_begin :: 'k
  cb_end :: 'k
  cb_result :: "(u8 list \<times> 'v) list"

definition make_range_scan_callback :: "'k \<Rightarrow> 'k \<Rightarrow> ('k, 'v) range_scan_callback" where
  "make_range_scan_callback b e = \<lparr>cb_begin = b, cb_end = e, cb_result = []\<rparr>"

definition scan_value :: "nat list \<Rightarrow> 'v list \<Rightarrow> 'v res" where
  "scan_value f snapshot =
     (if f = [] \<and> length snapshot = 1 \<or> length f = 1
      then byte_at snapshot (if f = [] then 0 else f ! 0)
      else Inl Abort)"

definition range_scan_call ::
  "bool \<Rightarrow> nat \<Rightarrow> u8 list \<Rightarrow> nat list \<Rightarrow> 'v list \<Rightarrow> (u8 list, 'v) range_scan_callback \<Rightarrow>
     (bool \<times> (u8 list, 'v) range_scan_callback) res" where
  "range_scan_call le key_size masstree_key f snapshot cb =
     and_then (memcmp masstree_key (cb_end cb) key_size) (\<lambda>cmp_res.
     if cmp_res \<ge> 0 then Inr (False, cb)
     else and_then (scan_value f snapshot) (\<lambda>v.
     Inr (True, cb\<lparr>cb_result := cb_result cb @ [(to_normal_key le masstree_key, v)]\<rparr>)))"

text \<open>A scan hands the rows to the callback in key order until it answers false.\<close>

fun scan_rows ::
  "bool \<Rightarrow> nat \<Rightarrow> nat list \<Rightarrow> (u8 list \<times> 'v list) list \<Rightarrow> (u8 list, 'v) range_scan_callback \<Rightarrow>
     (u8 list, 'v) range_scan_callback res" where
  "scan_rows le key_size f [] cb = Inr cb"
| "scan_rows le key_size f ((k, row) # rows) cb =
     and_then (range_scan_call le key_size k f row cb) (\<lambda>(go_on, cb1).
     if go_on then scan_rows le key_size f rows cb1 else Inr cb1)"

text \<open>\<open>RemoveVal::get\<close>: the marker of a removed value is an object of zero bytes.\<close>

definition remove_val :: "nat \<Rightarrow> u8 list" where
  "remove_val val_size = replicate val_size 0"

section \<open>The stop watch\<close>

text \<open>
  \<open>timeit\<close> keeps the time of its last call in static variables. The clock answers in nanoseconds; a
  call reads it once for the span it prints and once for the new start.
\<close>

record stop_watch =
  inited :: bool
  last_time_point :: int

definition stop_watch_boot :: stop_watch where
  "stop_watch_boot = \<lparr>inited = False, last_time_point = 0\<rparr>"

definition timeit :: "int \<Rightarrow> int \<Rightarrow> stop_watch \<Rightarrow> rat option \<times> stop_watch" where
  "timeit now now2 s =
     (if inited s
      then (Some (of_int (now - last_time_point s) / 1000000000), s\<lparr>last_time_point := now2\<rparr>)
      else (None, s\<lparr>last_time_point := now, inited := True\<rparr>))"

section \<open>Matrices\<close>

text \<open>
  Both overloads print \<open>row_n\<close> lines of \<open>col_n\<close> elements, each line ending in a blank. The index is
  computed in \<open>size_t\<close>.
\<close>

fun print_row :: "'a list \<Rightarrow> nat \<Rightarrow> nat \<Rightarrow> nat \<Rightarrow> nat \<Rightarrow> 'a list res" where
  "print_row data row_i col_n col_i 0 = Inr []"
| "print_row data row_i col_n col_i (Suc rest) =
     and_then (byte_at data ((row_i * col_n + col_i) mod 2 ^ 64)) (\<lambda>x.
     and_then (print_row data row_i col_n (col_i + 1) rest) (\<lambda>xs. Inr (x # xs)))"

fun print_rows :: "'a list \<Rightarrow> nat \<Rightarrow> nat \<Rightarrow> nat \<Rightarrow> 'a list list res" where
  "print_rows data row_i col_n 0 = Inr []"
| "print_rows data row_i col_n (Suc rest) =
     and_then (print_row data row_i col_n 0 col_n) (\<lambda>l.
     and_then (print_rows data (row_i + 1) col_n rest) (\<lambda>ls. Inr (l # ls)))"

definition print_matrix :: "'a list \<Rightarrow> nat \<Rightarrow> nat \<Rightarrow> 'a list list res" where
  "print_matrix data row_n col_n = print_rows data 0 col_n row_n"

definition print_byte_matrix :: "u8 list \<Rightarrow> nat \<Rightarrow> nat \<Rightarrow> int list list res" where
  "print_byte_matrix data row_n col_n =
     and_then (print_matrix data row_n col_n) (\<lambda>ls. Inr (map (map uint) ls))"

section \<open>Threads and cores\<close>

text \<open>The check that ends the program when it fails, and the unconditional end.\<close>

definition INVARIANT :: "bool \<Rightarrow> unit res" where
  "INVARIANT cond = (if \<not> cond then Inl Abort else Inr ())"

definition COUT_N_EXIT :: "'a res" where
  "COUT_N_EXIT = Inl Abort"

declare INVARIANT_def [simp] COUT_N_EXIT_def [simp]

definition physical_core_n :: int where "physical_core_n = 48"

definition core_mapping :: "nat list" where
  "core_mapping =
     [0, 2, 4, 6, 8, 10, 12, 14, 16, 18, 20, 22,
      1, 3, 5, 7, 9, 11, 13, 15, 17, 19, 21, 23,
      24, 26, 28, 30, 32, 34, 36, 38, 40, 42, 44, 46,
      25, 27, 29, 31, 33, 35, 37, 39, 41, 43, 45, 47]"

text \<open>
  The answer and the affinity mask of the calling thread. Only the upper bound of the thread number is
  checked; a negative number reads in front of the array.
\<close>

definition bind_to_physical_cores :: "int \<Rightarrow> (int \<times> nat set) res" where
  "bind_to_physical_cores t_id =
     and_then (INVARIANT (t_id < physical_core_n)) (\<lambda>_.
     if t_id < 0 then Inl Out_Of_Bounds
     else and_then (byte_at core_mapping (nat t_id)) (\<lambda>y. Inr (0, {y})))"

definition bind_to_physical_cores_reverse :: "int \<Rightarrow> (int \<times> nat set) res" where
  "bind_to_physical_cores_reverse t_id = and_then (INVARIANT (t_id < 64)) (\<lambda>_. COUT_N_EXIT)"

section \<open>Extremes\<close>

lemma min_max_loop_eq:
  "min_max_loop vs (mx, mn) = (Max (insert mx (set vs)), Min (insert mn (set vs)))"
proof (induction vs arbitrary: mx mn)
  case (Cons v vs)
  have "Max (insert mx (set (v # vs))) = Max (insert (if v > mx then v else mx) (set vs))"
    by (cases "vs = []") (auto simp: max_def insert_commute [of mx v])
  moreover have "Min (insert mn (set (v # vs))) = Min (insert (if v < mn then v else mn) (set vs))"
    by (cases "vs = []") (auto simp: min_def insert_commute [of mn v])
  ultimately show ?case using Cons by simp
qed simp

lemma max_loop_eq: "max_loop vs mx = Max (insert mx (set vs))"
proof (induction vs arbitrary: mx)
  case (Cons v vs)
  have "Max (insert mx (set (v # vs))) = Max (insert (if v > mx then v else mx) (set vs))"
    by (cases "vs = []") (auto simp: max_def insert_commute [of mx v])
  with Cons show ?case by simp
qed simp

lemma max_range_loop_eq: "n \<le> length vals \<Longrightarrow> max_range_loop vals n mx = Inr (max_loop (take n vals) mx)"
  by (induction vals n mx rule: max_range_loop.induct) (auto split: list.splits)

text \<open>
  On a vector that is not empty, \<open>min_max\<close>, \<open>max\<close> and \<open>max_range\<close> over all of it return the
  greatest and the least element.
\<close>

theorem helper_extremes:
  assumes "vals \<noteq> []"
  shows "min_max vals = Inr (Max (set vals), Min (set vals)) \<and> vec_max vals = Inr (Max (set vals)) \<and>
    max_range vals 0 (length vals) = Inr (Max (set vals))"
proof -
  have i: "insert (vals ! 0) (set vals) = set vals" using assms by (cases vals) auto
  show ?thesis
    using assms i max_range_loop_eq [of "length vals" vals "vals ! 0"]
    by (simp add: min_max_def vec_max_def max_range_def min_max_loop_eq max_loop_eq)
qed

lemma helper_extremes_witness:
  "min_max [3, 9, 2 :: int] = Inr (Max {3, 9, 2}, Min {3, 9, 2}) \<and> vec_max [3, 9, 2 :: int] = Inr (Max {3, 9, 2}) \<and>
    max_range [3, 9, 2 :: int] 0 (length [3, 9, 2 :: int]) = Inr (Max {3, 9, 2})"
  using helper_extremes [of "[3, 9, 2 :: int]"] by simp

section \<open>Counter\<close>

lemma unat_of_nat_less: "n < 2 ^ 64 \<Longrightarrow> unat (of_nat n :: u64) = n"
  by (simp add: unsigned_of_nat take_bit_nat_eq_self)

text \<open>
  The counter value is the high half times 2^32 plus the low half; the variant that adds the halves
  agrees with the one that joins their bits.
\<close>

theorem rdtsc_joins_halves:
  "unat (util_rdtsc hi lo) = unat hi * 2 ^ 32 + unat lo \<and> rdtscp (ucast hi) (ucast lo) = util_rdtsc hi lo"
proof -
  have disj: "push_bit 32 (ucast hi :: u64) AND ucast lo = 0"
    by (rule bit_word_eqI) (auto simp: bit_simps dest: bit_imp_le_length)
  have sum: "rdtscp (ucast hi) (ucast lo) = util_rdtsc hi lo"
    using word_plus_and_or [of "push_bit 32 (ucast hi :: u64)" "ucast lo"] disj
    by (simp add: rdtscp_def util_rdtsc_def or.commute)
  have l: "unat hi < 2 ^ 32" "unat lo < 2 ^ 32"
    using unsigned_less [of hi, where 'a = nat] unsigned_less [of lo, where 'a = nat] by simp_all
  have "rdtscp (ucast hi) (ucast lo) = of_nat (unat hi * 2 ^ 32 + unat lo)"
    by (simp only: rdtscp_def push_bit_eq_mult of_nat_add of_nat_mult of_nat_unat of_nat_power
        of_nat_numeral)
  moreover have "unat hi * 2 ^ 32 + unat lo < 2 ^ 64" using l by simp
  ultimately have "unat (rdtscp (ucast hi) (ucast lo)) = unat hi * 2 ^ 32 + unat lo"
    using unat_of_nat_less [of "unat hi * 2 ^ 32 + unat lo"] by simp
  with sum show ?thesis by simp
qed

section \<open>Order of strings\<close>

lemma str_less_irrefl: "\<not> str_less xs xs"
  by (induction xs) simp_all

lemma str_less_lexord: "str_less xs ys \<longleftrightarrow> (xs, ys) \<in> lexord {(x, y). x < y}"
  by (induction xs ys rule: str_less.induct) (auto simp: neq_Nil_conv)

lemma str_less_trans: "str_less x y \<Longrightarrow> str_less y z \<Longrightarrow> str_less x z"
  unfolding str_less_lexord by (rule lexord_trans) (auto intro: transI)

lemma str_less_total: "x = y \<or> str_less x y \<or> str_less y x"
proof (induction x y rule: str_less.induct)
  case (1 xs)
  then show ?case by (cases xs) simp_all
qed (auto simp: not_less_iff_gr_or_eq)

text \<open>
  \<open>StrCompare\<close> with segments of one byte is a strict total order.
\<close>

theorem str_compare_order:
  "str_compare 1 x x = Inr False \<and>
   (str_compare 1 x y = Inr True \<and> str_compare 1 y z = Inr True \<longrightarrow> str_compare 1 x z = Inr True) \<and>
   (x = y \<or> str_compare 1 x y = Inr True \<or> str_compare 1 y x = Inr True)"
  using str_less_irrefl str_less_trans str_less_total by (auto simp: str_compare_def)

lemma str_compare_order_witness:
  "str_compare 1 [1] [3] = Inr True \<and> str_compare 1 [1] [1] = Inr False"
  using str_compare_order [of "[1]" "[2]" "[3]"] by (simp add: str_compare_def)

section \<open>Scans\<close>

lemma scan_rows_takeWhile:
  assumes "\<forall>(k, row) \<in> set rows. length k = n \<and> length row = 1" and "length (cb_end cb) = n"
  shows "scan_rows le n [] rows cb = Inr (cb\<lparr>cb_result := cb_result cb @
    map (\<lambda>(k, row). (to_normal_key le k, row ! 0))
      (takeWhile (\<lambda>(k, row). be_value k < be_value (cb_end cb)) rows)\<rparr>)"
  using assms
proof (induction rows arbitrary: cb)
  case (Cons x rows)
  obtain k row where x: "x = (k, row)" by (cases x)
  have l: "length k = n" "length row = 1" using Cons.prems x by auto
  show ?case
  proof (cases "be_value k < be_value (cb_end cb)")
    case True
    let ?cb = "cb\<lparr>cb_result := cb_result cb @ [(to_normal_key le k, row ! 0)]\<rparr>"
    have "range_scan_call le n k [] row cb = Inr (True, ?cb)"
      using True l Cons.prems(2) by (simp add: range_scan_call_def memcmp_value scan_value_def)
    with Cons.IH [of ?cb] Cons.prems x True show ?thesis by simp
  next
    case False
    then have "range_scan_call le n k [] row cb = Inr (False, cb)"
      using l Cons.prems(2) by (simp add: range_scan_call_def memcmp_value)
    with x False show ?thesis by simp
  qed
qed simp

lemma takeWhile_sorted:
  "sorted (map f xs) \<Longrightarrow> takeWhile (\<lambda>x. f x < e) xs = filter (\<lambda>x. f x < e) xs"
  for f :: "'a \<Rightarrow> 'b::linorder"
proof (induction xs)
  case (Cons a xs)
  then have "\<forall>x \<in> set xs. f a \<le> f x" by simp
  then have "filter (\<lambda>x. f x < e) xs = []" if "\<not> f a < e"
    using that by (auto simp: filter_empty_conv not_less dest: order_trans)
  with Cons show ?case by simp
qed simp

text \<open>
  A range scan over rows of one column in ascending order collects exactly the rows whose key lies
  below the end of the range, in order, with their keys converted back.
\<close>

theorem range_scan_collects:
  assumes "\<forall>(k, row) \<in> set rows. length k = n \<and> length row = 1" and "length e = n"
    and "sorted (map (be_value \<circ> fst) rows)"
  shows "\<exists>cb. scan_rows le n [] rows (make_range_scan_callback b e) = Inr cb \<and>
    cb_result cb = map (\<lambda>(k, row). (to_normal_key le k, row ! 0))
      (filter (\<lambda>(k, row). be_value k < be_value e) rows)"
proof -
  have "takeWhile (\<lambda>(k, row). be_value k < be_value e) rows =
      filter (\<lambda>(k, row). be_value k < be_value e) rows"
    using takeWhile_sorted [OF assms(3), of "be_value e"] by (simp add: split_beta' comp_def)
  with scan_rows_takeWhile [of rows n "make_range_scan_callback b e" le] assms(1,2) show ?thesis
    by (simp add: make_range_scan_callback_def)
qed

lemma range_scan_collects_witness:
  "\<exists>cb. scan_rows True 2 [] [([0, 1], [''a'']), ([0, 9], [''b'']), ([1, 0], [''c''])]
      (make_range_scan_callback [0, 0] [0, 9]) = Inr cb \<and> cb_result cb = [([1, 0], ''a'')]"
  using range_scan_collects [of "[([0, 1], [''a'']), ([0, 9], [''b'']), ([1, 0], [''c''])]" 2 "[0, 9]" True "[0, 0]"]
  by (simp add: to_normal_key_def to_str_key_rev)

section \<open>Printing\<close>

lemma print_row_eq:
  "(row_i + 1) * col_n \<le> length data \<Longrightarrow> length data < 2 ^ 64 \<Longrightarrow> col_i + rest = col_n \<Longrightarrow>
   print_row data row_i col_n col_i rest = Inr (take rest (drop (row_i * col_n + col_i) data))"
proof (induction data row_i col_n col_i rest rule: print_row.induct)
  case (2 data row_i col_n col_i rest)
  have l: "row_i * col_n + col_i < length data" using 2(2,4) by simp
  then have "(row_i * col_n + col_i) mod 2 ^ 64 = row_i * col_n + col_i" using 2(3) by simp
  moreover have "print_row data row_i col_n (col_i + 1) rest =
      Inr (take rest (drop (row_i * col_n + (col_i + 1)) data))"
    using 2 by (intro 2(1)) simp_all
  ultimately show ?case using l by (simp add: Cons_nth_drop_Suc [symmetric])
qed simp

lemma print_rows_concat:
  "(row_i + n) * col_n \<le> length data \<Longrightarrow> length data < 2 ^ 64 \<Longrightarrow>
   \<exists>ls. print_rows data row_i col_n n = Inr ls \<and> length ls = n \<and> (\<forall>l \<in> set ls. length l = col_n) \<and>
     concat ls = take (n * col_n) (drop (row_i * col_n) data)"
proof (induction data row_i col_n n rule: print_rows.induct)
  case (2 data row_i col_n rest)
  have le: "(row_i + 1 + rest) * col_n \<le> length data" using 2(2) by (simp add: algebra_simps)
  have row: "print_row data row_i col_n 0 col_n = Inr (take col_n (drop (row_i * col_n) data))"
    using print_row_eq [of row_i col_n data 0 col_n] le 2(3) by (simp add: algebra_simps)
  obtain ls where ls: "print_rows data (row_i + 1) col_n rest = Inr ls" "length ls = rest"
    "\<forall>l \<in> set ls. length l = col_n" "concat ls = take (rest * col_n) (drop ((row_i + 1) * col_n) data)"
    using 2(1) [OF row le 2(3)] by blast
  have "take (Suc rest * col_n) (drop (row_i * col_n) data) =
      take col_n (drop (row_i * col_n) data) @ take (rest * col_n) (drop ((row_i + 1) * col_n) data)"
    by (simp add: take_add algebra_simps)
  with ls row le show ?case by (simp add: algebra_simps)
qed simp

text \<open>
  A matrix stored row by row is printed completely and in order, every line with as many elements
  as there are columns.
\<close>

theorem print_matrix_all:
  assumes "row_n * col_n \<le> length data" and "length data < 2 ^ 64"
  shows "\<exists>ls. print_matrix data row_n col_n = Inr ls \<and> length ls = row_n \<and>
    (\<forall>l \<in> set ls. length l = col_n) \<and> concat ls = take (row_n * col_n) data"
  using print_rows_concat [of 0 row_n col_n data] assms by (simp add: print_matrix_def)

lemma print_matrix_all_witness:
  "\<exists>ls. print_matrix [1, 2, 3, 4, 5, 6 :: int] 3 2 = Inr ls \<and> length ls = 3 \<and>
    (\<forall>l \<in> set ls. length l = 2) \<and> concat ls = [1, 2, 3, 4, 5, 6]"
  using print_matrix_all [of 3 2 "[1, 2, 3, 4, 5, 6 :: int]"] by simp

section \<open>Binding threads\<close>

lemma core_mapping_facts: "length core_mapping = 48" "distinct core_mapping" "set core_mapping = {0..<48}"
proof -
  show len: "length core_mapping = 48" and d: "distinct core_mapping" by (simp_all add: core_mapping_def)
  have "set core_mapping \<subseteq> {0..<48}" by (simp add: core_mapping_def)
  moreover have "card (set core_mapping) = 48" using len d by (simp add: distinct_card)
  ultimately show "set core_mapping = {0..<48}" by (simp add: card_subset_eq)
qed

text \<open>
  Threads 0 to 47 are bound to one core each, no two to the same, and together they use cores 0 to
  47; the first twelve are bound to even cores. Larger numbers abort, negative ones read outside the
  table, and the reverse binding always aborts.
\<close>

theorem bind_is_bijection:
  "(\<exists>core. bij_betw core {0..<48} {0..<48 :: nat} \<and>
      (\<forall>t \<in> {0..<48 :: int}. bind_to_physical_cores t = Inr (0, {core t}) \<and> (t < 12 \<longrightarrow> core t = nat (2 * t)))) \<and>
   (t \<ge> 48 \<longrightarrow> bind_to_physical_cores t = Inl Abort) \<and>
   (t < 0 \<longrightarrow> bind_to_physical_cores t = Inl Out_Of_Bounds) \<and>
   bind_to_physical_cores_reverse t = Inl Abort"
proof -
  let ?core = "\<lambda>t :: int. core_mapping ! nat t"
  have "bij_betw nat {0..<48 :: int} {0..<48 :: nat}"
    by (rule bij_betw_byWitness [of _ int]) auto
  moreover have "bij_betw ((!) core_mapping) {0..<48} {0..<48}"
    by (rule bij_betw_nth [OF core_mapping_facts(2)])
      (simp_all only: core_mapping_facts(1,3) atLeast0LessThan)
  ultimately have "bij_betw ?core {0..<48} {0..<48}"
    using bij_betw_trans unfolding comp_def by blast
  moreover have "bind_to_physical_cores t = Inr (0, {?core t})" if "t \<in> {0..<48}" for t
  proof -
    have "nat t < length core_mapping" using that by (simp add: core_mapping_facts(1) nat_less_iff)
    then show ?thesis using that by (simp add: bind_to_physical_cores_def physical_core_n_def)
  qed
  moreover have "?core t = nat (2 * t)" if "t \<in> {0..<48}" "t < 12" for t
  proof -
    have i: "nat t < 12" using that by simp
    have "take 12 core_mapping = map ((*) 2) [0..<12]" by (simp add: core_mapping_def upt_rec)
    then have "core_mapping ! nat t = map ((*) 2) [0..<12] ! nat t" using i by (metis nth_take)
    then show ?thesis using i that by (simp add: nat_mult_distrib)
  qed
  ultimately have "\<exists>core. bij_betw core {0..<48} {0..<48 :: nat} \<and>
      (\<forall>t \<in> {0..<48 :: int}. bind_to_physical_cores t = Inr (0, {core t}) \<and> (t < 12 \<longrightarrow> core t = nat (2 * t)))"
    by blast
  then show ?thesis
    by (simp add: bind_to_physical_cores_def bind_to_physical_cores_reverse_def physical_core_n_def)
qed

lemma bind_is_bijection_witness:
  "bind_to_physical_cores 50 = Inl Abort \<and> bind_to_physical_cores (-1) = Inl Out_Of_Bounds \<and>
   (\<exists>core. bind_to_physical_cores 3 = Inr (0, {core 3}) \<and> core 3 = (6 :: nat))"
proof -
  obtain core where "\<forall>t \<in> {0..<48 :: int}. bind_to_physical_cores t = Inr (0, {core t}) \<and>
      (t < 12 \<longrightarrow> core t = nat (2 * t))"
    using bind_is_bijection [of 0] by blast
  then have "bind_to_physical_cores 3 = Inr (0, {core 3})" "core 3 = 6" by simp_all
  with bind_is_bijection [of 50] bind_is_bijection [of "-1"] show ?thesis by auto
qed

end
