(* ===== verification/Sidle_Kv.thy ===== *)
theory Sidle_Kv
  imports Sidle_Helper Sidle_Meta "HOL-Library.Multiset"
begin

text \<open>
  What the two index wrappers of \<open>src/src/kv\<close> share: the vector of background workers and the threads
  that run them, the shutdown, and the summary of page accesses that a build with
  \<open>CAL_NODE_HOTNESS\<close> writes on destruction. A worker is recorded with its kind and the wake-up
  interval in milliseconds that its constructor computes.
\<close>

section \<open>Background workers\<close>

record worker_config =
  kind :: worker_type
  interval :: int

record background =
  background_workers :: "worker_config option list"
  background_jobs :: "(nat \<times> nat set) list"

definition no_background :: background where
  "no_background = \<lparr>background_workers = [], background_jobs = []\<rparr>"

text \<open>Arithmetic on \<open>int\<close> is undefined when it overflows.\<close>

definition c_int :: "int \<Rightarrow> int res" where
  "c_int n = (if - (2 ^ 31) \<le> n \<and> n < 2 ^ 31 then Inr n else Inl Undefined_Behaviour)"

text \<open>
  One thread per worker, in order: the thread binds itself to its core and runs the worker. A failed
  \<open>INVARIANT\<close> of the binding ends the program; it is not an exception that the thread could catch.
\<close>

fun start_jobs :: "int \<Rightarrow> nat \<Rightarrow> worker_config option list \<Rightarrow> (nat \<times> nat set) list res" where
  "start_jobs tid i [] = Inr []"
| "start_jobs tid i (None # ws) = start_jobs tid (i + 1) ws"
| "start_jobs tid i (Some w # ws) =
     and_then (c_int (tid + int i)) (\<lambda>t.
     and_then (bind_to_physical_cores t) (\<lambda>(r, cores).
     and_then (start_jobs tid (i + 1) ws) (\<lambda>js. Inr ((i, cores) # js))))"

text \<open>
  \<open>stop\<close>: every worker that exists clears the common run flag; then the threads are joined and both
  vectors are emptied.
\<close>

definition stop_background :: "background \<Rightarrow> worker_base \<Rightarrow> background \<times> worker_base" where
  "stop_background b base =
     (no_background,
      foldl (\<lambda>s w. if w \<noteq> None then stop_worker s else s) base (background_workers b))"

lemma stop_background_stops:
  "\<exists>w. w \<noteq> None \<and> w \<in> set (background_workers b) \<Longrightarrow> \<not> is_running (snd (stop_background b base))"
proof -
  have keep: "\<not> is_running s \<Longrightarrow>
      \<not> is_running (foldl (\<lambda>s w. if w \<noteq> None then stop_worker s else s) s ws)" for s and ws :: "worker_config option list"
    by (induction ws arbitrary: s) (auto simp: stop_worker_def)
  have "\<exists>w. w \<noteq> None \<and> w \<in> set ws \<Longrightarrow>
      \<not> is_running (foldl (\<lambda>s w. if w \<noteq> None then stop_worker s else s) s ws)" for s and ws :: "worker_config option list"
  proof (induction ws arbitrary: s)
    case (Cons v ws)
    show ?case
    proof (cases "v = None")
      case False
      then have "\<not> is_running (if v \<noteq> None then stop_worker s else s)" by (simp add: stop_worker_def)
      then show ?thesis using keep by simp
    qed (use Cons in auto)
  qed simp
  then show "\<exists>w. w \<noteq> None \<and> w \<in> set (background_workers b) \<Longrightarrow> \<not> is_running (snd (stop_background b base))"
    by (simp add: stop_background_def)
qed

lemma start_jobs_ok:
  assumes "\<forall>w \<in> set ws. w \<noteq> None" and "0 \<le> tid" and "tid + int i + int (length ws) \<le> 48"
  shows "start_jobs tid i ws =
    Inr (map (\<lambda>j. (i + j, {core_mapping ! nat (tid + int i + int j)})) [0..<length ws])"
  using assms
proof (induction ws arbitrary: i)
  case (Cons w ws)
  then obtain c where c: "w = Some c" by auto
  have t: "0 \<le> tid + int i" "tid + int i < 48" using Cons.prems by simp_all
  then have "bind_to_physical_cores (tid + int i) = Inr (0, {core_mapping ! nat (tid + int i)})"
    using core_mapping_facts(1)
    by (simp add: bind_to_physical_cores_def physical_core_n_def byte_at_def nat_less_iff)
  moreover have "c_int (tid + int i) = Inr (tid + int i)" using t by (simp add: c_int_def)
  moreover have "start_jobs tid (i + 1) ws =
      Inr (map (\<lambda>j. (i + 1 + j, {core_mapping ! nat (tid + int (i + 1) + int j)})) [0..<length ws])"
    using Cons.prems by (intro Cons.IH) auto
  moreover have "[0..<length (w # ws)] = 0 # map Suc [0..<length ws]"
    by (simp add: upt_conv_Cons map_Suc_upt del: upt_Suc)
  ultimately show ?case using c by (simp add: algebra_simps)
qed simp

lemma start_jobs_abort:
  assumes "\<forall>w \<in> set ws. w \<noteq> None" and "0 \<le> tid" and "tid + int i + int (length ws) > 48"
    and "tid + int i + int (length ws) < 2 ^ 31" and "ws \<noteq> []"
  shows "start_jobs tid i ws = Inl Abort"
  using assms
proof (induction ws arbitrary: i)
  case (Cons w ws)
  then obtain c where c: "w = Some c" by auto
  have ci: "c_int (tid + int i) = Inr (tid + int i)" using Cons.prems by (simp add: c_int_def)
  show ?case
  proof (cases "tid + int i < 48")
    case True
    then have b: "bind_to_physical_cores (tid + int i) = Inr (0, {core_mapping ! nat (tid + int i)})"
      using Cons.prems(2) core_mapping_facts(1)
      by (simp add: bind_to_physical_cores_def physical_core_n_def byte_at_def nat_less_iff)
    have "ws \<noteq> []" using True Cons.prems(3) by auto
    moreover have "start_jobs tid (i + 1) ws = Inl Abort" if "ws \<noteq> []"
      using that Cons.prems by (intro Cons.IH) auto
    ultimately show ?thesis using b c ci by simp
  next
    case False
    then have "bind_to_physical_cores (tid + int i) = Inl Abort"
      by (simp add: bind_to_physical_cores_def physical_core_n_def)
    with c ci show ?thesis by simp
  qed
qed simp

section \<open>The summary of page accesses\<close>

text \<open>
  The counts of the nodes are grouped by page of 4096 bytes. \<open>w\<close> is the width of a stored count:
  the sum of a page is stored in front of its counts in that width. The pages come in the order of the
  hash table, here the order of their first node, and are sorted by their sums in descending order.
\<close>

definition page_of :: "u64 \<Rightarrow> u64" where
  "page_of a = drop_bit 12 a"

fun add_count :: "u64 \<Rightarrow> nat \<Rightarrow> (u64 \<times> nat list) list \<Rightarrow> (u64 \<times> nat list) list" where
  "add_count p c [] = [(p, [c])]"
| "add_count p c ((q, cs) # pages) =
     (if p = q then (q, cs @ [c]) # pages else (q, cs) # add_count p c pages)"

definition page_counts :: "(u64 \<times> nat) list \<Rightarrow> (u64 \<times> nat list) list" where
  "page_counts accesses = foldl (\<lambda>pages (a, c). add_count (page_of a) c pages) [] accesses"

text \<open>
  \<open>accumulate\<close> starts from the \<open>int\<close> 0, so it adds as \<open>int\<close> (modulo 2^32); the sum is then kept
  with the width of a count.
\<close>

definition page_row :: "nat \<Rightarrow> nat list \<Rightarrow> nat list" where
  "page_row w cs = (foldl (\<lambda>s c. (s + c) mod 2 ^ 32) 0 cs mod 2 ^ w) # cs"

definition hotness_summary :: "nat \<Rightarrow> (u64 \<times> nat) list \<Rightarrow> nat list list" where
  "hotness_summary w accesses =
     sort_key (\<lambda>row. - int (hd row)) (map (page_row w \<circ> snd) (page_counts accesses))"

lemma page_row_counts: "tl (page_row w cs) = cs" "page_row w cs \<noteq> []"
  by (simp_all add: page_row_def)

lemma foldl_add_mod: "foldl (\<lambda>s c. (s + c) mod m) (s mod m) cs = (s + sum_list cs) mod m" for m :: nat
proof (induction cs arbitrary: s)
  case (Cons c cs)
  have "foldl (\<lambda>s c. (s + c) mod m) (s mod m) (c # cs) = foldl (\<lambda>s c. (s + c) mod m) ((s + c) mod m) cs"
    by (simp add: mod_add_left_eq)
  also have "\<dots> = (s + c + sum_list cs) mod m" by (rule Cons)
  finally show ?case by (simp add: add.assoc)
qed simp

lemma page_row_sum:
  assumes "w \<le> 32"
  shows "hd (page_row w cs) = sum_list cs mod 2 ^ w"
proof -
  have "(2 :: nat) ^ w dvd 2 ^ 32" using assms by (rule le_imp_power_dvd)
  then have "sum_list cs mod 2 ^ 32 mod 2 ^ w = sum_list cs mod 2 ^ w" by (rule mod_mod_cancel)
  then show ?thesis using foldl_add_mod [of "2 ^ 32" 0 cs] by (simp add: page_row_def)
qed

lemma add_count_mset: "mset (concat (map snd (add_count p c pages))) = add_mset c (mset (concat (map snd pages)))"
  by (induction pages rule: add_count.induct) auto

lemma page_counts_mset: "mset (concat (map snd (page_counts accesses))) = mset (map snd accesses)"
proof -
  have "mset (concat (map snd (foldl (\<lambda>pages (a, c). add_count (page_of a) c pages) pages accesses))) =
      mset (concat (map snd pages)) + mset (map snd accesses)" for pages
    by (induction accesses arbitrary: pages) (auto simp: add_count_mset)
  then show ?thesis by (simp add: page_counts_def)
qed

lemma sorted_descending: "sorted (map (\<lambda>x. - int (f x)) xs) \<Longrightarrow> sorted (rev (map f xs))"
  by (induction xs) (auto simp: sorted_append)

text \<open>
  The summary loses no count: its rows without their sums are a rearrangement of the counts, every
  row starts with the sum of its counts in the width of a count, and the sums descend.
\<close>

lemma hotness_summary_complete:
  assumes "w \<le> 32"
  shows "mset (concat (map tl (hotness_summary w accesses))) = mset (map snd accesses) \<and>
    (\<forall>row \<in> set (hotness_summary w accesses). hd row = sum_list (tl row) mod 2 ^ w) \<and>
    sorted (rev (map hd (hotness_summary w accesses)))"
proof (intro conjI ballI)
  let ?rows = "map (page_row w \<circ> snd) (page_counts accesses)"
  have perm: "mset (hotness_summary w accesses) = mset ?rows" by (simp add: hotness_summary_def)
  have sum: "mset (concat (map tl xs)) = (\<Sum>row \<in># mset xs. mset (tl row))" for xs :: "nat list list"
    by (induction xs) simp_all
  have "mset (concat (map tl (hotness_summary w accesses))) = mset (concat (map tl ?rows))"
    unfolding sum perm ..
  also have "map tl ?rows = map snd (page_counts accesses)" by (simp add: page_row_counts)
  finally show "mset (concat (map tl (hotness_summary w accesses))) = mset (map snd accesses)"
    by (simp add: page_counts_mset)
  show "hd row = sum_list (tl row) mod 2 ^ w" if "row \<in> set (hotness_summary w accesses)" for row
    using that perm page_row_sum [OF assms] by (auto simp: hotness_summary_def page_row_counts)
  have "sorted (map (\<lambda>row. - int (hd row)) (hotness_summary w accesses))"
    by (simp add: hotness_summary_def)
  then show "sorted (rev (map hd (hotness_summary w accesses)))"
    by (rule sorted_descending)
qed

section \<open>The contract of a store\<close>

text \<open>
  The benchmarks run against any wrapper through \<open>insert\<close> and \<open>get\<close>. \<open>key_store\<close> is the weaker
  contract: an inserted key is found, no other is; \<open>n\<close> counts the insertions there is still memory
  for. \<open>map_store\<close> also promises the value.
\<close>

lemma add_last: "m(k \<mapsto> v) ++ map_of xs = m ++ map_of (xs @ [(k, v)])"
proof -
  have "m(k \<mapsto> v) = m ++ map_of [(k, v)]" by (rule ext) (simp add: map_add_def)
  then have "m(k \<mapsto> v) ++ map_of xs = m ++ (map_of [(k, v)] ++ map_of xs)"
    by (simp only: map_add_assoc)
  then show ?thesis by (simp only: map_of_append)
qed

fun load_all :: "('k \<Rightarrow> 'v \<Rightarrow> 's \<Rightarrow> (bool \<times> 's) res) \<Rightarrow> ('k \<times> 'v) list \<Rightarrow> 's \<Rightarrow> (bool list \<times> 's) res" where
  "load_all ins [] s = Inr ([], s)"
| "load_all ins ((k, v) # kvs) s =
     and_then (ins k v s) (\<lambda>(b, s1). and_then (load_all ins kvs s1) (\<lambda>(bs, s2). Inr (b # bs, s2)))"

locale key_store =
  fixes ins :: "'k \<Rightarrow> 'v \<Rightarrow> 's \<Rightarrow> (bool \<times> 's) res"
    and get :: "'k \<Rightarrow> 's \<Rightarrow> ('v option \<times> 's) res"
    and inv :: "nat \<Rightarrow> 's \<Rightarrow> 'k set \<Rightarrow> bool"
    and failure :: "error \<Rightarrow> 'k set \<Rightarrow> bool"
  assumes ins_ok: "inv (Suc n) s K \<Longrightarrow> ins k v s = Inr (b, s') \<Longrightarrow> b \<and> inv n s' (insert k K)"
    and ins_fails: "inv (Suc n) s K \<Longrightarrow> ins k v s = Inl e \<Longrightarrow> failure e (insert k K)"
    and failure_mono: "failure e K \<Longrightarrow> K \<subseteq> K' \<Longrightarrow> failure e K'"
    and get_ok: "inv n s K \<Longrightarrow> \<exists>r s'. get k s = Inr (r, s') \<and> (r \<noteq> None \<longleftrightarrow> k \<in> K) \<and> inv n s' K"
begin

lemma load_fails: "inv (length kvs) s K \<Longrightarrow> load_all ins kvs s = Inl e \<Longrightarrow> failure e (K \<union> fst ` set kvs)"
proof (induction kvs arbitrary: s K)
  case (Cons kv kvs)
  obtain k v where kv: "kv = (k, v)" by (cases kv)
  show ?case
  proof (cases "ins k v s")
    case (Inl e1)
    then have "failure e (insert k K)" using ins_fails [of "length kvs" s K k v e1] Cons.prems kv by simp
    then show ?thesis by (rule failure_mono) (auto simp: kv)
  next
    case (Inr y)
    obtain b s1 where y: "y = (b, s1)" by (cases y)
    then have "inv (length kvs) s1 (insert k K)" using ins_ok Inr Cons.prems(1) by simp
    moreover have "load_all ins kvs s1 = Inl e"
      using Cons.prems(2) Inr y kv by (cases "load_all ins kvs s1") auto
    ultimately show ?thesis using Cons.IH [of s1 "insert k K"] kv by simp
  qed
qed simp

lemma load_then_find:
  "inv (length kvs) s K \<Longrightarrow> load_all ins kvs s = Inr (bs, s') \<Longrightarrow>
     set bs \<subseteq> {True} \<and> inv 0 s' (K \<union> fst ` set kvs)"
proof (induction kvs arbitrary: s K bs)
  case (Cons kv kvs)
  obtain k v where kv: "kv = (k, v)" by (cases kv)
  with Cons.prems(2) obtain b s1 cs where i: "ins k v s = Inr (b, s1)"
    and l: "load_all ins kvs s1 = Inr (cs, s')" and bs: "bs = b # cs"
    by (auto simp: and_then_Inr_iff)
  have b: "b" and s1: "inv (length kvs) s1 (insert k K)"
    using ins_ok [OF _ i] Cons.prems(1) by simp_all
  from Cons.IH [OF s1 l] b bs kv show ?case by simp
qed simp

end

locale map_store =
  fixes ins :: "'k \<Rightarrow> 'v \<Rightarrow> 's \<Rightarrow> (bool \<times> 's) res"
    and get :: "'k \<Rightarrow> 's \<Rightarrow> ('v option \<times> 's) res"
    and holds_map :: "'s \<Rightarrow> ('k \<rightharpoonup> 'v) \<Rightarrow> bool"
  assumes ins_map: "holds_map s m \<Longrightarrow> \<exists>s'. ins k v s = Inr (True, s') \<and> holds_map s' (m(k \<mapsto> v))"
    and get_map: "holds_map s m \<Longrightarrow> \<exists>s'. get k s = Inr (m k, s') \<and> holds_map s' m"
begin

sublocale keys: key_store ins get "\<lambda>n s K. \<exists>m. holds_map s m \<and> dom m = K" "\<lambda>e K. False"
proof
  fix n s K k v b s'
  assume "\<exists>m. holds_map s m \<and> dom m = K" and i: "ins k v s = Inr (b, s')"
  then obtain m where m: "holds_map s m" "dom m = K" by blast
  obtain s2 where "ins k v s = Inr (True, s2)" "holds_map s2 (m(k \<mapsto> v))" using ins_map [OF m(1)] by blast
  with i m show "b \<and> (\<exists>m. holds_map s' m \<and> dom m = insert k K)"
    by (auto intro!: exI [of _ "m(k \<mapsto> v)"])
next
  fix n s K k v e
  assume "\<exists>m. holds_map s m \<and> dom m = K" and "ins k v s = Inl e"
  then show False using ins_map [of s _ k v] by auto
next
  fix n s K k
  assume "\<exists>m. holds_map s m \<and> dom m = K"
  then obtain m where m: "holds_map s m" "dom m = K" by blast
  obtain s' where "get k s = Inr (m k, s')" "holds_map s' m" using get_map [OF m(1)] by blast
  with m show "\<exists>r s'. get k s = Inr (r, s') \<and> (r \<noteq> None \<longleftrightarrow> k \<in> K) \<and> (\<exists>m. holds_map s' m \<and> dom m = K)"
    by blast
qed

lemma load_builds_map:
  "holds_map s m \<Longrightarrow> \<exists>bs s'. load_all ins kvs s = Inr (bs, s') \<and>
     set bs \<subseteq> {True} \<and> holds_map s' (m ++ map_of (rev kvs))"
proof (induction kvs arbitrary: s m)
  case (Cons kv kvs)
  obtain k v where kv: "kv = (k, v)" by (cases kv)
  obtain s1 where s1: "ins k v s = Inr (True, s1)" "holds_map s1 (m(k \<mapsto> v))"
    using ins_map [OF Cons.prems] by blast
  obtain bs s' where bs: "load_all ins kvs s1 = Inr (bs, s')" "set bs \<subseteq> {True}"
    "holds_map s' (m(k \<mapsto> v) ++ map_of (rev kvs))"
    using Cons.IH [OF s1(2)] by blast
  have "rev kvs @ [(k, v)] = rev (kv # kvs)" using kv by simp
  with bs(3) have "holds_map s' (m ++ map_of (rev (kv # kvs)))" by (simp only: add_last)
  moreover have "load_all ins (kv # kvs) s = Inr (True # bs, s')" using kv s1(1) bs(1) by simp
  moreover have "set (True # bs) \<subseteq> {True}" using bs(2) by simp
  ultimately show ?case by blast
qed simp

end

end
