(* ===== verification/Art_Kv.thy ===== *)
theory Art_Kv
  imports Art_Index Sidle_Kv
begin

text \<open>
  The wrapper of the radix tree (\<open>src/src/kv/art_wrapper.h\<close>). The key type is a parameter: \<open>str\<close> gives the
  bytes of \<open>k.to_str_key()\<close>. The wrapper stores no values: \<open>insert\<close> drops its value, and \<open>get\<close> reads
  the value from the address of the key in the leaf.
\<close>

section \<open>State\<close>

record art_kv =
  tree :: art_heap
  kv_background :: background
  pool_start :: "int option"

definition make_art_kv ::
  "int \<Rightarrow> u64 \<Rightarrow> int \<Rightarrow> u64 option \<Rightarrow> int \<Rightarrow> art_heap \<Rightarrow> art_kv res" where
  "make_art_kv cxl_percentage local_memory opened mapped create_err h =
     and_then (new_adaptive_radix_tree cxl_percentage local_memory opened mapped create_err h)
       (\<lambda>t. Inr \<lparr>tree = t, kv_background = no_background, pool_start = None\<rparr>)"

section \<open>Operations\<close>

text \<open>The bytes at the address of a key; the leaf ends with its key.\<close>

definition load_bytes :: "u64 \<Rightarrow> nat \<Rightarrow> art_heap \<Rightarrow> u8 list res" where
  "load_bytes addr n h =
     and_then (load_leaf (addr - 4) h) (\<lambda>l.
     if n \<le> length (leaf_key l) then Inr (take n (leaf_key l)) else Inl Out_Of_Bounds)"

text \<open>\<open>get\<close> answers false (None), or true with the value it stores to \<open>v\<close>.\<close>

definition art_kv_get ::
  "nat \<Rightarrow> nat \<Rightarrow> nat \<Rightarrow> ('k \<Rightarrow> u8 list) \<Rightarrow> 'k \<Rightarrow> art_kv \<Rightarrow> (u8 list option \<times> art_kv) res" where
  "art_kv_get tries fuel val_size str k s =
     (let str_k = str k in
      and_then (adaptive_radix_tree_get tries fuel str_k (tree s)) (\<lambda>(value, h).
      if value = 0 then Inr (None, s\<lparr>tree := h\<rparr>)
      else and_then (load_bytes value val_size h) (\<lambda>v. Inr (Some v, s\<lparr>tree := h\<rparr>))))"

definition art_kv_insert ::
  "nat \<Rightarrow> nat \<Rightarrow> ('k \<Rightarrow> u8 list) \<Rightarrow> 'k \<Rightarrow> u8 list \<Rightarrow> art_kv \<Rightarrow> (bool \<times> art_kv) res" where
  "art_kv_insert tries fuel str k v s =
     (let str_k = str k in
      and_then (adaptive_radix_tree_put tries fuel str_k (tree s)) (\<lambda>(ret, h).
      if ret = 0 \<or> ret = 1 then Inr (True, s\<lparr>tree := h\<rparr>) else Inr (False, s\<lparr>tree := h\<rparr>)))"

definition art_kv_remove :: "'k \<Rightarrow> art_kv \<Rightarrow> bool \<times> art_kv" where
  "art_kv_remove k s = (False, s)"

definition art_kv_lower_bound :: "'k \<Rightarrow> art_kv \<Rightarrow> bool \<times> art_kv" where
  "art_kv_lower_bound k s = (False, s)"

definition art_kv_scan :: "'k \<Rightarrow> nat \<Rightarrow> ('k \<times> 'v) list \<Rightarrow> art_kv \<Rightarrow> nat \<times> ('k \<times> 'v) list \<times> art_kv" where
  "art_kv_scan k_start n result s = (0, result, s)"

definition art_kv_range_scan ::
  "'k \<Rightarrow> 'k \<Rightarrow> ('k \<times> 'v) list \<Rightarrow> art_kv \<Rightarrow> nat \<times> ('k \<times> 'v) list \<times> art_kv" where
  "art_kv_range_scan k_start k_end result s = (0, result, s)"

definition art_worker_enter :: "u32 \<Rightarrow> art_kv \<Rightarrow> art_kv" where
  "art_worker_enter worker_id s = s"

definition art_worker_exit :: "u32 \<Rightarrow> art_kv \<Rightarrow> art_kv" where
  "art_worker_exit worker_id s = s"

section \<open>Background workers\<close>

text \<open>
  The intervals are multiplied as \<open>int\<close>; the constructor of the trigger multiplies its interval by five
  once more, in 64 bits. Slots beyond the five workers are dropped, new threads are appended.
\<close>

definition art_init_migration_worker :: "int \<Rightarrow> int \<Rightarrow> int \<Rightarrow> int \<Rightarrow> art_kv \<Rightarrow> art_kv res" where
  "art_init_migration_worker bg_worker_start_tid basic_worker_wakeup_interval
     cooler_wakeup_interval threshold_adjuster_wakeup_interval s =
     and_then (c_int (basic_worker_wakeup_interval * 2)) (\<lambda>basic.
     and_then (c_int (cooler_wakeup_interval * 3)) (\<lambda>cooler.
     and_then (c_int (basic * 5)) (\<lambda>trigger_interval.
     and_then (c_int (cooler * 5)) (\<lambda>cooler_interval.
     and_then (c_int (bg_worker_start_tid + 5)) (\<lambda>pool.
     let ws = [Some \<lparr>kind = Migration_Trigger, interval = trigger_interval * 5\<rparr>,
               Some \<lparr>kind = Promotion_Executor, interval = basic\<rparr>,
               Some \<lparr>kind = Demotion_Executor, interval = basic\<rparr>,
               Some \<lparr>kind = Cooler, interval = cooler_interval\<rparr>,
               Some \<lparr>kind = Threshold_Adjuster, interval = threshold_adjuster_wakeup_interval\<rparr>]
     in and_then (start_jobs bg_worker_start_tid 0 ws) (\<lambda>js.
        Inr (s\<lparr>tree := (tree s)\<lparr>base := art_worker_base (base (tree s))\<rparr>,
               kv_background := \<lparr>background_workers = ws,
                 background_jobs = background_jobs (kv_background s) @ js\<rparr>,
               pool_start := Some pool\<rparr>)))))))"

definition art_kv_stop :: "art_kv \<Rightarrow> art_kv" where
  "art_kv_stop s =
     (let (b, base') = stop_background (kv_background s) (base (tree s))
      in s\<lparr>tree := (tree s)\<lparr>base := base'\<rparr>, kv_background := b\<rparr>)"


section \<open>The stored keys\<close>

text \<open>The state holds the keys \<open>K\<close>, with memory for \<open>n\<close> more insertions.\<close>

definition art_kv_inv :: "('k \<Rightarrow> u8 list) \<Rightarrow> nat \<Rightarrow> nat \<Rightarrow> art_kv \<Rightarrow> 'k set \<Rightarrow> bool" where
  "art_kv_inv str L n s K \<longleftrightarrow> index_inv L n (tree s) (str ` K)"

lemma load_bytes_leaf:
  assumes "leaf_for h a k"
  shows "load_bytes (a + 4) n (bump_at a h) = (if n \<le> length k then Inr (take n k) else Inl Out_Of_Bounds)"
proof -
  obtain l where l: "leaves h a = Some l" "leaf_rep l k" using assms by (auto simp: leaf_for_def)
  then have "leaves (bump_at a h) a = Some (bump_access l)" by (simp add: bump_at_def)
  moreover have "leaf_key (bump_access l) = k" using l(2) by (simp add: bump_access_def leaf_rep_def)
  ultimately show ?thesis by (simp add: load_bytes_def load_leaf_def)
qed

context index_key
begin

lemma kv_insert:
  assumes "art_kv_inv str key_size (Suc n) s K"
  shows "case art_kv_insert (Suc tries) (Suc key_size) str k v s of
    Inl e \<Rightarrow> e = Spin \<or> e = Assert_Failed \<and> (\<exists>k1 \<in> K. long_clash (str k) (str k1))
  | Inr (b, s') \<Rightarrow> b \<and> art_kv_inv str key_size n s' (insert k K)"
  using index_put [of key_size n "tree s" "str ` K" "str k" tries] assms
  by (cases "adaptive_radix_tree_put (Suc tries) (Suc key_size) (str k) (tree s)")
    (auto simp: art_kv_inv_def art_kv_insert_def length_str Let_def)

lemma kv_get:
  assumes "art_kv_inv str key_size n s K"
  shows "\<exists>s'. art_kv_get (Suc tries) (Suc key_size) vs str k s =
      (if k \<notin> K then Inr (None, s') else if vs \<le> key_size then Inr (Some (take vs (str k)), s') else Inl Out_Of_Bounds) \<and>
    art_kv_inv str key_size n s' K"
proof -
  have inv: "index_inv key_size n (tree s) (str ` K)" using assms by (simp add: art_kv_inv_def)
  obtain a h where g: "adaptive_radix_tree_get (Suc tries) (Suc key_size) (str k) (tree s) = Inr (a, h)"
    "a \<noteq> 0 \<longleftrightarrow> str k \<in> str ` K" "index_inv key_size n h (str ` K)"
    using index_get [OF inv length_str] by blast
  have load: "load_bytes a vs h = (if vs \<le> key_size then Inr (take vs (str k)) else Inl Out_Of_Bounds)" if "k \<in> K"
  proof -
    have "holds key_size (tree s) (str ` K)" "key_size < 128" using inv by (simp_all add: index_inv_def)
    from holds_get [OF this(1) length_str [of k] this(2), where tries = tries] that obtain c where
      "leaf_for (tree s) c (str k)"
      "adaptive_radix_tree_get (Suc tries) (Suc key_size) (str k) (tree s) = Inr (c + 4, bump_at c (tree s))"
      by (auto simp: str_in_image)
    with g(1) load_bytes_leaf [of "tree s" c "str k" vs] length_str show ?thesis by simp
  qed
  show ?thesis
    using g load by (intro exI [of _ "s\<lparr>tree := h\<rparr>"]) (auto simp: art_kv_get_def art_kv_inv_def Let_def str_in_image)
qed

text \<open>With values that are not longer than a key the wrapper keeps the key contract of a store.\<close>

sublocale art_store: key_store
  "art_kv_insert (Suc tries) (Suc key_size) str" "art_kv_get (Suc tries) (Suc key_size) 0 str"
  "art_kv_inv str key_size"
  "\<lambda>e K. e = Spin \<or> e = Assert_Failed \<and> (\<exists>k \<in> K. \<exists>k1 \<in> K. long_clash (str k) (str k1))"
  for tries
proof
  fix n s K k v b s'
  assume "art_kv_inv str key_size (Suc n) s K" and "art_kv_insert (Suc tries) (Suc key_size) str k v s = Inr (b, s')"
  with kv_insert [where n = n and s = s and K = K and tries = tries and k = k and v = v] show "b \<and> art_kv_inv str key_size n s' (insert k K)" by simp
next
  fix n s K k v e
  assume "art_kv_inv str key_size (Suc n) s K" and "art_kv_insert (Suc tries) (Suc key_size) str k v s = Inl e"
  with kv_insert [where n = n and s = s and K = K and tries = tries and k = k and v = v]
  show "e = Spin \<or> e = Assert_Failed \<and> (\<exists>k' \<in> insert k K. \<exists>k1 \<in> insert k K. long_clash (str k') (str k1))" by auto
next
  fix n s K k
  assume "art_kv_inv str key_size n s K"
  from kv_get [OF this, where vs = 0 and tries = tries and k = k]
  show "\<exists>r s'. art_kv_get (Suc tries) (Suc key_size) 0 str k s = Inr (r, s') \<and>
      (r \<noteq> None \<longleftrightarrow> k \<in> K) \<and> art_kv_inv str key_size n s' K"
    by (auto split: if_splits)
qed auto

lemma kv_load_then_get:
  assumes "art_kv_inv str key_size (length kvs) s {}"
  shows "case load_all (art_kv_insert (Suc tries) (Suc key_size) str) kvs s of
    Inl e \<Rightarrow> e = Spin \<or> e = Assert_Failed \<and> (\<exists>k \<in> fst ` set kvs. \<exists>k1 \<in> fst ` set kvs. long_clash (str k) (str k1))
  | Inr (bs, s') \<Rightarrow> set bs \<subseteq> {True} \<and> (\<exists>s2. art_kv_get (Suc tries) (Suc key_size) vs str k s' =
      (if k \<notin> fst ` set kvs then Inr (None, s2)
       else if vs \<le> key_size then Inr (Some (take vs (str k)), s2) else Inl Out_Of_Bounds))"
proof (cases "load_all (art_kv_insert (Suc tries) (Suc key_size) str) kvs s")
  case (Inl e)
  then show ?thesis using art_store.load_fails [OF assms Inl] by simp
next
  case (Inr y)
  obtain bs s' where y: "y = (bs, s')" by (cases y)
  have "set bs \<subseteq> {True} \<and> art_kv_inv str key_size 0 s' (fst ` set kvs)"
    using art_store.load_then_find [OF assms Inr [unfolded y]] by simp
  moreover from this have "\<exists>s2. art_kv_get (Suc tries) (Suc key_size) vs str k s' =
      (if k \<notin> fst ` set kvs then Inr (None, s2)
       else if vs \<le> key_size then Inr (Some (take vs (str k)), s2) else Inl Out_Of_Bounds)"
    using kv_get [where n = 0 and s = s' and K = "fst ` set kvs" and tries = tries and vs = vs and k = k] by blast
  ultimately show ?thesis using Inr y by simp
qed

end

text \<open>
  C24. For any type of keys with byte strings of one length below 128, different for different keys, starting from an empty tree
  with local memory for all insertions, in a build with assertions: insertions that return all answer true, and
  afterwards \<open>get\<close> answers false for every key that was not inserted and for an inserted one returns, whatever values were
  inserted, the leading bytes of the key itself as the value; a value type longer than a key is read beyond the end of
  the leaf. The insertions fail only by waiting for a lock or, if two keys agree in nine bytes, by an assertion.
\<close>

theorem art_kv_returns_key_bytes:
  assumes "index_key str key_size" and "art_kv_inv str key_size (length kvs) s {}"
  shows "case load_all (art_kv_insert (Suc tries) (Suc key_size) str) kvs s of
    Inl e \<Rightarrow> e = Spin \<or> e = Assert_Failed \<and> (\<exists>k \<in> fst ` set kvs. \<exists>k1 \<in> fst ` set kvs. long_clash (str k) (str k1))
  | Inr (bs, s') \<Rightarrow> set bs \<subseteq> {True} \<and> (\<exists>s2. art_kv_get (Suc tries) (Suc key_size) vs str k s' =
      (if k \<notin> fst ` set kvs then Inr (None, s2)
       else if vs \<le> key_size then Inr (Some (take vs (str k)), s2) else Inl Out_Of_Bounds))"
  using assms by (rule index_key.kv_load_then_get)

definition sample_kv :: art_kv where
  "sample_kv = \<lparr>tree = sample_heap, kv_background = no_background, pool_start = None\<rparr>"

lemma sample_kv_inv: "n \<le> 4 \<Longrightarrow> art_kv_inv (key8_str le) 8 n sample_kv {}"
  using sample_heap_inv [of n 8] by (simp add: art_kv_inv_def sample_kv_def)

lemma art_kv_returns_key_bytes_witness:
  "\<exists>bs s' s2. load_all (art_kv_insert 1 9 (key8_str True)) [(7, [1, 2])] sample_kv = Inr (bs, s') \<and>
    art_kv_get 1 9 8 (key8_str True) 7 s' = Inr (Some (key8_str True 7), s2) \<and>
    key8_str True 7 = [0, 0, 0, 0, 0, 0, 0, 7]"
proof -
  have "room (Suc 0) sample_heap" "art_root sample_heap = 0"
    using sample_heap_inv [of 1 8] room_mono [of "1 + 1" sample_heap "Suc 0"]
    by (simp_all add: index_inv_def) (simp add: sample_heap_def)
  from empty_put [OF this(2,1), of "key8_str True 7" 8 1 9] obtain h' where
    "adaptive_radix_tree_put 1 9 (key8_str True 7) sample_heap = Inr (0, h')" by (auto simp: key8_str_def)
  then have load: "load_all (art_kv_insert (Suc 0) (Suc 8) (key8_str True)) [(7, [1, 2])] sample_kv =
      Inr ([True], sample_kv\<lparr>tree := h'\<rparr>)"
    by (simp add: art_kv_insert_def sample_kv_def Let_def)
  have inv: "art_kv_inv (key8_str True) 8 (length [(7 :: u64, [1, 2 :: u8])]) sample_kv {}"
    by (rule sample_kv_inv) simp
  have "key8_str True 7 = [0, 0, 0, 0, 0, 0, 0, 7]"
    by (simp add: key8_str_def to_str_key_rev object_bytes_def low_bytes_def upt_rec)
  moreover have "take 8 (key8_str True 7) = key8_str True 7" by (simp add: key8_str_def)
  ultimately show ?thesis
    using art_kv_returns_key_bytes [OF key8.index_key_axioms inv, of 0 8 7] load by auto
qed

text \<open>
  Shutting the wrapper down leaves no worker and no thread, keeps the keys, and a second shutdown
  (the destructor repeats it) changes nothing.
\<close>

theorem art_kv_stop_idempotent:
  "kv_background (art_kv_stop s) = no_background \<and> art_kv_stop (art_kv_stop s) = art_kv_stop s \<and>
   (art_kv_inv str L n s K \<longrightarrow> art_kv_inv str L n (art_kv_stop s) K)"
proof -
  obtain b where b: "art_kv_stop s = s\<lparr>tree := (tree s)\<lparr>base := b\<rparr>, kv_background := no_background\<rparr>"
    by (auto simp: art_kv_stop_def stop_background_def)
  have frame: "rep (h\<lparr>base := c\<rparr>) L' par path t = rep h L' par path t" for h c L' par path t
    using rep_frame [of h L' par path t "h\<lparr>base := c\<rparr>"] rep_frame [of "h\<lparr>base := c\<rparr>" L' par path t h] by auto
  have "index_inv L n ((tree s)\<lparr>base := b\<rparr>) K2 \<longleftrightarrow> index_inv L n (tree s) K2" for K2
    by (simp add: index_inv_def holds_def frame room_def no_wrap_def spare_fresh_def spare_def usage_of_def)
  with b show ?thesis
    by (simp add: art_kv_inv_def art_kv_stop_def stop_background_def no_background_def)
qed

lemma art_kv_stop_idempotent_witness:
  "kv_background (art_kv_stop sample_kv) = no_background \<and> art_kv_inv (key8_str True) 8 4 (art_kv_stop sample_kv) {}"
  using art_kv_stop_idempotent [of sample_kv "key8_str True" 8 4 "{}"] sample_kv_inv [of 4] by simp

text \<open>
  Started from a thread number with five free cores, the wrapper runs the five workers on five
  different cores, with the wake-up intervals of the trigger and the cooler stretched by 50 and 15 and
  those of the executors by 2; with fewer cores the start aborts the program.
\<close>

theorem art_workers_started:
  assumes "0 \<le> tid" and "tid < 100" and "0 \<le> basic" and "basic * 10 < 2 ^ 31" and "0 \<le> cooler"
    and "cooler * 15 < 2 ^ 31" and "background_jobs (kv_background s) = []"
  shows "if tid + 5 \<le> 48
    then \<exists>s'. art_init_migration_worker tid basic cooler adjuster s = Inr s' \<and>
      map (map_option interval) (background_workers (kv_background s')) =
        map Some [basic * 50, basic * 2, basic * 2, cooler * 15, adjuster] \<and>
      map fst (background_jobs (kv_background s')) = [0..<5] \<and>
      distinct (map snd (background_jobs (kv_background s'))) \<and> is_running (base (tree s'))
    else art_init_migration_worker tid basic cooler adjuster s = Inl Abort"
proof -
  let ?ws = "[Some \<lparr>kind = Migration_Trigger, interval = basic * 2 * 5 * 5\<rparr>,
    Some \<lparr>kind = Promotion_Executor, interval = basic * 2\<rparr>,
    Some \<lparr>kind = Demotion_Executor, interval = basic * 2\<rparr>,
    Some \<lparr>kind = Cooler, interval = cooler * 3 * 5\<rparr>,
    Some \<lparr>kind = Threshold_Adjuster, interval = adjuster\<rparr>]"
  have c: "c_int (basic * 2) = Inr (basic * 2)" "c_int (basic * 2 * 5) = Inr (basic * 2 * 5)"
    "c_int (cooler * 3) = Inr (cooler * 3)" "c_int (cooler * 3 * 5) = Inr (cooler * 3 * 5)"
    "c_int (tid + 5) = Inr (tid + 5)"
    using assms by (simp_all add: c_int_def)
  have step: "art_init_migration_worker tid basic cooler adjuster s =
    and_then (start_jobs tid 0 ?ws) (\<lambda>js. Inr (s\<lparr>tree := (tree s)\<lparr>base := art_worker_base (base (tree s))\<rparr>,
      kv_background := \<lparr>background_workers = ?ws, background_jobs = js\<rparr>, pool_start := Some (tid + 5)\<rparr>))"
    using c assms(7) by (simp add: art_init_migration_worker_def Let_def)
  show ?thesis
  proof (cases "tid + 5 \<le> 48")
    case True
    let ?js = "map (\<lambda>j. (0 + j, {core_mapping ! nat (tid + int 0 + int j)})) [0..<length ?ws]"
    have js: "start_jobs tid 0 ?ws = Inr ?js" by (rule start_jobs_ok) (use True assms(1) in auto)
    have five: "[0..<length ?ws] = [0, 1, 2, 3, 4]" by (simp add: upt_rec)
    have "distinct (map snd ?js)"
    proof -
      have "inj_on (\<lambda>j. core_mapping ! nat (tid + int j)) (set [0..<length ?ws])"
        using core_mapping_facts(1,2) True assms(1)
        by (intro inj_onI) (auto simp: nth_eq_iff_index_eq nat_less_iff eq_nat_nat_iff)
      then show ?thesis by (simp add: distinct_map inj_on_def del: upt_Suc)
    qed
    moreover have "map fst ?js = [0..<5]" by (simp add: upt_rec)
    ultimately show ?thesis using True step js by (simp add: art_worker_base_def del: upt_Suc)
  next
    case False
    have "start_jobs tid 0 ?ws = Inl Abort"
      by (rule start_jobs_abort) (use False assms(1,2) in auto)
    with False step show ?thesis by simp
  qed
qed

lemma art_workers_started_witness:
  "(\<exists>s'. art_init_migration_worker 40 100 2000 500 sample_kv = Inr s' \<and>
      map fst (background_jobs (kv_background s')) = [0..<5]) \<and>
   art_init_migration_worker 44 100 2000 500 sample_kv = Inl Abort"
proof -
  have none: "background_jobs (kv_background sample_kv) = []"
    by (simp add: sample_kv_def no_background_def)
  show ?thesis
    using art_workers_started [of 40 100 2000 sample_kv 500] art_workers_started [of 44 100 2000 sample_kv 500]
      none by auto
qed

section \<open>Destruction\<close>

text \<open>
  The destructor shuts the wrapper down. A build with \<open>CAL_NODE_HOTNESS\<close> then writes the summary of the page
  accesses, with counts of 32 bits: of every leaf its access time, of a node the counter that only this build has
  (\<open>access_count\<close>). The flag that asks for the inner nodes reaches the root only, because the
  traversal does not pass it to the children. If the file cannot be opened the program exits.
\<close>

fun visit_accesses :: "(u64 \<Rightarrow> nat) \<Rightarrow> (u64 \<times> u64) list \<Rightarrow> art_heap \<Rightarrow> (u64 \<times> nat) list res" where
  "visit_accesses access_count [] h = Inr []"
| "visit_accesses access_count ((par, cur) # xs) h =
     and_then (if cur \<noteq> 0 then and_then (load_leaf cur h) (\<lambda>l. Inr (cur, unat (access_time (leaf_meta l))))
       else and_then (load_node par h) (\<lambda>n. Inr (par, access_count par))) (\<lambda>x.
     and_then (visit_accesses access_count xs h) (\<lambda>ys. Inr (x # ys)))"

definition full_visits :: "nat \<Rightarrow> art_heap \<Rightarrow> (u64 \<times> u64) list res" where
  "full_visits fuel h =
     (if art_root h = 0 then Inr []
      else and_then (art_traverse fuel 0 (art_root h) True h) (\<lambda>(ok, visits). Inr visits))"

definition art_kv_destruct ::
  "nat \<Rightarrow> (u64 \<Rightarrow> nat) option \<Rightarrow> bool \<Rightarrow> art_kv \<Rightarrow> (nat list list \<times> art_kv) res" where
  "art_kv_destruct fuel access_counts is_open s0 =
     (let s = art_kv_stop s0
      in case access_counts of
           None \<Rightarrow> Inr ([], s)
         | Some access_count \<Rightarrow>
             and_then (full_visits fuel (tree s)) (\<lambda>visits.
             and_then (visit_accesses access_count visits (tree s)) (\<lambda>accesses.
             if is_open then Inr (hotness_summary 32 accesses, s) else Inl Abort)))"

lemma visit_accesses_fst:
  "visit_accesses access_count xs h = Inr accesses \<Longrightarrow> map fst accesses = map (\<lambda>(par, cur). if cur \<noteq> 0 then cur else par) xs"
  by (induction xs arbitrary: accesses) (auto simp: and_then_Inr_iff split: if_splits)

text \<open>A summary that is written has one count for every callback of the traversal and no other.\<close>

lemma art_kv_destruct_reports:
  assumes "art_kv_destruct fuel (Some access_count) is_open s = Inr (rows, s')"
  shows "\<exists>visits accesses. full_visits fuel (tree s') = Inr visits \<and> visit_accesses access_count visits (tree s') = Inr accesses \<and>
    is_open \<and> s' = art_kv_stop s \<and> mset (concat (map tl rows)) = mset (map snd accesses) \<and>
    (\<forall>row \<in> set rows. hd row = sum_list (tl row) mod 2 ^ 32) \<and> sorted (rev (map hd rows))"
proof -
  let ?s = "art_kv_stop s"
  have "and_then (full_visits fuel (tree ?s)) (\<lambda>visits. and_then (visit_accesses access_count visits (tree ?s)) (\<lambda>accesses.
      if is_open then Inr (hotness_summary 32 accesses, ?s) else Inl Abort)) = Inr (rows, s')"
    using assms unfolding art_kv_destruct_def Let_def option.case .
  then obtain visits accesses where t: "full_visits fuel (tree ?s) = Inr visits" "visit_accesses access_count visits (tree ?s) = Inr accesses"
    "(if is_open then Inr (hotness_summary 32 accesses, ?s) else Inl Abort) = Inr (rows, s')"
    unfolding and_then_Inr_iff by blast
  then have "is_open" "rows = hotness_summary 32 accesses" "s' = ?s" by (auto split: if_splits)
  then show ?thesis using t(1,2) hotness_summary_complete [of 32 accesses] by blast
qed

end
