(* ===== verification/Masstree_Query.thy ===== *)
theory Masstree_Query
  imports Sidle_Helper
begin

text \<open>
  The query layer of Masstree (\<open>kvrow.hh\<close>, \<open>value_bag.hh\<close>, the time stamps of \<open>kvthread.hh\<close> and
  \<open>circular_int.hh\<close>, all in \<open>third_party/masstree-beta\<close>). A row is a bag of columns with a time
  stamp; an odd time stamp marks a row that has been removed. The tree below the cursors is a parameter
  with the contract \<open>ordered_table\<close>. The log is off in this program.
\<close>

section \<open>Rows\<close>

text \<open>
  \<open>value_bag<uint16_t>\<close>: the column count and the positions lie over the first bytes of the data \<open>s_\<close>, so the
  positions count from the start of that area.
\<close>

record value_bag =
  ts :: u64
  ncol :: u16
  pos :: "u16 list"
  s_bytes :: "u8 list"

definition sizeof_bagdata :: nat where "sizeof_bagdata = 4"

definition create1 :: "u8 list \<Rightarrow> u64 \<Rightarrow> value_bag" where
  "create1 str stamp =
     (let p0 = of_nat (sizeof_bagdata + 2) :: u16; p1 = of_nat (sizeof_bagdata + 2 + length str) :: u16
      in \<lparr>ts = stamp, ncol = 1, pos = [p0, p1],
          s_bytes = low_bytes 2 (1 :: u16) @ low_bytes 2 p0 @ low_bytes 2 p1 @ str\<rparr>)"

definition column_length :: "value_bag \<Rightarrow> nat \<Rightarrow> u16" where
  "column_length r i = pos r ! (i + 1) - pos r ! i"

definition col :: "value_bag \<Rightarrow> nat \<Rightarrow> u8 list" where
  "col r i =
     (if i < unat (ncol r) then take (unat (column_length r i)) (drop (unat (pos r ! i)) (s_bytes r)) else [])"

definition row_is_marker :: "value_bag \<Rightarrow> bool" where
  "row_is_marker r \<longleftrightarrow> ts r AND 1 \<noteq> 0"

section \<open>Time stamps\<close>

text \<open>Time stamps are compared on a circle.\<close>

definition circular_less :: "u64 \<Rightarrow> u64 \<Rightarrow> bool" where
  "circular_less a b \<longleftrightarrow> sint (a - b) < 0"

definition circular_less_equal :: "u64 \<Rightarrow> u64 \<Rightarrow> bool" where
  "circular_less_equal a b \<longleftrightarrow> sint (a - b) \<le> 0"

definition update_timestamp :: "u64 \<Rightarrow> u64 \<Rightarrow> u64" where
  "update_timestamp now x = (if circular_less_equal now x then (x OR 1) + 1 else now)"

definition observe_phantoms :: "u64 \<Rightarrow> u64 \<Rightarrow> u64" where
  "observe_phantoms now epoch = (if circular_less now epoch then epoch else now)"

section \<open>The table below the cursors\<close>

text \<open>
  A table answers lookups, takes a row under a key, drops a key, and lists its rows from a key on in
  ascending order. \<open>epoch\<close> is the phantom epoch of the leaf that a key belongs to.
\<close>

record 't table_ops =
  find_row :: "u8 list \<Rightarrow> 't \<Rightarrow> value_bag option"
  put_row :: "u8 list \<Rightarrow> value_bag \<Rightarrow> 't \<Rightarrow> 't"
  drop_row :: "u8 list \<Rightarrow> 't \<Rightarrow> 't"
  rows_from :: "u8 list \<Rightarrow> 't \<Rightarrow> (u8 list \<times> value_bag) list"
  epoch :: "u8 list \<Rightarrow> 't \<Rightarrow> u64"
  set_epoch :: "u8 list \<Rightarrow> u64 \<Rightarrow> 't \<Rightarrow> 't"

locale ordered_table =
  fixes ops :: "'t table_ops" and ok :: "'t \<Rightarrow> bool" and rows :: "'t \<Rightarrow> u8 list \<rightharpoonup> value_bag"
  assumes find: "ok t \<Longrightarrow> find_row ops k t = rows t k"
    and put: "ok t \<Longrightarrow> ok (put_row ops k r t) \<and> rows (put_row ops k r t) = (rows t)(k \<mapsto> r)"
    and drop_key: "ok t \<Longrightarrow> ok (drop_row ops k t) \<and> rows (drop_row ops k t) = (rows t)(k := None)"
    and scan_rows: "ok t \<Longrightarrow> sorted_wrt str_less (map fst (rows_from ops k t)) \<and>
      set (rows_from ops k t) = {(k', r). rows t k' = Some r \<and> \<not> str_less k' k}"
    and epoch_even: "ok t \<Longrightarrow> even (epoch ops k t)"
    and stamp: "ok t \<Longrightarrow> even e \<Longrightarrow> ok (set_epoch ops k e t) \<and> rows (set_epoch ops k e t) = rows t"

section \<open>Queries\<close>

text \<open>The state of a thread is its clock.\<close>

definition run_get1 :: "'t table_ops \<Rightarrow> u8 list \<Rightarrow> nat \<Rightarrow> 't \<Rightarrow> u8 list option" where
  "run_get1 ops key c t =
     (case find_row ops key t of
        None \<Rightarrow> None
      | Some r \<Rightarrow> if row_is_marker r then None else Some (col r c))"

datatype result_t = NotFound | Retry | OutOfDate | Inserted | Updated | Found | ScanDone

definition apply_replace :: "u64 \<Rightarrow> value_bag option \<Rightarrow> u8 list \<Rightarrow> bool \<times> value_bag \<times> u64" where
  "apply_replace now found new_value =
     (let inserted = (case found of None \<Rightarrow> True | Some r \<Rightarrow> row_is_marker r);
          now1 = (case found of None \<Rightarrow> now | Some r \<Rightarrow> update_timestamp now (ts r))
      in (inserted, create1 new_value now1, now1))"

definition run_replace ::
  "'t table_ops \<Rightarrow> u8 list \<Rightarrow> u8 list \<Rightarrow> u64 \<times> 't \<Rightarrow> result_t \<times> u64 \<times> 't" where
  "run_replace ops key value = (\<lambda>(now, t).
     let found = find_row ops key t;
         now1 = (if found = None then observe_phantoms now (epoch ops key t) else now);
         (inserted, r, now2) = apply_replace now1 found value
     in (if inserted then Inserted else Updated, now2, put_row ops key r t))"

definition apply_remove :: "'t table_ops \<Rightarrow> u8 list \<Rightarrow> value_bag \<Rightarrow> u64 \<times> 't \<Rightarrow> u64 \<times> 't" where
  "apply_remove ops key old = (\<lambda>(now, t).
     let now1 = update_timestamp now (ts old)
     in (now1, if circular_less_equal (epoch ops key t) now1 then set_epoch ops key (now1 + 2) t else t))"

definition run_remove :: "'t table_ops \<Rightarrow> u8 list \<Rightarrow> u64 \<times> 't \<Rightarrow> bool \<times> u64 \<times> 't" where
  "run_remove ops key = (\<lambda>(now, t).
     case find_row ops key t of
       None \<Rightarrow> (False, now, t)
     | Some old \<Rightarrow> (let (now1, t1) = apply_remove ops key old (now, t) in (True, now1, drop_row ops key t1)))"

text \<open>
  The answers of a scan are JSON values. With no selected fields a row of one column is a string,
  another row an array of its columns.
\<close>

datatype json = Json_String "u8 list" | Json_Array "u8 list list"

definition emit_fields1 :: "value_bag \<Rightarrow> json" where
  "emit_fields1 r =
     (if ncol r = 1 then Json_String (col r 0) else Json_Array (map (col r) [0..<unat (ncol r)]))"

fun scan_visit :: "(u8 list \<times> value_bag) list \<Rightarrow> int \<Rightarrow> (u8 list \<times> json) list" where
  "scan_visit [] nleft = []"
| "scan_visit ((k, r) # rs) nleft =
     (if row_is_marker r then scan_visit rs nleft
      else (k, emit_fields1 r) # (if nleft - 1 \<noteq> 0 then scan_visit rs (nleft - 1) else []))"

text \<open>The limit is checked as 64-bit number and counted down as \<open>int\<close>.\<close>

definition run_scan :: "bool \<Rightarrow> 't table_ops \<Rightarrow> u8 list \<Rightarrow> u64 \<Rightarrow> 't \<Rightarrow> (u8 list \<times> json) list res" where
  "run_scan ndebug ops firstkey n t =
     (if \<not> ndebug \<and> \<not> 0 < sint n then Inl Assert_Failed
      else Inr (scan_visit (rows_from ops firstkey t) (sint (ucast n :: 32 word))))"

section \<open>Rows and stamps\<close>

lemma unat_of_nat_diff: "unat ((of_nat (m + n) :: u16) - of_nat m) = n mod 2 ^ 16"
proof -
  have "(of_nat (m + n) :: u16) - of_nat m = of_nat n" by simp
  then show ?thesis by (simp add: unsigned_of_nat take_bit_eq_mod)
qed

lemma create1_column: "col (create1 str stamp) 0 = take (length str mod 2 ^ 16) str"
proof -
  have "unat (of_nat (sizeof_bagdata + 2) :: u16) = 6" by (simp add: sizeof_bagdata_def)
  moreover have "length (low_bytes 2 (1 :: u16) @ low_bytes 2 (of_nat (sizeof_bagdata + 2) :: u16) @
      low_bytes 2 (of_nat (sizeof_bagdata + 2 + length str) :: u16)) = 6" by (simp add: low_bytes_def)
  ultimately show ?thesis
    using unat_of_nat_diff [of "sizeof_bagdata + 2" "length str"]
    by (simp add: col_def create1_def column_length_def Let_def del: of_nat_add)
qed

text \<open>
  A row made of one string gives the string back as its only column, up to a length of 65535 bytes;
  a longer string loses a multiple of 65536 bytes at its end.
\<close>

theorem row_roundtrip: "col (create1 str stamp) 0 = take (length str mod 2 ^ 16) str"
  by (rule create1_column)

lemma marker_odd: "row_is_marker r \<longleftrightarrow> odd (ts r)"
  by (simp add: row_is_marker_def and_one_eq odd_iff_mod_2_eq_one)

lemma create1_simps [simp]: "ts (create1 str stamp) = stamp" "ncol (create1 str stamp) = 1"
  by (simp_all add: create1_def Let_def)

lemma next_even: "even ((x OR 1) + 1 :: u64)"
  by (simp add: even_add even_or_iff)

lemma update_even: "even now \<Longrightarrow> even (update_timestamp now x)"
  using next_even [of x] by (simp add: update_timestamp_def)

lemma next_newer: "circular_less x ((x OR 1) + 1)"
proof (cases "even x")
  case True
  then have "x - ((x OR 1) + 1) = - 2" by (simp add: or_one_eq even_iff_mod_2_eq_zero)
  moreover have "sint (- 2 :: u64) < 0" by simp
  ultimately show ?thesis by (simp only: circular_less_def)
next
  case False
  then have "x - ((x OR 1) + 1) = - 1" by (simp add: or_one_eq odd_iff_mod_2_eq_one)
  moreover have "sint (- 1 :: u64) < 0" by simp
  ultimately show ?thesis by (simp only: circular_less_def)
qed

lemma sint_uminus: "0 < sint (w :: u64) \<Longrightarrow> sint (- w) = - sint w"
proof -
  assume "0 < sint w"
  moreover have "sint w < 2 ^ 63" using sint_lt [of w] by simp
  ultimately have "signed_take_bit 63 (- sint w) = - sint w"
    by (intro signed_take_bit_int_eq_self) simp_all
  moreover have "- w = of_int (- sint w)" by simp
  ultimately show "sint (- w) = - sint w" by (simp only: signed_of_int) simp
qed

text \<open>
  The stamp of a replaced or removed row is newer than the old one on the circle of stamps and never
  marks a removed row.
\<close>

theorem new_stamp_is_newer:
  assumes "even now"
  shows "circular_less x (update_timestamp now x) \<and> even (update_timestamp now x)"
proof -
  have "circular_less x now" if "\<not> circular_less_equal now x"
  proof -
    have "0 < sint (now - x)" using that by (simp add: circular_less_equal_def)
    from sint_uminus [OF this] this show ?thesis by (simp add: circular_less_def)
  qed
  then show ?thesis
    using next_newer [of x] update_even [OF assms] by (simp add: update_timestamp_def)
qed

lemma new_stamp_is_newer_witness: "circular_less 7 (update_timestamp 4 7) \<and> even (update_timestamp 4 7)"
  by (rule new_stamp_is_newer) simp

section \<open>Queries over an ordered table\<close>

text \<open>
  The clock and all stamps are even and every row has one column; the contents are the values by key.
\<close>

definition good :: "('t \<Rightarrow> bool) \<Rightarrow> ('t \<Rightarrow> u8 list \<rightharpoonup> value_bag) \<Rightarrow> u64 \<times> 't \<Rightarrow> bool" where
  "good ok rows s \<longleftrightarrow> ok (snd s) \<and> even (fst s) \<and>
     (\<forall>k r. rows (snd s) k = Some r \<longrightarrow> even (ts r) \<and> ncol r = 1)"

definition contents :: "('t \<Rightarrow> u8 list \<rightharpoonup> value_bag) \<Rightarrow> u64 \<times> 't \<Rightarrow> u8 list \<rightharpoonup> u8 list" where
  "contents rows s k = map_option (\<lambda>r. col r 0) (rows (snd s) k)"

context ordered_table
begin

lemma get1: "good ok rows (now, t) \<Longrightarrow> run_get1 ops k 0 t = contents rows (now, t) k"
  by (auto simp: run_get1_def good_def contents_def find marker_odd split: option.splits)

lemma replace:
  assumes "good ok rows (now, t)" and "length v < 2 ^ 16"
  shows "\<exists>now' t'. run_replace ops k v (now, t) =
      (if contents rows (now, t) k = None then Inserted else Updated, now', t') \<and> good ok rows (now', t') \<and>
    contents rows (now', t') = (contents rows (now, t))(k \<mapsto> v)"
proof -
  let ?f = "rows t k"
  let ?now1 = "if ?f = None then observe_phantoms now (epoch ops k t) else now"
  let ?now2 = "case ?f of None \<Rightarrow> ?now1 | Some r \<Rightarrow> update_timestamp ?now1 (ts r)"
  have g: "ok t" "even now" "\<And>k r. rows t k = Some r \<Longrightarrow> even (ts r) \<and> ncol r = 1"
    using assms(1) by (auto simp: good_def)
  have "even ?now1" using g epoch_even by (simp add: observe_phantoms_def)
  then have e: "even ?now2" using update_even g(2) by (cases ?f) simp_all
  have run: "run_replace ops k v (now, t) =
      (if ?f = None then Inserted else Updated, ?now2, put_row ops k (create1 v ?now2) t)"
    using g find [OF g(1)]
    by (auto simp: run_replace_def apply_replace_def Let_def marker_odd split: option.splits)
  have c: "col (create1 v n) 0 = v" for n using create1_column [of v n] assms(2) by simp
  have "good ok rows (?now2, put_row ops k (create1 v ?now2) t)"
    using g put [OF g(1)] e by (auto simp: good_def)
  moreover have "contents rows (?now2, put_row ops k (create1 v ?now2) t) = (contents rows (now, t))(k \<mapsto> v)"
    using put [OF g(1)] c by (auto simp: contents_def)
  moreover have "contents rows (now, t) k = None \<longleftrightarrow> ?f = None" by (simp add: contents_def)
  ultimately show ?thesis using run by auto
qed

lemma remove:
  assumes "good ok rows (now, t)"
  shows "\<exists>now' t'. run_remove ops k (now, t) = (contents rows (now, t) k \<noteq> None, now', t') \<and> good ok rows (now', t') \<and>
    contents rows (now', t') = (contents rows (now, t))(k := None)"
proof (cases "rows t k")
  case None
  then have "(contents rows (now, t))(k := None) = contents rows (now, t)" by (auto simp: contents_def)
  moreover have "ok t" using assms by (simp add: good_def)
  ultimately show ?thesis
    using None assms find by (intro exI [of _ now] exI [of _ t]) (simp add: run_remove_def contents_def)
next
  case (Some old)
  have g: "ok t" "even now" "\<And>k r. rows t k = Some r \<Longrightarrow> even (ts r) \<and> ncol r = 1"
    using assms by (auto simp: good_def)
  let ?now = "update_timestamp now (ts old)"
  let ?t1 = "if circular_less_equal (epoch ops k t) ?now then set_epoch ops k (?now + 2) t else t"
  have e: "even ?now" using g(2) by (rule update_even)
  have t1: "ok ?t1" "rows ?t1 = rows t" using g(1) stamp [OF g(1), of "?now + 2"] e by simp_all
  have run: "run_remove ops k (now, t) = (True, ?now, drop_row ops k ?t1)"
    using Some find [OF g(1)] by (simp add: run_remove_def apply_remove_def Let_def)
  have "good ok rows (?now, drop_row ops k ?t1)"
    using g drop_key [OF t1(1)] t1(2) e by (auto simp: good_def)
  moreover have "contents rows (?now, drop_row ops k ?t1) = (contents rows (now, t))(k := None)"
    using drop_key [OF t1(1)] t1(2) by (auto simp: contents_def)
  ultimately show ?thesis using run Some by (auto simp: contents_def)
qed

lemma visit_take:
  "\<forall>(k, r) \<in> set rs. even (ts r) \<and> ncol r = 1 \<Longrightarrow> 0 < n \<Longrightarrow>
   scan_visit rs n = map (\<lambda>(k, r). (k, Json_String (col r 0))) (take (nat n) rs)"
proof (induction rs arbitrary: n)
  case (Cons x rs)
  obtain k r where x: "x = (k, r)" by (cases x)
  have n: "nat n = Suc (nat (n - 1))" using Cons.prems(2) by simp
  show ?case
  proof (cases "n = 1")
    case False
    then have "scan_visit rs (n - 1) = map (\<lambda>(k, r). (k, Json_String (col r 0))) (take (nat (n - 1)) rs)"
      using Cons by auto
    with Cons.prems x n False show ?thesis by (simp add: marker_odd emit_fields1_def)
  qed (use Cons.prems x in \<open>simp add: marker_odd emit_fields1_def\<close>)
qed simp

lemma scan:
  assumes "good ok rows (now, t)" and "0 < n" and "n < 2 ^ 31"
  shows "run_scan nd ops first (of_nat n) t =
      Inr (map (\<lambda>(k, r). (k, Json_String (col r 0))) (take n (rows_from ops first t)))"
proof -
  have g: "ok t" "\<And>k r. rows t k = Some r \<Longrightarrow> even (ts r) \<and> ncol r = 1"
    using assms(1) by (auto simp: good_def)
  have s: "sint (of_nat n :: u64) = int n" "sint (ucast (of_nat n :: u64) :: 32 word) = int n"
    using assms(3) by (simp_all add: signed_of_nat signed_take_bit_int_eq_self unsigned_of_nat
        take_bit_nat_eq_self)
  have "scan_visit (rows_from ops first t) (int n) =
      map (\<lambda>(k, r). (k, Json_String (col r 0))) (take n (rows_from ops first t))"
    using visit_take [of "rows_from ops first t" "int n"] scan_rows [OF g(1), of first] g(2) assms(2) by auto
  with s assms(2) show ?thesis by (simp add: run_scan_def)
qed

end

end
