(* ===== verification/Masstree_Kv.thy ===== *)
theory Masstree_Kv
  imports Masstree_Query Sidle_Kv Sidle_Policy
begin

text \<open>
  The wrapper of Masstree (\<open>src/src/kv/masstree.h\<close>) over its query layer. The key type and the value type are
  parameters: \<open>str\<close> and \<open>normal\<close> are the conversions of the key, \<open>to_bytes\<close> and \<open>of_bytes\<close> the object
  representation of a value. The clock of the calling thread is part of the state.
\<close>

section \<open>State\<close>

record 't masstree_kv =
  mass_tree :: 't
  thread_ts :: u64
  mass_background :: background
  mass_base :: worker_base
  mass_strategy :: sidle_strategy

text \<open>The constructor replaces the strategy manager and initialises an empty table.\<close>

definition make_masstree_kv ::
  "'t \<Rightarrow> u64 \<Rightarrow> int \<Rightarrow> u64 \<Rightarrow> worker_base \<Rightarrow> 't masstree_kv res" where
  "make_masstree_kv empty_table ti_ts cxl_percentage local_memory base =
     and_then (make_sidle_strategy local_memory cxl_percentage False) (\<lambda>st.
     Inr \<lparr>mass_tree = empty_table, thread_ts = ti_ts, mass_background = no_background,
          mass_base = base, mass_strategy = st\<rparr>)"

section \<open>Operations\<close>

definition read_value :: "(u8 list \<Rightarrow> 'v) \<Rightarrow> nat \<Rightarrow> u8 list \<Rightarrow> 'v res" where
  "read_value of_bytes val_size b =
     (if val_size \<le> length b then Inr (of_bytes (take val_size b)) else Inl Out_Of_Bounds)"

definition masstree_get ::
  "'t table_ops \<Rightarrow> ('k \<Rightarrow> u8 list) \<Rightarrow> (u8 list \<Rightarrow> 'v) \<Rightarrow> nat \<Rightarrow> 'k \<Rightarrow> 't masstree_kv \<Rightarrow>
     ('v option \<times> 't masstree_kv) res" where
  "masstree_get ops str of_bytes val_size k s =
     (case run_get1 ops (str k) 0 (mass_tree s) of
        None \<Rightarrow> Inr (None, s)
      | Some val_str \<Rightarrow> and_then (read_value of_bytes val_size val_str) (\<lambda>v. Inr (Some v, s)))"

definition masstree_insert ::
  "'t table_ops \<Rightarrow> ('k \<Rightarrow> u8 list) \<Rightarrow> ('v \<Rightarrow> u8 list) \<Rightarrow> 'k \<Rightarrow> 'v \<Rightarrow> 't masstree_kv \<Rightarrow>
     (bool \<times> 't masstree_kv) res" where
  "masstree_insert ops str to_bytes k v s =
     (let (r, now, t) = run_replace ops (str k) (to_bytes v) (thread_ts s, mass_tree s);
          fine = (r = Inserted \<or> r = Updated)
      in if fine then Inr (fine, s\<lparr>mass_tree := t, thread_ts := now\<rparr>) else Inl Assert_Failed)"

definition masstree_remove ::
  "'t table_ops \<Rightarrow> ('k \<Rightarrow> u8 list) \<Rightarrow> 'k \<Rightarrow> 't masstree_kv \<Rightarrow> (bool \<times> 't masstree_kv) res" where
  "masstree_remove ops str k s =
     (let (r, now, t) = run_remove ops (str k) (thread_ts s, mass_tree s)
      in Inr (True, s\<lparr>mass_tree := t, thread_ts := now\<rparr>))"

definition masstree_lower_bound :: "'k \<Rightarrow> 't masstree_kv \<Rightarrow> (bool \<times> 't masstree_kv) res" where
  "masstree_lower_bound k s = Inl (Throw ''MasstreeKV::lower_bound not implemented'')"

definition masstree_range_scan :: "'k \<Rightarrow> 'k \<Rightarrow> 't masstree_kv \<Rightarrow> (nat \<times> 't masstree_kv) res" where
  "masstree_range_scan k_start k_end s = Inl (Throw ''MasstreeKV::range_scan not implemented'')"

text \<open>The answers of the query are appended to the result; the size of the whole result is returned.\<close>

fun read_rows ::
  "(u8 list \<Rightarrow> 'k) \<Rightarrow> nat \<Rightarrow> (u8 list \<Rightarrow> 'v) \<Rightarrow> nat \<Rightarrow> (u8 list \<times> json) list \<Rightarrow> ('k \<times> 'v) list \<Rightarrow>
     ('k \<times> 'v) list res" where
  "read_rows normal key_size of_bytes val_size [] result = Inr result"
| "read_rows normal key_size of_bytes val_size ((key, Json_String val_str) # req) result =
     (if length key < key_size then Inl Out_Of_Bounds
      else and_then (read_value of_bytes val_size val_str) (\<lambda>v.
        read_rows normal key_size of_bytes val_size req (result @ [(normal (take key_size key), v)])))"
| "read_rows normal key_size of_bytes val_size ((key, Json_Array vals) # req) result =
     Inl Undefined_Behaviour"

definition masstree_scan ::
  "bool \<Rightarrow> 't table_ops \<Rightarrow> ('k \<Rightarrow> u8 list) \<Rightarrow> (u8 list \<Rightarrow> 'k) \<Rightarrow> nat \<Rightarrow> (u8 list \<Rightarrow> 'v) \<Rightarrow> nat \<Rightarrow> 'k \<Rightarrow> u64 \<Rightarrow>
     ('k \<times> 'v) list \<Rightarrow> 't masstree_kv \<Rightarrow> (nat \<times> ('k \<times> 'v) list) res" where
  "masstree_scan ndebug ops str normal key_size of_bytes val_size k_start n result s =
     and_then (run_scan ndebug ops (str k_start) n (mass_tree s)) (\<lambda>req.
     and_then (read_rows normal key_size of_bytes val_size req result) (\<lambda>result'.
     Inr (length result', result')))"

section \<open>Background workers\<close>

text \<open>The hotness watermarks are set first; the old workers are dropped.\<close>

definition masstree_init_migration_worker ::
  "int \<Rightarrow> int \<Rightarrow> int \<Rightarrow> int \<Rightarrow> u64 \<Rightarrow> 't masstree_kv \<Rightarrow> 't masstree_kv res" where
  "masstree_init_migration_worker bg_worker_start_tid basic_worker_wakeup_interval
     cooler_wakeup_interval threshold_adjuster_wakeup_interval hot_percentage_lower_bound s =
     (let st = (mass_strategy s)\<lparr>threshold_manager :=
            set_hotness_watermarks hot_percentage_lower_bound (threshold_manager (mass_strategy s))\<rparr>;
          ws = [Some \<lparr>kind = Migration_Trigger, interval = basic_worker_wakeup_interval * 5\<rparr>,
                Some \<lparr>kind = Promotion_Executor, interval = basic_worker_wakeup_interval\<rparr>,
                Some \<lparr>kind = Demotion_Executor, interval = basic_worker_wakeup_interval\<rparr>,
                Some \<lparr>kind = Cooler, interval = cooler_wakeup_interval\<rparr>,
                Some \<lparr>kind = Threshold_Adjuster, interval = threshold_adjuster_wakeup_interval\<rparr>]
      in and_then (start_jobs bg_worker_start_tid 0 ws) (\<lambda>js.
         Inr (s\<lparr>mass_strategy := st, mass_base := art_worker_base (mass_base s),
                mass_background := \<lparr>background_workers = ws,
                  background_jobs = background_jobs (mass_background s) @ js\<rparr>\<rparr>)))"

definition masstree_worker_enter :: "u32 \<Rightarrow> 't masstree_kv \<Rightarrow> 't masstree_kv" where
  "masstree_worker_enter worker_id s = s"

definition masstree_worker_exit :: "u32 \<Rightarrow> 't masstree_kv \<Rightarrow> 't masstree_kv" where
  "masstree_worker_exit worker_id s = s"

definition masstree_start_bg :: "'t masstree_kv \<Rightarrow> 't masstree_kv" where
  "masstree_start_bg s = s"

definition masstree_terminate_bg :: "'t masstree_kv \<Rightarrow> 't masstree_kv" where
  "masstree_terminate_bg s = s"

definition masstree_stop :: "'t masstree_kv \<Rightarrow> 't masstree_kv" where
  "masstree_stop s =
     (let (b, base') = stop_background (mass_background s) (mass_base s)
      in s\<lparr>mass_base := base', mass_background := b\<rparr>)"

text \<open>
  The destructor. In a build with \<open>CAL_NODE_HOTNESS\<close> the table has counted the accesses of its nodes
  (\<open>node_hotness\<close>, in the order of the hash map), and their summary is written to a file. If the file
  cannot be opened the body returns before the shutdown; then the vector of threads is destroyed, and a
  thread that was not joined ends the program.
\<close>

definition masstree_destruct ::
  "(u64 \<times> nat) list option \<Rightarrow> bool \<Rightarrow> 't masstree_kv \<Rightarrow> (nat list list \<times> 't masstree_kv) res" where
  "masstree_destruct node_hotness is_open s =
     (case node_hotness of
        None \<Rightarrow> Inr ([], masstree_stop s)
      | Some accesses \<Rightarrow>
          if \<not> is_open
          then if background_jobs (mass_background s) = [] then Inr ([], s) else Inl Abort
          else Inr (hotness_summary 16 accesses, masstree_stop s))"

section \<open>The wrapper is a map\<close>

text \<open>The table holds the map \<open>m\<close>: the value bytes of every key, and no other key.\<close>

definition masstree_holds ::
  "('t \<Rightarrow> bool) \<Rightarrow> ('t \<Rightarrow> u8 list \<rightharpoonup> value_bag) \<Rightarrow> ('k \<Rightarrow> u8 list) \<Rightarrow> (u8 list \<Rightarrow> 'k) \<Rightarrow> ('v \<Rightarrow> u8 list) \<Rightarrow>
     't masstree_kv \<Rightarrow> ('k \<rightharpoonup> 'v) \<Rightarrow> bool" where
  "masstree_holds ok rows str normal to_bytes s m \<longleftrightarrow> good ok rows (thread_ts s, mass_tree s) \<and>
     (\<forall>key. contents rows (thread_ts s, mass_tree s) key =
        (if key \<in> range str then map_option to_bytes (m (normal key)) else None))"

locale masstree_client = ordered_table ops ok rows + index_key str key_size
  for ops :: "'t table_ops" and ok :: "'t \<Rightarrow> bool" and rows :: "'t \<Rightarrow> u8 list \<rightharpoonup> value_bag"
    and str :: "'k \<Rightarrow> u8 list" and key_size :: nat +
  fixes normal :: "u8 list \<Rightarrow> 'k" and to_bytes :: "'v \<Rightarrow> u8 list" and of_bytes :: "u8 list \<Rightarrow> 'v"
    and val_size :: nat
  assumes normal_str: "normal (str k) = k"
    and value_size: "length (to_bytes v) = val_size" "val_size < 2 ^ 16"
    and value_bytes: "of_bytes (to_bytes v) = v"
begin

lemma holds_mapD:
  "masstree_holds ok rows str normal to_bytes s m \<Longrightarrow> contents rows (thread_ts s, mass_tree s) (str k) = map_option to_bytes (m k)"
  by (simp add: masstree_holds_def normal_str)

lemma map_update:
  assumes "masstree_holds ok rows str normal to_bytes s m" and "good ok rows (now, t)"
    and "contents rows (now, t) = (contents rows (thread_ts s, mass_tree s))(str k := map_option to_bytes v)"
  shows "masstree_holds ok rows str normal to_bytes (s\<lparr>mass_tree := t, thread_ts := now\<rparr>) (m(k := v))"
proof -
  have "normal key = k \<longleftrightarrow> key = str k" if "key \<in> range str" for key
    using that normal_str by auto
  with assms show ?thesis by (auto simp: masstree_holds_def normal_str)
qed

lemma kv_insert_map:
  "masstree_holds ok rows str normal to_bytes s m \<Longrightarrow> \<exists>s'. masstree_insert ops str to_bytes k v s = Inr (True, s') \<and> masstree_holds ok rows str normal to_bytes s' (m(k \<mapsto> v))"
proof -
  assume h: "masstree_holds ok rows str normal to_bytes s m"
  then have g: "good ok rows (thread_ts s, mass_tree s)" by (simp add: masstree_holds_def)
  have v: "length (to_bytes v) < 2 ^ 16" by (simp only: value_size)
  obtain now t where r: "run_replace ops (str k) (to_bytes v) (thread_ts s, mass_tree s) =
      (if contents rows (thread_ts s, mass_tree s) (str k) = None then Inserted else Updated, now, t)"
    "good ok rows (now, t)" "contents rows (now, t) = (contents rows (thread_ts s, mass_tree s))(str k \<mapsto> to_bytes v)"
    using replace [OF g v] by blast
  then show ?thesis
    using map_update [OF h r(2), of k "Some v"] by (auto simp: masstree_insert_def Let_def)
qed

lemma read_value_bytes: "read_value of_bytes val_size (to_bytes v) = Inr v"
  by (simp add: read_value_def value_size(1) value_bytes)

lemma kv_get_map: "masstree_holds ok rows str normal to_bytes s m \<Longrightarrow> masstree_get ops str of_bytes val_size k s = Inr (m k, s)"
proof -
  assume h: "masstree_holds ok rows str normal to_bytes s m"
  then have "good ok rows (thread_ts s, mass_tree s)" by (simp add: masstree_holds_def)
  from get1 [OF this, of "str k"] holds_mapD [OF h, of k] show ?thesis
    by (cases "m k") (simp_all add: masstree_get_def read_value_bytes)
qed

sublocale map_store "masstree_insert ops str to_bytes" "masstree_get ops str of_bytes val_size"
  "masstree_holds ok rows str normal to_bytes"
  by unfold_locales (use kv_insert_map kv_get_map in blast)+

lemmas kv_load_map = load_builds_map

lemma kv_remove_map:
  "masstree_holds ok rows str normal to_bytes s m \<Longrightarrow> \<exists>s'. masstree_remove ops str k s = Inr (True, s') \<and> masstree_holds ok rows str normal to_bytes s' (m(k := None))"
proof -
  assume h: "masstree_holds ok rows str normal to_bytes s m"
  then have g: "good ok rows (thread_ts s, mass_tree s)" by (simp add: masstree_holds_def)
  obtain now t where r: "run_remove ops (str k) (thread_ts s, mass_tree s) =
      (contents rows (thread_ts s, mass_tree s) (str k) \<noteq> None, now, t)"
    "good ok rows (now, t)" "contents rows (now, t) = (contents rows (thread_ts s, mass_tree s))(str k := None)"
    using remove [OF g] by blast
  then show ?thesis
    using map_update [OF h r(2), of k None] by (auto simp: masstree_remove_def)
qed

lemma read_rows_ok:
  assumes "\<forall>(key, r) \<in> set rs. \<exists>k v. key = str k \<and> col r 0 = to_bytes v"
  shows "read_rows normal key_size of_bytes val_size (map (\<lambda>(k, r). (k, Json_String (col r 0))) rs) result =
    Inr (result @ map (\<lambda>(key, r). (normal key, of_bytes (col r 0))) rs)"
  using assms
proof (induction rs arbitrary: result)
  case (Cons x rs)
  then obtain k v r where "x = (str k, r)" "col r 0 = to_bytes v" by (cases x) auto
  with Cons show ?case by (simp add: read_value_bytes value_bytes length_str)
qed simp

lemma scan_map:
  assumes h: "masstree_holds ok rows str normal to_bytes s m" and n: "0 < n" "n < 2 ^ 31"
  shows "\<exists>ks. sorted_wrt str_less (map str ks) \<and> set ks = {k \<in> dom m. \<not> str_less (str k) (str k0)} \<and>
    masstree_scan nd ops str normal key_size of_bytes val_size k0 (of_nat n) result s =
      Inr (length result + min n (length ks), result @ map (\<lambda>k. (k, the (m k))) (take n ks))"
proof -
  let ?rs = "rows_from ops (str k0) (mass_tree s)"
  let ?ks = "map (normal \<circ> fst) ?rs"
  have g: "good ok rows (thread_ts s, mass_tree s)" using h by (simp add: masstree_holds_def)
  then have t: "ok (mass_tree s)" by (simp add: good_def)
  have sorted: "sorted_wrt str_less (map fst ?rs)"
    and set_rs: "set ?rs = {(k', r). rows (mass_tree s) k' = Some r \<and> \<not> str_less k' (str k0)}"
    using scan_rows [OF t, of "str k0"] by simp_all
  have in_rs: "(key, r) \<in> set ?rs \<longleftrightarrow> rows (mass_tree s) key = Some r \<and> \<not> str_less key (str k0)" for key r
    using set_rs by simp
  have row: "\<exists>k v. key = str k \<and> m k = Some v \<and> col r 0 = to_bytes v \<and> \<not> str_less (str k) (str k0)"
    if "(key, r) \<in> set ?rs" for key r
  proof -
    have "contents rows (thread_ts s, mass_tree s) key = Some (col r 0)"
      using that in_rs by (simp add: contents_def)
    moreover have "contents rows (thread_ts s, mass_tree s) key =
        (if key \<in> range str then map_option to_bytes (m (normal key)) else None)"
      using h by (simp add: masstree_holds_def)
    ultimately obtain k where "key = str k" "map_option to_bytes (m k) = Some (col r 0)"
      by (auto simp: normal_str split: if_splits)
    then show ?thesis using that in_rs by auto
  qed
  have all: "\<forall>(key, r) \<in> set (take n ?rs). \<exists>k v. key = str k \<and> col r 0 = to_bytes v"
    using row by (blast dest: in_set_takeD)
  have "map (\<lambda>(key, r). (normal key, of_bytes (col r 0))) ?rs = map (\<lambda>k. (k, the (m k))) ?ks"
  proof -
    have "(normal key, of_bytes (col r 0)) = (normal key, the (m (normal key)))" if "(key, r) \<in> set ?rs" for key r
      using row [OF that] by (auto simp: normal_str value_bytes)
    then show ?thesis by auto
  qed
  then have "map (\<lambda>(key, r). (normal key, of_bytes (col r 0))) (take n ?rs) =
      map (\<lambda>k. (k, the (m k))) (take n ?ks)"
    by (simp only: take_map [symmetric])
  then have "masstree_scan nd ops str normal key_size of_bytes val_size k0 (of_nat n) result s =
      Inr (length result + min n (length ?ks), result @ map (\<lambda>k. (k, the (m k))) (take n ?ks))"
    using scan [OF g n, of nd "str k0"] read_rows_ok [OF all, of result]
    by (simp add: masstree_scan_def min.commute)
  moreover have "map str ?ks = map fst ?rs"
    using row by (auto simp: normal_str) (metis normal_str)
  then have "sorted_wrt str_less (map str ?ks)" using sorted by metis
  moreover have "set ?ks = {k \<in> dom m. \<not> str_less (str k) (str k0)}"
  proof (intro equalityI subsetI)
    fix k assume "k \<in> set ?ks"
    then obtain key r where "(key, r) \<in> set ?rs" "k = normal key" by auto
    with row [OF this(1)] show "k \<in> {k \<in> dom m. \<not> str_less (str k) (str k0)}"
      by (auto simp: normal_str)
  next
    fix k assume k: "k \<in> {k \<in> dom m. \<not> str_less (str k) (str k0)}"
    then have "contents rows (thread_ts s, mass_tree s) (str k) \<noteq> None"
      using holds_mapD [OF h] by auto
    then obtain r where "rows (mass_tree s) (str k) = Some r" by (auto simp: contents_def)
    then have "(str k, r) \<in> set ?rs" using k in_rs by simp
    then show "k \<in> set ?ks" by (force simp: normal_str)
  qed
  ultimately show ?thesis by blast
qed

end

section \<open>A table\<close>

text \<open>
  The specification of a table as the list of its rows in ascending order, with one phantom epoch for
  all of them. It meets the contract, so the contract can be met.
\<close>

type_synonym row_list = "(u8 list \<times> value_bag) list \<times> u64"

fun insert_row :: "u8 list \<Rightarrow> value_bag \<Rightarrow> (u8 list \<times> value_bag) list \<Rightarrow> (u8 list \<times> value_bag) list" where
  "insert_row k r [] = [(k, r)]"
| "insert_row k r ((k', r') # rs) =
     (if k = k' then (k, r) # rs
      else if str_less k k' then (k, r) # (k', r') # rs else (k', r') # insert_row k r rs)"

definition row_list_ops :: "row_list table_ops" where
  "row_list_ops = \<lparr>find_row = \<lambda>k t. map_of (fst t) k, put_row = \<lambda>k r t. (insert_row k r (fst t), snd t),
     drop_row = \<lambda>k t. (filter (\<lambda>x. fst x \<noteq> k) (fst t), snd t),
     rows_from = \<lambda>k t. filter (\<lambda>x. \<not> str_less (fst x) k) (fst t), epoch = \<lambda>k t. snd t,
     set_epoch = \<lambda>k e t. (fst t, e)\<rparr>"

definition row_list_ok :: "row_list \<Rightarrow> bool" where
  "row_list_ok t \<longleftrightarrow> sorted_wrt str_less (map fst (fst t)) \<and> even (snd t)"

definition row_list_rows :: "row_list \<Rightarrow> u8 list \<rightharpoonup> value_bag" where
  "row_list_rows t = map_of (fst t)"

lemma insert_row_map: "map_of (insert_row k r rs) = (map_of rs)(k \<mapsto> r)"
  by (induction k r rs rule: insert_row.induct) auto

lemma insert_row_keys: "fst ` set (insert_row k r rs) = insert k (fst ` set rs)"
  by (induction k r rs rule: insert_row.induct) auto

lemma insert_row_sorted:
  "sorted_wrt str_less (map fst rs) \<Longrightarrow> sorted_wrt str_less (map fst (insert_row k r rs))"
proof (induction rs)
  case (Cons x rs)
  obtain k' r' where x: "x = (k', r')" by (cases x)
  from Cons.prems have keys: "\<forall>y \<in> fst ` set rs. str_less k' y"
    and sorted: "sorted_wrt str_less (map fst rs)" by (simp_all add: x)
  consider "k = k'" | "k \<noteq> k'" "str_less k k'" | "k \<noteq> k'" "\<not> str_less k k'" by blast
  then show ?case
  proof cases
    case 1
    with Cons.prems show ?thesis by (simp add: x)
  next
    case 2
    then have "str_less k y" if "y \<in> fst ` set rs" for y using str_less_trans keys that by blast
    with 2 keys sorted show ?thesis by (simp add: x)
  next
    case 3
    then have "str_less k' k" using str_less_total by blast
    then have "\<forall>y \<in> fst ` set (insert_row k r rs). str_less k' y" using keys insert_row_keys [of k r rs] by simp
    with 3 Cons.IH [OF sorted] show ?thesis by (simp add: x)
  qed
qed simp

lemma drop_rows: "map_of (filter (\<lambda>x. fst x \<noteq> k) rs) = (map_of rs)(k := None)"
  by (induction rs) auto

lemma sorted_distinct: "sorted_wrt str_less ks \<Longrightarrow> distinct ks"
  using str_less_irrefl by (induction ks) auto

interpretation row_list: ordered_table row_list_ops row_list_ok row_list_rows
proof
  fix t :: row_list and k r e
  assume ok: "row_list_ok t"
  show "find_row row_list_ops k t = row_list_rows t k"
    by (simp add: row_list_ops_def row_list_rows_def)
  show "row_list_ok (put_row row_list_ops k r t) \<and>
      row_list_rows (put_row row_list_ops k r t) = (row_list_rows t)(k \<mapsto> r)"
    using ok insert_row_sorted by (simp add: row_list_ops_def row_list_ok_def row_list_rows_def insert_row_map)
  show "row_list_ok (drop_row row_list_ops k t) \<and>
      row_list_rows (drop_row row_list_ops k t) = (row_list_rows t)(k := None)"
    using ok drop_rows by (simp add: row_list_ops_def row_list_ok_def row_list_rows_def sorted_wrt_map sorted_wrt_filter)
  have "distinct (map fst (fst t))" using ok sorted_distinct by (simp add: row_list_ok_def)
  then show "sorted_wrt str_less (map fst (rows_from row_list_ops k t)) \<and>
      set (rows_from row_list_ops k t) = {(k', r). row_list_rows t k' = Some r \<and> \<not> str_less k' k}"
    using ok by (auto simp: row_list_ops_def row_list_ok_def row_list_rows_def sorted_wrt_map sorted_wrt_filter)
  show "even (epoch row_list_ops k t)" using ok by (simp add: row_list_ops_def row_list_ok_def)
  show "even e \<Longrightarrow> row_list_ok (set_epoch row_list_ops k e t) \<and>
      row_list_rows (set_epoch row_list_ops k e t) = row_list_rows t"
    using ok by (simp add: row_list_ops_def row_list_ok_def row_list_rows_def)
qed

text \<open>Keys and values of eight bytes over that table.\<close>

definition key8_normal :: "bool \<Rightarrow> u8 list \<Rightarrow> u64" where
  "key8_normal le bs = object_value le (to_normal_key le bs)"

interpretation masstree8: masstree_client row_list_ops row_list_ok row_list_rows "key8_str le" 8
  "key8_normal le" "object_bytes le 8 :: u64 \<Rightarrow> u8 list" "object_value le" 8
  for le
proof
  show "key8_normal le (key8_str le k) = k" for k
    by (simp add: key8_normal_def key8_str_def object_value_bytes to_normal_key_def to_str_key_rev)
  show "length (object_bytes le 8 v) = 8" for v :: u64 by simp
  show "object_value le (object_bytes le 8 v) = v" for v by (rule object_value_bytes)
qed simp

definition sample_masstree :: "row_list masstree_kv" where
  "sample_masstree = \<lparr>mass_tree = ([], 0), thread_ts = 2, mass_background = no_background,
     mass_base = initial_worker_base,
     mass_strategy = \<lparr>threshold_manager = threshold_defaults, max_local_memory_usage = 4096,
       cur_local_memory_usage = 0, slow_down_in_load = False\<rparr>\<rparr>"

lemma sample_masstree_empty:
  "masstree_holds row_list_ok row_list_rows (key8_str le) (key8_normal le) to_bytes sample_masstree Map.empty"
  by (simp add: masstree_holds_def good_def contents_def sample_masstree_def row_list_ok_def row_list_rows_def)

section \<open>Properties\<close>

text \<open>
  Over any table that keeps the contract of an ordered table, which is assumed of the tree and met here by the
  reference table of a list of rows, the wrapper is a map: \<open>insert\<close> answers
  true and sets the value, \<open>get\<close> returns the value, \<open>remove\<close> answers true and drops the key, whether it
  was there or not.
\<close>

theorem masstree_is_map:
  assumes "masstree_client ops ok rows str key_size normal to_bytes of_bytes val_size"
    and "masstree_holds ok rows str normal to_bytes s m"
  shows "(\<exists>s'. masstree_insert ops str to_bytes k v s = Inr (True, s') \<and>
      masstree_holds ok rows str normal to_bytes s' (m(k \<mapsto> v))) \<and>
    masstree_get ops str of_bytes val_size k s = Inr (m k, s) \<and>
    (\<exists>s'. masstree_remove ops str k s = Inr (True, s') \<and>
      masstree_holds ok rows str normal to_bytes s' (m(k := None)))"
  by (intro conjI masstree_client.kv_insert_map [OF assms] masstree_client.kv_get_map [OF assms]
      masstree_client.kv_remove_map [OF assms])

lemma masstree_is_map_witness:
  "\<exists>s'. masstree_insert row_list_ops (key8_str True) (object_bytes True 8) 5 (9 :: u64) sample_masstree =
      Inr (True, s') \<and>
    masstree_holds row_list_ok row_list_rows (key8_str True) (key8_normal True) (object_bytes True 8) s' [5 \<mapsto> (9 :: u64)]"
proof -
  note is_map = masstree_is_map [where k = 5 and v = "9 :: u64", OF masstree8.masstree_client_axioms sample_masstree_empty]
  show ?thesis by (rule is_map [THEN conjunct1])
qed

text \<open>
  A sequence of insertions builds the map of its last values and answers true each time.
\<close>

theorem masstree_load_builds_map:
  assumes "masstree_client ops ok rows str key_size normal to_bytes of_bytes val_size"
    and "masstree_holds ok rows str normal to_bytes s m"
  shows "\<exists>bs s'. load_all (masstree_insert ops str to_bytes) kvs s = Inr (bs, s') \<and> set bs \<subseteq> {True} \<and>
    masstree_get ops str of_bytes val_size k s' = Inr ((m ++ map_of (rev kvs)) k, s')"
proof -
  from masstree_client.kv_load_map [OF assms, of kvs] obtain bs s' where "load_all (masstree_insert ops str to_bytes) kvs s = Inr (bs, s')"
    "set bs \<subseteq> {True}" "masstree_holds ok rows str normal to_bytes s' (m ++ map_of (rev kvs))" by blast
  moreover from masstree_client.kv_get_map [OF assms(1) this(3)]
  have "masstree_get ops str of_bytes val_size k s' = Inr ((m ++ map_of (rev kvs)) k, s')" .
  ultimately show ?thesis by blast
qed

lemma masstree_load_builds_map_witness:
  "\<exists>bs s'. load_all (masstree_insert row_list_ops (key8_str True) (object_bytes True 8))
      [(1, 10), (2, 20), (1, 11 :: u64)] sample_masstree = Inr (bs, s') \<and> set bs \<subseteq> {True} \<and>
    masstree_get row_list_ops (key8_str True) (object_value True) 8 1 s' = Inr (Some 11, s')"
proof -
  have "(Map.empty ++ map_of (rev [(1, 10), (2, 20), (1, 11)])) (1 :: u64) = Some (11 :: u64)" by simp
  with masstree_load_builds_map [OF masstree8.masstree_client_axioms sample_masstree_empty, of True
      "[(1, 10), (2, 20), (1, 11)]" 1] show ?thesis by simp
qed

text \<open>
  Over such a table, a scan for 1 to 2^31 - 1 keys appends the smallest stored keys that do not lie below its start, in
  ascending order and with their values, and returns the size of the whole result.
\<close>

theorem masstree_scan_smallest:
  assumes "masstree_client ops ok rows str key_size normal to_bytes of_bytes val_size"
    and "masstree_holds ok rows str normal to_bytes s m" and "0 < n" and "n < 2 ^ 31"
  shows "\<exists>ks. sorted_wrt str_less (map str ks) \<and> set ks = {k \<in> dom m. \<not> str_less (str k) (str k0)} \<and>
    masstree_scan nd ops str normal key_size of_bytes val_size k0 (of_nat n) result s =
      Inr (length result + min n (length ks), result @ map (\<lambda>k. (k, the (m k))) (take n ks))"
  using assms by (rule masstree_client.scan_map)

lemma masstree_scan_smallest_witness:
  "masstree_scan True row_list_ops (key8_str True) (key8_normal True) 8 (object_value True) 8 3 (of_nat 2) []
    sample_masstree = Inr (0, [] :: (u64 \<times> u64) list)"
proof -
  have "\<exists>ks. sorted_wrt str_less (map (key8_str True) ks) \<and>
      set ks = {k \<in> dom (Map.empty :: u64 \<rightharpoonup> u64). \<not> str_less (key8_str True k) (key8_str True 3)} \<and>
      masstree_scan True row_list_ops (key8_str True) (key8_normal True) 8 (object_value True) 8 3 (of_nat 2) []
        sample_masstree = Inr (length ([] :: (u64 \<times> u64) list) + min 2 (length ks), [] @ map (\<lambda>k. (k, the None)) (take 2 ks))"
    by (rule masstree_scan_smallest [OF masstree8.masstree_client_axioms sample_masstree_empty]) simp_all
  then show ?thesis by (elim exE conjE) simp
qed

text \<open>
  A scan for no key fails its assertion, and \<open>lower_bound\<close> and \<open>range_scan\<close> always throw.
\<close>

theorem masstree_error_cases:
  "masstree_scan False ops str normal key_size of_bytes val_size k0 0 result s = Inl Assert_Failed \<and>
   (\<exists>msg. masstree_lower_bound k s = Inl (Throw msg)) \<and> (\<exists>msg. masstree_range_scan k k2 s = Inl (Throw msg))"
  by (simp add: masstree_scan_def run_scan_def masstree_lower_bound_def masstree_range_scan_def)

section \<open>Destruction\<close>

lemma masstree_stop_fields:
  "mass_background (masstree_stop s) = no_background" "mass_tree (masstree_stop s) = mass_tree s"
  "\<exists>w. w \<noteq> None \<and> w \<in> set (background_workers (mass_background s)) \<Longrightarrow> \<not> is_running (mass_base (masstree_stop s))"
  using stop_background_stops [of "mass_background s" "mass_base s"]
  by (simp_all add: masstree_stop_def stop_background_def)

text \<open>
  C32. The destructor leaves no worker and no thread behind and, where node accesses are counted, loses none
  of the counts: the rows of the summary without their sums are a rearrangement of the counts, each sum is
  the sum of its row modulo 2^16, and the sums descend. But if the file of the summary cannot be opened
  while threads run, the destructor ends the program.
\<close>

theorem masstree_destruct_reports:
  "masstree_destruct None is_open s = Inr ([], masstree_stop s) \<and>
   (\<exists>rows. masstree_destruct (Some accesses) True s = Inr (rows, masstree_stop s) \<and>
      mset (concat (map tl rows)) = mset (map snd accesses) \<and>
      (\<forall>row \<in> set rows. hd row = sum_list (tl row) mod 2 ^ 16) \<and> sorted (rev (map hd rows))) \<and>
   mass_background (masstree_stop s) = no_background \<and> mass_tree (masstree_stop s) = mass_tree s \<and>
   (background_jobs (mass_background s) \<noteq> [] \<longrightarrow> masstree_destruct (Some accesses) False s = Inl Abort)"
  using hotness_summary_complete [of 16 accesses] masstree_stop_fields(1,2) [of s]
  by (simp add: masstree_destruct_def)

lemma masstree_destruct_reports_witness:
  "masstree_destruct (Some [(4096, 3)]) False
    (sample_masstree\<lparr>mass_background := \<lparr>background_workers = [None], background_jobs = [(0, {0})]\<rparr>\<rparr>) = Inl Abort"
  using masstree_destruct_reports [of True "sample_masstree\<lparr>mass_background :=
      \<lparr>background_workers = [None], background_jobs = [(0, {0})]\<rparr>\<rparr>" "[(4096, 3)]"] by simp

end
