(* ===== verification/Sidle_Histogram.thy ===== *)
theory Sidle_Histogram
  imports Sidle_Policy
begin

text \<open>
  The histogram of leaf accesses (\<open>sidle_histogram\<close> of \<open>third_party/sidle_utils/sidle_worker.hh\<close>). One
  traversal of the tree counts each leaf in the bucket of the logarithm of its access time; after it
  the counts replace those of the previous round, and the two thresholds that tell hot and cold leaves
  are recomputed from them. A threshold is a power of two kept in 16 bits, a bucket counts in 64 bits,
  and the flag of the cooler is a field that the other workers poll.
\<close>

section \<open>State and operations\<close>

datatype node_hotness = Hot | Warm | Cold

record sidle_histogram =
  histogram :: "u64 list"
  next_histogram :: "u64 list"
  hot_threshold :: u16
  cold_threshold :: u16
  is_cooling :: bool
  total_number :: u64
  total_access_count :: u64

definition new_histogram :: "nat \<Rightarrow> sidle_histogram" where
  "new_histogram n = \<lparr>histogram = replicate n 0, next_histogram = replicate n 0,
     hot_threshold = default_hot_threshold, cold_threshold = default_cold_threshold,
     is_cooling = False, total_number = 0, total_access_count = 0\<rparr>"

lemma half_less: "drop_bit 1 num \<noteq> 0 \<Longrightarrow> unat (drop_bit 1 num) < unat num" for num :: u16
  by (cases "num = 0") (auto simp: drop_bit_eq_div unat_div unat_gt_0)

text \<open>
  The loop of \<open>get_idx\<close>: it shifts its 16-bit argument until nothing is left, at most 15 times. The
  increment before the loop wraps, so the largest count lands in the first bucket.
\<close>

function get_idx_loop :: "u16 \<Rightarrow> nat \<Rightarrow> nat" where
  "get_idx_loop num cnt =
     (let num1 = drop_bit 1 num
      in if num1 = 0 then cnt
         else if cnt + 1 = 15 then 15 else get_idx_loop num1 (cnt + 1))"
  by auto

termination
  by (relation "measure (\<lambda>(num, cnt). unat num)") (use half_less in auto)

declare get_idx_loop.simps [simp del]

definition get_idx :: "u16 \<Rightarrow> nat" where
  "get_idx num = get_idx_loop (num + 1) 0"

definition bump :: "u64 list \<Rightarrow> nat \<Rightarrow> u64 list res" where
  "bump h i = and_then (byte_at h i) (\<lambda>n. write_at h i (n + 1))"

definition hotness_of :: "sidle_histogram \<Rightarrow> u16 \<Rightarrow> node_hotness" where
  "hotness_of h access_count =
     (if hot_threshold h < access_count then Hot
      else if access_count < cold_threshold h then Cold else Warm)"

definition update_histogram :: "u16 \<Rightarrow> sidle_histogram \<Rightarrow> (node_hotness \<times> sidle_histogram) res" where
  "update_histogram access_count h =
     and_then (bump (next_histogram h) (if access_count \<le> 1 then 0 else get_idx access_count)) (\<lambda>n.
     Inr (hotness_of h access_count, h\<lparr>next_histogram := n\<rparr>))"

definition refresh :: "u64 \<Rightarrow> u64 \<Rightarrow> sidle_histogram \<Rightarrow> sidle_histogram" where
  "refresh leaf_count accesses h =
     h\<lparr>total_number := leaf_count, total_access_count := accesses, histogram := next_histogram h,
       next_histogram := replicate (length (next_histogram h)) 0\<rparr>"

text \<open>
  The scan for the two thresholds runs from the bucket of the hottest leaves down and adds up the
  counts; it notes the first bucket at which the sum passes each bound and stops at the second one.
  The argument \<open>n\<close> is the number of buckets still to visit; \<open>None\<close> is the code's index -1.
\<close>

fun find_thresholds ::
  "u64 list \<Rightarrow> u64 \<Rightarrow> u64 \<Rightarrow> nat \<Rightarrow> u64 \<Rightarrow> nat option \<Rightarrow> (nat option \<times> nat option) res" where
  "find_thresholds h lower upper 0 active hot = Inr (hot, None)"
| "find_thresholds h lower upper (Suc n) active hot =
     and_then (byte_at h n) (\<lambda>count.
       let hot1 = (if lower < active + count \<and> hot = None then Some n else hot)
       in if upper < active + count then Inr (hot1, Some n)
          else find_thresholds h lower upper n (active + count) hot1)"

definition active_lower_bound :: "sidle_threshold \<Rightarrow> sidle_histogram \<Rightarrow> u64" where
  "active_lower_bound t h = (ucast (hot_watermark t) * total_number h) div 100"

definition inactive_upper_bound :: "sidle_threshold \<Rightarrow> sidle_histogram \<Rightarrow> u64" where
  "inactive_upper_bound t h = (of_int (100 - uint (cold_watermark t)) * total_number h) div 100"

definition hot_index_of :: "nat option \<Rightarrow> nat" where
  "hot_index_of i = (case i of None \<Rightarrow> 0 | Some n \<Rightarrow> if n = 15 then 15 else n + 1)"

definition cold_index_of :: "nat option \<Rightarrow> nat" where
  "cold_index_of i = (case i of None \<Rightarrow> 0 | Some n \<Rightarrow> n)"

text \<open>The code first waits while the cooler runs; a state in which no one ends that wait is a spin.\<close>

definition adjust_threshold :: "sidle_threshold \<Rightarrow> sidle_histogram \<Rightarrow> sidle_histogram res" where
  "adjust_threshold t h =
     (if is_cooling h then Inl Spin
      else if total_number h = 0 then Inr h
      else and_then (find_thresholds (histogram h) (active_lower_bound t h) (inactive_upper_bound t h) 16 0 None)
        (\<lambda>(hot, cold). Inr (h\<lparr>hot_threshold := push_bit (hot_index_of hot) 1,
                              cold_threshold := push_bit (cold_index_of cold) 1\<rparr>)))"

definition adjust_for_cooling :: "sidle_histogram \<Rightarrow> sidle_histogram res" where
  "adjust_for_cooling h =
     (if length (histogram h) < 16 then Inl Out_Of_Bounds
      else Inr (h\<lparr>histogram := take 15 (drop 1 (histogram h)) @ [0] @ drop 16 (histogram h),
                  hot_threshold := drop_bit 1 (hot_threshold h),
                  cold_threshold := drop_bit 1 (cold_threshold h), is_cooling := False\<rparr>))"

definition decrease_tolerance_for_cold :: "sidle_histogram \<Rightarrow> sidle_histogram" where
  "decrease_tolerance_for_cold h = h\<lparr>cold_threshold := cold_threshold h + 1\<rparr>"

definition notify_cooling :: "sidle_histogram \<Rightarrow> sidle_histogram" where
  "notify_cooling h = h\<lparr>is_cooling := True\<rparr>"

text \<open>One traversal: every leaf is counted, in the order of the visit.\<close>

fun update_all :: "u16 list \<Rightarrow> sidle_histogram \<Rightarrow> (node_hotness list \<times> sidle_histogram) res" where
  "update_all [] h = Inr ([], h)"
| "update_all (c # cs) h =
     and_then (update_histogram c h) (\<lambda>(x, h1).
     and_then (update_all cs h1) (\<lambda>(xs, h2). Inr (x # xs, h2)))"

section \<open>The bucket of an access time\<close>

lemma get_idx_loop_log:
  "0 < unat num \<Longrightarrow> cnt \<le> 15 \<Longrightarrow> unat num < 2 ^ (16 - cnt) \<Longrightarrow>
     (\<exists>d. get_idx_loop num cnt = cnt + d \<and> 2 ^ d \<le> unat num \<and> unat num < 2 ^ (d + 1) \<and> cnt + d \<le> 15)"
proof (induction num cnt rule: get_idx_loop.induct)
  case (1 num cnt)
  define num1 where "num1 = drop_bit 1 num"
  have half: "unat num1 = unat num div 2" by (simp add: num1_def drop_bit_eq_div unat_div)
  have step: "get_idx_loop num cnt =
      (if num1 = 0 then cnt else if cnt + 1 = 15 then 15 else get_idx_loop num1 (cnt + 1))"
    by (subst get_idx_loop.simps) (simp add: Let_def num1_def)
  show ?case
  proof (cases "num1 = 0")
    case True
    then have "unat num = 1" using half "1.prems"(1) by simp
    with True step "1.prems"(2) show ?thesis by (intro exI [of _ 0]) simp
  next
    case False
    then have two: "2 \<le> unat num" using half by (cases "unat num div 2 = 0") (auto simp: unat_eq_0)
    with "1.prems"(2,3) have "cnt \<noteq> 15" by auto
    with "1.prems"(2) have cnt: "cnt \<le> 14" by simp
    show ?thesis
    proof (cases "cnt = 14")
      case True
      then have "unat num < 4" using "1.prems"(3) by simp
      with True False two step show ?thesis by (intro exI [of _ 1]) simp
    next
      case less: False
      have "(2::nat) ^ (16 - cnt) = 2 * 2 ^ (16 - (cnt + 1))"
        using cnt by (simp add: Suc_diff_Suc flip: power_Suc)
      with "1.prems"(3) half have "unat num1 < 2 ^ (16 - (cnt + 1))" by simp
      moreover have "0 < unat num1" using False by (simp add: unat_gt_0)
      ultimately obtain d where d: "get_idx_loop num1 (cnt + 1) = cnt + 1 + d" "2 ^ d \<le> unat num1"
        "unat num1 < 2 ^ (d + 1)" "cnt + 1 + d \<le> 15"
        using "1.IH" [OF num1_def] False less cnt by auto
      then have "2 ^ (d + 1) \<le> unat num" "unat num < 2 ^ (d + 1 + 1)" using half by auto
      with d False less step show ?thesis by (intro exI [of _ "d + 1"]) simp
    qed
  qed
qed

lemma u16_less: "unat w < 2 ^ (16 - 0)" for w :: u16
  using unsigned_less [where 'b = 16 and 'a = nat, of w] by simp

lemma get_idx_log:
  assumes "num \<noteq> - 1"
  shows "2 ^ get_idx num \<le> unat num + 1" "unat num + 1 < 2 ^ (get_idx num + 1)"
proof -
  have "unat (num + 1) = unat num + 1"
    using assms by (metis Suc_eq_plus1 add_eq_0_iff minus_minus unatSuc unat_0 unat_1 add.commute)
  moreover note u16_less [of "num + 1"]
  ultimately show "2 ^ get_idx num \<le> unat num + 1" "unat num + 1 < 2 ^ (get_idx num + 1)"
    using get_idx_loop_log [of "num + 1" 0] by (auto simp: get_idx_def)
qed

lemma get_idx_wraps: "get_idx (- 1) = 0"
  by (simp add: get_idx_def get_idx_loop.simps)

lemma get_idx_less: "get_idx num < 16"
proof (cases "num = - 1")
  case False
  note u16_less [of "num + 1"]
  moreover have "num + 1 \<noteq> 0" using False by (simp only: eq_neg_iff_add_eq_0 not_False_eq_True)
  ultimately show ?thesis
    using get_idx_loop_log [of "num + 1" 0] by (auto simp: get_idx_def unat_gt_0)
qed (simp add: get_idx_wraps)

section \<open>What a traversal counts\<close>

definition bucket :: "u16 \<Rightarrow> nat" where
  "bucket c = (if c \<le> 1 then 0 else get_idx c)"

definition bucket_count :: "u16 list \<Rightarrow> nat \<Rightarrow> nat" where
  "bucket_count cs i = length (filter (\<lambda>c. bucket c = i) cs)"

lemma bucket_less: "bucket c < 16"
  by (simp add: bucket_def get_idx_less)

lemma update_histogram_bucket:
  assumes "length (next_histogram h) = 16"
  shows "update_histogram c h = Inr (hotness_of h c,
    h\<lparr>next_histogram := (next_histogram h)[bucket c := next_histogram h ! bucket c + 1]\<rparr>)"
  using assms bucket_less [of c] by (simp add: update_histogram_def bump_def bucket_def split: if_splits)

lemma update_all_counts:
  "length (next_histogram h) = 16 \<Longrightarrow> update_all cs h = Inr (map (hotness_of h) cs,
     h\<lparr>next_histogram := map (\<lambda>i. next_histogram h ! i + of_nat (bucket_count cs i)) [0..<16]\<rparr>)"
proof (induction cs arbitrary: h)
  case Nil
  then have "map (\<lambda>i. next_histogram h ! i) [0..<16] = next_histogram h" by (metis map_nth)
  then show ?case by (simp add: bucket_count_def)
next
  case (Cons c cs)
  define n where "n = (next_histogram h)[bucket c := next_histogram h ! bucket c + 1]"
  have "update_histogram c h = Inr (hotness_of h c, h\<lparr>next_histogram := n\<rparr>)"
    using update_histogram_bucket [OF Cons.prems] by (simp add: n_def)
  moreover have "hotness_of (h\<lparr>next_histogram := n\<rparr>) = hotness_of h"
    by (rule ext) (simp add: hotness_of_def)
  moreover have "n ! i + of_nat (bucket_count cs i) = next_histogram h ! i + of_nat (bucket_count (c # cs) i)"
    if "i < 16" for i using that Cons.prems bucket_less [of c] by (simp add: n_def bucket_count_def nth_list_update)
  ultimately show ?case
    using Cons.IH [of "h\<lparr>next_histogram := n\<rparr>"] Cons.prems by (simp add: n_def)
qed

text \<open>The number of leaves in the buckets from \<open>m\<close> on.\<close>

definition at_least :: "u16 list \<Rightarrow> nat \<Rightarrow> nat" where
  "at_least cs m = length (filter (\<lambda>c. m \<le> bucket c) cs)"

lemma at_least_step: "at_least cs m = bucket_count cs m + at_least cs (Suc m)"
  unfolding at_least_def bucket_count_def by (induction cs) auto

lemma at_least_mono: "m \<le> k \<Longrightarrow> at_least cs k \<le> at_least cs m"
  unfolding at_least_def by (induction cs) auto

lemma at_least_le: "at_least cs m \<le> length cs"
  by (simp add: at_least_def)

lemma at_least_0: "at_least cs 0 = length cs"
  by (simp add: at_least_def)

lemma at_least_16: "at_least cs 16 = 0"
proof -
  have "\<not> 16 \<le> bucket c" for c using bucket_less [of c] by simp
  then show ?thesis by (simp add: at_least_def)
qed

definition crossing :: "u16 list \<Rightarrow> nat \<Rightarrow> nat option \<Rightarrow> bool" where
  "crossing cs bound i \<longleftrightarrow> (case i of None \<Rightarrow> length cs \<le> bound
     | Some n \<Rightarrow> n < 16 \<and> at_least cs (Suc n) \<le> bound \<and> bound < at_least cs n)"

lemma of_nat_less_u64: "a < 2 ^ 64 \<Longrightarrow> b < 2 ^ 64 \<Longrightarrow> (of_nat a :: u64) < of_nat b \<longleftrightarrow> a < b"
  by (simp add: word_less_nat_alt unat_of_nat)

lemma find_thresholds_spec:
  assumes "length cs < 2 ^ 64" and "lo \<le> up" and "up < 2 ^ 64" and "m \<le> 16"
    and "at_least cs m \<le> up"
    and "if hot = None then at_least cs m \<le> lo else crossing cs lo hot"
  shows "\<exists>rh rc. find_thresholds (map (\<lambda>i. of_nat (bucket_count cs i)) [0..<16]) (of_nat lo) (of_nat up) m
      (of_nat (at_least cs m)) hot = Inr (rh, rc) \<and> crossing cs lo rh \<and> crossing cs up rc"
  using assms(4-)
proof (induction m arbitrary: hot)
  case 0
  then show ?case by (auto simp: crossing_def at_least_0 split: if_splits option.splits)
next
  case (Suc n)
  let ?h = "map (\<lambda>i. of_nat (bucket_count cs i)) [0..<16] :: u64 list"
  have count: "byte_at ?h n = Inr (of_nat (bucket_count cs n))" using Suc.prems(1) by simp
  have active: "of_nat (at_least cs (Suc n)) + of_nat (bucket_count cs n) = (of_nat (at_least cs n) :: u64)"
    by (simp add: at_least_step [of cs n])
  define hot1 where "hot1 = (if lo < at_least cs n \<and> hot = None then Some n else hot)"
  have small: "at_least cs n < 2 ^ 64" "lo < 2 ^ 64" using at_least_le [of cs n] assms(1-3) by simp_all
  have less: "(of_nat lo :: u64) < of_nat (at_least cs n) \<longleftrightarrow> lo < at_least cs n"
    "(of_nat up :: u64) < of_nat (at_least cs n) \<longleftrightarrow> up < at_least cs n"
    using small assms(3) by (simp_all only: of_nat_less_u64)
  have run: "find_thresholds ?h (of_nat lo) (of_nat up) (Suc n) (of_nat (at_least cs (Suc n))) hot =
      (if up < at_least cs n then Inr (hot1, Some n)
       else find_thresholds ?h (of_nat lo) (of_nat up) n (of_nat (at_least cs n)) hot1)"
    by (simp add: count active less hot1_def del: upt_Suc)
  have hot1: "if hot1 = None then at_least cs n \<le> lo else crossing cs lo hot1"
    using Suc.prems by (auto simp: hot1_def crossing_def)
  show ?case
  proof (cases "up < at_least cs n")
    case True
    then have "hot1 \<noteq> None" using assms(2) by (auto simp: hot1_def)
    with hot1 True Suc.prems run show ?thesis by (auto simp: crossing_def)
  next
    case False
    with Suc.IH [of hot1] Suc.prems(1) hot1 run show ?thesis by (auto simp: not_less)
  qed
qed

section \<open>The thresholds after a traversal\<close>

lemma unat_push_bit: "n < 16 \<Longrightarrow> unat (push_bit n 1 :: u16) = 2 ^ n"
proof -
  assume "n < 16"
  then have "(2::nat) ^ n < 2 ^ 16" by (rule power_strict_increasing) simp
  moreover have "push_bit n 1 = (of_nat (2 ^ n) :: u16)" by (simp add: push_bit_eq_mult)
  ultimately show ?thesis by (simp only: unat_of_nat) simp
qed

lemmas unat_two_power = unat_push_bit [simplified]

lemma hot_bucket:
  assumes "2 ^ Suc n < unat c" and "c \<noteq> - 1"
  shows "Suc n \<le> bucket c"
proof -
  have "(2::nat) \<le> 2 ^ Suc n" using one_le_power [of "2::nat" n] by simp
  with assms(1) have "1 < unat c" by linarith
  then have big: "\<not> c \<le> 1" by (simp add: word_le_nat_alt)
  have "(2::nat) ^ Suc n < 2 ^ (get_idx c + 1)" using assms get_idx_log(2) [of c] by linarith
  then have "Suc n < get_idx c + 1" by (rule power_less_imp_less_exp [rotated]) simp
  with big show ?thesis by (simp add: bucket_def)
qed

lemma cold_bucket:
  assumes "unat c + 1 < 2 ^ n"
  shows "bucket c < n"
proof (cases "c \<le> 1")
  case True
  with assms show ?thesis by (cases n) (auto simp: bucket_def)
next
  case False
  show ?thesis
  proof (cases "c = - 1")
    case True
    with assms show ?thesis by (cases n) (auto simp: bucket_def get_idx_wraps)
  next
    case False
    with assms get_idx_log(1) [of c] have "(2::nat) ^ get_idx c < 2 ^ n" by linarith
    then have "get_idx c < n" by (rule power_less_imp_less_exp [rotated]) simp
    with \<open>\<not> c \<le> 1\<close> show ?thesis by (simp add: bucket_def)
  qed
qed

lemma last_bucket: "15 \<le> bucket c \<Longrightarrow> 2 ^ 15 \<le> unat c + 1 \<and> c \<noteq> - 1"
proof -
  assume b: "15 \<le> bucket c"
  then have "c \<noteq> - 1" using get_idx_wraps by (auto simp: bucket_def split: if_splits)
  then show ?thesis using b cold_bucket [of c 15] by (cases "unat c + 1 < 2 ^ 15") auto
qed

lemma below_threshold: "c < t \<Longrightarrow> c + 1 \<noteq> t \<Longrightarrow> unat c + 1 < unat t" for c t :: u16
proof -
  assume c: "c < t" "c + 1 \<noteq> t"
  then have less: "unat c < unat t" by (simp add: word_less_nat_alt)
  have "unat t \<noteq> unat c + 1"
  proof
    assume "unat t = unat c + 1"
    have "t = of_nat (unat t)" by simp
    also have "\<dots> = c + 1" unfolding \<open>unat t = unat c + 1\<close> by simp
    finally show False using c(2) by simp
  qed
  with less show "unat c + 1 < unat t" by simp
qed

lemma length_filter_le: "(\<And>x. x \<in> set xs \<Longrightarrow> P x \<Longrightarrow> Q x) \<Longrightarrow> length (filter P xs) \<le> length (filter Q xs)"
  by (induction xs) auto

lemma unat_of_nat_u64: "n < 2 ^ 64 \<Longrightarrow> unat (of_nat n :: u64) = n"
  by (simp only: unat_of_nat) simp

lemma bounds_of_nat:
  assumes "k \<le> 100" and "n < 2 ^ 56"
  shows "(of_nat k * of_nat n) div 100 = (of_nat (k * n div 100) :: u64)"
proof -
  have "k * n \<le> 100 * n" using assms(1) by (rule mult_right_mono) simp
  moreover have "100 * n < 2 ^ 64" using assms(2) by simp
  ultimately have "k * n < 2 ^ 64" by (rule le_less_trans)
  then have "unat ((of_nat (k * n) :: u64) div 100) = k * n div 100"
    by (simp only: unat_div unat_of_nat_u64) simp
  moreover have "k * n div 100 < 2 ^ 64" using \<open>k * n < 2 ^ 64\<close> by simp
  ultimately have "(of_nat (k * n) :: u64) div 100 = of_nat (k * n div 100)"
    by (simp only: word_unat_eq_iff unat_of_nat_u64)
  then show ?thesis by simp
qed

text \<open>Counting leaves on both sides of the found indexes.\<close>

lemma hot_leaves:
  assumes "crossing cs (p * length cs div 100) rh"
  shows "100 * length (filter (\<lambda>c. 2 ^ hot_index_of rh < unat c \<and> c \<noteq> - 1) cs) \<le> p * length cs \<or>
    hot_index_of rh = 15 \<and> p * length cs < 100 * length (filter (\<lambda>c. 2 ^ 15 \<le> unat c + 1 \<and> c \<noteq> - 1) cs)"
proof -
  define lo where "lo = p * length cs div 100"
  have lo: "100 * lo \<le> p * length cs" "p * length cs < 100 * Suc lo"
    unfolding lo_def by (simp_all add: div_times_less_eq_dividend mult.commute [of 100] dividend_less_div_times)
  have few: "length (filter (\<lambda>c. 2 ^ hot_index_of rh < unat c \<and> c \<noteq> - 1) cs) \<le> lo" if "rh \<noteq> Some 15"
  proof (cases rh)
    case None
    with assms show ?thesis
      by (auto simp: crossing_def lo_def intro: le_trans [OF length_filter_le [of cs _ "\<lambda>_. True"]])
  next
    case (Some n)
    with that have n: "hot_index_of rh = Suc n" by (simp add: hot_index_of_def)
    have "length (filter (\<lambda>c. 2 ^ hot_index_of rh < unat c \<and> c \<noteq> - 1) cs) \<le> at_least cs (Suc n)"
      unfolding at_least_def n by (rule length_filter_le) (auto intro!: hot_bucket)
    with Some assms show ?thesis by (simp add: crossing_def lo_def)
  qed
  show ?thesis
  proof (cases "rh = Some 15")
    case True
    then have "Suc lo \<le> at_least cs 15" using assms by (simp add: crossing_def lo_def)
    also have "\<dots> \<le> length (filter (\<lambda>c. 2 ^ 15 \<le> unat c + 1 \<and> c \<noteq> - 1) cs)"
      unfolding at_least_def by (rule length_filter_le) (auto dest: last_bucket)
    finally show ?thesis using lo(2) True by (simp add: hot_index_of_def)
  qed (use few lo(1) in linarith)
qed

lemma cold_leaves:
  assumes "crossing cs up rc"
  shows "length (filter (\<lambda>c. unat c + 1 < 2 ^ cold_index_of rc) cs) \<le> length cs - min (Suc up) (length cs)"
proof (cases rc)
  case None
  then show ?thesis by (simp add: cold_index_of_def)
next
  case (Some n)
  have "length (filter (\<lambda>c. unat c + 1 < 2 ^ n) cs) \<le> length (filter (\<lambda>c. \<not> n \<le> bucket c) cs)"
    by (rule length_filter_le) (use cold_bucket in \<open>auto simp: not_le\<close>)
  also have "\<dots> = length cs - at_least cs n"
    using sum_length_filter_compl [of "\<lambda>c. n \<le> bucket c" cs] by (simp add: at_least_def)
  also have "\<dots> \<le> length cs - min (Suc up) (length cs)"
    using Some assms by (intro diff_le_mono2 min.coboundedI1) (simp add: crossing_def)
  finally show ?thesis using Some by (simp add: cold_index_of_def)
qed

lemma rounded_percent:
  fixes p n :: nat
  assumes "p \<le> 100"
  shows "100 * (n - min (Suc ((100 - p) * n div 100)) n) \<le> p * n"
proof -
  have "(100 - p) * n + p * n = 100 * n" using assms by (simp flip: add_mult_distrib)
  moreover have "(100 - p) * n < 100 * Suc ((100 - p) * n div 100)"
    using dividend_less_times_div [of 100 "(100 - p) * n"] by simp
  ultimately have "100 * n - 100 * Suc ((100 - p) * n div 100) \<le> p * n" by linarith
  then show ?thesis by (simp add: min_def diff_mult_distrib2)
qed

lemma index_order:
  assumes "crossing cs lo rh" and "crossing cs up rc" and "lo \<le> up"
  shows "cold_index_of rc \<le> hot_index_of rh" "hot_index_of rh \<le> 15"
proof -
  show "cold_index_of rc \<le> hot_index_of rh"
  proof (cases rc)
    case (Some j)
    with assms have j: "j < 16" "lo < at_least cs j" by (simp_all add: crossing_def)
    then obtain i where i: "rh = Some i" using assms(1) at_least_le [of cs j] by (cases rh) (auto simp: crossing_def)
    with assms(1) have "at_least cs (Suc i) < at_least cs j" using j by (simp add: crossing_def)
    then have "j \<le> i" using at_least_mono [of "Suc i" j cs] by (meson not_less not_less_eq_eq leD)
    with Some i j show ?thesis by (simp add: cold_index_of_def hot_index_of_def)
  qed (simp add: cold_index_of_def)
  show "hot_index_of rh \<le> 15" using assms(1) by (simp add: hot_index_of_def crossing_def split: option.splits)
qed

lemma adjust_threshold_found:
  assumes "\<not> is_cooling h" and "total_number h = of_nat (length cs)" and "cs \<noteq> []" and "length cs < 2 ^ 56"
    and "histogram h = map (\<lambda>i. of_nat (bucket_count cs i)) [0..<16]"
    and "unat (hot_watermark t) + unat (cold_watermark t) \<le> 100"
  defines "lo \<equiv> unat (hot_watermark t) * length cs div 100"
    and "up \<equiv> (100 - unat (cold_watermark t)) * length cs div 100"
  shows "\<exists>rh rc. adjust_threshold t h = Inr (h\<lparr>hot_threshold := push_bit (hot_index_of rh) 1,
      cold_threshold := push_bit (cold_index_of rc) 1\<rparr>) \<and> crossing cs lo rh \<and> crossing cs up rc \<and> lo \<le> up"
proof -
  have hot: "unat (hot_watermark t) \<le> 100" and cold: "unat (cold_watermark t) \<le> 100" using assms(6) by simp_all
  have len: "length cs < 2 ^ 64" using assms(4) by simp
  have "unat (of_nat (length cs) :: u64) = length cs" using len by (rule unat_of_nat_u64)
  then have some: "total_number h \<noteq> 0" using assms(2,3) by auto
  have lo: "active_lower_bound t h = of_nat lo"
    using bounds_of_nat [OF hot assms(4)] by (simp add: active_lower_bound_def assms(2) lo_def)
  have "(of_int (100 - uint (cold_watermark t)) :: u64) = of_nat (100 - unat (cold_watermark t))"
    using cold by (metis of_int_of_nat_eq of_nat_diff of_nat_numeral uint_nat)
  then have up: "inactive_upper_bound t h = of_nat up"
    using bounds_of_nat [of "100 - unat (cold_watermark t)" "length cs"] assms(4)
    by (simp add: inactive_upper_bound_def assms(2) up_def)
  have le: "lo \<le> up"
    unfolding lo_def up_def using assms(6) by (intro div_le_mono mult_right_mono) simp_all
  have "(100 - unat (cold_watermark t)) * length cs \<le> 100 * length cs" by simp
  then have "up \<le> length cs" unfolding up_def by linarith
  then have "up < 2 ^ 64" using len by simp
  then obtain rh rc where "find_thresholds (histogram h) (of_nat lo) (of_nat up) 16 0 None = Inr (rh, rc)"
    "crossing cs lo rh" "crossing cs up rc"
    using find_thresholds_spec [OF len le _ order_refl, of None] by (auto simp: at_least_16 assms(5))
  with le show ?thesis
    by (intro exI [of _ rh] exI [of _ rc]) (simp add: adjust_threshold_def assms(1) some lo up)
qed

lemma trigger_recomputes:
  assumes "next_histogram h = replicate 16 0" and "\<not> is_cooling h" and "cs \<noteq> []" and "length cs < 2 ^ 56"
    and "unat (hot_watermark t) + unat (cold_watermark t) \<le> 100"
  shows "\<exists>h1 r rh rc. update_all cs h = Inr (map (hotness_of h) cs, h1) \<and>
    r = refresh (of_nat (length cs)) accesses h1 \<and>
    adjust_threshold t r = Inr (r\<lparr>hot_threshold := push_bit (hot_index_of rh) 1,
      cold_threshold := push_bit (cold_index_of rc) 1\<rparr>) \<and>
    crossing cs (unat (hot_watermark t) * length cs div 100) rh \<and>
    crossing cs ((100 - unat (cold_watermark t)) * length cs div 100) rc \<and>
    unat (hot_watermark t) * length cs div 100 \<le> (100 - unat (cold_watermark t)) * length cs div 100"
proof -
  define h1 where "h1 = h\<lparr>next_histogram := map (\<lambda>i. next_histogram h ! i + of_nat (bucket_count cs i)) [0..<16]\<rparr>"
  define r where "r = refresh (of_nat (length cs)) accesses h1"
  have "update_all cs h = Inr (map (hotness_of h) cs, h1)"
    using update_all_counts [of h cs] assms(1) by (simp add: h1_def)
  moreover have "histogram r = map (\<lambda>i. of_nat (bucket_count cs i)) [0..<16]"
    by (simp add: r_def refresh_def h1_def assms(1) del: upt_Suc)
  moreover have "\<not> is_cooling r" "total_number r = of_nat (length cs)"
    using assms(2) by (simp_all add: r_def refresh_def h1_def)
  ultimately show ?thesis
    using adjust_threshold_found [of r cs t] assms(3-5) r_def by blast
qed

section \<open>Properties\<close>

text \<open>
  C39. \<open>get_idx\<close> is the integer part of the logarithm of the successor of its argument, at most 15; only the
  largest 16-bit value wraps to 0. A visit of a leaf counts it in one of the 16 buckets, the one of this
  logarithm, except that the caller puts the counts 0 and 1 into bucket 0 and the wrap puts 65535 there.
\<close>

theorem get_idx_is_log:
  assumes "length (next_histogram h) = 16"
  shows "get_idx num < 16 \<and>
   (if num = - 1 then get_idx num = 0
    else 2 ^ get_idx num \<le> unat num + 1 \<and> unat num + 1 < 2 ^ (get_idx num + 1)) \<and>
   (\<exists>b < 16. update_histogram num h = Inr (hotness_of h num,
        h\<lparr>next_histogram := (next_histogram h)[b := next_histogram h ! b + 1]\<rparr>) \<and>
      (if num = 0 \<or> num = 1 \<or> num = - 1 then b = 0
       else 2 ^ b \<le> unat num + 1 \<and> unat num + 1 < 2 ^ (b + 1)))"
proof -
  have "unat num \<le> 1 \<longleftrightarrow> unat num = 0 \<or> unat num = 1" by linarith
  then have "num \<le> 1 \<longleftrightarrow> num = 0 \<or> num = 1" by (simp add: word_le_nat_alt word_unat_eq_iff)
  then have "if num = 0 \<or> num = 1 \<or> num = - 1 then bucket num = 0
      else 2 ^ bucket num \<le> unat num + 1 \<and> unat num + 1 < 2 ^ (bucket num + 1)"
    using get_idx_log [of num] get_idx_wraps by (simp add: bucket_def)
  then have "\<exists>b < 16. update_histogram num h = Inr (hotness_of h num,
        h\<lparr>next_histogram := (next_histogram h)[b := next_histogram h ! b + 1]\<rparr>) \<and>
      (if num = 0 \<or> num = 1 \<or> num = - 1 then b = 0 else 2 ^ b \<le> unat num + 1 \<and> unat num + 1 < 2 ^ (b + 1))"
    using update_histogram_bucket [OF assms] bucket_less by blast
  moreover have "if num = - 1 then get_idx num = 0
      else 2 ^ get_idx num \<le> unat num + 1 \<and> unat num + 1 < 2 ^ (get_idx num + 1)"
    using get_idx_log [of num] get_idx_wraps by simp
  ultimately show ?thesis using get_idx_less by blast
qed

lemma get_idx_is_log_witness:
  "update_histogram 3 (new_histogram 16) = Inr (Cold, (new_histogram 16)\<lparr>next_histogram :=
      (replicate 16 0)[2 := 1]\<rparr>)"
proof -
  have "length (next_histogram (new_histogram 16)) = 16" by (simp add: new_histogram_def)
  from get_idx_is_log [OF this, of 3] obtain b :: nat where "update_histogram 3 (new_histogram 16) =
      Inr (hotness_of (new_histogram 16) 3, (new_histogram 16)\<lparr>next_histogram :=
        (next_histogram (new_histogram 16))[b := next_histogram (new_histogram 16) ! b + 1]\<rparr>)"
    "b < 16" "2 ^ b \<le> (4 :: nat)" "4 < (2 :: nat) ^ (b + 1)" by (auto split: if_splits)
  moreover from this(3,4) have "b = 2"
    using power_le_imp_le_exp [of "2 :: nat" b 2] power_less_imp_less_exp [of "2 :: nat" 2 "b + 1"] by simp
  ultimately show ?thesis
    by (simp add: hotness_of_def new_histogram_def default_hot_threshold_def default_cold_threshold_def)
qed





text \<open>
  Cooling halves the access times and the thresholds and clears the flag the other workers wait for. The
  rounding never makes a leaf hotter or colder than it was; the histogram keeps its length and
  loses exactly the leaves of its first bucket.
\<close>

theorem cooling_keeps_classes:
  assumes "length (histogram h) = 16"
  shows "\<exists>h'. adjust_for_cooling h = Inr h' \<and> \<not> is_cooling h' \<and> length (histogram h') = 16 \<and>
    sum_list (histogram h') + histogram h ! 0 = sum_list (histogram h) \<and>
    (hotness_of h' (drop_bit 1 c) = Hot \<longrightarrow> hotness_of h c = Hot) \<and>
    (hotness_of h' (drop_bit 1 c) = Cold \<longrightarrow> cold_threshold h \<le> hot_threshold h \<longrightarrow> hotness_of h c = Cold)"
proof -
  define h' where "h' = h\<lparr>histogram := take 15 (drop 1 (histogram h)) @ [0] @ drop 16 (histogram h),
    hot_threshold := drop_bit 1 (hot_threshold h), cold_threshold := drop_bit 1 (cold_threshold h), is_cooling := False\<rparr>"
  obtain x xs where h: "histogram h = x # xs" "length xs = 15" using assms by (cases "histogram h") auto
  have half: "drop_bit 1 a < drop_bit 1 b \<Longrightarrow> a < b" for a b :: u16
    by (simp add: drop_bit_eq_div word_less_nat_alt unat_div)
  have "adjust_for_cooling h = Inr h'" by (simp add: adjust_for_cooling_def assms h'_def)
  moreover have "length (histogram h') = 16" "sum_list (histogram h') + histogram h ! 0 = sum_list (histogram h)"
    by (simp_all add: h'_def h)
  moreover have "hotness_of h' (drop_bit 1 c) = Hot \<longrightarrow> hotness_of h c = Hot"
    using half by (auto simp: hotness_of_def h'_def split: if_splits)
  moreover have "hotness_of h' (drop_bit 1 c) = Cold \<longrightarrow> cold_threshold h \<le> hot_threshold h \<longrightarrow> hotness_of h c = Cold"
    using half [of c "cold_threshold h"] by (auto simp: hotness_of_def h'_def split: if_splits)
  ultimately show ?thesis by (intro exI [of _ h']) (simp add: h'_def)
qed

lemma cooling_keeps_classes_witness:
  "\<exists>h'. adjust_for_cooling (new_histogram 16) = Inr h' \<and> \<not> is_cooling h' \<and> length (histogram h') = 16"
  using cooling_keeps_classes [of "new_histogram 16"] by (auto simp: new_histogram_def)

end
