(* ===== verification/Sidle_Workers.thy ===== *)
theory Sidle_Workers
  imports Sidle_Histogram Art_Heap
begin

text \<open>
  The background workers of SIDLE (\<open>third_party/sidle_utils/sidle_worker.hh\<close>), one round of each loop per
  definition. They are templates over the tree: \<open>tree_op\<close> holds the functions of the tree that the workers
  call and the members of its nodes that they read, over an abstract state \<open>'w\<close> in which the static
  state of the workers and the strategy manager live. The flag \<open>nd\<close> says whether the checks are compiled
  out. A worker that waits for a flag which no other worker has cleared is the error \<open>Spin\<close>.
\<close>

section \<open>The tree as the workers see it\<close>

datatype tree_type = Tree_Art | Tree_Masstree

record 'w tree_op =
  traverse_func :: "'w \<Rightarrow> (u64 \<times> u64) list res"
  op_leaf_migration :: "u64 \<Rightarrow> u64 \<Rightarrow> node_mem_type \<Rightarrow> 'w \<Rightarrow> (u64 \<times> 'w) res"
  op_internode_migration :: "u64 \<Rightarrow> node_mem_type \<Rightarrow> bool \<Rightarrow> 'w \<Rightarrow> (u64 \<times> 'w) res"
  op_unlock :: "u64 \<Rightarrow> 'w \<Rightarrow> 'w res"
  node_traverse_func :: "u64 \<Rightarrow> 'w \<Rightarrow> u64 list res"
  op_get_leaf :: "u64 \<Rightarrow> u64"
  op_is_leaf :: "u64 \<Rightarrow> 'w \<Rightarrow> bool"
  op_type :: tree_type
  leaf_meta_of :: "u64 \<Rightarrow> 'w \<Rightarrow> leaf_metadata res"
  set_access_time :: "u64 \<Rightarrow> u16 \<Rightarrow> 'w \<Rightarrow> 'w res"
  node_meta_of :: "u64 \<Rightarrow> 'w \<Rightarrow> node_metadata res"
  node_parent_of :: "u64 \<Rightarrow> 'w \<Rightarrow> u64 res"
  node_is_old :: "u64 \<Rightarrow> 'w \<Rightarrow> bool res"
  node_count_of :: "u64 \<Rightarrow> 'w \<Rightarrow> nat res"
  get_base :: "'w \<Rightarrow> worker_base"
  put_base :: "worker_base \<Rightarrow> 'w \<Rightarrow> 'w"
  get_strategy :: "'w \<Rightarrow> sidle_strategy"
  put_strategy :: "sidle_strategy \<Rightarrow> 'w \<Rightarrow> 'w"

definition update_base :: "'w tree_op \<Rightarrow> (worker_base \<Rightarrow> worker_base) \<Rightarrow> 'w \<Rightarrow> 'w" where
  "update_base ops f w = put_base ops (f (get_base ops w)) w"

definition update_thresholds :: "'w tree_op \<Rightarrow> (sidle_threshold \<Rightarrow> sidle_threshold) \<Rightarrow> 'w \<Rightarrow> 'w" where
  "update_thresholds ops f w =
     (let st = get_strategy ops w
      in put_strategy ops (st\<lparr>threshold_manager := f (threshold_manager st)\<rparr>) w)"

definition thresholds_of :: "'w tree_op \<Rightarrow> 'w \<Rightarrow> sidle_threshold" where
  "thresholds_of ops w = threshold_manager (get_strategy ops w)"

section \<open>The migration trigger\<close>

record migration_trigger =
  round_counter :: u32
  node_counter :: u64
  access_counter :: u64
  call_by_adjuster :: bool

definition new_trigger :: migration_trigger where
  "new_trigger = \<lparr>round_counter = 0, node_counter = 0, access_counter = 0, call_by_adjuster = False\<rparr>"

definition check_execute_demotion :: "worker_base \<Rightarrow> worker_base" where
  "check_execute_demotion b =
     (if \<not> need_demotion b \<and> queue_waiting_threshold < get_demotion_queue_length (mqueue b)
      then b\<lparr>need_demotion := True\<rparr> else b)"

definition check_execute_promotion :: "worker_base \<Rightarrow> worker_base" where
  "check_execute_promotion b =
     (if \<not> need_promotion b \<and> queue_waiting_threshold < get_promotion_queue_length (mqueue b)
      then b\<lparr>need_promotion := True\<rparr> else b)"

text \<open>A task is a pair for ART, with the tagged leaf and its parent, and one address for Masstree.\<close>

definition queue_task :: "'w tree_op \<Rightarrow> task_type \<Rightarrow> node_pair \<Rightarrow> worker_base \<Rightarrow> worker_base" where
  "queue_task ops type task b =
     (if op_type ops = Tree_Art then b\<lparr>mqueue := add_multi_task (mqueue b) type task\<rparr>
      else b\<lparr>mqueue := add_task (mqueue b) type (fst task)\<rparr>)"

definition leaf_task :: "'w tree_op \<Rightarrow> u64 \<Rightarrow> u64 \<Rightarrow> node_pair" where
  "leaf_task ops par cur = (if op_type ops = Tree_Art then make_leaf (cur + 1) else cur, par)"

definition trigger_migration_cb ::
  "bool \<Rightarrow> 'w tree_op \<Rightarrow> u64 \<Rightarrow> u64 \<Rightarrow> migration_trigger \<Rightarrow> sidle_histogram \<Rightarrow> 'w \<Rightarrow>
     (migration_trigger \<times> sidle_histogram \<times> 'w) res" where
  "trigger_migration_cb nd ops par cur t h w =
     and_then (leaf_meta_of ops cur w) (\<lambda>m.
     and_then (update_histogram (access_time m) h) (\<lambda>(hotness, h1).
     let t1 = t\<lparr>node_counter := node_counter t + 1,
                access_counter := access_counter t + ucast (access_time m)\<rparr>
     in if can_promote (get_base ops w) \<and> leaf_get_type m = Mem_Remote \<and> hotness = Hot
        then if par = 0 \<and> \<not> nd then Inl (Throw ''[trigger_migration_cb] the parent cannot be nullptr'')
             else Inr (t1, h1, update_base ops
                    (check_execute_promotion \<circ> queue_task ops Promotion (leaf_task ops par cur)) w)
        else if hotness = Cold \<and> (leaf_get_type m = Mem_Local \<or> call_by_adjuster t)
        then if par = 0 \<and> \<not> nd then Inl (Throw ''[trigger_migration_cb] the parent cannot be nullptr'')
             else Inr (t1, h1, update_base ops
                    (check_execute_demotion \<circ> queue_task ops Demotion (leaf_task ops par cur)) w)
        else Inr (t1, h1, w)))"

fun trigger_visit ::
  "bool \<Rightarrow> 'w tree_op \<Rightarrow> (u64 \<times> u64) list \<Rightarrow> migration_trigger \<Rightarrow> sidle_histogram \<Rightarrow> 'w \<Rightarrow>
     (migration_trigger \<times> sidle_histogram \<times> 'w) res" where
  "trigger_visit nd ops [] t h w = Inr (t, h, w)"
| "trigger_visit nd ops ((par, cur) # xs) t h w =
     and_then (trigger_migration_cb nd ops par cur t h w) (\<lambda>(t1, h1, w1). trigger_visit nd ops xs t1 h1 w1)"

text \<open>
  One round of the loop: \<open>woken\<close> says whether the adjuster ended the wait or the time ran out, and
  \<open>after_cooling\<close> whether the trigger had to wait for the cooler.
\<close>

definition trigger_round ::
  "bool \<Rightarrow> 'w tree_op \<Rightarrow> bool \<Rightarrow> bool \<Rightarrow> migration_trigger \<Rightarrow> sidle_histogram \<Rightarrow> 'w \<Rightarrow>
     (migration_trigger \<times> sidle_histogram \<times> 'w) res" where
  "trigger_round nd ops woken after_cooling t h w =
     (if \<not> can_trigger (get_base ops w) then Inr (t, h, w)
      else if is_cooling h then Inl Spin
      else
        (let t1 = (if woken then t\<lparr>call_by_adjuster := True\<rparr> else t);
             w1 = (if woken then w else update_base ops (\<lambda>b. b\<lparr>is_triggering_migration := True\<rparr>) w);
             h1 = (if call_by_adjuster t1 \<and> after_cooling then decrease_tolerance_for_cold h else h);
             t2 = t1\<lparr>round_counter := round_counter t1 + 1\<rparr>
         in and_then (traverse_func ops w1) (\<lambda>visited.
            and_then (trigger_visit nd ops visited t2 h1 w1) (\<lambda>(t3, h2, w2).
            let h3 = refresh (node_counter t3) (access_counter t3) h2;
                w3 = update_base ops (\<lambda>b. if 0 < get_promotion_queue_length (mqueue b) \<and> can_promote b
                                         then check_execute_promotion b else b) w2;
                w4 = update_base ops (\<lambda>b. if 0 < get_demotion_queue_length (mqueue b)
                                         then check_execute_demotion b else b) w3
            in and_then (adjust_threshold (thresholds_of ops w4) h3) (\<lambda>h4.
               Inr (t3\<lparr>node_counter := 0, access_counter := 0\<rparr>, h4,
                    update_base ops (\<lambda>b. b\<lparr>is_triggering_migration := False\<rparr>) w4))))))"

section \<open>The executors\<close>

fun any_local :: "'w tree_op \<Rightarrow> u64 list \<Rightarrow> 'w \<Rightarrow> bool res" where
  "any_local ops [] w = Inr False"
| "any_local ops (c # cs) w =
     and_then (if op_is_leaf ops c w
               then and_then (leaf_meta_of ops (op_get_leaf ops c) w) (\<lambda>m. Inr (leaf_get_type m = Mem_Local))
               else and_then (node_meta_of ops c w) (\<lambda>m. Inr (md_type m = Mem_Local)))
       (\<lambda>is_local. if is_local then Inr True else any_local ops cs w)"

text \<open>The 6-bit depth is compared with the 8-bit threshold as an \<open>int\<close>.\<close>

definition need_continue_migrate ::
  "'w tree_op \<Rightarrow> u64 \<Rightarrow> node_mem_type \<Rightarrow> nat \<Rightarrow> 'w \<Rightarrow> migration_state res" where
  "need_continue_migrate ops par target_type has_migrated w =
     (if par = 0 then Inr Stop
      else if target_type = Mem_Remote then
        and_then (node_meta_of ops par w) (\<lambda>m.
        if unat (md_depth m) \<le> unat (demotion_depth_threshold (thresholds_of ops w)) \<or> md_depth m = 1
        then Inr Stop
        else and_then (node_traverse_func ops par w) (\<lambda>cs.
             and_then (any_local ops cs w) (\<lambda>has_local.
             Inr (if has_migrated = 0 then if has_local then Stop else Proceed
                  else if has_local then Delay else Proceed))))
      else if target_type = Mem_Local then
        and_then (node_meta_of ops par w) (\<lambda>m. Inr (if md_type m \<noteq> Mem_Local then Proceed else Stop))
      else Inr Stop)"

fun migrate_internode ::
  "nat \<Rightarrow> bool \<Rightarrow> 'w tree_op \<Rightarrow> u64 \<Rightarrow> node_mem_type \<Rightarrow> nat \<Rightarrow> 'w \<Rightarrow> 'w res" where
  "migrate_internode 0 nd ops original_node target_type has_migrated w = Inl Out_Of_Fuel"
| "migrate_internode (Suc fuel) nd ops original_node target_type has_migrated w =
     (if original_node = 0 \<and> \<not> nd
      then Inl (Throw ''[DEBUG] [migrate_internode] the original node is nullptr'')
      else
        and_then (if has_migrated = 0 \<and> target_type = Mem_Remote
                  then and_then (need_continue_migrate ops original_node target_type 0 w) (\<lambda>s. Inr (Some s))
                  else Inr None) (\<lambda>checked.
        if checked = Some Stop then Inr w
        else and_then (op_internode_migration ops original_node target_type (checked \<noteq> None) w) (\<lambda>(par, w1).
        if par = 0 then Inr w1
        else and_then (need_continue_migrate ops par target_type (has_migrated + 1) w1) (\<lambda>state.
             and_then
               (if state = Proceed then migrate_internode fuel nd ops par target_type (has_migrated + 1) w1
                else if state = Delay then
                  if target_type \<noteq> Mem_Remote \<and> \<not> nd
                  then Inl (Throw ''[DEBUG] [migrate_internode] delay nodes type should be remote'')
                  else Inr (update_base ops (queue_task ops Demotion (par, 0)) w1)
                else Inr w1)
               (op_unlock ops par)))))"

definition migrate_leaf ::
  "nat \<Rightarrow> bool \<Rightarrow> 'w tree_op \<Rightarrow> u64 \<Rightarrow> u64 \<Rightarrow> node_mem_type \<Rightarrow> 'w \<Rightarrow> 'w res" where
  "migrate_leaf fuel nd ops cur_node par target_type w =
     and_then (op_leaf_migration ops cur_node par target_type w) (\<lambda>(p, w1).
     if p = 0 then Inr w1
     else if target_type = Mem_Remote then
       and_then (need_continue_migrate ops p target_type 1 w1) (\<lambda>status.
       if status = Proceed then migrate_internode fuel nd ops p target_type 1 w1
       else op_unlock ops p
              (if status = Delay then update_base ops (queue_task ops Demotion (p, 0)) w1 else w1))
     else migrate_internode fuel nd ops p target_type 1 w1)"

text \<open>
  Taking the next task, as the executors do: the address and the parent, which is null for Masstree.
\<close>

definition take_task :: "'w tree_op \<Rightarrow> task_type \<Rightarrow> worker_base \<Rightarrow> node_pair \<times> worker_base" where
  "take_task ops type b =
     (if op_type ops = Tree_Art
      then (let (task, q) = get_multi_task (mqueue b) type in (task, b\<lparr>mqueue := q\<rparr>))
      else (let (addr, q) = get_task (mqueue b) type in ((addr, 0), b\<lparr>mqueue := q\<rparr>)))"

text \<open>The loop that empties a queue: it takes a task before it looks whether the work is still forbidden.\<close>

fun clear_queue :: "nat \<Rightarrow> (worker_base \<Rightarrow> node_pair \<times> worker_base) \<Rightarrow> bool \<Rightarrow> worker_base \<Rightarrow> worker_base" where
  "clear_queue 0 get allowed b = b"
| "clear_queue (Suc n) get allowed b =
     (let (task, b1) = get b
      in if fst task \<noteq> 0 \<and> \<not> allowed then clear_queue n get allowed b1 else b1)"

definition queue_bound :: "worker_base \<Rightarrow> nat" where
  "queue_bound b = Suc (length (promotion_queue (mqueue b)) + length (demotion_queue (mqueue b)) +
     length (promotion_pair_queue (mqueue b)) + length (demotion_pair_queue (mqueue b)))"

fun promotion_loop :: "nat \<Rightarrow> nat \<Rightarrow> bool \<Rightarrow> 'w tree_op \<Rightarrow> 'w \<Rightarrow> 'w res" where
  "promotion_loop 0 fuel nd ops w = Inl Out_Of_Fuel"
| "promotion_loop (Suc tasks) fuel nd ops w =
     (let b = get_base ops w
      in if \<not> (can_promote b \<and> is_running b) then Inr w
         else
           (let ((addr, par), b1) = take_task ops Promotion b; w1 = put_base ops b1 w
            in if addr = 0 \<or> op_type ops = Tree_Art \<and> par = 0 then Inr w1
               else if op_type ops = Tree_Art \<and> \<not> op_is_leaf ops addr w1 \<and> \<not> nd
               then Inl (Throw ''[art_promotion_executor] the promotion candidate should be leaf node'')
               else and_then (migrate_leaf fuel nd ops (op_get_leaf ops addr) par Mem_Local w1)
                      (promotion_loop tasks fuel nd ops)))"

definition promotion_round :: "nat \<Rightarrow> nat \<Rightarrow> bool \<Rightarrow> 'w tree_op \<Rightarrow> 'w \<Rightarrow> 'w res" where
  "promotion_round tasks fuel nd ops w =
     and_then (promotion_loop tasks fuel nd ops (update_base ops (\<lambda>b. b\<lparr>need_promotion := True\<rparr>) w)) (\<lambda>w1.
     Inr (update_base ops (\<lambda>b.
            (clear_queue (queue_bound b) (take_task ops Promotion) (can_promote b) b)\<lparr>need_promotion := False\<rparr>) w1))"

text \<open>
  For ART the demotion of a remote leaf looks for the first local ancestor and counts the distinct
  children through which it was reached; when all children of that node are counted, the node follows.
  The third argument of \<open>migrate_internode\<close> is the thread, so the 0 that the code passes there leaves
  \<open>has_migrated\<close> at its default 1.
\<close>

type_synonym demotion_map = "u64 \<Rightarrow> u64 list option"

fun find_first_local_ancestor ::
  "nat \<Rightarrow> bool \<Rightarrow> 'w tree_op \<Rightarrow> u64 \<Rightarrow> u64 \<Rightarrow> demotion_map \<Rightarrow> 'w \<Rightarrow> (demotion_map \<times> 'w) res" where
  "find_first_local_ancestor 0 nd ops nod chld m w = Inl Out_Of_Fuel"
| "find_first_local_ancestor (Suc fuel) nd ops nod chld m w =
     (if nod = 0 then Inr (m, w)
      else and_then (node_is_old ops nod w) (\<lambda>old.
        if old then Inr (m(nod := None), w)
        else and_then (node_count_of ops nod w) (\<lambda>child_count.
        and_then (node_meta_of ops nod w) (\<lambda>meta.
        if md_type meta = Mem_Local then
          (let cs = List.insert chld (case m nod of None \<Rightarrow> [] | Some cs \<Rightarrow> cs)
           in if length cs = child_count
              then and_then (migrate_internode fuel nd ops nod Mem_Remote 1 w) (\<lambda>w1. Inr (m(nod := None), w1))
              else Inr (m(nod := Some cs), w))
        else and_then (node_parent_of ops nod w) (\<lambda>p.
             find_first_local_ancestor fuel nd ops p nod m w)))))"

definition demote_task ::
  "nat \<Rightarrow> bool \<Rightarrow> 'w tree_op \<Rightarrow> node_pair \<Rightarrow> demotion_map \<Rightarrow> 'w \<Rightarrow> (demotion_map \<times> 'w) res" where
  "demote_task fuel nd ops task m w =
     (let (addr, par) = task
      in if op_type ops = Tree_Art then
           if par = 0
           then and_then (migrate_internode fuel nd ops addr Mem_Remote 1 w) (\<lambda>w1. Inr (m, w1))
           else (let cur = op_get_leaf ops addr
                 in and_then (leaf_meta_of ops cur w) (\<lambda>meta.
                    if leaf_get_type meta = Mem_Remote then find_first_local_ancestor fuel nd ops par cur m w
                    else and_then (migrate_leaf fuel nd ops cur par Mem_Remote w) (\<lambda>w1. Inr (m, w1))))
         else if op_is_leaf ops addr w
         then and_then (migrate_leaf fuel nd ops (op_get_leaf ops addr) 0 Mem_Remote w) (\<lambda>w1. Inr (m, w1))
         else and_then (migrate_internode fuel nd ops addr Mem_Remote 0 w) (\<lambda>w1. Inr (m, w1)))"

fun demotion_loop ::
  "nat \<Rightarrow> nat \<Rightarrow> bool \<Rightarrow> 'w tree_op \<Rightarrow> demotion_map \<Rightarrow> 'w \<Rightarrow> (demotion_map \<times> 'w) res" where
  "demotion_loop 0 fuel nd ops m w = Inl Out_Of_Fuel"
| "demotion_loop (Suc tasks) fuel nd ops m w =
     (let b = get_base ops w
      in if \<not> (can_demote b \<and> is_running b) then Inr (m, w)
         else
           (let (task, b1) = take_task ops Demotion b; w1 = put_base ops b1 w
            in if fst task = 0 then Inr (m, w1)
               else and_then (demote_task fuel nd ops task m w1) (\<lambda>(m1, w2).
                    demotion_loop tasks fuel nd ops m1 w2)))"

text \<open>After the loop the pair queue is emptied, for Masstree too; the map starts empty in every round.\<close>

definition demotion_round :: "nat \<Rightarrow> nat \<Rightarrow> bool \<Rightarrow> 'w tree_op \<Rightarrow> 'w \<Rightarrow> 'w res" where
  "demotion_round tasks fuel nd ops w =
     and_then (demotion_loop tasks fuel nd ops (\<lambda>_. None)
         (update_base ops (\<lambda>b. b\<lparr>need_demotion := True, is_demoting := True\<rparr>) w)) (\<lambda>(m, w1).
     Inr (update_base ops (\<lambda>b.
            let b1 = b\<lparr>need_demotion := False, is_demoting := False\<rparr>;
                b2 = clear_queue (queue_bound b1)
                       (\<lambda>b. let (task, q) = get_multi_task (mqueue b) Demotion in (task, b\<lparr>mqueue := q\<rparr>))
                       (can_demote b1) b1
            in b2\<lparr>demoting_complete := True\<rparr>) w1))"

section \<open>The cooler\<close>

definition cool_down_cb :: "bool \<Rightarrow> 'w tree_op \<Rightarrow> u64 \<Rightarrow> 'w \<Rightarrow> 'w res" where
  "cool_down_cb nd ops cur w =
     (if cur = 0 \<and> \<not> nd then Inl (Throw ''[DEBUG] [cool_down_cb] the leaf node shouldnt be nullptr'')
      else and_then (leaf_meta_of ops cur w) (\<lambda>m. set_access_time ops cur (drop_bit 1 (access_time m)) w))"

fun cool_down_all :: "bool \<Rightarrow> 'w tree_op \<Rightarrow> (u64 \<times> u64) list \<Rightarrow> 'w \<Rightarrow> 'w res" where
  "cool_down_all nd ops [] w = Inr w"
| "cool_down_all nd ops ((par, cur) # xs) w =
     and_then (cool_down_cb nd ops cur w) (cool_down_all nd ops xs)"

definition cooler_round :: "bool \<Rightarrow> 'w tree_op \<Rightarrow> sidle_histogram \<Rightarrow> 'w \<Rightarrow> (sidle_histogram \<times> 'w) res" where
  "cooler_round nd ops h w =
     and_then (traverse_func ops w) (\<lambda>visited.
     and_then (cool_down_all nd ops visited w) (\<lambda>w1.
     and_then (adjust_for_cooling (notify_cooling h)) (\<lambda>h1. Inr (h1, w1))))"

section \<open>The threshold adjuster\<close>

text \<open>
  While the adjuster waits, the other workers go on. \<open>others k\<close> is what they do during the \<open>k\<close>-th wait:
  for the cooler, for the demotion executor to stop, and for it to complete (a wait with a time-out).
\<close>

type_synonym 'w world = "sidle_histogram \<times> 'w"

definition shrink_thresholds :: "sidle_threshold \<Rightarrow> sidle_threshold" where
  "shrink_thresholds t = adjust_demotion_depth_threshold True (adjust_local_allocation_threshold True t)"

definition extend_thresholds :: "bool \<Rightarrow> sidle_threshold \<Rightarrow> sidle_threshold" where
  "extend_thresholds hotter t =
     adjust_hotness_watermark False hotter
       (adjust_demotion_depth_threshold False (adjust_local_allocation_threshold False t))"

definition check_tight :: "'w tree_op \<Rightarrow> 'w \<Rightarrow> bool" where
  "check_tight ops w \<longleftrightarrow> strategy_check_memory_usage (get_strategy ops w) = Usage_Tight"

definition interrupt_workers :: "worker_base \<Rightarrow> worker_base" where
  "interrupt_workers b = b\<lparr>can_trigger := False, can_demote := False\<rparr>"

definition wake_trigger :: "worker_base \<Rightarrow> worker_base" where
  "wake_trigger b =
     b\<lparr>can_trigger := True, can_demote := True, is_triggering_migration := True, demoting_complete := False\<rparr>"

text \<open>The rounds of the loop in \<open>handle_local_mem_shortage\<close>; the first argument counts those that are left.\<close>

fun shortage_rounds ::
  "nat \<Rightarrow> (nat \<Rightarrow> 'w world \<Rightarrow> 'w world) \<Rightarrow> 'w tree_op \<Rightarrow> nat \<Rightarrow> 'w world \<Rightarrow> 'w world res" where
  "shortage_rounds 0 others ops k s = Inr s"
| "shortage_rounds (Suc left) others ops k (h, w) =
     (let w1 = update_base ops interrupt_workers w;
          w2 = update_thresholds ops (adjust_hotness_watermark False False) w1;
          (h3, w3) = others k (h, w2)
      in and_then (adjust_threshold (thresholds_of ops w3) h3) (\<lambda>h4.
         let (h5, w5) = others (k + 1) (h4, w3)
         in if is_demoting (get_base ops w5) \<and> is_running (get_base ops w5) then Inl Spin
            else
              (let w6 = update_base ops wake_trigger w5; (h7, w7) = others (k + 2) (h5, w6)
               in if check_tight ops w7 then shortage_rounds left others ops (k + 3) (h7, w7)
                  else Inr (h7, w7))))"

definition handle_local_mem_shortage ::
  "(nat \<Rightarrow> 'w world \<Rightarrow> 'w world) \<Rightarrow> 'w tree_op \<Rightarrow> 'w world \<Rightarrow> 'w world res" where
  "handle_local_mem_shortage others ops s =
     (let (h, w) = s;
          w1 = update_base ops (\<lambda>b. b\<lparr>can_promote := False\<rparr>) w;
          w2 = update_thresholds ops shrink_thresholds w1
      in and_then (shortage_rounds default_threshold_adjust_times others ops 0 (h, w2)) (\<lambda>(h3, w3).
         Inr (h3, update_base ops (\<lambda>b. b\<lparr>can_promote := True\<rparr>)
                    (update_thresholds ops (extend_thresholds False) w3))))"

definition handle_local_mem_sufficient :: "'w tree_op \<Rightarrow> 'w \<Rightarrow> 'w" where
  "handle_local_mem_sufficient ops w = update_thresholds ops (extend_thresholds True) w"

definition adjuster_round ::
  "(nat \<Rightarrow> 'w world \<Rightarrow> 'w world) \<Rightarrow> 'w tree_op \<Rightarrow> 'w world \<Rightarrow> 'w world res" where
  "adjuster_round others ops s =
     (let (h, w) = s;
          w1 = update_base ops (\<lambda>b. b\<lparr>need_adjust_threshold := True\<rparr>) w
      in and_then
           (case strategy_check_memory_usage (get_strategy ops w1) of
              Usage_Tight \<Rightarrow> handle_local_mem_shortage others ops (h, w1)
            | Usage_Sufficient \<Rightarrow> Inr (h, handle_local_mem_sufficient ops w1)
            | Usage_Normal \<Rightarrow> Inr (h, update_thresholds ops (adjust_hotness_watermark False False) w1))
           (\<lambda>(h2, w2). Inr (h2, update_base ops (\<lambda>b. b\<lparr>need_adjust_threshold := False\<rparr>) w2)))"

section \<open>What the workers rely on\<close>

text \<open>
  The static state of the workers and the strategy manager are two separate parts of the state of the
  tree, and the nodes are a third.
\<close>

locale worker_world =
  fixes ops :: "'w tree_op"
  assumes base_put: "get_base ops (put_base ops b w) = b"
    and base_put_strategy: "get_base ops (put_strategy ops st w) = get_base ops w"
    and strategy_put: "get_strategy ops (put_strategy ops st w) = st"
    and strategy_put_base: "get_strategy ops (put_base ops b w) = get_strategy ops w"
    and leaf_meta_put_base: "leaf_meta_of ops a (put_base ops b w) = leaf_meta_of ops a w"
begin

lemma base_update: "get_base ops (update_base ops f w) = f (get_base ops w)"
  "get_base ops (update_thresholds ops g w) = get_base ops w"
  by (simp_all add: update_base_def update_thresholds_def base_put base_put_strategy Let_def)

lemma thresholds_update: "thresholds_of ops (update_base ops f w) = thresholds_of ops w"
  "thresholds_of ops (update_thresholds ops g w) = g (thresholds_of ops w)"
  by (simp_all add: update_base_def update_thresholds_def thresholds_of_def strategy_put strategy_put_base Let_def)

lemma leaf_meta_update: "leaf_meta_of ops a (update_base ops f w) = leaf_meta_of ops a w"
  by (simp add: update_base_def leaf_meta_put_base)

lemmas world_updates = base_update thresholds_update leaf_meta_update

end

section \<open>What the trigger queues\<close>

definition promotes :: "worker_base \<Rightarrow> sidle_histogram \<Rightarrow> leaf_metadata \<Rightarrow> bool" where
  "promotes b h m \<longleftrightarrow> can_promote b \<and> leaf_get_type m = Mem_Remote \<and> hotness_of h (access_time m) = Hot"

definition demotes :: "migration_trigger \<Rightarrow> sidle_histogram \<Rightarrow> leaf_metadata \<Rightarrow> bool" where
  "demotes t h m \<longleftrightarrow>
     hotness_of h (access_time m) = Cold \<and> (leaf_get_type m = Mem_Local \<or> call_by_adjuster t)"

lemma check_execute_keeps [simp]:
  "mqueue (check_execute_promotion b) = mqueue b" "can_promote (check_execute_promotion b) = can_promote b"
  "mqueue (check_execute_demotion b) = mqueue b" "can_promote (check_execute_demotion b) = can_promote b"
  by (simp_all add: check_execute_promotion_def check_execute_demotion_def)

lemma queue_task_art:
  assumes "op_type ops = Tree_Art"
  shows "promotion_pair_queue (mqueue (queue_task ops Promotion x b)) = promotion_pair_queue (mqueue b) @ [x]"
    "demotion_pair_queue (mqueue (queue_task ops Promotion x b)) = demotion_pair_queue (mqueue b)"
    "promotion_pair_queue (mqueue (queue_task ops Demotion x b)) = promotion_pair_queue (mqueue b)"
    "demotion_pair_queue (mqueue (queue_task ops Demotion x b)) = demotion_pair_queue (mqueue b) @ [x]"
    "can_promote (queue_task ops type x b) = can_promote b"
  using assms by (simp_all add: queue_task_def add_multi_task_def enqueue_def)

context worker_world
begin

lemma trigger_cb:
  assumes "op_type ops = Tree_Art" and "leaf_meta_of ops cur w = Inr m" and "par \<noteq> 0"
    and "length (next_histogram h) = 16"
  shows "\<exists>t1 n w1. trigger_migration_cb nd ops par cur t h w = Inr (t1, h\<lparr>next_histogram := n\<rparr>, w1) \<and>
    length n = 16 \<and> call_by_adjuster t1 = call_by_adjuster t \<and> node_counter t1 = node_counter t + 1 \<and>
    can_promote (get_base ops w1) = can_promote (get_base ops w) \<and>
    promotion_pair_queue (mqueue (get_base ops w1)) = promotion_pair_queue (mqueue (get_base ops w)) @
      (if promotes (get_base ops w) h m then [(make_leaf (cur + 1), par)] else []) \<and>
    demotion_pair_queue (mqueue (get_base ops w1)) = demotion_pair_queue (mqueue (get_base ops w)) @
      (if demotes t h m then [(make_leaf (cur + 1), par)] else []) \<and>
    (\<forall>a. leaf_meta_of ops a w1 = leaf_meta_of ops a w)"
proof -
  define n where "n = (next_histogram h)[bucket (access_time m) := next_histogram h ! bucket (access_time m) + 1]"
  have "update_histogram (access_time m) h = Inr (hotness_of h (access_time m), h\<lparr>next_histogram := n\<rparr>)"
    using update_histogram_bucket [OF assms(4)] by (simp add: n_def)
  moreover have "length n = 16" using assms(4) by (simp add: n_def)
  moreover have "promotes (get_base ops w) h m \<Longrightarrow> \<not> demotes t h m" by (simp add: promotes_def demotes_def)
  ultimately show ?thesis
    using assms(1-3) by (auto simp: trigger_migration_cb_def Let_def promotes_def demotes_def leaf_task_def
        world_updates queue_task_art)
qed

lemma trigger_visits:
  assumes "op_type ops = Tree_Art" and "\<forall>(par, cur) \<in> set xs. par \<noteq> 0 \<and> leaf_meta_of ops cur w = Inr (ml cur)"
    and "length (next_histogram h) = 16"
  shows "\<exists>t1 n w1. trigger_visit nd ops xs t h w = Inr (t1, h\<lparr>next_histogram := n\<rparr>, w1) \<and>
    length n = 16 \<and> node_counter t1 = node_counter t + of_nat (length xs) \<and>
    promotion_pair_queue (mqueue (get_base ops w1)) = promotion_pair_queue (mqueue (get_base ops w)) @
      [(make_leaf (cur + 1), par). (par, cur) \<leftarrow> xs, promotes (get_base ops w) h (ml cur)] \<and>
    demotion_pair_queue (mqueue (get_base ops w1)) = demotion_pair_queue (mqueue (get_base ops w)) @
      [(make_leaf (cur + 1), par). (par, cur) \<leftarrow> xs, demotes t h (ml cur)]"
  using assms(2,3)
proof (induction xs arbitrary: t h w)
  case (Cons x xs)
  obtain par cur where x: "x = (par, cur)" by (cases x)
  with Cons.prems have "leaf_meta_of ops cur w = Inr (ml cur)" "par \<noteq> 0" by auto
  from trigger_cb [OF assms(1) this Cons.prems(2), of nd t] obtain t1 n w1 where
    cb: "trigger_migration_cb nd ops par cur t h w = Inr (t1, h\<lparr>next_histogram := n\<rparr>, w1)" "length n = 16"
    and keep: "call_by_adjuster t1 = call_by_adjuster t" "node_counter t1 = node_counter t + 1"
    "can_promote (get_base ops w1) = can_promote (get_base ops w)" "\<forall>a. leaf_meta_of ops a w1 = leaf_meta_of ops a w"
    and queues: "promotion_pair_queue (mqueue (get_base ops w1)) = promotion_pair_queue (mqueue (get_base ops w)) @
      (if promotes (get_base ops w) h (ml cur) then [(make_leaf (cur + 1), par)] else [])"
    "demotion_pair_queue (mqueue (get_base ops w1)) = demotion_pair_queue (mqueue (get_base ops w)) @
      (if demotes t h (ml cur) then [(make_leaf (cur + 1), par)] else [])" by blast
  have same: "hotness_of (h\<lparr>next_histogram := n\<rparr>) = hotness_of h" by (rule ext) (simp add: hotness_of_def)
  then have hot: "promotes (get_base ops w1) (h\<lparr>next_histogram := n\<rparr>) = promotes (get_base ops w) h"
    "demotes t1 (h\<lparr>next_histogram := n\<rparr>) = demotes t h"
    by (simp_all add: promotes_def demotes_def keep fun_eq_iff)
  have "\<forall>(par, cur) \<in> set xs. par \<noteq> 0 \<and> leaf_meta_of ops cur w1 = Inr (ml cur)"
    using Cons.prems(1) keep(4) by auto
  moreover have "length (next_histogram (h\<lparr>next_histogram := n\<rparr>)) = 16" using cb(2) by simp
  ultimately show ?case
    using Cons.IH [of w1 "h\<lparr>next_histogram := n\<rparr>" t1] cb keep queues hot by (auto simp: x)
next
  case Nil
  show ?case by (intro exI [of _ t] exI [of _ "next_histogram h"] exI [of _ w]) (simp add: Nil.prems(2))
qed

end

section \<open>What the adjuster keeps\<close>

text \<open>Every update of the adjuster is a sequence of the steps of the policy.\<close>

definition step_invariant :: "(sidle_threshold \<Rightarrow> bool) \<Rightarrow> bool" where
  "step_invariant I \<longleftrightarrow> (\<forall>t x. I t \<longrightarrow> x \<noteq> Correct_With_Leaf_Depth 0 \<longrightarrow> lower_bound_below 85 x \<longrightarrow>
     I (threshold_step t x))"

lemma step_invariantD:
  assumes "step_invariant I" and "I t"
  shows "I (adjust_local_allocation_threshold b t)" "I (adjust_demotion_depth_threshold b t)"
    "I (adjust_hotness_watermark r s t)"
  using assms(2) spec [OF assms(1) [unfolded step_invariant_def], of t]
  by (auto dest: spec [of _ "Adjust_Local_Allocation b"]
      spec [of _ "Adjust_Demotion_Depth b"] spec [of _ "Adjust_Hotness r s"])

lemma adjuster_steps:
  assumes "step_invariant I" and "I t"
  shows "I (shrink_thresholds t)" "I (extend_thresholds b t)"
  unfolding shrink_thresholds_def extend_thresholds_def by (intro step_invariantD [OF assms(1)] assms(2))+

definition others_keep :: "'w tree_op \<Rightarrow> (sidle_threshold \<Rightarrow> bool) \<Rightarrow> (nat \<Rightarrow> 'w world \<Rightarrow> 'w world) \<Rightarrow> bool" where
  "others_keep ops I others \<longleftrightarrow> (\<forall>k h w. I (thresholds_of ops w) \<longrightarrow> I (thresholds_of ops (snd (others k (h, w)))))"

lemma others_keepD:
  "others_keep ops I others \<Longrightarrow> I (thresholds_of ops w) \<Longrightarrow> others k (h, w) = (h1, w1) \<Longrightarrow> I (thresholds_of ops w1)"
  by (metis others_keep_def snd_conv)

context worker_world
begin

lemma shortage_rounds_keep:
  assumes "step_invariant I" and "others_keep ops I others"
  shows "I (thresholds_of ops w) \<Longrightarrow> shortage_rounds left others ops k (h, w) = Inr (h', w') \<Longrightarrow>
    I (thresholds_of ops w')"
proof (induction left arbitrary: k h w)
  case (Suc left)
  define w2 where "w2 = update_thresholds ops (adjust_hotness_watermark False False) (update_base ops interrupt_workers w)"
  obtain h3 w3 where o3: "others k (h, w2) = (h3, w3)" by fastforce
  with Suc.prems(2) obtain h4 where h4: "adjust_threshold (thresholds_of ops w3) h3 = Inr h4"
    by (cases "adjust_threshold (thresholds_of ops w3) h3") (auto simp: Let_def w2_def [symmetric])
  obtain h5 w5 where o5: "others (k + 1) (h4, w3) = (h5, w5)" by fastforce
  define w6 where "w6 = update_base ops wake_trigger w5"
  obtain h7 w7 where o7: "others (k + 2) (h5, w6) = (h7, w7)" by fastforce
  have "I (thresholds_of ops w2)"
    using Suc.prems(1) step_invariantD(3) [OF assms(1)] by (simp add: w2_def world_updates)
  then have "I (thresholds_of ops w3)" by (rule others_keepD [OF assms(2) _ o3])
  then have "I (thresholds_of ops w5)" by (rule others_keepD [OF assms(2) _ o5])
  then have "I (thresholds_of ops w6)" by (simp add: w6_def world_updates)
  then have inv: "I (thresholds_of ops w7)" by (rule others_keepD [OF assms(2) _ o7])
  have "shortage_rounds (Suc left) others ops k (h, w) =
      (if is_demoting (get_base ops w5) \<and> is_running (get_base ops w5) then Inl Spin
       else if check_tight ops w7 then shortage_rounds left others ops (k + 3) (h7, w7) else Inr (h7, w7))"
    using o3 h4 o5 o7 by (simp add: Let_def w2_def [symmetric] w6_def [symmetric])
  with Suc.prems(2) inv Suc.IH [of w7 "k + 3" h7] show ?case by (auto split: if_splits)
qed simp

lemma adjuster_keeps:
  assumes "step_invariant I" and "others_keep ops I others" and "I (thresholds_of ops w)"
    and "adjuster_round others ops (h, w) = Inr (h', w')"
  shows "I (thresholds_of ops w') \<and> \<not> need_adjust_threshold (get_base ops w') \<and>
    (check_tight ops w \<longrightarrow> can_promote (get_base ops w'))"
proof -
  define w1 where "w1 = update_base ops (\<lambda>b. b\<lparr>need_adjust_threshold := True\<rparr>) w"
  have w1: "thresholds_of ops w1 = thresholds_of ops w" "get_strategy ops w1 = get_strategy ops w"
    by (simp_all add: w1_def world_updates) (simp add: update_base_def strategy_put_base)
  note steps = step_invariantD [OF assms(1)] adjuster_steps [OF assms(1)]
  show ?thesis
  proof (cases "strategy_check_memory_usage (get_strategy ops w)")
    case Usage_Tight
    define w2 where "w2 = update_thresholds ops shrink_thresholds (update_base ops (\<lambda>b. b\<lparr>can_promote := False\<rparr>) w1)"
    from Usage_Tight assms(4) obtain w3 where run: "shortage_rounds default_threshold_adjust_times others ops 0 (h, w2) = Inr (h', w3)"
      and w': "w' = update_base ops (\<lambda>b. b\<lparr>need_adjust_threshold := False\<rparr>)
        (update_base ops (\<lambda>b. b\<lparr>can_promote := True\<rparr>) (update_thresholds ops (extend_thresholds False) w3))"
      by (auto simp: adjuster_round_def handle_local_mem_shortage_def Let_def w1_def [symmetric]
          w2_def [symmetric] w1 and_then_Inr_iff)
    have "I (thresholds_of ops w2)" using assms(3) steps by (simp add: w2_def world_updates w1)
    then have "I (thresholds_of ops w3)" by (rule shortage_rounds_keep [OF assms(1,2) _ run])
    with w' steps show ?thesis by (simp add: world_updates)
  next
    case Usage_Normal
    with assms(3,4) steps show ?thesis
      by (auto simp: adjuster_round_def Let_def w1_def [symmetric] w1 world_updates check_tight_def)
  next
    case Usage_Sufficient
    with assms(3,4) steps show ?thesis
      by (auto simp: adjuster_round_def Let_def w1_def [symmetric] w1 world_updates check_tight_def
          handle_local_mem_sufficient_def)
  qed
qed

end

section \<open>When a queued node is demoted\<close>

definition local_child :: "'w tree_op \<Rightarrow> 'w \<Rightarrow> u64 \<Rightarrow> bool res" where
  "local_child ops w c =
     (if op_is_leaf ops c w
      then and_then (leaf_meta_of ops (op_get_leaf ops c) w) (\<lambda>m. Inr (leaf_get_type m = Mem_Local))
      else and_then (node_meta_of ops c w) (\<lambda>m. Inr (md_type m = Mem_Local)))"

lemma any_local_spec:
  "\<forall>c \<in> set cs. \<exists>b. local_child ops w c = Inr b \<Longrightarrow>
     any_local ops cs w = Inr (\<exists>c \<in> set cs. local_child ops w c = Inr True)"
  by (induction cs) (auto simp: local_child_def)

lemma need_continue_remote:
  assumes "node_meta_of ops a w = Inr md" and "node_traverse_func ops a w = Inr cs"
    and "\<forall>c \<in> set cs. \<exists>b. local_child ops w c = Inr b" and "a \<noteq> 0"
  shows "need_continue_migrate ops a Mem_Remote has_migrated w = Inr
    (if unat (md_depth md) \<le> unat (demotion_depth_threshold (thresholds_of ops w)) \<or> md_depth md = 1 then Stop
     else if \<exists>c \<in> set cs. local_child ops w c = Inr True then if has_migrated = 0 then Stop else Delay
     else Proceed)"
  using assms by (simp add: need_continue_migrate_def any_local_spec)

end
