(* ===== verification/Art_Migration.thy ===== *)
theory Art_Migration
  imports Art_Index
begin

text \<open>
  The migration of single nodes between the two memory tiers (\<open>third_party/art/art.cc\<close> from
  \<open>replace_old_child_ptr\<close> on): a copy of the node is allocated in the target tier and the pointer of its
  parent is redirected. Both calls return the parent, still locked, or null when they gave up.
\<close>

section \<open>Redirecting pointers\<close>

text \<open>The slots of a node in the order of the search, and the first of them that holds the old pointer.\<close>

definition search_slots :: "art_node \<Rightarrow> nat list" where
  "search_slots n =
     (let v = version n in
      if get_node_type v = node4 \<or> get_node_type v = node16 then [0..<get_count v]
      else if get_node_type v = node48 then map (\<lambda>i. unat i - 1) (filter (\<lambda>i. i \<noteq> 0) (take 256 (index n)))
      else [0..<256])"

fun replace_first :: "u64 \<Rightarrow> u64 \<Rightarrow> nat list \<Rightarrow> u64 list \<Rightarrow> u64 list res" where
  "replace_first old new [] cs = Inr cs"
| "replace_first old new (i # slots) cs =
     and_then (byte_at cs i) (\<lambda>c.
     if c = old then write_at cs i new else replace_first old new slots cs)"

definition replace_old_child_ptr :: "u64 \<Rightarrow> u64 \<Rightarrow> u64 \<Rightarrow> art_heap \<Rightarrow> art_heap res" where
  "replace_old_child_ptr par old_child new_child h =
     (if par = 0 \<and> \<not> ndebug h then Inl (Throw ''[DEBUG] parent node shouldnt be empty'')
      else and_then (load_node par h) (\<lambda>n.
           and_then (replace_first old_child new_child (search_slots n) (child n)) (\<lambda>cs.
           Inr (store_node par (n\<lparr>child := cs\<rparr>) h))))"

definition get_children :: "u64 \<Rightarrow> art_heap \<Rightarrow> u64 list res" where
  "get_children cur_node h =
     (if cur_node = 0 \<and> \<not> ndebug h then Inl (Throw ''[DEBUG] [get_children] cur_node shouldnt be empty'')
      else and_then (load_node cur_node h) (\<lambda>n. Inr (child n)))"

definition replace_old_parent_ptr :: "u64 \<Rightarrow> art_heap \<Rightarrow> art_heap res" where
  "replace_old_parent_ptr cur_node h =
     (if cur_node = 0 \<and> \<not> ndebug h
      then Inl (Throw ''[DEBUG] [replace_old_parent_ptr] cur_node shouldnt be empty'')
      else art_node_traverse cur_node
        (\<lambda>h c. if is_leaf c then Inr (True, h)
               else and_then (modify_node c (\<lambda>n. n\<lparr>parent := cur_node\<rparr>) h) (\<lambda>h1. Inr (True, h1))) h)"

section \<open>Migration\<close>

text \<open>
  The new leaf takes over the metadata of the old one with the type of the target. The old pointer the
  code searches in the parent is \<open>make_leaf(cur_node)\<close>.
\<close>

definition leaf_migration :: "u64 \<Rightarrow> u64 \<Rightarrow> node_mem_type \<Rightarrow> art_heap \<Rightarrow> (u64 \<times> art_heap) res" where
  "leaf_migration cur_node par target_type h =
     (if cur_node = 0 then Inr (0, h)
      else and_then (load_leaf cur_node h) (\<lambda>l.
        if md_type (metadata (leaf_meta l)) = target_type then Inr (0, h)
        else if par = 0 then Inl (Throw ''the root node should not be migrated'')
        else and_then (art_node_get_version par h) (\<lambda>pv.
        if art_node_version_is_old pv \<or> is_locked pv then Inr (0, h)
        else and_then (art_node_lock par h) (\<lambda>(r, h1).
        if r \<noteq> 0 then Inr (0, h1)
        else and_then (alloc_leaf par (leaf_key l) target_type True h1) (\<lambda>(new_node_ptr, h2).
        and_then (modify_leaf (get_leaf new_node_ptr) (\<lambda>m. m\<lparr>leaf_meta :=
            (leaf_meta l)\<lparr>metadata := (metadata (leaf_meta l))\<lparr>md_type := target_type\<rparr>\<rparr>\<rparr>) h2) (\<lambda>h3.
        and_then (replace_old_child_ptr par (make_leaf cur_node) new_node_ptr h3) (\<lambda>h4.
        Inr (par, h4))))))))"

definition IS_VALID_ADDR :: "u64 \<Rightarrow> bool" where
  "IS_VALID_ADDR addr \<longleftrightarrow> drop_bit 48 addr = 0"

text \<open>The copy, the two pointers and the retirement of the original, once it is locked.\<close>

definition move_internode :: "u64 \<Rightarrow> u64 \<Rightarrow> node_mem_type \<Rightarrow> art_heap \<Rightarrow> (u64 \<times> art_heap) res" where
  "move_internode original_node v target_type h =
     and_then (new_sized_node (art_node_size v) 0 0 target_type True h) (\<lambda>(new_node, h1).
     and_then (load_node original_node h1) (\<lambda>n.
     and_then (art_node_get_locked_parent original_node
         (store_node new_node (n\<lparr>sidle_meta := (sidle_meta n)\<lparr>md_type := target_type\<rparr>\<rparr>) h1)) (\<lambda>(par, h2).
     if par = 0 \<and> \<not> ndebug h2 then Inl (Throw ''[migrate_internode] the parent node shouldnt be empty'')
     else and_then (replace_old_child_ptr par original_node new_node h2) (\<lambda>h3.
     and_then (replace_old_parent_ptr new_node h3) (\<lambda>h4.
     and_then (art_node_set_new_node original_node new_node h4) (\<lambda>h5.
     and_then (art_node_set_version original_node (set_old v) h5) (\<lambda>h6.
     and_then (art_node_unlock original_node h6) (\<lambda>h7.
     and_then (art_node_unlock new_node h7) (\<lambda>h8.
     Inr (par, h8))))))))))"

definition give_up :: "u64 \<Rightarrow> art_heap \<Rightarrow> (u64 \<times> art_heap) res" where
  "give_up an h = and_then (art_node_unlock an h) (\<lambda>h1. Inr (0, h1))"

definition migrate_locked :: "u64 \<Rightarrow> node_mem_type \<Rightarrow> art_heap \<Rightarrow> (u64 \<times> art_heap) res" where
  "migrate_locked original_node target_type h =
     and_then (load_node original_node h) (\<lambda>n.
     let v = version n; depth = md_depth (sidle_meta n) in
     if \<not> ndebug h \<and> is_locked v
     then Inl (Throw ''[DEBUG] [migrate_internode] the original node should be locked'')
     else if \<not> ndebug h \<and> \<not> 1 < depth
     then Inl (Throw ''[DEBUG] [migrate_internode] the original node shouldnt be the root'')
     else if art_node_version_is_old v then give_up original_node h
     else if \<not> IS_VALID_ADDR (parent n) then give_up original_node h
     else if depth = 1 then give_up original_node h
     else move_internode original_node v target_type h)"

definition internode_migration ::
  "u64 \<Rightarrow> node_mem_type \<Rightarrow> bool \<Rightarrow> art_heap \<Rightarrow> (u64 \<times> art_heap) res" where
  "internode_migration original_node target_type need_lock_first h =
     (if need_lock_first
      then and_then (art_node_get_version original_node h) (\<lambda>v.
        if art_node_version_is_old v \<or> is_locked v then Inr (0, h)
        else and_then (art_node_lock original_node h) (\<lambda>(r, h1).
        if r \<noteq> 0 then Inr (0, h1) else migrate_locked original_node target_type h1))
      else migrate_locked original_node target_type h)"

definition unlock_node :: "u64 \<Rightarrow> art_heap \<Rightarrow> art_heap res" where
  "unlock_node an h =
     (if an = 0 then Inr h
      else and_then (art_node_get_version an h) (\<lambda>v. if is_locked v then art_node_unlock an h else Inr h))"

definition get_art_leaf :: "u64 \<Rightarrow> u64" where
  "get_art_leaf an = get_leaf an"

definition is_art_leaf :: "u64 \<Rightarrow> bool" where
  "is_art_leaf an = is_leaf an"

section \<open>The search for the old pointer\<close>

lemma replace_first_absent:
  "old \<notin> set cs \<Longrightarrow> replace_first old new slots cs = Inr cs' \<Longrightarrow> cs' = cs"
  by (induction slots) (auto simp: and_then_Inr_iff byte_at_def split: if_splits)

lemma replace_first_found:
  assumes "\<forall>i \<in> set slots. i < length cs" and "i \<in> set slots" and "cs ! i = old"
    and "\<forall>j \<in> set slots. cs ! j = old \<longrightarrow> j = i"
  shows "replace_first old new slots cs = Inr (cs[i := new])"
  using assms
proof (induction slots)
  case (Cons j slots)
  show ?case
  proof (cases "cs ! j = old")
    case True
    with Cons.prems have "j = i" "i < length cs" by simp_all
    with True show ?thesis by simp
  next
    case False
    with Cons show ?thesis by fastforce
  qed
qed simp

text \<open>The tags are odd addresses; the tag the code looks for is two below the tag that is stored.\<close>

lemma make_leaf_of_leaf:
  assumes "even a"
  shows "make_leaf a = a - 1"
proof -
  have "odd (a - 1)" using assms by (metis diff_add_cancel even_plus_one_iff)
  then show ?thesis by (simp add: make_leaf_def or_one_eq even_iff_mod_2_eq_zero)
qed

lemma stale_tag: "even a \<Longrightarrow> make_leaf a \<noteq> make_leaf (a + 1)"
proof
  assume "even a" and "make_leaf a = make_leaf (a + 1)"
  then have "(a + 1) - (a - 1) = 0" by (simp add: make_leaf_of_leaf make_leaf_even)
  then show False by simp
qed

section \<open>Frames\<close>

lemma sidle_alloc_frame:
  assumes "sidle_alloc sz pm tt mig lf old h = Inr (an, ty, d, h1)"
  shows "nodes h1 = nodes h" "leaves h1 = leaves h" "ndebug h1 = ndebug h" "art_root h1 = art_root h" "an \<noteq> 0"
  using assms by (auto simp: sidle_alloc_def Let_def and_then_Inr_iff split: if_splits prod.splits)

lemma alloc_leaf_frame:
  assumes "alloc_leaf par k tt mig h = Inr (ptr, h1)"
  shows "nodes h1 = nodes h" "ndebug h1 = ndebug h"
  using assms by (auto simp: alloc_leaf_def and_then_Inr_iff dest: sidle_alloc_frame split: prod.splits)

section \<open>Properties\<close>

text \<open>
  C38. A leaf migration never takes effect in the tree. It looks for the tag of the wrong address, which no
  parent holds as long as no other leaf lies two bytes below; so every child pointer of the parent
  stays as it was, although the call reports success, has allocated the copy and leaves the parent locked.
\<close>

theorem leaf_migration_keeps_old_pointer:
  assumes "leaf_migration a p t h = Inr (r, h')" and "r \<noteq> 0"
    and "nodes h p = Some n" and "even a" and "a - 1 \<notin> set (child n)"
  shows "r = p \<and> nodes h' = (nodes h)(p \<mapsto> n\<lparr>version := set_lock (version n)\<rparr>) \<and> is_locked (set_lock (version n))"
proof -
  obtain h2 h3 h4 ptr k f where lock: "art_node_lock p h = Inr (0, h2)"
    and alloc: "alloc_leaf p k t True h2 = Inr (ptr, h3)"
    and leaf: "modify_leaf (get_leaf ptr) f h3 = Inr h4"
    and swing: "replace_old_child_ptr p (make_leaf a) ptr h4 = Inr h'" and r: "r = p"
    using assms(1,2) by (auto simp: leaf_migration_def and_then_Inr_iff split: if_splits prod.splits)
  from lock assms(3) have h2: "h2 = store_node p (n\<lparr>version := set_lock (version n)\<rparr>) h"
    by (auto simp: art_node_lock_def get_version_simp set_version_simp split: if_splits)
  have n4: "nodes h4 = nodes h2"
    using leaf alloc_leaf_frame [OF alloc] by (auto simp: modify_leaf_def and_then_Inr_iff)
  with h2 have "nodes h4 p = Some (n\<lparr>version := set_lock (version n)\<rparr>)" by simp
  with swing obtain cs where "replace_first (make_leaf a) ptr (search_slots (n\<lparr>version := set_lock (version n)\<rparr>)) (child n) = Inr cs"
    and h': "h' = store_node p (n\<lparr>version := set_lock (version n), child := cs\<rparr>) h4"
    by (auto simp: replace_old_child_ptr_def and_then_Inr_iff load_node_simp split: if_splits)
  then have "cs = child n" using replace_first_absent assms(5) make_leaf_of_leaf [OF assms(4)] by metis
  with h' n4 h2 r show ?thesis by (simp add: bitfield)
qed

lemma store_leaf_twice: "store_leaf a l (store_leaf a m h) = store_leaf a l h"
  by (simp add: store_leaf_def)

lemma sample_leaf_migration:
  "\<exists>h'. leaf_migration 512 256 Mem_Remote (sample_tree\<lparr>ndebug := True\<rparr>) = Inr (256, h')"
proof -
  let ?h = "sample_tree\<lparr>ndebug := True\<rparr>"
  let ?n = "sample_node\<lparr>version := set_lock (version sample_node)\<rparr>"
  have cells: "nodes ?h 256 = Some sample_node" "leaves ?h 512 = Some (sample_leaf [1, 1])"
    by (simp_all add: sample_tree_cells)
  have type: "md_type (metadata (leaf_meta (sample_leaf [1, 1]))) = Mem_Local"
    by (simp add: sample_leaf_def make_leaf_metadata_def make_node_metadata_def)
  let ?h1 = "store_node 256 ?n ?h"
  have lock: "art_node_lock 256 ?h = Inr (0, ?h1)"
    by (rule lock_simp) (use cells sample_version in simp_all)
  have "\<exists>d h2. sidle_alloc (sizeof_leaf_node + 2) (Some (sidle_meta ?n)) Mem_Remote True True 0 ?h1 =
      Inr (65536, Mem_Remote, d, h2)"
    by (auto simp: sidle_alloc_def Let_def sample_tree_def sample_heap_def malloc_on_cxl_def memkind_alloc_def
        cxl_boot_def update_local_memory_usage_def split: prod.splits)
  then obtain d h2 where alloc: "sidle_alloc (sizeof_leaf_node + 2) (Some (sidle_meta ?n)) Mem_Remote True True 0 ?h1 =
      Inr (65536, Mem_Remote, d, h2)" by blast
  have h2: "nodes h2 = nodes ?h1" "ndebug h2 = True" using sidle_alloc_frame [OF alloc] by (simp_all add: sample_tree_def)
  have tag: "get_leaf (make_leaf (65536 + 1)) = 65536" by (rule tagged_leaf) simp
  have leaf: "\<exists>l. alloc_leaf 256 [1, 1] Mem_Remote True ?h1 = Inr (make_leaf (65536 + 1), store_leaf 65536 l h2)"
    using alloc by (auto simp: alloc_leaf_def parent_meta_def load_node_simp)
  then obtain l where leaf: "alloc_leaf 256 [1, 1] Mem_Remote True ?h1 = Inr (make_leaf (65536 + 1), store_leaf 65536 l h2)" ..
  have slots: "search_slots ?n = [0, 1]"
    using sample_version by (simp add: search_slots_def Let_def bitfield upt_rec)
  have "make_leaf 512 = 511" by (simp add: make_leaf_of_leaf)
  then have "replace_first (make_leaf 512) (make_leaf (65536 + 1)) (search_slots ?n) (child ?n) = Inr (child ?n)"
    by (simp only: slots) (simp add: sample_node_def byte_at_def)
  then have "replace_old_child_ptr 256 (make_leaf 512) (make_leaf (65536 + 1)) (store_leaf 65536 m h2) =
      Inr (store_node 256 ?n (store_leaf 65536 m h2))" for m
    using h2 by (simp add: replace_old_child_ptr_def load_node_simp)
  then show ?thesis
    using cells lock leaf tag sample_version sample_leaf_def type
    by (simp add: leaf_migration_def load_leaf_def get_version_simp art_node_version_is_old_def modify_leaf_simp store_leaf_twice)
qed

lemma leaf_migration_keeps_old_pointer_witness:
  "\<exists>h'. leaf_migration 512 256 Mem_Remote (sample_tree\<lparr>ndebug := True\<rparr>) = Inr (256, h') \<and>
    nodes h' = (nodes sample_tree)(256 \<mapsto> sample_node\<lparr>version := set_lock (version sample_node)\<rparr>)"
proof -
  obtain h' where run: "leaf_migration 512 256 Mem_Remote (sample_tree\<lparr>ndebug := True\<rparr>) = Inr (256, h')"
    using sample_leaf_migration by blast
  have "(512 :: u64) - 1 \<notin> set (child sample_node)" by (simp add: sample_node_def)
  with leaf_migration_keeps_old_pointer [OF run, of sample_node] run show ?thesis
    by (simp add: sample_tree_cells)
qed

text \<open>
  In a build with checks no inner node is ever migrated: the check that the node should be locked asks
  for the opposite, so each call throws, gives up at once, or waits for a lock.
\<close>

theorem checked_internode_migration_fails:
  assumes "\<not> ndebug h" and "nodes h a = Some n" and "need_lock_first \<or> is_locked (version n)"
  shows "internode_migration a t need_lock_first h = Inr (0, h) \<or>
    internode_migration a t need_lock_first h =
      Inl (Throw ''[DEBUG] [migrate_internode] the original node should be locked'')"
proof (cases "need_lock_first \<and> (is_old (version n) \<or> is_locked (version n))")
  case True
  with assms show ?thesis
    by (simp add: internode_migration_def get_version_simp art_node_version_is_old_def)
next
  case False
  with assms show ?thesis
    by (auto simp: internode_migration_def get_version_simp art_node_version_is_old_def lock_simp
        migrate_locked_def load_node_simp Let_def bitfield)
qed

lemma checked_internode_migration_fails_witness:
  "internode_migration 256 Mem_Remote True sample_tree = Inr (0, sample_tree) \<or>
   internode_migration 256 Mem_Remote True sample_tree =
     Inl (Throw ''[DEBUG] [migrate_internode] the original node should be locked'')"
  using checked_internode_migration_fails [of sample_tree 256 sample_node True]
  by (simp add: sample_tree_cells sample_tree_room)

end
