(* ===== verification/Art_Move.thy ===== *)
theory Art_Move
  imports Art_Migration
begin

text \<open>
  What a migration of an inner node does to the tree when the checks are compiled out
  (\<open>internode_migration\<close> of \<open>third_party/art/art.cc\<close>): the frames of the allocation, the search for the
  slot of the old pointer in every layout, and the whole move as one update of the node store.
\<close>

section \<open>Where a new node comes from\<close>

lemma alloc_from_spare:
  assumes "sidle_alloc sz pm tt mig lf old h = Inr (an, ty, d, h1)"
  shows "an \<in> spare h"
proof -
  have libc: "libc_alloc c = (a, c') \<Longrightarrow> a \<noteq> 0 \<Longrightarrow> a \<in> set (local_next c)" for c a c'
    by (auto simp: libc_alloc_def split: list.splits)
  have kind: "memkind_alloc c = Inr (a, c') \<Longrightarrow> local_next c' = local_next c \<and> (a \<noteq> 0 \<longrightarrow> a \<in> set (cxl_next c))" for c a c'
    by (auto simp: memkind_alloc_def split: if_splits list.splits)
  have cxl: "a \<in> set (local_next c) \<union> set (cxl_next c)" if "malloc_on_cxl c = Inr (r, a, c')" "a \<noteq> 0" for c r a c'
  proof (cases "memkind_alloc c")
    case (Inl e)
    with that(1) show ?thesis by (simp add: malloc_on_cxl_def)
  next
    case (Inr x)
    obtain p c1 where m: "memkind_alloc c = Inr (p, c1)" using Inr by (cases x) simp
    show ?thesis
    proof (cases "p = 0")
      case True
      with that(1) m have "libc_alloc c1 = (a, c')" by (auto simp: malloc_on_cxl_def Let_def split: prod.splits)
      from libc [OF this that(2)] kind [OF m] show ?thesis by simp
    next
      case False
      with that(1) m have "p = a" by (simp add: malloc_on_cxl_def)
      with kind [OF m] False show ?thesis by simp
    qed
  qed
  obtain c' where "(\<exists>r. malloc_on_cxl (cxl h) = Inr (r, an, c')) \<or> libc_alloc (cxl h) = (an, c')"
    using assms by (auto simp: sidle_alloc_def Let_def and_then_Inr_iff split: if_splits prod.splits)
  moreover have "an \<noteq> 0" by (rule sidle_alloc_frame(5) [OF assms])
  ultimately have "an \<in> set (local_next (cxl h)) \<union> set (cxl_next (cxl h))" using libc cxl by blast
  then show ?thesis by (simp add: spare_def)
qed

section \<open>The slots that are searched\<close>

lemma search_slots_less: "node_wf n \<Longrightarrow> \<forall>i \<in> set (search_slots n). i < length (child n)"
proof (cases rule: node_type_cases [of "version n"])
  case 3
  assume "node_wf n"
  moreover have "unat i - 1 < 48" if "i \<noteq> 0" "i \<in> set (index n)" for i
    using that \<open>node_wf n\<close> 3 unfolding node_wf_48 [OF 3] in_set_conv_nth by fastforce
  ultimately show ?thesis using 3 by (auto simp: search_slots_def Let_def node_wf_48 dest: in_set_takeD)
qed (auto simp: search_slots_def Let_def node_wf_256 dest: keyed_wf)

lemma search_slots_slot:
  assumes "node_wf n"
  shows "slot_at n b i \<Longrightarrow> i \<in> set (search_slots n)"
    and "i \<in> set (search_slots n) \<Longrightarrow> child n ! i \<noteq> 0 \<Longrightarrow> \<exists>b. slot_at n b i"
proof -
  show "slot_at n b i \<Longrightarrow> i \<in> set (search_slots n)"
  proof (cases rule: node_type_cases [of "version n"])
    case 3
    assume "slot_at n b i"
    then have i: "unat (index n ! unat b) = i + 1" using 3 by (simp add: slot_at_def keyed_def)
    then have "index n ! unat b \<noteq> 0" by (cases "index n ! unat b = 0") simp_all
    moreover have "index n ! unat b \<in> set (index n)" using assms 3 by (simp add: node_wf_48)
    ultimately have "unat (index n ! unat b) - 1 \<in> (\<lambda>i. unat i - 1) ` {i \<in> set (index n). i \<noteq> 0}" by blast
    moreover have "take 256 (index n) = index n" using assms 3 by (simp add: node_wf_48)
    ultimately show ?thesis
      using 3 i by (simp add: search_slots_def Let_def)
  qed (auto simp: search_slots_def Let_def slot_at_def)
  show "i \<in> set (search_slots n) \<Longrightarrow> child n ! i \<noteq> 0 \<Longrightarrow> \<exists>b. slot_at n b i"
  proof (cases rule: node_type_cases [of "version n"])
    case 3
    assume "i \<in> set (search_slots n)"
    with 3 obtain x where x: "x \<in> set (index n)" "x \<noteq> 0" "i = unat x - 1"
      by (auto simp: search_slots_def Let_def dest: in_set_takeD)
    then obtain j where j: "j < 256" "index n ! j = x" using assms 3 by (auto simp: node_wf_48 in_set_conv_nth)
    have "unat (of_nat j :: u8) = j" using j(1) by (simp add: unat_of_nat)
    moreover have "0 < unat x" using x(2) by (simp add: unat_gt_0)
    ultimately have "slot_at n (of_nat j) i" using 3 x(3) j(2) by (simp add: slot_at_def keyed_def)
    then show ?thesis ..
  next
    case 4
    assume "i \<in> set (search_slots n)" "child n ! i \<noteq> 0"
    with 4 have "slot_at n (of_nat i) i" by (auto simp: search_slots_def Let_def slot_at_def keyed_def unat_of_nat)
    then show ?thesis ..
  qed (auto simp: search_slots_def Let_def slot_at_def)
qed

lemma new_node_frame:
  assumes "new_sized_node sz par old tt mig h = Inr (new, h1)"
  shows "new \<in> spare h" "\<exists>m. nodes h1 = (nodes h)(new \<mapsto> m)" "leaves h1 = leaves h" "ndebug h1 = ndebug h"
proof -
  obtain pm ty d h2 where alloc: "sidle_alloc sz pm tt mig False old h = Inr (new, ty, d, h2)"
    and h1: "h1 = store_node new (raw_node sz ty d (junk h)) h2"
    using assms by (auto simp: new_sized_node_def and_then_Inr_iff split: prod.splits)
  show "new \<in> spare h" by (rule alloc_from_spare [OF alloc])
  show "\<exists>m. nodes h1 = (nodes h)(new \<mapsto> m)" "leaves h1 = leaves h" "ndebug h1 = ndebug h"
    using sidle_alloc_frame [OF alloc] by (auto simp: h1)
qed

section \<open>Redirecting the pointers\<close>

lemma visit_adopt:
  "visit (\<lambda>h c. if is_leaf c then Inr (True, h)
      else and_then (modify_node c (\<lambda>n. n\<lparr>parent := new\<rparr>) h) (\<lambda>h1. Inr (True, h1))) cs h = adopt new cs h"
proof (induction cs arbitrary: h)
  case (Cons c cs)
  then show ?case by (cases "modify_node c (\<lambda>n. n\<lparr>parent := new\<rparr>) h") auto
qed simp

lemma replace_parents:
  assumes "new \<noteq> 0" and "nodes h new = Some n" and "node_wf n"
    and "\<And>b c. child_at n b c \<Longrightarrow> \<not> is_leaf c \<Longrightarrow> nodes h c \<noteq> None"
  shows "replace_old_parent_ptr new h = Inr (h\<lparr>nodes := reparent new {c. \<exists>b. child_at n b c} (nodes h)\<rparr>)"
proof -
  have "adopt new (visit_order n) h = Inr (h\<lparr>nodes := reparent new (set (visit_order n)) (nodes h)\<rparr>)"
    by (rule adopt_simp) (use assms(3,4) in \<open>auto simp: set_visit_order\<close>)
  with assms show ?thesis
    by (simp add: replace_old_parent_ptr_def art_node_traverse_def load_node_simp visit_adopt set_visit_order)
qed

lemma replace_child:
  assumes "nodes h p = Some np" and "p \<noteq> 0" and "node_wf np" and "slot_at np b i" and "child np ! i = a" and "a \<noteq> 0"
    and "\<And>b'. child_at np b' a \<Longrightarrow> b' = b"
  shows "replace_old_child_ptr p a new h = Inr (store_node p (np\<lparr>child := (child np)[i := new]\<rparr>) h)"
proof -
  have "j = i" if j: "j \<in> set (search_slots np)" and aj: "child np ! j = a" for j
  proof -
    obtain b' where "slot_at np b' j" using search_slots_slot(2) [OF assms(3) j] aj assms(6) by blast
    moreover from this aj assms(7) have "b' = b" by (auto simp: child_at_def)
    ultimately show ?thesis using slot_at_unique [OF assms(3)] assms(4) by blast
  qed
  then have "replace_first a new (search_slots np) (child np) = Inr ((child np)[i := new])"
    by (intro replace_first_found search_slots_less [OF assms(3)] search_slots_slot(1) [OF assms(3,4)] assms(5)) simp
  with assms(1,2) show ?thesis by (simp add: replace_old_child_ptr_def load_node_simp)
qed

lemma locked_parent_found:
  assumes "art_node_get_locked_parent a h = Inr (r, h1)" and "nodes h a = Some n" and "parent n = p" and "p \<noteq> 0"
    and "nodes h p = Some np"
  shows "r = p" "h1 = store_node p (np\<lparr>version := set_lock (version np)\<rparr>) h" "\<not> is_locked (version np)" "\<not> is_old (version np)"
  using assms
  by (auto simp: art_node_get_locked_parent_def art_node_get_parent_def load_node_simp art_node_lock_def
      get_version_simp set_version_simp split: if_splits)

section \<open>The move\<close>

text \<open>
  The inner node \<open>a\<close> hangs in its parent under one byte, and its children are neither of the two.
\<close>

definition migratable :: "art_heap \<Rightarrow> u64 \<Rightarrow> art_node \<Rightarrow> art_node \<Rightarrow> u8 \<Rightarrow> bool" where
  "migratable h a n np b \<longleftrightarrow>
     nodes h a = Some n \<and> node_wf n \<and> \<not> is_expanding (version n) \<and> a \<noteq> 0 \<and>
     nodes h (parent n) = Some np \<and> node_wf np \<and> parent n \<noteq> 0 \<and> parent n \<noteq> a \<and>
     (\<forall>b'. child_at np b' a \<longleftrightarrow> b' = b) \<and>
     (\<forall>b' c. child_at n b' c \<and> \<not> is_leaf c \<longrightarrow> nodes h c \<noteq> None \<and> c \<noteq> a \<and> c \<noteq> parent n) \<and>
     spare_fresh h"

text \<open>The node store after the move of \<open>a\<close> to \<open>new\<close>; \<open>i\<close> is the slot in the parent.\<close>

definition moved_nodes :: "art_heap \<Rightarrow> u64 \<Rightarrow> art_node \<Rightarrow> art_node \<Rightarrow> nat \<Rightarrow> u64 \<Rightarrow> node_mem_type \<Rightarrow> u64 \<rightharpoonup> art_node" where
  "moved_nodes h a n np i new t = (reparent new {c. \<exists>b. child_at n b c} (nodes h))
     (parent n \<mapsto> np\<lparr>version := set_lock (version np), child := (child np)[i := new]\<rparr>,
      a \<mapsto> n\<lparr>new_node := new, version := unset_lock (set_old (version n))\<rparr>,
      new \<mapsto> n\<lparr>sidle_meta := (sidle_meta n)\<lparr>md_type := t\<rparr>, version := unset_lock (version n)\<rparr>)"

lemma move_internode_runs:
  assumes "migratable h a n np b" and alloc: "new_sized_node (art_node_size (version n)) 0 0 t True h = Inr (new, h1)"
    and "\<not> is_locked (version np)" and "\<not> is_old (version np)"
  shows "\<exists>h' i. move_internode a (version n) t h = Inr (parent n, h') \<and> slot_at np b i \<and> leaves h' = leaves h \<and>
    nodes h' = moved_nodes h a n np i new t"
proof -
  let ?v = "version n" and ?p = "parent n" and ?cs = "{c. \<exists>b. child_at n b c}"
  note m = assms(1) [unfolded migratable_def]
  note frame = new_node_frame [OF alloc]
  have fresh: "new \<noteq> 0" "nodes h new = None" using frame(1) m by (auto simp: spare_fresh_def)
  have ne: "new \<noteq> a" "new \<noteq> ?p" "a \<noteq> ?p" "?p \<noteq> a" "a \<noteq> new" "?p \<noteq> new" using fresh m by auto
  define n1 where "n1 = n\<lparr>sidle_meta := (sidle_meta n)\<lparr>md_type := t\<rparr>\<rparr>"
  define h1' where "h1' = store_node new n1 h1"
  have n1': "nodes h1' = (nodes h)(new \<mapsto> n1)" "leaves h1' = leaves h"
    using frame by (auto simp: h1'_def)
  have a1: "nodes h1 a = Some n" using frame(2) ne m by auto
  let ?np = "np\<lparr>version := set_lock (version np)\<rparr>"
  define h2 where "h2 = store_node ?p ?np h1'"
  have parent: "art_node_get_locked_parent a h1' = Inr (?p, h2)"
    using assms(3,4) m ne by (simp add: art_node_get_locked_parent_def art_node_get_parent_def load_node_simp n1'
        lock_simp [where n = np] h2_def)
  have "child_at np b a" using m by blast
  then obtain i where i: "slot_at np b i" "child np ! i = a" by (auto simp: child_at_def)
  have cong: "node_wf ?np = node_wf np" "slot_at ?np b' j = slot_at np b' j" "child_at ?np b' c = child_at np b' c" for b' j c
    by (rule node_wf_cong slot_at_cong child_at_cong; simp add: bitfield)+
  define h3 where "h3 = store_node ?p (?np\<lparr>child := (child np)[i := new]\<rparr>) h2"
  have "replace_old_child_ptr ?p a new h2 = Inr (store_node ?p (?np\<lparr>child := (child ?np)[i := new]\<rparr>) h2)"
    by (rule replace_child [of h2]) (use m i in \<open>simp_all add: cong h2_def\<close>)
  then have swing: "replace_old_child_ptr ?p a new h2 = Inr h3" by (simp add: h3_def)
  have new3: "nodes h3 new = Some n1" using ne by (simp add: h3_def h2_def n1')
  have wf1: "node_wf n1" "child_at n1 b' c = child_at n b' c" for b' c
    using m node_wf_cong [of n1 n] child_at_cong [of n1 n] by (simp_all add: n1_def)
  have old3: "nodes h3 c \<noteq> None" if "nodes h c \<noteq> None" for c using that by (simp add: h3_def h2_def n1')
  define h4 where "h4 = h3\<lparr>nodes := reparent new ?cs (nodes h3)\<rparr>"
  have "replace_old_parent_ptr new h3 = Inr (h3\<lparr>nodes := reparent new {c. \<exists>b. child_at n1 b c} (nodes h3)\<rparr>)"
    by (rule replace_parents [OF fresh(1) new3 wf1(1)]) (use m wf1(2) old3 in blast)
  then have adopt: "replace_old_parent_ptr new h3 = Inr h4" by (simp add: wf1(2) h4_def)
  have out: "x \<notin> ?cs \<or> is_leaf x" if "x = a \<or> x = ?p \<or> x = new" for x
    using that m fresh(2) by blast
  have stay: "nodes h4 x = nodes h3 x" if "x = a \<or> x = ?p \<or> x = new" for x
    using out [OF that] by (auto simp: h4_def reparent_def)
  have a4: "nodes h4 a = Some n" using stay [of a] ne m by (simp add: h3_def h2_def n1')
  have ex: "\<not> is_expanding (set_old ?v)" "\<not> is_expanding ?v" using m by (simp_all add: bitfield)
  define h7 where "h7 = store_node a (n\<lparr>new_node := new, version := unset_lock (set_old ?v)\<rparr>) h4"
  define h' where "h' = store_node new (n1\<lparr>version := unset_lock ?v\<rparr>) h7"
  have "nodes h7 new = Some n1" using ne new3 stay [of new] by (simp add: h7_def)
  then have unlock: "art_node_unlock new h7 = Inr h'" using ex(2) by (simp add: unlock_simp h'_def n1_def)
  have "move_internode a ?v t h = Inr (?p, h')"
    using alloc a1 parent swing adopt a4 ex(1) m unlock
    by (simp add: move_internode_def load_node_simp n1_def [symmetric] h1'_def [symmetric] set_new_node_simp
        set_version_simp unlock_simp h7_def)
  moreover have "nodes h' = moved_nodes h a n np i new t"
    using ne m out [of ?p] out [of new]
    by (auto simp: fun_eq_iff moved_nodes_def h'_def h7_def h4_def h3_def h2_def n1' n1_def reparent_def)
  moreover have "leaves h' = leaves h" by (simp add: h'_def h7_def h4_def h3_def h2_def n1')
  ultimately show ?thesis using i by blast
qed

lemma move_internode_moved:
  assumes "migratable h a n np b" and "move_internode a (version n) t h = Inr (r, h')"
  shows "\<exists>new i. new \<in> spare h \<and> r = parent n \<and> leaves h' = leaves h \<and> slot_at np b i \<and>
    nodes h' = moved_nodes h a n np i new t"
proof -
  note m = assms(1) [unfolded migratable_def]
  obtain new h1 where alloc: "new_sized_node (art_node_size (version n)) 0 0 t True h = Inr (new, h1)"
    using assms(2) by (auto simp: move_internode_def and_then_Inr_iff)
  note frame = new_node_frame [OF alloc]
  have fresh: "new \<noteq> 0" "nodes h new = None" using frame(1) m by (auto simp: spare_fresh_def)
  define h1' where "h1' = store_node new (n\<lparr>sidle_meta := (sidle_meta n)\<lparr>md_type := t\<rparr>\<rparr>) h1"
  have cells: "nodes h1 a = Some n" "nodes h1' a = Some n" "nodes h1' (parent n) = Some np"
    using frame(2) fresh m by (auto simp: h1'_def)
  with assms(2) alloc obtain r2 h2 where "art_node_get_locked_parent a h1' = Inr (r2, h2)"
    by (auto simp: move_internode_def and_then_Inr_iff load_node_simp h1'_def split: if_splits prod.splits)
  from locked_parent_found [OF this cells(2) refl _ cells(3)] m have "\<not> is_locked (version np)" "\<not> is_old (version np)" by auto
  from move_internode_runs [OF assms(1) alloc this] assms(2) frame(1) show ?thesis by fastforce
qed

lemma or_set_bit: "bit v k \<Longrightarrow> v OR push_bit k 1 = v" for v :: u64
  by (rule bit_word_eqI) (auto simp: bit_simps)

lemma lock_idempotent: "is_locked v \<Longrightarrow> set_lock v = v" "unset_lock (set_lock v) = unset_lock v"
proof -
  assume "is_locked v"
  then have "bit v 18" by (simp add: is_locked_def LOCK_BIT_def bit_iff_and_push_bit_not_eq_0)
  then show "set_lock v = v" unfolding set_lock_def LOCK_BIT_def by (rule or_set_bit)
next
  show "unset_lock (set_lock v) = unset_lock v"
    unfolding set_lock_def unset_lock_def by (intro bit_word_eqI) (auto simp: bit_simps)
qed

lemma migratable_locked:
  assumes "migratable h a n np b"
  defines "n1 \<equiv> n\<lparr>version := set_lock (version n)\<rparr>"
  shows "migratable (store_node a n1 h) a n1 np b"
proof -
  have "node_wf n1 = node_wf n" "child_at n1 b' c = child_at n b' c" for b' c
    by (rule node_wf_cong child_at_cong; simp add: n1_def bitfield)+
  moreover have "\<not> is_expanding (version n1) = (\<not> is_expanding (version n))" "parent n1 = parent n"
    by (simp_all add: n1_def bitfield)
  ultimately show ?thesis using assms(1) by (auto simp: migratable_def spare_fresh_def spare_def store_node_def)
qed

lemma checked_migration_throws:
  assumes "\<not> ndebug h" and "nodes h a = Some n" and "lock_first \<longleftrightarrow> \<not> is_locked (version n)"
  shows "internode_migration a t lock_first h =
    (if lock_first \<and> is_old (version n) then Inr (0, h)
     else Inl (Throw ''[DEBUG] [migrate_internode] the original node should be locked''))"
  using assms by (auto simp: internode_migration_def get_version_simp art_node_version_is_old_def lock_simp
      migrate_locked_def load_node_simp Let_def bitfield)

lemma migration_moves:
  assumes "migratable h a n np b" and "lock_first \<longleftrightarrow> \<not> is_locked (version n)"
    and "internode_migration a t lock_first h = Inr (r, h')" and "r \<noteq> 0"
  shows "\<exists>h1 n1. migratable h1 a n1 np b \<and> move_internode a (version n1) t h1 = Inr (r, h') \<and>
    n1 = n\<lparr>version := set_lock (version n)\<rparr> \<and> h1 = (if lock_first then store_node a n1 h else h)"
proof (cases lock_first)
  case True
  define n1 where "n1 = n\<lparr>version := set_lock (version n)\<rparr>"
  have a: "nodes h a = Some n" using assms(1) by (simp add: migratable_def)
  have "migrate_locked a t (store_node a n1 h) = Inr (r, h')"
    using assms(2-4) True a by (auto simp: internode_migration_def get_version_simp art_node_version_is_old_def lock_simp
        n1_def split: if_splits)
  then have "move_internode a (version n1) t (store_node a n1 h) = Inr (r, h')"
    using assms(4) by (auto simp: migrate_locked_def load_node_simp Let_def give_up_def and_then_Inr_iff split: if_splits)
  then show ?thesis using migratable_locked [OF assms(1)] True by (auto simp: n1_def)
next
  case False
  have a: "nodes h a = Some n" using assms(1) by (simp add: migratable_def)
  have "set_lock (version n) = version n" using False assms(2) by (simp add: lock_idempotent)
  then have n: "n\<lparr>version := set_lock (version n)\<rparr> = n" by simp
  have "move_internode a (version n) t h = Inr (r, h')"
    using assms(3,4) False a by (auto simp: internode_migration_def migrate_locked_def load_node_simp Let_def give_up_def
        and_then_Inr_iff split: if_splits)
  with assms(1) False show ?thesis by (simp add: n)
qed

text \<open>
  C13. The migration of an inner node below another one, called with the lock taken or with the order to take it. In a
  build with checks no such call moves the node: it gives up if the node is old, and throws otherwise,
  because the check for the lock is inverted. In a build without checks, a call that succeeds replaces exactly
  this node: its parent, now locked, holds under the same byte a fresh, unlocked copy in the other tier, and
  every other byte as before; the inner children point to the copy; the original is retired, with a link to the
  copy; all other nodes and all leaves are untouched.
\<close>

theorem internode_migration_replaces_node:
  assumes "migratable h a n np b" and "lock_first \<longleftrightarrow> \<not> is_locked (version n)"
  shows "if \<not> ndebug h
    then internode_migration a t lock_first h =
      (if lock_first \<and> is_old (version n) then Inr (0, h)
       else Inl (Throw ''[DEBUG] [migrate_internode] the original node should be locked''))
    else (\<forall>r h'. internode_migration a t lock_first h = Inr (r, h') \<and> r \<noteq> 0 \<longrightarrow>
      (\<exists>new np' na. new \<in> spare h \<and> r = parent n \<and> leaves h' = leaves h \<and>
        nodes h' new = Some (n\<lparr>sidle_meta := (sidle_meta n)\<lparr>md_type := t\<rparr>, version := unset_lock (version n)\<rparr>) \<and>
        nodes h' r = Some np' \<and> is_locked (version np') \<and>
        (\<forall>b' c. child_at np' b' c \<longleftrightarrow> (if b' = b then c = new else child_at np b' c)) \<and>
        nodes h' a = Some na \<and> is_old (version na) \<and> \<not> is_locked (version na) \<and> new_node na = new \<and>
        (\<forall>c. c \<noteq> a \<and> c \<noteq> r \<and> c \<noteq> new \<longrightarrow> nodes h' c =
           (if (\<exists>b. child_at n b c) \<and> \<not> is_leaf c then map_option (\<lambda>m. m\<lparr>parent := new\<rparr>) (nodes h c)
            else nodes h c))))"
proof (cases "ndebug h")
  case False
  have "nodes h a = Some n" using assms(1) by (simp add: migratable_def)
  from checked_migration_throws [OF False this assms(2)] False show ?thesis by simp
next
  case True
  have "\<exists>new np' na. new \<in> spare h \<and> r = parent n \<and> leaves h' = leaves h \<and>
    nodes h' new = Some (n\<lparr>sidle_meta := (sidle_meta n)\<lparr>md_type := t\<rparr>, version := unset_lock (version n)\<rparr>) \<and>
    nodes h' r = Some np' \<and> is_locked (version np') \<and>
    (\<forall>b' c. child_at np' b' c \<longleftrightarrow> (if b' = b then c = new else child_at np b' c)) \<and>
    nodes h' a = Some na \<and> is_old (version na) \<and> \<not> is_locked (version na) \<and> new_node na = new \<and>
    (\<forall>c. c \<noteq> a \<and> c \<noteq> r \<and> c \<noteq> new \<longrightarrow> nodes h' c =
       (if (\<exists>b. child_at n b c) \<and> \<not> is_leaf c then map_option (\<lambda>m. m\<lparr>parent := new\<rparr>) (nodes h c) else nodes h c))"
    if run: "internode_migration a t lock_first h = Inr (r, h')" "r \<noteq> 0" for r h'
  proof -
    from migration_moves [OF assms run] obtain h1 n1 where m1: "migratable h1 a n1 np b"
      and move: "move_internode a (version n1) t h1 = Inr (r, h')" and n1: "n1 = n\<lparr>version := set_lock (version n)\<rparr>"
      and h1: "h1 = (if lock_first then store_node a n1 h else h)" by blast
    note m = m1 [unfolded migratable_def]
    from move_internode_moved [OF m1 move] obtain new i where new: "new \<in> spare h1" "r = parent n1"
      "leaves h' = leaves h1" "slot_at np b i" and nodes: "nodes h' = moved_nodes h1 a n1 np i new t" by blast
    have fresh: "new \<noteq> 0" "new \<noteq> a" "new \<noteq> parent n1" using new(1) m by (auto simp: spare_fresh_def)
    have "child_at n1 b' c = child_at n b' c" for b' c by (rule child_at_cong) (simp_all add: n1 bitfield)
    moreover have "nodes h1 c = nodes h c" if "c \<noteq> a" for c using that by (simp add: h1 store_node_def)
    moreover have "spare h1 = spare h" "leaves h1 = leaves h" by (simp_all add: h1 store_node_def spare_def)
    moreover have "unset_lock (version n1) = unset_lock (version n)" "parent n1 = parent n" "sidle_meta n1 = sidle_meta n"
      by (simp_all add: n1 bitfield lock_idempotent)
    moreover have "n1\<lparr>sidle_meta := x, version := y\<rparr> = n\<lparr>sidle_meta := x, version := y\<rparr>" for x y by (simp add: n1)
    ultimately have same: "\<And>b' c. child_at n1 b' c = child_at n b' c" "\<And>c. c \<noteq> a \<Longrightarrow> nodes h1 c = nodes h c"
      "spare h1 = spare h" "leaves h1 = leaves h" "unset_lock (version n1) = unset_lock (version n)" "parent n1 = parent n"
      "sidle_meta n1 = sidle_meta n"
      "\<And>x y. n1\<lparr>sidle_meta := x, version := y\<rparr> = n\<lparr>sidle_meta := x, version := y\<rparr>" by blast+
    define np' where "np' = np\<lparr>version := set_lock (version np), child := (child np)[i := new]\<rparr>"
    have "child_at np' b' c = child_at (np\<lparr>child := (child np)[i := new]\<rparr>) b' c" for b' c
      by (rule child_at_cong) (simp_all add: np'_def bitfield)
    then have kids: "child_at np' b' c \<longleftrightarrow> (if b' = b then c = new else child_at np b' c)" for b' c
      using child_at_store [OF _ new(4) fresh(1)] m by simp
    show ?thesis
      by (intro exI [of _ new] exI [of _ np'] exI [of _ "n1\<lparr>new_node := new, version := unset_lock (set_old (version n1))\<rparr>"])
        (use new fresh m kids same in \<open>simp add: nodes moved_nodes_def np'_def [symmetric], simp add: np'_def bitfield reparent_def\<close>)
  qed
  with True show ?thesis by simp
qed

definition deep_root :: art_node where
  "deep_root = \<lparr>version = incr_count (set_type 0 node4), prefix = replicate 8 0, new_node = 0, parent = 0,
     sidle_meta = make_node_metadata Mem_Local 1, key = [1, 0, 0, 0], index = [], child = [768, 0, 0, 0]\<rparr>"

definition deep_node :: art_node where
  "deep_node = sample_node\<lparr>parent := 256, sidle_meta := make_node_metadata Mem_Local 2,
     version := set_lock (version sample_node)\<rparr>"

definition deep_tree :: art_heap where
  "deep_tree = sample_tree\<lparr>nodes := [256 \<mapsto> deep_root, 768 \<mapsto> deep_node], ndebug := True\<rparr>"

lemma deep_root_version:
  "get_node_type (version deep_root) = node4" "get_count (version deep_root) = 1" "\<not> is_locked (version deep_root)"
  "\<not> is_old (version deep_root)"
  by (simp_all add: deep_root_def) code_simp+

lemma deep_migratable: "migratable deep_tree 768 deep_node deep_root 1"
proof -
  have "node_wf deep_root" using deep_root_version by (simp add: node_wf_4) (simp add: deep_root_def)
  moreover have "slot_at deep_root b i \<longleftrightarrow> i = 0 \<and> b = 1" for b i
    using deep_root_version by (auto simp: slot_at_def keyed_def) (simp_all add: deep_root_def)
  then have "child_at deep_root b c \<longleftrightarrow> b = 1 \<and> c = 768" for b c
    by (auto simp: child_at_def) (simp_all add: deep_root_def)
  moreover have "node_wf deep_node"
    using sample_version by (simp add: node_wf_4 deep_node_def bitfield) (simp add: sample_node_def)
  moreover have "child_at deep_node b c \<longleftrightarrow> b = 1 \<and> c = 513 \<or> b = 2 \<and> c = 1025" for b c
    using child_at_cong [of deep_node sample_node b c] sample_child_at by (simp add: deep_node_def bitfield)
  moreover have "is_leaf 513" "is_leaf 1025" by code_simp+
  moreover have "is_locked (version deep_node)" "\<not> is_expanding (version deep_node)" "parent deep_node = 256"
    using sample_version by (simp_all add: deep_node_def bitfield)
  moreover have "spare_fresh deep_tree"
    by (auto simp: spare_fresh_def spare_def deep_tree_def sample_tree_def sample_heap_def cxl_boot_def)
  ultimately show ?thesis by (auto simp: migratable_def deep_tree_def)
qed

lemma deep_move: "\<exists>h'. internode_migration 768 Mem_Remote False deep_tree = Inr (256, h')"
proof -
  have "\<exists>new h1. new_sized_node (art_node_size (version deep_node)) 0 0 Mem_Remote True deep_tree = Inr (new, h1)"
    by (auto simp: new_sized_node_def parent_meta_def sidle_alloc_def Let_def deep_tree_def sample_tree_def
        sample_heap_def malloc_on_cxl_def memkind_alloc_def cxl_boot_def update_local_memory_usage_def split: prod.splits)
  then obtain new h1 where "new_sized_node (art_node_size (version deep_node)) 0 0 Mem_Remote True deep_tree = Inr (new, h1)"
    by blast
  from move_internode_runs [OF deep_migratable this deep_root_version(3,4)] obtain h' where
    "move_internode 768 (version deep_node) Mem_Remote deep_tree = Inr (parent deep_node, h')" by blast
  moreover have "nodes deep_tree 768 = Some deep_node" "ndebug deep_tree" by (simp_all add: deep_tree_def)
  moreover have "\<not> is_old (version deep_node)" "parent deep_node = 256" "IS_VALID_ADDR 256"
    "md_depth (sidle_meta deep_node) = 2"
    using sample_version by (simp_all add: deep_node_def bitfield IS_VALID_ADDR_def make_node_metadata_def)
  ultimately show ?thesis
    by (simp add: internode_migration_def migrate_locked_def load_node_simp Let_def art_node_version_is_old_def)
qed

lemma internode_migration_replaces_node_witness:
  "\<exists>h' new np'. internode_migration 768 Mem_Remote False deep_tree = Inr (256, h') \<and> new \<in> spare deep_tree \<and>
    nodes h' 256 = Some np' \<and> (\<forall>c. child_at np' 1 c \<longleftrightarrow> c = new)"
proof -
  obtain h' where run: "internode_migration 768 Mem_Remote False deep_tree = Inr (256, h')" using deep_move by blast
  have "is_locked (version deep_node)" "ndebug deep_tree" by (simp_all add: deep_node_def deep_tree_def bitfield)
  with internode_migration_replaces_node [OF deep_migratable, of False Mem_Remote] run show ?thesis
    by (simp split: if_splits) fastforce
qed

end
