(* ===== verification/Art_Traverse.thy ===== *)
theory Art_Traverse
  imports Art_Index
begin

text \<open>
  The traversal that the background workers run (\<open>adaptive_radix_tree_traverse\<close> of
  \<open>third_party/art/art.cc\<close>): on a represented tree it ends within one step per byte of a key and
  calls back once for every leaf, with the node the leaf hangs in.
\<close>

section \<open>Visiting the children of one node\<close>

lemma take_eq_map_nth: "n \<le> length xs \<Longrightarrow> take n xs = map ((!) xs) [0..<n]"
  by (rule nth_equalityI) simp_all

lemma distinct_filter_nth:
  assumes "\<And>i j. i < length xs \<Longrightarrow> j < length xs \<Longrightarrow> xs ! i = xs ! j \<Longrightarrow> P (xs ! i) \<Longrightarrow> i = j"
  shows "distinct (filter P xs)"
  using assms
proof (induction xs)
  case (Cons x xs)
  have "distinct (filter P xs)"
    by (rule Cons.IH) (use Cons.prems [of "Suc _" "Suc _"] in auto)
  moreover have "x \<notin> set xs" if "P x"
    using Cons.prems [of 0 "Suc _"] that by (auto simp: in_set_conv_nth)
  ultimately show ?case by simp
qed simp

lemma visit_order_distinct:
  assumes "node_wf n" and one: "\<And>b b' c. child_at n b c \<Longrightarrow> child_at n b' c \<Longrightarrow> b = b'"
  shows "distinct (visit_order n)"
proof -
  have slots: "i = j" if "slot_at n b i" "slot_at n b' j" "child n ! i = child n ! j" for b b' i j
    using that one [of b "child n ! i" b'] slot_at_unique [OF assms(1)] unfolding child_at_def by metis
  show ?thesis
  proof (cases "keyed (version n)")
    case True
    let ?m = "get_count (version n)"
    have "?m \<le> length (child n)" using keyed_wf [OF assms(1) True] by simp
    moreover have "inj_on ((!) (child n)) (set [0..<?m])"
      by (intro inj_onI slots) (use True in \<open>auto simp: slot_at_def\<close>)
    ultimately show ?thesis
      using True by (auto simp: visit_order_def Let_def keyed_def take_eq_map_nth distinct_map)
  next
    case False
    show ?thesis
    proof (cases "get_node_type (version n) = node48")
      case True
      have slot: "slot_at n (of_nat i) (unat (index n ! i) - 1)" if "i < 256" "index n ! i \<noteq> 0" for i
        using that True by (simp add: slot_at_def keyed_def unat_of_nat unat_gt_0 Suc_leI)
      have "inj_on (\<lambda>i. child n ! (unat (index n ! i) - 1)) (set (filter (\<lambda>i. index n ! i \<noteq> 0) [0..<256]))"
      proof (rule inj_onI)
        fix i j
        assume ij: "i \<in> set (filter (\<lambda>i. index n ! i \<noteq> 0) [0..<256])" "j \<in> set (filter (\<lambda>i. index n ! i \<noteq> 0) [0..<256])"
          and eq: "child n ! (unat (index n ! i) - 1) = child n ! (unat (index n ! j) - 1)"
        then have "child_at n (of_nat i) (child n ! (unat (index n ! i) - 1))"
          "child_at n (of_nat j) (child n ! (unat (index n ! i) - 1))"
          using slot [of i] slot [of j] by (auto simp: child_at_def)
        then have "(of_nat i :: u8) = of_nat j" by (rule one)
        then have "unat (of_nat i :: u8) = unat (of_nat j :: u8)" by simp
        with ij show "i = j" by (simp add: unat_of_nat)
      qed
      then show ?thesis using True by (simp add: visit_order_def Let_def indexed_children_def distinct_map)
    next
      case no48: False
      with False have t: "get_node_type (version n) = node256"
        by (metis keyed_simps(1,2) node_type_cases)
      then have len: "length (child n) = 256" using assms(1) by (simp add: node_wf_256)
      have "slot_at n (of_nat i) i" if "i < 256" "child n ! i \<noteq> 0" for i
        using that t by (simp add: slot_at_def keyed_def unat_of_nat)
      note slot = this
      have "distinct (filter (\<lambda>c. c \<noteq> 0) (child n))"
      proof (rule distinct_filter_nth)
        fix i j
        assume "i < length (child n)" "j < length (child n)" "child n ! i = child n ! j" "child n ! i \<noteq> 0"
        with slot [of i] slot [of j] len show "i = j" by (intro slots) simp_all
      qed
      then show ?thesis using t len by (simp add: visit_order_def Let_def)
    qed
  qed
qed

lemma traverse_children_concat:
  "(\<And>c. c \<in> set cs \<Longrightarrow> f c = Inr (True, g c)) \<Longrightarrow> traverse_children f cs = Inr (True, concat (map g cs))"
  by (induction cs) simp_all

lemma distinct_concat_map:
  assumes "distinct cs" and "\<And>c. c \<in> set cs \<Longrightarrow> distinct (map k (g c))"
    and "\<And>c c'. c \<in> set cs \<Longrightarrow> c' \<in> set cs \<Longrightarrow> c \<noteq> c' \<Longrightarrow> k ` set (g c) \<inter> k ` set (g c') = {}"
  shows "distinct (map k (concat (map g cs)))"
  using assms
proof (induction cs)
  case (Cons c cs)
  have "k ` set (g c) \<inter> k ` set (g c') = {}" if "c' \<in> set cs" for c'
    by (rule Cons.prems(3)) (use that Cons.prems(1) in auto)
  then have "k ` set (g c) \<inter> k ` (\<Union>c' \<in> set cs. set (g c')) = {}" by blast
  moreover have "distinct (map k (concat (map g cs)))" by (rule Cons.IH) (use Cons.prems in auto)
  ultimately show ?case using Cons.prems(2) [of c] by simp
qed simp

section \<open>Visiting the tree\<close>

fun leaf_pairs :: "u64 \<Rightarrow> trie \<Rightarrow> (u64 \<times> u64) set" where
  "leaf_pairs par (Leaf_T a k) = {(par, a)}"
| "leaf_pairs par (Node_T a p f) = (\<Union>x \<in> set f. leaf_pairs a (snd x))"

lemma snd_leaf_pairs: "snd ` leaf_pairs par t = leaves_of t"
proof (induction t arbitrary: par)
  case (Node_T a p f)
  have "snd ` leaf_pairs a (snd x) = leaves_of (snd x)" if "x \<in> set f" for x
    by (rule Node_T.IH [of x]) (use that in \<open>auto intro: snds.intros\<close>)
  then show ?case by (simp add: image_UN)
qed simp

lemma same_ptr:
  assumes "rep h L par path t" and "rep h L par' path' t'" and "ptr_of t = ptr_of t'"
  shows "\<not> apart t t'"
proof (cases t; cases t')
  fix a k a' p f assume "t = Leaf_T a k" "t' = Node_T a' p f"
  with assms show ?thesis using rep_ptr(2,3) by (metis ptr_of.simps)
next
  fix a k a' p f assume "t = Node_T a p f" "t' = Leaf_T a' k"
  with assms show ?thesis using rep_ptr(2,3) by (metis ptr_of.simps)
qed (use assms in \<open>auto simp: apart_def\<close>)

lemma child_once:
  assumes "rep h L par path (Node_T a p f)" and "linear (Node_T a p f)" and "nodes h a = Some n"
    and "child_at n b c" and "child_at n b' c"
  shows "b = b'"
proof -
  have "\<forall>b c. child_at n b c \<longleftrightarrow> (\<exists>t. (b, t) \<in> set f \<and> c = ptr_of t)" using assms(1,3) by (auto simp: node_rep_def)
  with assms(4,5) obtain t t' where t: "(b, t) \<in> set f" "(b', t') \<in> set f" "ptr_of t = ptr_of t'" by metis
  then have "rep h L a (path @ p @ [b]) t" "rep h L a (path @ p @ [b']) t'" using assms(1) by auto
  then have "\<not> apart t t'" using same_ptr t(3) by blast
  with t(1,2) assms(2) show ?thesis by fastforce
qed

lemma art_traverse_leaves:
  assumes "rep h L par path t" and "linear t" and "L - length path < fuel"
  shows "\<exists>xs. art_traverse fuel par (ptr_of t) False h = Inr (True, xs) \<and> set xs = leaf_pairs par t \<and> distinct (map snd xs)"
  using assms
proof (induction t arbitrary: par path fuel)
  case (Leaf_T a k)
  then obtain fuel' where "fuel = Suc fuel'" by (cases fuel) auto
  with rep_ptr(2) [OF Leaf_T.prems(1)] show ?case by simp
next
  case (Node_T a p f)
  then obtain fuel' where fuel: "fuel = Suc fuel'" by (cases fuel) auto
  obtain n where n: "nodes h a = Some n" "node_rep n par (length path) p f" using Node_T.prems(1) by auto
  then have wf: "node_wf n" "\<not> is_old (version n)" "\<not> is_expanding (version n)"
    and kids: "\<And>b c. child_at n b c \<longleftrightarrow> (\<exists>t. (b, t) \<in> set f \<and> c = ptr_of t)" by (simp_all add: node_rep_def)
  have sub: "rep h L a (path @ p @ [b]) t" "linear t" if "(b, t) \<in> set f" for b t
    using that Node_T.prems(1,2) by auto
  have ex: "\<exists>xs. art_traverse fuel' a (ptr_of t) False h = Inr (True, xs) \<and> set xs = leaf_pairs a t \<and> distinct (map snd xs)"
    if x: "(b, t) \<in> set f" for b t
  proof (rule Node_T.IH [of "(b, t)"])
    show "rep h L a (path @ p @ [b]) t" "linear t" using sub [OF x] by simp_all
    have "length path + length p < L" using rep_path [OF Node_T.prems(1)] by simp
    with Node_T.prems(3) fuel show "L - length (path @ p @ [b]) < fuel'" by simp
  qed (use x in simp_all)
  define g where "g c = (SOME xs. art_traverse fuel' a c False h = Inr (True, xs))" for c
  have g: "art_traverse fuel' a (ptr_of t) False h = Inr (True, g (ptr_of t))" "set (g (ptr_of t)) = leaf_pairs a t"
    "distinct (map snd (g (ptr_of t)))" if "(b, t) \<in> set f" for b t
  proof -
    from ex [OF that] obtain xs where xs: "art_traverse fuel' a (ptr_of t) False h = Inr (True, xs)"
      "set xs = leaf_pairs a t" "distinct (map snd xs)" by blast
    then have "g (ptr_of t) = xs" by (simp add: g_def)
    with xs show "art_traverse fuel' a (ptr_of t) False h = Inr (True, g (ptr_of t))" "set (g (ptr_of t)) = leaf_pairs a t"
      "distinct (map snd (g (ptr_of t)))" by simp_all
  qed
  have order: "set (visit_order n) = (\<lambda>x. ptr_of (snd x)) ` set f"
    unfolding set_visit_order [OF wf(1)] kids by force
  have "traverse_children (\<lambda>c. art_traverse fuel' a c False h) (visit_order n) = Inr (True, concat (map g (visit_order n)))"
    by (rule traverse_children_concat) (use g(1) order in auto)
  then have run: "art_traverse fuel par a False h = Inr (True, concat (map g (visit_order n)))"
    using rep_ptr(3) [OF Node_T.prems(1)] n(1) wf fuel
    by (simp add: art_node_get_version_def load_node_simp art_node_version_is_old_def
        art_node_get_stable_expand_version_def)
  moreover have "set (concat (map g (visit_order n))) = leaf_pairs par (Node_T a p f)"
  proof -
    have "set (g (ptr_of (snd x))) = leaf_pairs a (snd x)" if "x \<in> set f" for x
      using g(2) [of "fst x" "snd x"] that by simp
    then show ?thesis by (simp add: order)
  qed
  moreover have "distinct (map snd (concat (map g (visit_order n))))"
  proof -
    have "distinct (visit_order n)" by (rule visit_order_distinct [OF wf(1) child_once [OF Node_T.prems(1,2) n(1)]])
    moreover have "snd ` set (g c) \<inter> snd ` set (g c') = {}" if cc: "c \<in> set (visit_order n)" "c' \<in> set (visit_order n)" "c \<noteq> c'" for c c'
    proof -
      obtain b t b' t' where t: "(b, t) \<in> set f" "(b', t') \<in> set f" "c = ptr_of t" "c' = ptr_of t'" using cc order by auto
      have "b \<noteq> b'"
      proof
        assume "b = b'"
        then have "t = t'" using t(1,2) Node_T.prems(1) eq_key_imp_eq_value by fastforce
        with t cc(3) show False by simp
      qed
      then have "apart t t'" using t(1,2) Node_T.prems(2) by fastforce
      then show ?thesis using g(2) t snd_leaf_pairs [of a t] snd_leaf_pairs [of a t'] by (simp add: apart_def)
    qed
    moreover have "distinct (map snd (g c))" if "c \<in> set (visit_order n)" for c using that order g(3) by force
    ultimately show ?thesis by (intro distinct_concat_map) auto
  qed
  ultimately show ?case by auto
qed

lemma leaf_keys:
  "rep h L par path t \<Longrightarrow> {leaf_key l |l. \<exists>a \<in> leaves_of t. leaves h a = Some l} = keys_of t"
proof (induction t arbitrary: par path)
  case (Leaf_T a k)
  then show ?case by (auto simp: leaf_rep_def)
next
  case (Node_T a p f)
  have "{leaf_key l |l. \<exists>a \<in> leaves_of (snd x). leaves h a = Some l} = keys_of (snd x)" if "x \<in> set f" for x
    by (rule Node_T.IH [of x _ a "path @ p @ [fst x]"]) (use that Node_T.prems in \<open>auto intro: snds.intros\<close>)
  moreover have "{leaf_key l |l. \<exists>a \<in> leaves_of (Node_T a p f). leaves h a = Some l} =
      (\<Union>x \<in> set f. {leaf_key l |l. \<exists>a \<in> leaves_of (snd x). leaves h a = Some l})" by (simp only: leaves_of.simps) blast
  ultimately show ?case by simp
qed

text \<open>
  C8. The traversal of the tree ends, with fuel for one level per byte of a key, and calls back exactly once for
  every leaf, with the node under which the leaf hangs; so the leaves visited are those of the stored keys.
\<close>

theorem traverse_visits_every_leaf:
  assumes "rep h L 0 [] t" and "linear t" and "art_root h = ptr_of t" and "L < fuel"
  shows "\<exists>xs. adaptive_radix_tree_traverse fuel h = Inr xs \<and> set xs = leaf_pairs 0 t \<and> distinct (map snd xs) \<and>
    {leaf_key l |l. \<exists>a \<in> set (map snd xs). leaves h a = Some l} = keys_of t"
proof -
  obtain xs where xs: "art_traverse fuel 0 (ptr_of t) False h = Inr (True, xs)" "set xs = leaf_pairs 0 t" "distinct (map snd xs)"
    using art_traverse_leaves [OF assms(1,2), of fuel] assms(4) by auto
  have "set (map snd xs) = leaves_of t" using xs(2) snd_leaf_pairs [of 0 t] by simp
  then have "{leaf_key l |l. \<exists>a \<in> set (map snd xs). leaves h a = Some l} = keys_of t"
    using leaf_keys [OF assms(1)] by (simp only:)
  moreover have "adaptive_radix_tree_traverse fuel h = Inr xs"
    using xs(1) assms(3) rep_ptr(1) [OF assms(1)] by (simp add: adaptive_radix_tree_traverse_def)
  ultimately show ?thesis using xs(2,3) by blast
qed

lemma traverse_visits_every_leaf_witness:
  "\<exists>xs. adaptive_radix_tree_traverse 3 sample_tree = Inr xs \<and> set xs = {(256, 512), (256, 1024)} \<and> distinct (map snd xs)"
  using traverse_visits_every_leaf [OF sample_tree_rep, of 3] sample_tree_room(3) by (auto simp: sample_trie_def)

end
