(* ===== verification/Art_Workers.thy ===== *)
theory Art_Workers
  imports Sidle_Workers Art_Migration
begin

text \<open>
  The workers over the adaptive radix tree: the functions that \<open>ARTKV::init_migration_worker\<close> hands
  to them (\<open>src/kv/art_wrapper.h\<close>), and what a round of the trigger, of the demotion executor and of the
  adjuster does.
\<close>

definition art_tree_op :: "nat \<Rightarrow> art_heap tree_op" where
  "art_tree_op fuel = \<lparr>traverse_func = adaptive_radix_tree_traverse fuel,
     op_leaf_migration = leaf_migration, op_internode_migration = internode_migration,
     op_unlock = unlock_node,
     node_traverse_func = (\<lambda>a h. and_then (load_node a h) (\<lambda>n. Inr (visit_order n))),
     op_get_leaf = get_art_leaf, op_is_leaf = (\<lambda>a h. is_art_leaf a), op_type = Tree_Art,
     leaf_meta_of = (\<lambda>a h. and_then (load_leaf a h) (\<lambda>l. Inr (leaf_meta l))),
     set_access_time = (\<lambda>a c. modify_leaf a (\<lambda>l. l\<lparr>leaf_meta := (leaf_meta l)\<lparr>access_time := c\<rparr>\<rparr>)),
     node_meta_of = (\<lambda>a h. and_then (load_node a h) (\<lambda>n. Inr (sidle_meta n))),
     node_parent_of = art_node_get_parent,
     node_is_old = (\<lambda>a h. and_then (art_node_get_version a h) (\<lambda>v. Inr (art_node_version_is_old v))),
     node_count_of = (\<lambda>a h. and_then (art_node_get_version a h) (\<lambda>v. Inr (get_count v))),
     get_base = base, put_base = (\<lambda>b h. h\<lparr>base := b\<rparr>),
     get_strategy = strategy_manager, put_strategy = (\<lambda>st h. h\<lparr>strategy_manager := st\<rparr>)\<rparr>"

interpretation art_world: worker_world "art_tree_op fuel" for fuel
  by unfold_locales (simp_all add: art_tree_op_def load_leaf_def)

lemma art_tree_op_simps [simp]:
  "get_base (art_tree_op fuel) = base" "op_type (art_tree_op fuel) = Tree_Art"
  "traverse_func (art_tree_op fuel) = adaptive_radix_tree_traverse fuel"
  "thresholds_of (art_tree_op fuel) h = threshold_manager (strategy_manager h)"
  "leaf_meta_of (art_tree_op fuel) a h = and_then (load_leaf a h) (\<lambda>l. Inr (leaf_meta l))"
  "check_tight (art_tree_op fuel) h \<longleftrightarrow> strategy_check_memory_usage (strategy_manager h) = Usage_Tight"
  by (simp_all add: art_tree_op_def thresholds_of_def check_tight_def)

section \<open>A round of the trigger\<close>

lemma find_thresholds_total: "n \<le> length h \<Longrightarrow> \<exists>r. find_thresholds h lower upper n active hot = Inr r"
  by (induction n arbitrary: active hot) (simp_all add: Let_def)

lemma adjust_threshold_total:
  "\<not> is_cooling h \<Longrightarrow> 16 \<le> length (histogram h) \<Longrightarrow> \<exists>h'. adjust_threshold t h = Inr h'"
  using find_thresholds_total [of 16 "histogram h" "active_lower_bound t h" "inactive_upper_bound t h" 0 None]
  by (auto simp: adjust_threshold_def split: prod.splits)

lemma art_traverse_base: "art_traverse fuel par nd full (h\<lparr>base := b\<rparr>) = art_traverse fuel par nd full h"
  by (induction fuel arbitrary: par nd full)
    (simp_all add: art_node_get_version_def art_node_get_stable_expand_version_def load_node_def cong: if_cong)

lemma traverse_base: "adaptive_radix_tree_traverse fuel (h\<lparr>base := b\<rparr>) = adaptive_radix_tree_traverse fuel h"
  by (simp add: adaptive_radix_tree_traverse_def art_traverse_base)

text \<open>Every node that the traversal hands to the callback as a parent is a node of the tree.\<close>

lemma traverse_children_all:
  "traverse_children f cs = Inr (ok, ys) \<Longrightarrow> (\<And>c b xs. f c = Inr (b, xs) \<Longrightarrow> \<forall>x \<in> set xs. P x) \<Longrightarrow> \<forall>x \<in> set ys. P x"
  by (induction cs arbitrary: ok ys) (fastforce simp: and_then_Inr_iff split: if_splits)+

lemma art_traverse_parents:
  "art_traverse fuel par nd full h = Inr (ok, xs) \<Longrightarrow> (is_leaf nd \<longrightarrow> nodes h par \<noteq> None) \<Longrightarrow>
     \<forall>x \<in> set xs. nodes h (fst x) \<noteq> None"
proof (induction fuel arbitrary: par nd full ok xs)
  case (Suc fuel)
  show ?case
  proof (cases "is_leaf nd")
    case False
    have n: "nodes h nd \<noteq> None"
      using Suc.prems(1) False by (auto simp: art_node_get_version_def load_node_def split: option.splits)
    have "traverse_children (\<lambda>c. art_traverse fuel nd c False h) cs = Inr (b, ys) \<Longrightarrow>
        \<forall>x \<in> set ys. nodes h (fst x) \<noteq> None" for cs b ys
      using Suc.IH n by (elim traverse_children_all) blast
    with Suc.prems(1) False n show ?thesis by (fastforce simp: and_then_Inr_iff split: if_splits)
  qed (use Suc.prems in auto)
qed simp

lemma traverse_parents:
  assumes "adaptive_radix_tree_traverse fuel h = Inr xs" and "\<not> is_leaf (art_root h)" and "nodes h 0 = None"
    and "(par, cur) \<in> set xs"
  shows "par \<noteq> 0"
  using assms art_traverse_parents [of fuel 0 "art_root h" False h _ xs]
  by (force simp: adaptive_radix_tree_traverse_def and_then_Inr_iff split: if_splits)

text \<open>
  C35. A round of the trigger that is allowed to run, on a histogram that is not cooling, queues in the order of
  the traversal and each with its parent: for promotion the hot remote leaves if promotions are allowed, and
  none otherwise; for demotion the cold local leaves, and the cold remote ones too once the adjuster has
  called. Nothing else is queued. Hot and cold are judged by the thresholds at the start of the round, where
  the cold one is raised by one if the adjuster has called and the round had to wait for the cooler. Afterwards
  the trigger is no longer marked as running and its counters are zero.
\<close>

theorem trigger_queues_exactly:
  assumes "adaptive_radix_tree_traverse fuel h = Inr xs"
    and "\<forall>(par, cur) \<in> set xs. leaves h cur = Some (leaf cur)" and "nodes h 0 = None" and "\<not> is_leaf (art_root h)"
    and "length (next_histogram hist) = 16" and "\<not> is_cooling hist" and "can_trigger (base h)"
  shows "let called = woken \<or> call_by_adjuster t;
      judged = (if called \<and> cooled then decrease_tolerance_for_cold hist else hist);
      heat = (\<lambda>cur. hotness_of judged (access_time (leaf_meta (leaf cur))));
      place = (\<lambda>cur. leaf_get_type (leaf_meta (leaf cur)))
    in \<exists>t' hist' h'. trigger_round nd (art_tree_op fuel) woken cooled t hist h = Inr (t', hist', h') \<and>
    promotion_pair_queue (mqueue (base h')) = promotion_pair_queue (mqueue (base h)) @
      [(make_leaf (cur + 1), par). (par, cur) \<leftarrow> xs, can_promote (base h) \<and> place cur = Mem_Remote \<and> heat cur = Hot] \<and>
    demotion_pair_queue (mqueue (base h')) = demotion_pair_queue (mqueue (base h)) @
      [(make_leaf (cur + 1), par). (par, cur) \<leftarrow> xs, heat cur = Cold \<and> (place cur = Mem_Local \<or> called)] \<and>
    \<not> is_triggering_migration (base h') \<and> node_counter t' = 0 \<and> access_counter t' = 0"
proof -
  let ?ops = "art_tree_op fuel"
  define hist1 where "hist1 = (if (woken \<or> call_by_adjuster t) \<and> cooled then decrease_tolerance_for_cold hist else hist)"
  have hist1: "length (next_histogram hist1) = 16" "\<not> is_cooling hist1"
    using assms(5,6) by (simp_all add: hist1_def decrease_tolerance_for_cold_def)
  have "\<forall>(par, cur) \<in> set xs. par \<noteq> 0 \<and> leaves h cur = Some (leaf cur)"
    using assms(2) traverse_parents [OF assms(1,4,3)] by blast
  note assms = assms(1) this hist1 assms(6,7)
  define h1 where "h1 = (if woken then h else update_base ?ops (\<lambda>b. b\<lparr>is_triggering_migration := True\<rparr>) h)"
  define t1 where "t1 = (if woken then t\<lparr>call_by_adjuster := True\<rparr> else t)"
  have h1: "mqueue (base h1) = mqueue (base h)" "can_promote (base h1) = can_promote (base h)" "leaves h1 = leaves h"
    by (simp_all add: h1_def update_base_def art_tree_op_def)
  have t1: "call_by_adjuster t1 \<longleftrightarrow> woken \<or> call_by_adjuster t" by (simp add: t1_def)
  have "\<forall>(par, cur) \<in> set xs. par \<noteq> 0 \<and> leaf_meta_of ?ops cur h1 = Inr (leaf_meta (leaf cur))"
    using assms(2) h1(3) by (auto simp: load_leaf_def)
  from art_world.trigger_visits [OF _ this assms(3), of nd "t1\<lparr>round_counter := round_counter t1 + 1\<rparr>"]
  obtain t2 n h2 where visit: "trigger_visit nd ?ops xs (t1\<lparr>round_counter := round_counter t1 + 1\<rparr>) hist1 h1 =
      Inr (t2, hist1\<lparr>next_histogram := n\<rparr>, h2)"
    and n: "length n = 16" and queues: "promotion_pair_queue (mqueue (base h2)) = promotion_pair_queue (mqueue (base h1)) @
      [(make_leaf (cur + 1), par). (par, cur) \<leftarrow> xs, promotes (base h1) hist1 (leaf_meta (leaf cur))]"
    "demotion_pair_queue (mqueue (base h2)) = demotion_pair_queue (mqueue (base h1)) @
      [(make_leaf (cur + 1), par). (par, cur) \<leftarrow> xs,
        demotes (t1\<lparr>round_counter := round_counter t1 + 1\<rparr>) hist1 (leaf_meta (leaf cur))]"
    by auto
  define t3 where "t3 = t2\<lparr>node_counter := 0, access_counter := 0\<rparr>"
  define hist3 where "hist3 = refresh (node_counter t2) (access_counter t2) (hist1\<lparr>next_histogram := n\<rparr>)"
  define h4 where "h4 = update_base ?ops (\<lambda>b. if 0 < get_demotion_queue_length (mqueue b)
      then check_execute_demotion b else b) (update_base ?ops (\<lambda>b. if 0 < get_promotion_queue_length (mqueue b) \<and>
      can_promote b then check_execute_promotion b else b) h2)"
  have "\<not> is_cooling hist3" "16 \<le> length (histogram hist3)" using assms(4) n by (simp_all add: hist3_def refresh_def)
  from adjust_threshold_total [OF this] obtain hist4 where
    adjust: "adjust_threshold (thresholds_of ?ops h4) hist3 = Inr hist4" by blast
  define h5 where "h5 = update_base ?ops (\<lambda>b. b\<lparr>is_triggering_migration := False\<rparr>) h4"
  have "traverse_func ?ops h1 = Inr xs" using assms(1) by (simp add: h1_def update_base_def art_tree_op_def traverse_base)
  moreover have "(if call_by_adjuster t1 \<and> cooled then decrease_tolerance_for_cold hist else hist) = hist1"
    by (simp add: hist1_def t1)
  ultimately have run: "trigger_round nd ?ops woken cooled t hist h = Inr (t3, hist4, h5)"
    using visit adjust assms(5,6)
    by (simp add: trigger_round_def Let_def t1_def [symmetric] h1_def [symmetric] hist3_def [symmetric]
        h4_def [symmetric] h5_def t3_def del: art_tree_op_simps(3,4))
  have "mqueue (base h5) = mqueue (base h2)" "\<not> is_triggering_migration (base h5)"
    by (simp_all add: h5_def h4_def art_world.base_update [where fuel = fuel, simplified])
  with run queues h1 t1 show ?thesis unfolding Let_def hist1_def [symmetric]
    by (intro exI [of _ t3] exI [of _ hist4] exI [of _ h5]) (simp add: t3_def promotes_def demotes_def)
qed

lemma sample_traverse: "adaptive_radix_tree_traverse 3 sample_tree = Inr [(256, 512), (256, 1024)]"
proof -
  have "visit_order sample_node = [513, 1025]"
    using sample_version by (simp add: visit_order_def Let_def) (simp add: sample_node_def numeral_2_eq_2)
  moreover have "is_leaf 513" "is_leaf 1025" "\<not> is_leaf 256" "get_leaf 513 = 512" "get_leaf 1025 = 1024"
    by code_simp+
  ultimately show ?thesis
    using sample_version sample_tree_cells sample_tree_room(3)
    by (simp add: adaptive_radix_tree_traverse_def numeral_3_eq_3 art_node_get_version_def load_node_simp
        art_node_version_is_old_def art_node_get_stable_expand_version_def)
qed

lemma trigger_queues_exactly_witness:
  "\<exists>t' hist' h'. trigger_round False (art_tree_op 3) False False new_trigger (new_histogram 16) sample_tree =
      Inr (t', hist', h') \<and>
    promotion_pair_queue (mqueue (base h')) = [] \<and>
    demotion_pair_queue (mqueue (base h')) = [(513, 256), (1025, 256)]"
proof -
  let ?leaf = "\<lambda>a. if a = 512 then sample_leaf [1, 1] else sample_leaf [1, 2]"
  have "hotness_of (new_histogram 16) 0 = Cold"
    by (simp add: hotness_of_def new_histogram_def default_hot_threshold_def default_cold_threshold_def)
  moreover have "make_leaf (512 + 1) = 513" "make_leaf (1024 + 1) = 1025" by code_simp+
  moreover have "base sample_tree = initial_worker_base" by (simp add: sample_tree_def sample_heap_def)
  moreover have "mqueue initial_worker_base = new_migration_queue" "can_trigger initial_worker_base"
    by (simp_all add: initial_worker_base_def)
  moreover have "leaf_get_type (leaf_meta (sample_leaf k)) = Mem_Local" "access_time (leaf_meta (sample_leaf k)) = 0" for k
    by (simp_all add: sample_leaf_def make_leaf_metadata_def make_node_metadata_def leaf_get_type_def)
  moreover have "length (next_histogram (new_histogram 16)) = 16" "\<not> is_cooling (new_histogram 16)"
    by (simp_all add: new_histogram_def)
  moreover have "nodes sample_tree 0 = None" by (simp add: sample_tree_def sample_heap_def)
  moreover have "\<not> is_leaf 256" by code_simp
  then have "\<not> is_leaf (art_root sample_tree)" by (simp add: sample_tree_room(3))
  ultimately show ?thesis
    using trigger_queues_exactly [OF sample_traverse, where leaf = ?leaf and hist = "new_histogram 16"
        and nd = False and woken = False and cooled = False and t = new_trigger] sample_tree_cells
    by (simp add: new_migration_queue_def Let_def) blast
qed

section \<open>A round of the adjuster\<close>

definition adjuster_inv :: "sidle_threshold \<Rightarrow> bool" where
  "adjuster_inv t \<longleftrightarrow> watermarks_ok t \<and> layers_ok t"

lemma adjuster_inv_step: "step_invariant adjuster_inv"
  by (simp add: step_invariant_def adjuster_inv_def threshold_step_ok threshold_step_layers)

end
