(* ===== verification/Art_Policy.thy ===== *)
theory Art_Policy
  imports Art_Workers
begin

text \<open>
  The invariant of the placement policy across the code that can reach the threshold manager. The
  locale \<open>policy_world\<close> states what the workers ask of a tree so that no round of theirs breaks an
  invariant of the thresholds; the rest shows that every operation of the adaptive radix tree, from the
  allocation of a node up to insertion and migration, keeps the watermarks ordered and the root local.
  The facts of the collection \<open>policy_keeps\<close> push the invariant through the steps of an operation.
\<close>

named_theorems policy_keeps

section \<open>Workers that keep an invariant of the thresholds\<close>

locale policy_world = worker_world ops for ops :: "'w tree_op" +
  fixes I :: "sidle_threshold \<Rightarrow> bool"
  assumes steps: "step_invariant I"
    and leaf_migration_keeps:
      "I (thresholds_of ops w) \<Longrightarrow> op_leaf_migration ops a p t w = Inr (r, w1) \<Longrightarrow> I (thresholds_of ops w1)"
    and internode_migration_keeps:
      "I (thresholds_of ops w) \<Longrightarrow> op_internode_migration ops a t b w = Inr (r, w1) \<Longrightarrow> I (thresholds_of ops w1)"
    and unlock_keeps: "op_unlock ops a w = Inr w1 \<Longrightarrow> thresholds_of ops w1 = thresholds_of ops w"
    and access_time_keeps: "set_access_time ops a c w = Inr w1 \<Longrightarrow> thresholds_of ops w1 = thresholds_of ops w"
begin

lemma trigger_cb_thresholds:
  "trigger_migration_cb nd ops par cur t h w = Inr (t1, h1, w1) \<Longrightarrow> thresholds_of ops w1 = thresholds_of ops w"
  by (auto simp: trigger_migration_cb_def and_then_Inr_iff Let_def world_updates split: if_splits prod.splits)

lemma trigger_visit_thresholds:
  "trigger_visit nd ops xs t h w = Inr (t1, h1, w1) \<Longrightarrow> thresholds_of ops w1 = thresholds_of ops w"
proof (induction xs arbitrary: t h w)
  case (Cons x xs)
  obtain par cur where "x = (par, cur)" by (cases x)
  with Cons show ?case by (auto simp: and_then_Inr_iff dest!: trigger_cb_thresholds)
qed simp

lemma trigger_round_thresholds:
  "trigger_round nd ops woken cooled t h w = Inr (t1, h1, w1) \<Longrightarrow> thresholds_of ops w1 = thresholds_of ops w"
  by (auto simp: trigger_round_def and_then_Inr_iff Let_def world_updates dest!: trigger_visit_thresholds
      split: if_splits prod.splits)

lemma migrate_internode_keeps:
  "I (thresholds_of ops w) \<Longrightarrow> migrate_internode fuel nd ops a t n w = Inr w1 \<Longrightarrow> I (thresholds_of ops w1)"
proof (induction fuel arbitrary: a n w w1)
  case (Suc fuel)
  show ?case
  proof (cases "w1 = w")
    case False
    with Suc.prems(2) obtain b p w2 where move: "op_internode_migration ops a t b w = Inr (p, w2)"
      and rest: "p = 0 \<and> w1 = w2 \<or> (\<exists>s w3. op_unlock ops p w3 = Inr w1 \<and>
        (migrate_internode fuel nd ops p t (n + 1) w2 = Inr w3 \<or>
         w3 = update_base ops (queue_task ops Demotion (p, 0)) w2 \<or> w3 = w2))"
      by (auto simp: and_then_Inr_iff split: if_splits prod.splits)
    have w2: "I (thresholds_of ops w2)" using internode_migration_keeps [OF Suc.prems(1) move] .
    from rest show ?thesis
      using w2 Suc.IH [OF w2] by (auto simp: world_updates dest: unlock_keeps)
  qed (use Suc.prems in simp)
qed simp

lemma migrate_leaf_keeps:
  assumes "I (thresholds_of ops w)" and "migrate_leaf fuel nd ops a par t w = Inr w1"
  shows "I (thresholds_of ops w1)"
proof -
  from assms(2) obtain p w2 where move: "op_leaf_migration ops a par t w = Inr (p, w2)"
    and rest: "w1 = w2 \<or> migrate_internode fuel nd ops p t 1 w2 = Inr w1 \<or>
      (\<exists>w3. op_unlock ops p w3 = Inr w1 \<and> (w3 = update_base ops (queue_task ops Demotion (p, 0)) w2 \<or> w3 = w2))"
    by (auto simp: migrate_leaf_def and_then_Inr_iff split: if_splits prod.splits)
  from leaf_migration_keeps [OF assms(1) move] rest show ?thesis
    by (auto simp: world_updates dest: unlock_keeps migrate_internode_keeps)
qed

lemma put_base_thresholds: "thresholds_of ops (put_base ops b w) = thresholds_of ops w"
  by (simp add: thresholds_of_def strategy_put_base)

lemma promotion_loop_keeps:
  "I (thresholds_of ops w) \<Longrightarrow> promotion_loop tasks fuel nd ops w = Inr w1 \<Longrightarrow> I (thresholds_of ops w1)"
proof (induction tasks arbitrary: w)
  case (Suc tasks)
  obtain addr par b where task: "take_task ops Promotion (get_base ops w) = ((addr, par), b)"
    by (metis surj_pair)
  have w: "I (thresholds_of ops (put_base ops b w))" using Suc.prems(1) by (simp add: put_base_thresholds)
  from Suc.prems w task show ?case
    by (auto simp: Let_def and_then_Inr_iff split: if_splits dest!: migrate_leaf_keeps [OF w] Suc.IH)
qed simp

lemma promotion_round_keeps:
  "I (thresholds_of ops w) \<Longrightarrow> promotion_round tasks fuel nd ops w = Inr w1 \<Longrightarrow> I (thresholds_of ops w1)"
  by (auto simp: promotion_round_def and_then_Inr_iff world_updates dest: promotion_loop_keeps [rotated])

lemma find_first_local_ancestor_keeps:
  "I (thresholds_of ops w) \<Longrightarrow> find_first_local_ancestor fuel nd ops a c m w = Inr (m1, w1) \<Longrightarrow>
     I (thresholds_of ops w1)"
  by (induction fuel arbitrary: a c)
    (auto simp: and_then_Inr_iff Let_def split: if_splits dest: migrate_internode_keeps)

lemma demote_task_keeps:
  "I (thresholds_of ops w) \<Longrightarrow> demote_task fuel nd ops task m w = Inr (m1, w1) \<Longrightarrow> I (thresholds_of ops w1)"
  by (auto simp: demote_task_def and_then_Inr_iff Let_def split: if_splits prod.splits
      dest: migrate_internode_keeps migrate_leaf_keeps find_first_local_ancestor_keeps)

lemma demotion_loop_keeps:
  "I (thresholds_of ops w) \<Longrightarrow> demotion_loop tasks fuel nd ops m w = Inr (m1, w1) \<Longrightarrow> I (thresholds_of ops w1)"
proof (induction tasks arbitrary: m w)
  case (Suc tasks)
  obtain task b where task: "take_task ops Demotion (get_base ops w) = (task, b)" by fastforce
  have w: "I (thresholds_of ops (put_base ops b w))" using Suc.prems(1) by (simp add: put_base_thresholds)
  from Suc.prems w task show ?case
    by (auto simp: Let_def and_then_Inr_iff split: if_splits dest!: demote_task_keeps [OF w] Suc.IH)
qed simp

lemma demotion_round_keeps:
  "I (thresholds_of ops w) \<Longrightarrow> demotion_round tasks fuel nd ops w = Inr w1 \<Longrightarrow> I (thresholds_of ops w1)"
  by (auto simp: demotion_round_def and_then_Inr_iff world_updates dest: demotion_loop_keeps [rotated])

lemma cool_down_all_thresholds:
  "cool_down_all nd ops xs w = Inr w1 \<Longrightarrow> thresholds_of ops w1 = thresholds_of ops w"
proof (induction xs arbitrary: w)
  case (Cons x xs)
  obtain par cur where "x = (par, cur)" by (cases x)
  with Cons show ?case
    by (auto simp: and_then_Inr_iff cool_down_cb_def split: if_splits dest!: access_time_keeps)
qed simp

lemma cooler_round_thresholds:
  "cooler_round nd ops h w = Inr (h1, w1) \<Longrightarrow> thresholds_of ops w1 = thresholds_of ops w"
  by (auto simp: cooler_round_def and_then_Inr_iff dest: cool_down_all_thresholds)

end

section \<open>The invariant on the state of the tree\<close>

definition policy_ok :: "art_heap \<Rightarrow> bool" where
  "policy_ok h \<longleftrightarrow> adjuster_inv (threshold_manager (strategy_manager h))"

lemma policy_ok_same: "strategy_manager h1 = strategy_manager h \<Longrightarrow> policy_ok h1 \<longleftrightarrow> policy_ok h"
  by (simp add: policy_ok_def)

lemma policy_ok_updates [simp]:
  "policy_ok (store_node a n h) = policy_ok h" "policy_ok (store_leaf a l h) = policy_ok h"
  "policy_ok (h\<lparr>art_root := r\<rparr>) = policy_ok h" "policy_ok (h\<lparr>cxl := c\<rparr>) = policy_ok h"
  "policy_ok (h\<lparr>base := b\<rparr>) = policy_ok h" "policy_ok (h\<lparr>nodes := m\<rparr>) = policy_ok h"
  by (simp_all add: policy_ok_def)

section \<open>The frontend\<close>

lemma correct_keeps:
  "adjuster_inv t \<Longrightarrow> 0 < d \<Longrightarrow> adjuster_inv (correct_threshold_with_leaf_depth d t)"
  using threshold_step_layers [of t "Correct_With_Leaf_Depth d"] threshold_step_ok [of t "Correct_With_Leaf_Depth d"]
  by (simp add: adjuster_inv_def)

lemma account_keeps:
  "adjuster_inv (threshold_manager st) \<Longrightarrow> adjuster_inv (threshold_manager (account_memory ty d n mig lf st))"
  by (simp add: account_memory_def Let_def correct_keeps)

lemma signal_keeps:
  "adjuster_inv (threshold_manager st) \<Longrightarrow> adjuster_inv (threshold_manager (fst (signal_memory_status st b)))"
  using adjuster_inv_step by (auto simp: signal_memory_status_def Let_def dest: step_invariantD(1))

lemma update_usage_keeps:
  "update_local_memory_usage nd ty d n mig lf st b = Inr (st1, b1) \<Longrightarrow>
     adjuster_inv (threshold_manager st) \<longrightarrow> adjuster_inv (threshold_manager st1)"
  by (auto simp: update_local_memory_usage_def Let_def split: if_splits)
    (metis account_keeps signal_keeps fst_conv)+

lemma sidle_alloc_keeps [policy_keeps]:
  "sidle_alloc sz pm tt mig lf old h = Inr (a, ty, d, h1) \<Longrightarrow> policy_ok h \<longrightarrow> policy_ok h1"
  by (auto simp: sidle_alloc_def Let_def and_then_Inr_iff policy_ok_def dest!: update_usage_keeps
      split: if_splits prod.splits)

lemma sidle_free_keeps [policy_keeps]: "sidle_free a sz h = Inr h1 \<Longrightarrow> policy_ok h \<longrightarrow> policy_ok h1"
  by (auto simp: sidle_free_def and_then_Inr_iff policy_ok_def dest!: update_usage_keeps)

lemma modify_keeps [policy_keeps]:
  "modify_node a f h = Inr h1 \<Longrightarrow> policy_ok h \<longrightarrow> policy_ok h1"
  "modify_leaf a g h = Inr h1 \<Longrightarrow> policy_ok h \<longrightarrow> policy_ok h1"
  by (auto simp: modify_node_def modify_leaf_def and_then_Inr_iff)

lemma update_access_keeps [policy_keeps]: "update_access a h = Inr h1 \<Longrightarrow> policy_ok h \<longrightarrow> policy_ok h1"
  by (auto simp: update_access_def dest!: policy_keeps split: if_splits)

section \<open>Nodes\<close>

lemma new_node_keeps [policy_keeps]:
  "new_sized_node sz par old tt mig h = Inr (a, h1) \<Longrightarrow> policy_ok h \<longrightarrow> policy_ok h1"
  "new_art_node4 par old h = Inr (a, h1) \<Longrightarrow> policy_ok h \<longrightarrow> policy_ok h1"
  "new_art_node16 par old h = Inr (a, h1) \<Longrightarrow> policy_ok h \<longrightarrow> policy_ok h1"
  "new_art_node48 par old h = Inr (a, h1) \<Longrightarrow> policy_ok h \<longrightarrow> policy_ok h1"
  "new_art_node256 par old h = Inr (a, h1) \<Longrightarrow> policy_ok h \<longrightarrow> policy_ok h1"
  "new_art_node par h = Inr (a, h1) \<Longrightarrow> policy_ok h \<longrightarrow> policy_ok h1"
  "alloc_leaf par k tt mig h = Inr (a, h1) \<Longrightarrow> policy_ok h \<longrightarrow> policy_ok h1"
  "free_art_node a h = Inr h1 \<Longrightarrow> policy_ok h \<longrightarrow> policy_ok h1"
  by (auto simp: new_sized_node_def new_art_node4_def new_art_node16_def new_art_node48_def
      new_art_node256_def new_art_node_def alloc_leaf_def free_art_node_def and_then_Inr_iff
      dest!: policy_keeps)

lemma version_keeps [policy_keeps]:
  "art_node_set_version a v h = Inr h1 \<Longrightarrow> policy_ok h \<longrightarrow> policy_ok h1"
  "art_node_set_offset a off h = Inr h1 \<Longrightarrow> policy_ok h \<longrightarrow> policy_ok h1"
  "art_node_set_new_node a b h = Inr h1 \<Longrightarrow> policy_ok h \<longrightarrow> policy_ok h1"
  "art_node_lock a h = Inr (r, h1) \<Longrightarrow> policy_ok h \<longrightarrow> policy_ok h1"
  "art_node_unlock a h = Inr h1 \<Longrightarrow> policy_ok h \<longrightarrow> policy_ok h1"
  by (auto simp: art_node_set_version_def art_node_set_offset_def art_node_set_new_node_def
      art_node_lock_def art_node_unlock_def Let_def and_then_Inr_iff dest!: policy_keeps split: if_splits)

lemma lock_keeps [policy_keeps]:
  "art_node_get_locked_parent a h = Inr (p, h1) \<Longrightarrow> policy_ok h \<longrightarrow> policy_ok h1"
  "lock_succeeds a h = Inr (b, h1) \<Longrightarrow> policy_ok h \<longrightarrow> policy_ok h1"
  by (auto simp: art_node_get_locked_parent_def lock_succeeds_def and_then_Inr_iff
      dest!: policy_keeps split: if_splits prod.splits)

lemma assert_eff_keeps:
  "assert_eff f h = Inr h1 \<Longrightarrow> (\<And>b h2. f h = Inr (b, h2) \<Longrightarrow> policy_ok h \<longrightarrow> policy_ok h2) \<Longrightarrow>
     policy_ok h \<longrightarrow> policy_ok h1"
  by (auto simp: assert_eff_def and_then_Inr_iff split: if_splits)

lemma adopt_keeps [policy_keeps]: "adopt new cs h = Inr h1 \<Longrightarrow> policy_ok h \<longrightarrow> policy_ok h1"
  by (induction cs arbitrary: h) (auto simp: and_then_Inr_iff dest!: policy_keeps split: if_splits)

lemma grow_keeps [policy_keeps]:
  "grow_allocate n h = Inr (a, h1) \<Longrightarrow> policy_ok h \<longrightarrow> policy_ok h1"
  "assert_eff (lock_succeeds a) h = Inr h1 \<Longrightarrow> policy_ok h \<longrightarrow> policy_ok h1"
  "art_node_grow an h = Inr (a, h1) \<Longrightarrow> policy_ok h \<longrightarrow> policy_ok h1"
proof -
  show 1: "grow_allocate n h = Inr (a, h1) \<Longrightarrow> policy_ok h \<longrightarrow> policy_ok h1" for n h a h1
    by (auto simp: grow_allocate_def dest!: policy_keeps split: if_splits)
  show 2: "assert_eff (lock_succeeds a) h = Inr h1 \<Longrightarrow> policy_ok h \<longrightarrow> policy_ok h1" for a h h1
    by (erule assert_eff_keeps) (rule lock_keeps)
  show "art_node_grow an h = Inr (a, h1) \<Longrightarrow> policy_ok h \<longrightarrow> policy_ok h1"
    by (auto simp: art_node_grow_def and_then_Inr_iff dest!: 1 2 policy_keeps)
qed

lemma add_child_keeps [policy_keeps]:
  "art_node_add_child an byte c has_new h = Inr (i, new, h1) \<Longrightarrow> policy_ok h \<longrightarrow> policy_ok h1"
  by (auto simp: art_node_add_child_def and_then_Inr_iff dest!: policy_keeps split: if_splits)

lemma add_asserted_keeps [policy_keeps]:
  "add_succeeds an b c h = Inr (ok, h1) \<Longrightarrow> policy_ok h \<longrightarrow> policy_ok h1"
  "add_leaf_succeeds an b k h = Inr (ok, h1) \<Longrightarrow> policy_ok h \<longrightarrow> policy_ok h1"
  "assert_eff (add_succeeds an b c) h = Inr h1 \<Longrightarrow> policy_ok h \<longrightarrow> policy_ok h1"
  "assert_eff (add_leaf_succeeds an b k) h = Inr h1 \<Longrightarrow> policy_ok h \<longrightarrow> policy_ok h1"
proof -
  show 1: "add_succeeds an b c h = Inr (ok, h1) \<Longrightarrow> policy_ok h \<longrightarrow> policy_ok h1" for c h ok h1
    by (auto simp: add_succeeds_def and_then_Inr_iff dest!: policy_keeps)
  show 2: "add_leaf_succeeds an b k h = Inr (ok, h1) \<Longrightarrow> policy_ok h \<longrightarrow> policy_ok h1" for h ok h1
    by (auto simp: add_leaf_succeeds_def and_then_Inr_iff dest!: 1 policy_keeps)
  show "assert_eff (add_succeeds an b c) h = Inr h1 \<Longrightarrow> policy_ok h \<longrightarrow> policy_ok h1"
    by (erule assert_eff_keeps) (rule 1)
  show "assert_eff (add_leaf_succeeds an b k) h = Inr h1 \<Longrightarrow> policy_ok h \<longrightarrow> policy_ok h1"
    by (erule assert_eff_keeps) (rule 2)
qed

lemma prefix_keeps [policy_keeps]:
  "art_node_set_prefix an k off len h = Inr h1 \<Longrightarrow> policy_ok h \<longrightarrow> policy_ok h1"
  "art_node_truncate_prefix an off h = Inr (b, h1) \<Longrightarrow> policy_ok h \<longrightarrow> policy_ok h1"
  "assert_cond c h = Inr h1 \<Longrightarrow> policy_ok h \<longrightarrow> policy_ok h1"
  by (auto simp: art_node_set_prefix_def art_node_truncate_prefix_def assert_cond_def Let_def
      and_then_Inr_iff dest!: policy_keeps split: if_splits)

lemma replace_leaf_keeps [policy_keeps]:
  "art_node_replace_leaf_child par an k off h = Inr (new, h1) \<Longrightarrow> policy_ok h \<longrightarrow> policy_ok h1"
  by (auto simp: art_node_replace_leaf_child_def Let_def and_then_Inr_iff dest!: policy_keeps split: if_splits)

lemma expand_keeps [policy_keeps]:
  "art_node_expand_and_insert par an k off n h = Inr (new, h1) \<Longrightarrow> policy_ok h \<longrightarrow> policy_ok h1"
  by (auto simp: art_node_expand_and_insert_def Let_def and_then_Inr_iff dest!: policy_keeps)

lemma pointer_keeps [policy_keeps]:
  "store_slot an i c h = Inr h1 \<Longrightarrow> policy_ok h \<longrightarrow> policy_ok h1"
  "art_node_replace_child par b new h = Inr h1 \<Longrightarrow> policy_ok h \<longrightarrow> policy_ok h1"
  "store_ptr ptr c h = Inr h1 \<Longrightarrow> policy_ok h \<longrightarrow> policy_ok h1"
proof -
  show 1: "store_slot an i c h = Inr h1 \<Longrightarrow> policy_ok h \<longrightarrow> policy_ok h1" for an i c h h1
    by (auto simp: store_slot_def and_then_Inr_iff)
  show "art_node_replace_child par b new h = Inr h1 \<Longrightarrow> policy_ok h \<longrightarrow> policy_ok h1"
    by (auto simp: art_node_replace_child_def and_then_Inr_iff dest!: 1 policy_keeps split: option.splits)
  show "store_ptr ptr c h = Inr h1 \<Longrightarrow> policy_ok h \<longrightarrow> policy_ok h1"
    by (auto simp: store_ptr_def dest!: 1 split: ptr_place.splits)
qed

section \<open>The tree\<close>

lemma replace_leaf_call_keeps [policy_keeps]:
  "adaptive_radix_tree_replace_leaf par ptr an k off h = Inr (r, h1) \<Longrightarrow> policy_ok h \<longrightarrow> policy_ok h1"
  by (auto simp: adaptive_radix_tree_replace_leaf_def and_then_Inr_iff dest!: policy_keeps split: if_splits)

lemma swing_keeps [policy_keeps]:
  "swing_pointer par ptr k off new h = Inr h1 \<Longrightarrow> policy_ok h \<longrightarrow> policy_ok h1"
  by (auto simp: swing_pointer_def and_then_Inr_iff dest!: policy_keeps split: if_splits)

lemma put_parts_keep [policy_keeps]:
  "put_expand ptr an k off p h = Inr (r, h1) \<Longrightarrow> policy_ok h \<longrightarrow> policy_ok h1"
  "put_child ptr an k off p h = Inr (i, h1) \<Longrightarrow> policy_ok h \<longrightarrow> policy_ok h1"
  by (auto simp: put_expand_def put_child_def and_then_Inr_iff dest!: policy_keeps split: if_splits)

lemma art_put_keeps [policy_keeps]:
  "art_put fuel first par ptr k off h = Inr (r, h1) \<Longrightarrow> policy_ok h \<longrightarrow> policy_ok h1"
proof (induction fuel arbitrary: first par ptr off h)
  case (Suc fuel)
  note IH = Suc.IH
  from Suc.prems show ?case
    by (auto simp: and_then_Inr_iff dest!: policy_keeps IH split: if_splits option.splits)
qed simp

lemma put_retry_keeps [policy_keeps]: "put_retry tries fuel k h = Inr (r, h1) \<Longrightarrow> policy_ok h \<longrightarrow> policy_ok h1"
  by (induction tries arbitrary: h) (auto simp: and_then_Inr_iff dest!: policy_keeps split: if_splits)

lemma put_keeps [policy_keeps]:
  "adaptive_radix_tree_put tries fuel k h = Inr (r, h1) \<Longrightarrow> policy_ok h \<longrightarrow> policy_ok h1"
  by (auto simp: adaptive_radix_tree_put_def and_then_Inr_iff dest!: policy_keeps split: if_splits)

lemma art_get_keeps [policy_keeps]:
  "art_get fuel first par ptr k off h = Inr (r, h1) \<Longrightarrow> policy_ok h \<longrightarrow> policy_ok h1"
proof (induction fuel arbitrary: first par ptr off h)
  case (Suc fuel)
  from Suc.prems show ?case
    by (auto simp: and_then_Inr_iff Let_def dest!: policy_keeps Suc.IH split: if_splits option.splits)
qed simp

lemma get_retry_keeps [policy_keeps]: "get_retry tries fuel k h = Inr (r, h1) \<Longrightarrow> policy_ok h \<longrightarrow> policy_ok h1"
  by (induction tries arbitrary: h) (auto simp: and_then_Inr_iff dest!: policy_keeps split: if_splits)

lemma get_keeps [policy_keeps]:
  "adaptive_radix_tree_get tries fuel k h = Inr (r, h1) \<Longrightarrow> policy_ok h \<longrightarrow> policy_ok h1"
  by (auto simp: adaptive_radix_tree_get_def dest!: policy_keeps split: if_splits)

section \<open>Migration\<close>

lemma visit_keeps:
  "visit cb cs h = Inr h1 \<Longrightarrow> (\<And>h c b h2. cb h c = Inr (b, h2) \<Longrightarrow> policy_ok h \<longrightarrow> policy_ok h2) \<Longrightarrow>
     policy_ok h \<longrightarrow> policy_ok h1"
proof (induction cs arbitrary: h)
  case (Cons c cs)
  then show ?case by (auto simp: and_then_Inr_iff split: if_splits; blast)
qed simp

lemma redirect_keeps [policy_keeps]:
  "replace_old_child_ptr par old new h = Inr h1 \<Longrightarrow> policy_ok h \<longrightarrow> policy_ok h1"
  "replace_old_parent_ptr an h = Inr h1 \<Longrightarrow> policy_ok h \<longrightarrow> policy_ok h1"
proof -
  show "replace_old_child_ptr par old new h = Inr h1 \<Longrightarrow> policy_ok h \<longrightarrow> policy_ok h1"
    by (auto simp: replace_old_child_ptr_def and_then_Inr_iff split: if_splits)
  show "replace_old_parent_ptr an h = Inr h1 \<Longrightarrow> policy_ok h \<longrightarrow> policy_ok h1"
    by (auto simp: replace_old_parent_ptr_def art_node_traverse_def and_then_Inr_iff
        dest!: modify_keeps elim!: visit_keeps split: if_splits)
qed

lemma migration_keeps [policy_keeps]:
  "leaf_migration a p t h = Inr (r, h1) \<Longrightarrow> policy_ok h \<longrightarrow> policy_ok h1"
  "move_internode a v t h = Inr (r, h1) \<Longrightarrow> policy_ok h \<longrightarrow> policy_ok h1"
  "give_up a h = Inr (r, h1) \<Longrightarrow> policy_ok h \<longrightarrow> policy_ok h1"
  "unlock_node a h = Inr h1 \<Longrightarrow> policy_ok h \<longrightarrow> policy_ok h1"
  by (auto simp: leaf_migration_def move_internode_def give_up_def unlock_node_def Let_def and_then_Inr_iff
      dest!: policy_keeps split: if_splits)

lemma inner_migration_keeps [policy_keeps]:
  "migrate_locked a t h = Inr (r, h1) \<Longrightarrow> policy_ok h \<longrightarrow> policy_ok h1"
  "internode_migration a t b h = Inr (r, h1) \<Longrightarrow> policy_ok h \<longrightarrow> policy_ok h1"
proof -
  show 1: "migrate_locked a t h = Inr (r, h1) \<Longrightarrow> policy_ok h \<longrightarrow> policy_ok h1" for h r h1
    by (auto simp: migrate_locked_def Let_def and_then_Inr_iff dest!: policy_keeps split: if_splits)
  show "internode_migration a t b h = Inr (r, h1) \<Longrightarrow> policy_ok h \<longrightarrow> policy_ok h1"
    by (auto simp: internode_migration_def and_then_Inr_iff dest!: 1 policy_keeps split: if_splits)
qed

section \<open>The workers over the adaptive radix tree\<close>

interpretation art_policy: policy_world "art_tree_op fuel" adjuster_inv for fuel
proof
  show "step_invariant adjuster_inv" by (rule adjuster_inv_step)
next
  fix a p t w r w1
  assume "adjuster_inv (thresholds_of (art_tree_op fuel) w)" "op_leaf_migration (art_tree_op fuel) a p t w = Inr (r, w1)"
  then show "adjuster_inv (thresholds_of (art_tree_op fuel) w1)"
    using migration_keeps(1) [of a p t w r w1] by (simp add: art_tree_op_def thresholds_of_def policy_ok_def)
next
  fix a t b w r w1
  assume "adjuster_inv (thresholds_of (art_tree_op fuel) w)" "op_internode_migration (art_tree_op fuel) a t b w = Inr (r, w1)"
  then show "adjuster_inv (thresholds_of (art_tree_op fuel) w1)"
    using inner_migration_keeps(2) [of a t b w r w1] by (simp add: art_tree_op_def thresholds_of_def policy_ok_def)
next
  fix a w w1
  assume "op_unlock (art_tree_op fuel) a w = Inr w1"
  then show "thresholds_of (art_tree_op fuel) w1 = thresholds_of (art_tree_op fuel) w"
    by (auto simp: art_tree_op_def thresholds_of_def unlock_node_def art_node_unlock_def art_node_set_version_def
        modify_node_def Let_def and_then_Inr_iff split: if_splits)
next
  fix a c w w1
  assume "set_access_time (art_tree_op fuel) a c w = Inr w1"
  then show "thresholds_of (art_tree_op fuel) w1 = thresholds_of (art_tree_op fuel) w"
    by (auto simp: art_tree_op_def thresholds_of_def modify_leaf_def and_then_Inr_iff)
qed

end
