(* ===== verification/Sidle_System.thy ===== *)
theory Sidle_System
  imports Art_Policy
begin

text \<open>
  The whole system over the adaptive radix tree: foreground threads insert and look up keys while the
  trigger, the two executors, the cooler and the threshold adjuster run their rounds. A step is one
  operation or one round, and the steps come in any order. The adjuster waits for the other
  workers in the middle of its round, so its step carries runs of their steps inside.
\<close>

section \<open>Steps\<close>

type_synonym system = "sidle_histogram \<times> art_heap"

text \<open>
  The fuel bounds the descent of one operation, the tasks of an executor and the retries. The counters
  of the trigger are its own; a round starts from any of them.
\<close>

inductive worker_step :: "nat \<Rightarrow> system \<Rightarrow> system \<Rightarrow> bool" for fuel where
  Put_Key: "adaptive_radix_tree_put tries fuel k h = Inr (r, h') \<Longrightarrow> worker_step fuel (hist, h) (hist, h')"
| Get_Key: "adaptive_radix_tree_get tries fuel k h = Inr (p, h') \<Longrightarrow> worker_step fuel (hist, h) (hist, h')"
| Trigger: "trigger_round (ndebug h) (art_tree_op fuel) woken cooled t hist h = Inr (t', hist', h') \<Longrightarrow>
    worker_step fuel (hist, h) (hist', h')"
| Promote: "promotion_round tasks fuel (ndebug h) (art_tree_op fuel) h = Inr h' \<Longrightarrow>
    worker_step fuel (hist, h) (hist, h')"
| Demote: "demotion_round tasks fuel (ndebug h) (art_tree_op fuel) h = Inr h' \<Longrightarrow>
    worker_step fuel (hist, h) (hist, h')"
| Cool: "cooler_round (ndebug h) (art_tree_op fuel) hist h = Inr (hist', h') \<Longrightarrow>
    worker_step fuel (hist, h) (hist', h')"

inductive system_step :: "nat \<Rightarrow> system \<Rightarrow> system \<Rightarrow> bool" for fuel where
  Worker: "worker_step fuel s s' \<Longrightarrow> system_step fuel s s'"
| Adjust: "(\<forall>k s. (worker_step fuel)\<^sup>*\<^sup>* s (others k s)) \<Longrightarrow>
    adjuster_round others (art_tree_op fuel) s = Inr s' \<Longrightarrow> system_step fuel s s'"

inductive_cases worker_stepE: "worker_step fuel (hist, h) s'"
inductive_cases system_stepE: "system_step fuel s s'"

section \<open>The policy in every reachable state\<close>

lemma worker_step_policy: "worker_step fuel s s' \<Longrightarrow> policy_ok (snd s) \<Longrightarrow> policy_ok (snd s')"
proof (induction rule: worker_step.induct)
  case (Trigger h woken cooled t hist t' hist' h')
  then show ?case
    using art_policy.trigger_round_thresholds [OF Trigger(1)] by (simp add: policy_ok_def)
next
  case (Promote tasks h h' hist)
  then show ?case
    using art_policy.promotion_round_keeps [OF _ Promote(1)] by (simp add: policy_ok_def)
next
  case (Demote tasks h h' hist)
  then show ?case
    using art_policy.demotion_round_keeps [OF _ Demote(1)] by (simp add: policy_ok_def)
next
  case (Cool h hist hist' h')
  then show ?case
    using art_policy.cooler_round_thresholds [OF Cool(1)] by (simp add: policy_ok_def)
qed (use put_keeps get_keeps in auto)

lemma worker_steps_policy: "(worker_step fuel)\<^sup>*\<^sup>* s s' \<Longrightarrow> policy_ok (snd s) \<Longrightarrow> policy_ok (snd s')"
  by (induction rule: rtranclp_induct) (auto dest: worker_step_policy)

lemma others_keep_policy:
  "\<forall>k s. (worker_step fuel)\<^sup>*\<^sup>* s (others k s) \<Longrightarrow> others_keep (art_tree_op fuel) adjuster_inv others"
  unfolding others_keep_def art_tree_op_simps policy_ok_def [symmetric]
  by (metis worker_steps_policy snd_conv)

lemma system_step_policy: "system_step fuel s s' \<Longrightarrow> policy_ok (snd s) \<Longrightarrow> policy_ok (snd s')"
proof (induction rule: system_step.induct)
  case (Adjust others s s')
  obtain hist h hist' h' where s: "s = (hist, h)" "s' = (hist', h')" by (metis surj_pair)
  from Adjust(2) have run: "adjuster_round others (art_tree_op fuel) (hist, h) = Inr (hist', h')" by (simp add: s)
  from art_world.adjuster_keeps [OF adjuster_inv_step others_keep_policy [OF Adjust(1)] _ run] Adjust(3)
  show ?case by (simp add: s policy_ok_def)
qed (rule worker_step_policy)

lemma reachable_policy: "(system_step fuel)\<^sup>*\<^sup>* s s' \<Longrightarrow> policy_ok (snd s) \<Longrightarrow> policy_ok (snd s')"
  by (induction rule: rtranclp_induct) (auto dest: system_step_policy)

text \<open>The first threshold admits at least one layer as soon as ten nodes fit into the budget.\<close>

lemma first_layers_ok:
  assumes "10 \<le> n" and "n < 2 ^ 64" and "make_sidle_threshold n c True = Inr t"
  shows "layers_ok t"
proof -
  from assms(3) obtain l where l: "get_art_local_allocation_threshold n = Inr l"
    and t: "local_allocation_layer_threshold t = l"
    by (auto simp: make_sidle_threshold_def and_then_Inr_iff make_watermarks_def Let_def set_demotion_depth_threshold_def)
  from l layers_of_nodes [of n] assms(1,2) have
    le: "2 ^ (16 * unat l) \<le> n ^ 5" and lt: "n ^ 5 < 2 ^ (16 * (unat l + 1))" by auto
  have "(10::nat) ^ 5 \<le> n ^ 5" using assms(1) by (rule power_mono) simp
  then have "l \<noteq> 0" using lt by auto
  have "n ^ 5 < (2 ^ 64) ^ 5" using assms(2) by (intro power_strict_mono) simp_all
  with le have "(2::nat) ^ (16 * unat l) < 2 ^ 320" by (simp only: power_mult [symmetric]) simp
  then have "unat l < 20" by (simp only: power_strict_increasing_iff one_less_numeral_iff semiring_norm)
  with \<open>l \<noteq> 0\<close> t show ?thesis
    by (simp add: layers_ok_def word_le_nat_alt word_less_nat_alt Suc_le_eq unat_gt_0)
qed

lemma unat_mib:
  fixes m :: u64
  assumes "m < 2 ^ 44"
  shows "unat (m * 1024 * 1024) = unat m * 1048576"
proof -
  have "unat m < 2 ^ 44" using assms by (simp add: word_less_nat_alt)
  then show ?thesis by (simp add: unat_word_ariths)
qed

lemma new_tree_policy:
  assumes "new_adaptive_radix_tree c mem opened mapped err h = Inr h'" and "0 \<le> c" and "c \<le> 100"
    and "0 < mem" and "mem < 2 ^ 44"
  shows "policy_ok h'"
proof -
  define n where "n = strategy_node_count (mem * 1024 * 1024) True"
  have "unat mem < 2 ^ 44" "1 \<le> unat mem" using assms(4,5) by (simp_all add: word_less_nat_alt)
  then have "10 \<le> n" "n < 2 ^ 64"
    unfolding n_def strategy_node_count_def using unat_mib [OF assms(5)]
    by (simp_all add: sizeof_art_node4_def sizeof_art_node256_def)
  moreover obtain t st where t: "make_sidle_threshold n c True = Inr t" "threshold_manager (strategy_manager h') = t"
    using assms(1) by (auto simp: new_adaptive_radix_tree_def make_sidle_strategy_def and_then_Inr_iff Let_def n_def)
  ultimately have "layers_ok t" by (intro first_layers_ok) auto
  moreover have "watermarks_ok t"
    using t(1) assms(2,3) by (auto simp: make_sidle_threshold_def and_then_Inr_iff make_watermarks_ok)
  ultimately show ?thesis by (simp add: policy_ok_def adjuster_inv_def t(2))
qed

lemma new_root_node_local:
  assumes "policy_ok h" and "new_art_node 0 h = Inr (a, h1)"
  shows "\<exists>n. nodes h1 a = Some n \<and> md_type (sidle_meta n) = Mem_Local \<and> md_depth (sidle_meta n) = 1"
proof -
  have "get_allocation_position (threshold_manager (strategy_manager h)) 1 = Mem_Local"
    using assms(1) layers_ok_root by (simp add: policy_ok_def adjuster_inv_def root_is_local_def)
  then show ?thesis
    using assms(2) by (auto simp: new_art_node_def new_art_node4_def new_sized_node_def parent_meta_def and_then_Inr_iff
        sidle_alloc_def Let_def decide_new_node_position_def to_u8_def modify_node_def raw_node_def node_arrays_def
        make_node_metadata_def split: if_splits prod.splits)
qed

section \<open>The histogram in every reachable state\<close>

text \<open>The two arrays have the 16 buckets of the code, and no one is left waiting for the cooler.\<close>

definition histogram_ok :: "sidle_histogram \<Rightarrow> bool" where
  "histogram_ok h \<longleftrightarrow> length (histogram h) = 16 \<and> length (next_histogram h) = 16 \<and> \<not> is_cooling h"

lemma new_histogram_ok: "histogram_ok (new_histogram 16)"
  by (simp add: histogram_ok_def new_histogram_def)

lemma update_histogram_ok: "update_histogram c h = Inr (x, h1) \<Longrightarrow> histogram_ok h \<longrightarrow> histogram_ok h1"
  by (auto simp: update_histogram_def bump_def and_then_Inr_iff histogram_ok_def byte_at_def write_at_def split: if_splits)

lemma refresh_ok: "histogram_ok h \<Longrightarrow> histogram_ok (refresh n c h)"
  by (simp add: refresh_def histogram_ok_def)

lemma adjust_threshold_ok: "adjust_threshold t h = Inr h1 \<Longrightarrow> histogram_ok h \<longrightarrow> histogram_ok h1"
  by (auto simp: adjust_threshold_def histogram_ok_def and_then_Inr_iff split: if_splits)

lemma trigger_cb_histogram:
  "trigger_migration_cb nd ops par cur t h w = Inr (t1, h1, w1) \<Longrightarrow> histogram_ok h \<longrightarrow> histogram_ok h1"
  by (auto simp: trigger_migration_cb_def and_then_Inr_iff Let_def dest: update_histogram_ok split: if_splits)

lemma trigger_visit_histogram:
  "trigger_visit nd ops xs t h w = Inr (t1, h1, w1) \<Longrightarrow> histogram_ok h \<longrightarrow> histogram_ok h1"
proof (induction xs arbitrary: t h w)
  case (Cons x xs)
  obtain par cur where "x = (par, cur)" by (cases x)
  with Cons.prems obtain t2 h2 w2 where cb: "trigger_migration_cb nd ops par cur t h w = Inr (t2, h2, w2)"
    and rest: "trigger_visit nd ops xs t2 h2 w2 = Inr (t1, h1, w1)" by (auto simp: and_then_Inr_iff)
  from trigger_cb_histogram [OF cb] Cons.IH [OF rest] show ?case by blast
qed simp

lemma decrease_tolerance_ok [simp]: "histogram_ok (decrease_tolerance_for_cold h) = histogram_ok h"
  by (simp add: decrease_tolerance_for_cold_def histogram_ok_def)

lemma trigger_round_histogram:
  "trigger_round nd ops woken cooled t h w = Inr (t1, h1, w1) \<Longrightarrow> histogram_ok h \<Longrightarrow> histogram_ok h1"
  by (auto simp: trigger_round_def Let_def and_then_Inr_iff refresh_ok split: if_splits
      dest!: trigger_visit_histogram adjust_threshold_ok)

lemma cooler_round_histogram: "cooler_round nd ops h w = Inr (h1, w1) \<Longrightarrow> histogram_ok h \<longrightarrow> histogram_ok h1"
  by (auto simp: cooler_round_def and_then_Inr_iff adjust_for_cooling_def notify_cooling_def histogram_ok_def)

lemma worker_step_histogram: "worker_step fuel s s' \<Longrightarrow> histogram_ok (fst s) \<Longrightarrow> histogram_ok (fst s')"
  by (induction rule: worker_step.induct) (auto dest: trigger_round_histogram cooler_round_histogram)

lemma worker_steps_histogram: "(worker_step fuel)\<^sup>*\<^sup>* s s' \<Longrightarrow> histogram_ok (fst s) \<Longrightarrow> histogram_ok (fst s')"
  by (induction rule: rtranclp_induct) (auto dest: worker_step_histogram)

lemma shortage_rounds_histogram:
  assumes "\<forall>k s. (worker_step fuel)\<^sup>*\<^sup>* s (others k s)"
  shows "shortage_rounds left others ops k s = Inr s' \<Longrightarrow> histogram_ok (fst s) \<Longrightarrow> histogram_ok (fst s')"
proof (induction left arbitrary: k s)
  case (Suc left)
  have keep: "others i (x, y) = (x1, y1) \<Longrightarrow> histogram_ok x \<Longrightarrow> histogram_ok x1" for i x y x1 y1
    using assms worker_steps_histogram by (metis fst_conv)
  obtain h w where s: "s = (h, w)" by (cases s)
  define w2 where "w2 = update_thresholds ops (adjust_hotness_watermark False False) (update_base ops interrupt_workers w)"
  obtain h3 w3 where o3: "others k (h, w2) = (h3, w3)" by fastforce
  with Suc.prems(1) obtain h4 where h4: "adjust_threshold (thresholds_of ops w3) h3 = Inr h4"
    by (cases "adjust_threshold (thresholds_of ops w3) h3") (auto simp: s Let_def w2_def [symmetric])
  obtain h5 w5 where o5: "others (k + 1) (h4, w3) = (h5, w5)" by fastforce
  obtain h7 w7 where o7: "others (k + 2) (h5, update_base ops wake_trigger w5) = (h7, w7)" by fastforce
  have "histogram_ok h4" using keep [OF o3] adjust_threshold_ok [OF h4] Suc.prems(2) by (simp add: s)
  then have h7: "histogram_ok h7" using keep [OF o5] keep [OF o7] by simp
  have "shortage_rounds (Suc left) others ops k s =
      (if is_demoting (get_base ops w5) \<and> is_running (get_base ops w5) then Inl Spin
       else if check_tight ops w7 then shortage_rounds left others ops (k + 3) (h7, w7) else Inr (h7, w7))"
    using o3 h4 o5 o7 by (simp add: s Let_def w2_def [symmetric])
  with Suc.prems(1) h7 Suc.IH [of "k + 3" "(h7, w7)"] show ?case by (auto split: if_splits)
qed simp

lemma system_step_histogram: "system_step fuel s s' \<Longrightarrow> histogram_ok (fst s) \<Longrightarrow> histogram_ok (fst s')"
proof (induction rule: system_step.induct)
  case (Adjust others s s')
  obtain h w where s: "s = (h, w)" by (cases s)
  have "fst s' = h \<or> (\<exists>w1 s1. shortage_rounds default_threshold_adjust_times others (art_tree_op fuel) 0 (h, w1) = Inr s1 \<and>
      fst s' = fst s1)"
    using Adjust(2) by (auto simp: s adjuster_round_def handle_local_mem_shortage_def Let_def and_then_Inr_iff
        split: mem_usage_status.splits)
  with shortage_rounds_histogram [OF Adjust(1)] Adjust(3) show ?case by (auto simp: s)
qed (rule worker_step_histogram)

lemma reachable_histogram: "(system_step fuel)\<^sup>*\<^sup>* s s' \<Longrightarrow> histogram_ok (fst s) \<Longrightarrow> histogram_ok (fst s')"
  by (induction rule: rtranclp_induct) (auto dest: system_step_histogram)

section \<open>A run of a new tree\<close>

lemma sample_new_tree:
  "\<exists>h. new_adaptive_radix_tree 50 110 3 (Some 0x100000) 0 sample_heap = Inr h \<and> art_root h = 0 \<and>
    base h = initial_worker_base"
proof -
  have st: "\<exists>st. make_sidle_strategy 110 50 True = Inr st"
    by (simp add: make_sidle_strategy_def make_sidle_threshold_def Let_def
        get_art_local_allocation_threshold_def strategy_node_count_def sizes)
  obtain c where "cxl_init CXL_MAX_SIZE 50 3 (Some 0x100000) 0 (cxl sample_heap) = Inr c"
    by (simp add: cxl_init_def sample_heap_def cxl_boot_def Let_def)
  with st show ?thesis by (auto simp: new_adaptive_radix_tree_def) (auto simp: sample_heap_def)
qed

text \<open>A run on the new tree: a round of the trigger, one of the cooler, and a lookup.\<close>

lemma sample_run:
  assumes "art_root h = 0" and "base h = initial_worker_base"
  shows "\<exists>hist' h'. system_step 3 (new_histogram 16, h) (hist', h') \<and> (system_step 3)\<^sup>*\<^sup>* (new_histogram 16, h) (hist', h')"
proof -
  have visited: "adaptive_radix_tree_traverse 3 h1 = Inr []" if "art_root h1 = 0" for h1
    using that by (simp add: adaptive_radix_tree_traverse_def)
  have can: "can_trigger (base h)" using assms(2) by (simp add: initial_worker_base_def)
  have "\<exists>t hist' h'. trigger_round (ndebug h) (art_tree_op 3) False False new_trigger (new_histogram 16) h = Inr (t, hist', h')"
    using can by (simp add: trigger_round_def Let_def)
     (simp add: update_base_def art_tree_op_def visited assms(1) adjust_threshold_def refresh_def new_histogram_def new_trigger_def)
  then obtain t hist' h' where "trigger_round (ndebug h) (art_tree_op 3) False False new_trigger (new_histogram 16) h = Inr (t, hist', h')"
    by blast
  then have "system_step 3 (new_histogram 16, h) (hist', h')" by (intro system_step.Worker worker_step.Trigger)
  then show ?thesis by blast
qed

section \<open>Properties\<close>

text \<open>
  C5. In whatever order operations and background rounds follow each other on a new tree with a budget of at
  least one MiB, the watermarks stay ordered and the root keeps its place in local memory: in every reachable
  state the threshold admits the first layer, and a node without a parent is allocated in local memory with
  depth 1.
\<close>

theorem reachable_root_local:
  assumes "new_adaptive_radix_tree c mem opened mapped err h0 = Inr h" and "0 \<le> c" and "c \<le> 100"
    and "0 < mem" and "mem < 2 ^ 44" and "(system_step fuel)\<^sup>*\<^sup>* (hist, h) (hist', h')"
  shows "watermarks_ok (threshold_manager (strategy_manager h')) \<and>
    root_is_local (threshold_manager (strategy_manager h')) \<and>
    (\<forall>a h''. new_art_node 0 h' = Inr (a, h'') \<longrightarrow>
      (\<exists>n. nodes h'' a = Some n \<and> md_type (sidle_meta n) = Mem_Local \<and> md_depth (sidle_meta n) = 1))"
proof -
  have "policy_ok h'" using reachable_policy [OF assms(6)] new_tree_policy [OF assms(1-5)] by simp
  then show ?thesis
    using new_root_node_local layers_ok_root by (auto simp: policy_ok_def adjuster_inv_def)
qed

lemma reachable_root_local_witness:
  "\<exists>h hist' h'. new_adaptive_radix_tree 50 110 3 (Some 0x100000) 0 sample_heap = Inr h \<and>
    system_step 3 (new_histogram 16, h) (hist', h') \<and> root_is_local (threshold_manager (strategy_manager h'))"
proof -
  obtain h where h: "new_adaptive_radix_tree 50 110 3 (Some 0x100000) 0 sample_heap = Inr h"
    and "art_root h = 0" "base h = initial_worker_base" using sample_new_tree by blast
  from sample_run [OF this(2,3)] obtain hist' h' where run: "system_step 3 (new_histogram 16, h) (hist', h')"
    and runs: "(system_step 3)\<^sup>*\<^sup>* (new_histogram 16, h) (hist', h')" by blast
  from reachable_root_local [OF h _ _ _ _ runs] h run show ?thesis by (auto simp: word_less_nat_alt)
qed

text \<open>
  C6. The histogram that the workers share keeps its shape in every reachable state, so no use of it can
  read or write outside its 16 buckets and no one waits for the cooler in vain: an access of
  any count is counted, the thresholds can be recomputed, and the cooler can halve the counts.
\<close>

theorem reachable_histogram_safe:
  assumes "(system_step fuel)\<^sup>*\<^sup>* (new_histogram 16, h) (hist, h')"
  shows "(\<exists>x hist'. update_histogram count hist = Inr (x, hist')) \<and>
    (\<exists>hist'. adjust_threshold t hist = Inr hist') \<and>
    (\<exists>hist'. adjust_for_cooling (notify_cooling hist) = Inr hist')"
proof -
  have ok: "histogram_ok hist" using reachable_histogram [OF assms] new_histogram_ok by simp
  then have "\<exists>x hist'. update_histogram count hist = Inr (x, hist')"
    using bucket_less [of count] by (auto simp: histogram_ok_def update_histogram_def bump_def bucket_def split: if_splits)
  moreover have "\<exists>hist'. adjust_threshold t hist = Inr hist'"
    using ok by (intro adjust_threshold_total) (simp_all add: histogram_ok_def)
  moreover have "\<exists>hist'. adjust_for_cooling (notify_cooling hist) = Inr hist'"
    using ok by (simp add: histogram_ok_def adjust_for_cooling_def notify_cooling_def)
  ultimately show ?thesis by blast
qed

lemma reachable_histogram_safe_witness:
  "\<exists>h hist h'. system_step 3 (new_histogram 16, h) (hist, h') \<and> (\<exists>x hist'. update_histogram 65535 hist = Inr (x, hist'))"
proof -
  obtain h :: art_heap where "art_root h = 0" "base h = initial_worker_base" using sample_new_tree by blast
  from sample_run [OF this] obtain hist h' where run: "system_step 3 (new_histogram 16, h) (hist, h')"
    and runs: "(system_step 3)\<^sup>*\<^sup>* (new_histogram 16, h) (hist, h')" by blast
  from reachable_histogram_safe [OF runs, of 65535] run show ?thesis by blast
qed

text \<open>
  C36. A round of the adjuster that returns, from any state in which the watermarks are ordered and the first
  layer is local: whatever operations and rounds the foreground threads and the other workers run while it
  waits, both still hold afterwards, through every shrinking and extending of the thresholds. The request
  flag is cleared, and if the memory was tight at the start, which is when the round forbids promotions,
  they are allowed again.
\<close>

theorem adjuster_round_keeps_policy:
  assumes "adjuster_inv (threshold_manager (strategy_manager h))"
    and "\<forall>k s. (worker_step fuel)\<^sup>*\<^sup>* s (others k s)"
    and "adjuster_round others (art_tree_op fuel) (hist, h) = Inr (hist', h')"
  shows "adjuster_inv (threshold_manager (strategy_manager h')) \<and>
    root_is_local (threshold_manager (strategy_manager h')) \<and>
    \<not> need_adjust_threshold (base h') \<and>
    (strategy_check_memory_usage (strategy_manager h) = Usage_Tight \<longrightarrow> can_promote (base h'))"
  using art_world.adjuster_keeps [OF adjuster_inv_step others_keep_policy [OF assms(2)] _ assms(3)] assms(1) layers_ok_root
  by (auto simp: adjuster_inv_def)

text \<open>The sample tree with its whole budget used, so that its memory is tight.\<close>

definition tight_tree :: art_heap where
  "tight_tree = sample_tree\<lparr>strategy_manager := \<lparr>threshold_manager = sample_threshold,
     max_local_memory_usage = 4096, cur_local_memory_usage = 4096, slow_down_in_load = False\<rparr>\<rparr>"

lemma idle_shortage:
  "\<not> is_demoting (base w) \<Longrightarrow> \<exists>w'. shortage_rounds left (\<lambda>k s. s) (art_tree_op fuel) k (new_histogram 16, w) =
     Inr (new_histogram 16, w')"
proof (induction left arbitrary: k w)
  case (Suc left)
  have hist: "adjust_threshold t (new_histogram 16) = Inr (new_histogram 16)" for t
    by (simp add: adjust_threshold_def new_histogram_def)
  define w1 where "w1 = update_thresholds (art_tree_op fuel) (adjust_hotness_watermark False False)
    (update_base (art_tree_op fuel) interrupt_workers w)"
  define w2 where "w2 = update_base (art_tree_op fuel) wake_trigger w1"
  have "\<not> is_demoting (base w1)" "\<not> is_demoting (base w2)" using Suc.prems
    by (simp_all add: w1_def w2_def update_base_def update_thresholds_def art_tree_op_def Let_def interrupt_workers_def
        wake_trigger_def)
  then show ?case using Suc.IH [of w2 "k + 3"] by (simp add: Let_def hist w1_def [symmetric] w2_def [symmetric])
qed simp

lemma adjuster_round_keeps_policy_witness:
  "\<exists>h'. adjuster_round (\<lambda>k s. s) (art_tree_op 3) (new_histogram 16, tight_tree) = Inr (new_histogram 16, h') \<and>
    adjuster_inv (threshold_manager (strategy_manager h')) \<and> \<not> need_adjust_threshold (base h') \<and> can_promote (base h')"
proof -
  have tight: "strategy_check_memory_usage (strategy_manager tight_tree) = Usage_Tight"
    by (simp add: tight_tree_def strategy_check_memory_usage_def memory_usage_ratio_def double_div_def
        check_memory_usage_def sample_threshold_def)
  have idle: "\<not> is_demoting (base tight_tree)"
    by (simp add: tight_tree_def sample_tree_def sample_heap_def initial_worker_base_def)
  define w where "w = update_base (art_tree_op 3) (\<lambda>b. b\<lparr>need_adjust_threshold := True\<rparr>) tight_tree"
  define w2 where "w2 = update_thresholds (art_tree_op 3) shrink_thresholds
    (update_base (art_tree_op 3) (\<lambda>b. b\<lparr>can_promote := False\<rparr>) w)"
  have "strategy_check_memory_usage (get_strategy (art_tree_op 3) w) = Usage_Tight"
    using tight by (simp add: w_def update_base_def art_tree_op_def)
  moreover have "\<not> is_demoting (base w2)"
    using idle by (simp add: w2_def w_def update_base_def update_thresholds_def art_tree_op_def Let_def)
  then obtain w3 where "shortage_rounds default_threshold_adjust_times (\<lambda>k s. s) (art_tree_op 3) 0
      (new_histogram 16, w2) = Inr (new_histogram 16, w3)" using idle_shortage by blast
  ultimately have "\<exists>h'. adjuster_round (\<lambda>k s. s) (art_tree_op 3) (new_histogram 16, tight_tree) = Inr (new_histogram 16, h')"
    by (simp add: adjuster_round_def handle_local_mem_shortage_def w_def [symmetric] w2_def [symmetric] Let_def)
  then obtain h' where run: "adjuster_round (\<lambda>k s. s) (art_tree_op 3) (new_histogram 16, tight_tree) =
      Inr (new_histogram 16, h')" by blast
  have "adjuster_inv (threshold_manager (strategy_manager tight_tree))"
    by (simp add: tight_tree_def adjuster_inv_def watermarks_ok_def layers_ok_def sample_threshold_def)
  then show ?thesis using adjuster_round_keeps_policy [OF _ _ run] run tight by blast
qed

end
