(* ===== verification/Masstree_Bag.thy ===== *)
theory Masstree_Bag
  imports Sidle_Prelude
begin

text \<open>
  The bag of strings in which a Masstree leaf keeps the suffixes of its keys (\<open>stringbag.hh\<close>): a table of
  positions and lengths and the bytes, in one piece of memory. The lemmas show that a string that was assigned is
  read back and no other string changes, as long as the bag is smaller than its offsets can count.
\<close>

section \<open>The bag\<close>

text \<open>
  \<open>bag_bits\<close> is the width of the offset type, \<open>bag_bytes\<close> the memory with the table in front of the strings.
  A string that would be written over the table is the error \<open>Out_Of_Bounds\<close>.
\<close>

record suffix_bag =
  bag_bits :: nat
  bag_size :: nat
  bag_last :: nat
  bag_info :: "(nat \<times> nat) list"
  bag_bytes :: "u8 list"

definition bag_slice_size :: nat where "bag_slice_size = 8"

definition bag_max_size :: "nat \<Rightarrow> nat" where
  "bag_max_size bits = 2 ^ bits"

definition bag_overhead :: "nat \<Rightarrow> nat \<Rightarrow> nat" where
  "bag_overhead bits width = 2 * (bits div 8) + width * (2 * (bits div 8))"

definition bag_safe_size :: "nat \<Rightarrow> nat \<Rightarrow> nat \<Rightarrow> nat" where
  "bag_safe_size bits width len = bag_overhead bits width + len + bag_slice_size - 1"

definition empty_bag :: "nat \<Rightarrow> nat \<Rightarrow> nat \<Rightarrow> suffix_bag" where
  "empty_bag bits width capacity =
     \<lparr>bag_bits = bits, bag_size = bag_overhead bits width mod 2 ^ bits,
      bag_last = (capacity + 2 ^ bits - 1) mod 2 ^ bits,
      bag_info = replicate width (0, 0), bag_bytes = replicate capacity 0\<rparr>"

definition make_bag :: "bool \<Rightarrow> nat \<Rightarrow> nat \<Rightarrow> nat \<Rightarrow> suffix_bag res" where
  "make_bag nd bits width capacity =
     (if \<not> (bag_overhead bits width \<le> capacity \<and> capacity \<le> bag_max_size bits) \<and> \<not> nd then Inl Assert_Failed
      else Inr (empty_bag bits width capacity))"

definition bag_capacity :: "suffix_bag \<Rightarrow> nat" where
  "bag_capacity b = bag_last b + 1"

definition bag_used_capacity :: "suffix_bag \<Rightarrow> nat" where
  "bag_used_capacity b = bag_size b"

definition bag_get :: "suffix_bag \<Rightarrow> nat \<Rightarrow> u8 list" where
  "bag_get b p = (if p < length (bag_info b) then
     (let (pos, len) = bag_info b ! p in take len (drop pos (bag_bytes b))) else [])"

definition bag_store :: "nat \<Rightarrow> nat \<Rightarrow> u8 list \<Rightarrow> suffix_bag \<Rightarrow> suffix_bag res" where
  "bag_store p pos s b =
     (if s = [] \<or> bag_overhead (bag_bits b) (length (bag_info b)) \<le> pos \<and> pos + length s \<le> length (bag_bytes b)
      then Inr (b\<lparr>bag_bytes := take pos (bag_bytes b) @ s @ drop (pos + length s) (bag_bytes b),
        bag_info := (bag_info b)[p := (pos mod 2 ^ bag_bits b, length s mod 2 ^ bag_bits b)]\<rparr>)
      else Inl Out_Of_Bounds)"

definition bag_assign :: "nat \<Rightarrow> u8 list \<Rightarrow> suffix_bag \<Rightarrow> (bool \<times> suffix_bag) res" where
  "bag_assign p s b =
     (if length (bag_info b) \<le> p then Inl Out_Of_Bounds
      else
        let (pos, mylen) = bag_info b ! p
        in if length s \<le> mylen then and_then (bag_store p pos s b) (\<lambda>b1. Inr (True, b1))
           else if bag_size b + max (length s) bag_slice_size \<le> bag_capacity b
           then and_then (bag_store p (bag_size b) s
               (b\<lparr>bag_size := (bag_size b + length s) mod 2 ^ bag_bits b\<rparr>)) (\<lambda>b1. Inr (True, b1))
           else Inr (False, b))"

section \<open>What is assigned is read back\<close>

text \<open>Every string lies in the used part, behind the table, and no two share a byte.\<close>

definition bag_ok :: "suffix_bag \<Rightarrow> bool" where
  "bag_ok b \<longleftrightarrow>
     bag_capacity b = length (bag_bytes b) \<and> length (bag_bytes b) < 2 ^ bag_bits b \<and>
     bag_overhead (bag_bits b) (length (bag_info b)) \<le> bag_size b \<and> bag_size b \<le> length (bag_bytes b) \<and>
     (\<forall>p < length (bag_info b). let (pos, len) = bag_info b ! p in
        pos + len \<le> bag_size b \<and> (0 < len \<longrightarrow> bag_overhead (bag_bits b) (length (bag_info b)) \<le> pos)) \<and>
     (\<forall>p < length (bag_info b). \<forall>q < length (bag_info b). p \<noteq> q \<longrightarrow>
        (let (pos, len) = bag_info b ! p; (pos', len') = bag_info b ! q in
         len = 0 \<or> len' = 0 \<or> pos + len \<le> pos' \<or> pos' + len' \<le> pos))"

lemma make_bag_ok:
  assumes "bag_overhead bits width \<le> capacity" and "capacity < 2 ^ bits" and "0 < capacity"
  shows "\<exists>b. make_bag nd bits width capacity = Inr b \<and> bag_ok b \<and> bag_bits b = bits \<and>
    length (bag_info b) = width \<and> bag_capacity b = capacity \<and> (\<forall>p. bag_get b p = [])"
proof -
  have "(capacity + 2 ^ bits - 1) mod 2 ^ bits = capacity - 1"
    using assms(2,3) by (metis Nat.add_diff_assoc2 One_nat_def Suc_leI less_imp_diff_less mod_add_self2 mod_less)
  with assms show ?thesis
    by (auto simp: make_bag_def empty_bag_def bag_max_size_def bag_ok_def bag_capacity_def bag_get_def)
qed

lemma take_drop_overwrite:
  assumes "pos + length s \<le> length bs"
  shows "take (length s) (drop pos (take pos bs @ s @ drop (pos + length s) bs)) = s"
    and "a + len \<le> pos \<or> pos + length s \<le> a \<Longrightarrow>
      take len (drop a (take pos bs @ s @ drop (pos + length s) bs)) = take len (drop a bs)"
proof -
  show "take (length s) (drop pos (take pos bs @ s @ drop (pos + length s) bs)) = s"
    using assms by simp
  assume "a + len \<le> pos \<or> pos + length s \<le> a"
  then show "take len (drop a (take pos bs @ s @ drop (pos + length s) bs)) = take len (drop a bs)"
  proof
    assume "a + len \<le> pos"
    then have a: "a \<le> pos" "len \<le> pos - a" by simp_all
    then have "drop a (take pos bs @ r) = take (pos - a) (drop a bs) @ r" for r
      using assms by (simp add: drop_take)
    moreover have "length (take (pos - a) (drop a bs)) = pos - a" using assms a by simp
    ultimately have "take len (drop a (take pos bs @ r)) = take len (drop a bs)" for r
      using a by (simp only: take_append take_take) (simp add: min_def)
    then show ?thesis .
  next
    assume "pos + length s \<le> a"
    then show ?thesis using assms by simp
  qed
qed

lemma bag_store_ok:
  assumes ok: "bag_ok b" and p: "p < length (bag_info b)" and size: "bag_size b \<le> n" "n \<le> length (bag_bytes b)"
    and range: "s = [] \<and> pos \<le> n \<or> bag_overhead (bag_bits b) (length (bag_info b)) \<le> pos" "pos + length s \<le> n"
    and free: "\<And>q a len. q < length (bag_info b) \<Longrightarrow> q \<noteq> p \<Longrightarrow> bag_info b ! q = (a, len) \<Longrightarrow> 0 < len \<Longrightarrow>
      s = [] \<or> a + len \<le> pos \<or> pos + length s \<le> a"
  shows "\<exists>b'. bag_store p pos s (b\<lparr>bag_size := n\<rparr>) = Inr b' \<and> bag_ok b' \<and> bag_get b' p = s \<and>
    (\<forall>q. q \<noteq> p \<longrightarrow> bag_get b' q = bag_get b q) \<and> bag_size b' = n \<and> bag_bits b' = bag_bits b \<and>
    bag_capacity b' = bag_capacity b \<and> length (bag_info b') = length (bag_info b)"
proof -
  let ?b = "b\<lparr>bag_size := n, bag_bytes := take pos (bag_bytes b) @ s @ drop (pos + length s) (bag_bytes b),
      bag_info := (bag_info b)[p := (pos, length s)]\<rparr>"
  have fit: "pos + length s \<le> length (bag_bytes b)" using range(2) size(2) by simp
  moreover have small: "length (bag_bytes b) < 2 ^ bag_bits b" using ok by (simp add: bag_ok_def)
  ultimately have "pos mod 2 ^ bag_bits b = pos" "length s mod 2 ^ bag_bits b = length s" by simp_all
  then have store: "bag_store p pos s (b\<lparr>bag_size := n\<rparr>) = Inr ?b"
    using range fit by (auto simp: bag_store_def)
  have len: "length (bag_bytes ?b) = length (bag_bytes b)" using fit by simp
  have old: "a + l \<le> n \<and> (0 < l \<longrightarrow> bag_overhead (bag_bits b) (length (bag_info b)) \<le> a)"
    if "q < length (bag_info b)" "bag_info b ! q = (a, l)" for q a l
    using ok that size(1) by (fastforce simp: bag_ok_def)
  have "bag_ok ?b"
    unfolding bag_ok_def
  proof (intro conjI allI impI)
    show "bag_capacity ?b = length (bag_bytes ?b)" using ok len by (simp add: bag_ok_def bag_capacity_def)
    show "length (bag_bytes ?b) < 2 ^ bag_bits ?b" using small len by simp
    show "bag_overhead (bag_bits ?b) (length (bag_info ?b)) \<le> bag_size ?b" using ok size(1) by (simp add: bag_ok_def)
    show "bag_size ?b \<le> length (bag_bytes ?b)" using size(2) len by simp
    show "let (pos, len) = bag_info ?b ! q in pos + len \<le> bag_size ?b \<and>
        (0 < len \<longrightarrow> bag_overhead (bag_bits ?b) (length (bag_info ?b)) \<le> pos)" if "q < length (bag_info ?b)" for q
    proof (cases "q = p")
      case True
      then show ?thesis using range p by auto
    next
      case False
      then show ?thesis using old [of q] that by (auto split: prod.splits)
    qed
    show "let (pos, len) = bag_info ?b ! q; (pos', len') = bag_info ?b ! r in
        len = 0 \<or> len' = 0 \<or> pos + len \<le> pos' \<or> pos' + len' \<le> pos"
      if "q < length (bag_info ?b)" "r < length (bag_info ?b)" "q \<noteq> r" for q r
    proof -
      obtain a l where a: "bag_info b ! q = (a, l)" by fastforce
      obtain a' l' where a': "bag_info b ! r = (a', l')" by fastforce
      have "l = 0 \<or> l' = 0 \<or> a + l \<le> a' \<or> a' + l' \<le> a"
        using ok that a a' by (fastforce simp: bag_ok_def)
      then show ?thesis using free [of q a l] free [of r a' l'] that a a' p by (auto simp: nth_list_update)
    qed
  qed
  moreover have "bag_get ?b p = s" using p fit by (simp add: bag_get_def take_drop_overwrite(1))
  moreover have "bag_get ?b q = bag_get b q" if "q \<noteq> p" for q
  proof (cases "q < length (bag_info b)")
    case True
    obtain a l where a: "bag_info b ! q = (a, l)" by fastforce
    then have "l = 0 \<or> s = [] \<or> a + l \<le> pos \<or> pos + length s \<le> a" using free [OF True that a] by auto
    then have "take l (drop a (bag_bytes ?b)) = take l (drop a (bag_bytes b))"
    proof (elim disjE)
      assume "s = []"
      then have "bag_bytes ?b = bag_bytes b" by simp
      then show ?thesis by simp
    qed (use take_drop_overwrite(2) [OF fit, of a l] in simp_all)
    then show ?thesis using True that a by (simp add: bag_get_def)
  qed (use that in \<open>simp add: bag_get_def\<close>)
  ultimately show ?thesis unfolding store by (simp add: bag_capacity_def)
qed

lemma bag_assign_cases:
  assumes "bag_ok b" and "p < length (bag_info b)"
  shows "\<exists>ok b'. bag_assign p s b = Inr (ok, b') \<and> bag_ok b' \<and> bag_bits b' = bag_bits b \<and>
    bag_capacity b' = bag_capacity b \<and> length (bag_info b') = length (bag_info b) \<and> bag_size b' \<le> bag_size b + length s \<and>
    (if ok then bag_get b' p = s \<and> (\<forall>q. q \<noteq> p \<longrightarrow> bag_get b' q = bag_get b q)
     else b' = b \<and> snd (bag_info b ! p) < length s \<and> bag_capacity b < bag_size b + max (length s) bag_slice_size)"
proof -
  obtain pos mylen where i: "bag_info b ! p = (pos, mylen)" by fastforce
  have inv: "pos + mylen \<le> bag_size b" "0 < mylen \<Longrightarrow> bag_overhead (bag_bits b) (length (bag_info b)) \<le> pos"
    "bag_size b \<le> length (bag_bytes b)" "bag_overhead (bag_bits b) (length (bag_info b)) \<le> bag_size b"
    "bag_capacity b = length (bag_bytes b)" "length (bag_bytes b) < 2 ^ bag_bits b"
    using assms i by (fastforce simp: bag_ok_def)+
  have q: "a + len \<le> bag_size b" if "q < length (bag_info b)" "bag_info b ! q = (a, len)" for q a len
    using assms(1) that by (fastforce simp: bag_ok_def)
  have disj: "len = 0 \<or> mylen = 0 \<or> a + len \<le> pos \<or> pos + mylen \<le> a"
    if "q < length (bag_info b)" "q \<noteq> p" "bag_info b ! q = (a, len)" for q a len
    using assms i that by (fastforce simp: bag_ok_def)
  consider "length s \<le> mylen"
    | "mylen < length s" "bag_size b + max (length s) bag_slice_size \<le> bag_capacity b"
    | "mylen < length s" "bag_capacity b < bag_size b + max (length s) bag_slice_size" by linarith
  then show ?thesis
  proof cases
    case 1
    have "b = b\<lparr>bag_size := bag_size b\<rparr>" by simp
    moreover have "\<exists>b'. bag_store p pos s (b\<lparr>bag_size := bag_size b\<rparr>) = Inr b' \<and> bag_ok b' \<and> bag_get b' p = s \<and>
        (\<forall>q. q \<noteq> p \<longrightarrow> bag_get b' q = bag_get b q) \<and> bag_size b' = bag_size b \<and> bag_bits b' = bag_bits b \<and>
        bag_capacity b' = bag_capacity b \<and> length (bag_info b') = length (bag_info b)"
    proof (rule bag_store_ok)
      show "s = [] \<and> pos \<le> bag_size b \<or> bag_overhead (bag_bits b) (length (bag_info b)) \<le> pos"
        using inv(1,2) 1 by (cases s) auto
      show "s = [] \<or> a + len \<le> pos \<or> pos + length s \<le> a"
        if "q < length (bag_info b)" "q \<noteq> p" "bag_info b ! q = (a, len)" "0 < len" for q a len
        using disj [OF that(1-3)] that(4) 1 by (cases s) auto
    qed (use assms inv 1 in simp_all)
    ultimately obtain b' where "bag_store p pos s b = Inr b'" "bag_ok b'" "bag_get b' p = s"
      "\<forall>q. q \<noteq> p \<longrightarrow> bag_get b' q = bag_get b q" "bag_size b' = bag_size b" "bag_bits b' = bag_bits b"
      "bag_capacity b' = bag_capacity b" "length (bag_info b') = length (bag_info b)" by metis
    moreover from this(1) have "bag_assign p s b = Inr (True, b')" using 1 i assms(2) by (simp add: bag_assign_def)
    ultimately show ?thesis by auto
  next
    case 2
    let ?n = "bag_size b + length s"
    have n: "?n \<le> length (bag_bytes b)" using 2(2) inv(5) by simp
    have "\<exists>b'. bag_store p (bag_size b) s (b\<lparr>bag_size := ?n\<rparr>) = Inr b' \<and> bag_ok b' \<and> bag_get b' p = s \<and>
        (\<forall>q. q \<noteq> p \<longrightarrow> bag_get b' q = bag_get b q) \<and> bag_size b' = ?n \<and> bag_bits b' = bag_bits b \<and>
        bag_capacity b' = bag_capacity b \<and> length (bag_info b') = length (bag_info b)"
    proof (rule bag_store_ok)
      show "s = [] \<or> a + len \<le> bag_size b \<or> bag_size b + length s \<le> a"
        if "q < length (bag_info b)" "q \<noteq> p" "bag_info b ! q = (a, len)" "0 < len" for q a len
        using q [OF that(1,3)] by simp
    qed (use assms inv(4) n in simp_all)
    then obtain b' where b': "bag_store p (bag_size b) s (b\<lparr>bag_size := ?n\<rparr>) = Inr b'" "bag_ok b'" "bag_get b' p = s"
      "\<forall>q. q \<noteq> p \<longrightarrow> bag_get b' q = bag_get b q" "bag_size b' = ?n" "bag_bits b' = bag_bits b"
      "bag_capacity b' = bag_capacity b" "length (bag_info b') = length (bag_info b)" by metis
    have "?n mod 2 ^ bag_bits b = ?n" using n inv(6) by simp
    then have "bag_assign p s b = Inr (True, b')" using 2 i assms(2) b'(1) by (simp add: bag_assign_def)
    with b' show ?thesis by auto
  next
    case 3
    then show ?thesis using i assms by (auto simp: bag_assign_def)
  qed
qed

text \<open>
  C26. A string that is assigned to a position of the bag is read back from it and every other position keeps its string,
  whether the string fits into the old place or takes new bytes; an assignment fails only when the
  string is longer than the old one and the bytes behind the used part are too few, and then changes nothing.
\<close>

theorem bag_assign_roundtrip:
  assumes "bag_ok b" and "p < length (bag_info b)"
  shows "\<exists>ok b'. bag_assign p s b = Inr (ok, b') \<and> bag_ok b' \<and>
    (if ok then bag_get b' p = s \<and> (\<forall>q. q \<noteq> p \<longrightarrow> bag_get b' q = bag_get b q)
     else b' = b \<and> snd (bag_info b ! p) < length s \<and> bag_capacity b < bag_size b + max (length s) bag_slice_size)"
  using bag_assign_cases [OF assms, of s] by blast

lemma bag_assign_fits:
  assumes "bag_ok b" and "p < length (bag_info b)" and "bag_size b + length s + 7 \<le> bag_capacity b"
  shows "\<exists>b'. bag_assign p s b = Inr (True, b') \<and> bag_ok b' \<and> bag_bits b' = bag_bits b \<and>
    bag_capacity b' = bag_capacity b \<and> length (bag_info b') = length (bag_info b) \<and> bag_size b' \<le> bag_size b + length s \<and>
    bag_get b' p = s \<and> (\<forall>q. q \<noteq> p \<longrightarrow> bag_get b' q = bag_get b q)"
proof -
  obtain ok b' where b': "bag_assign p s b = Inr (ok, b')" "bag_ok b'" "bag_bits b' = bag_bits b"
    "bag_capacity b' = bag_capacity b" "length (bag_info b') = length (bag_info b)" "bag_size b' \<le> bag_size b + length s"
    "if ok then bag_get b' p = s \<and> (\<forall>q. q \<noteq> p \<longrightarrow> bag_get b' q = bag_get b q)
     else b' = b \<and> snd (bag_info b ! p) < length s \<and> bag_capacity b < bag_size b + max (length s) bag_slice_size"
    using bag_assign_cases [OF assms(1,2), of s] by blast
  moreover have ok
  proof (rule ccontr)
    assume "\<not> ok"
    then show False using b'(7) assms(3) by (simp add: bag_slice_size_def max_def split: if_splits)
  qed
  ultimately show ?thesis by auto
qed

lemma bag_assign_roundtrip_witness:
  "\<exists>b b'. make_bag False 8 15 100 = Inr b \<and> bag_assign 3 [7, 8] b = Inr (True, b') \<and> bag_get b' 3 = [7, 8]"
proof -
  obtain b where b: "make_bag False 8 15 100 = Inr b" "bag_ok b" "length (bag_info b) = 15" "bag_capacity b = 100"
    using make_bag_ok [of 8 15 100 False] by (auto simp: bag_overhead_def)
  have "bag_size b = 32" using b(1) by (auto simp: make_bag_def empty_bag_def bag_overhead_def bag_max_size_def)
  then show ?thesis using bag_assign_roundtrip [OF b(2), of 3 "[7, 8]"] b by (auto simp: bag_slice_size_def split: if_splits)
qed

lemma bag_get_empty [simp]: "bag_get (empty_bag bits width capacity) p = []"
  by (simp add: bag_get_def empty_bag_def)

text \<open>
  The constructor admits a bag of \<open>max_size\<close> bytes, but \<open>size_\<close> cannot hold that number: when such a bag is filled
  to the last byte the count of used bytes starts again from zero, and the next string that grows is written over
  the table.
\<close>

lemma full_bag_wraps:
  assumes "make_bag False 8 15 256 = Inr b"
  shows "\<exists>b'. bag_assign 0 (replicate 224 1) b = Inr (True, b') \<and> bag_size b' = 0 \<and>
    bag_assign 1 [2] b' = Inl Out_Of_Bounds"
  using assms
  by (auto simp: make_bag_def empty_bag_def bag_overhead_def bag_max_size_def bag_assign_def bag_store_def bag_capacity_def bag_slice_size_def)

end
