(* ===== verification/Masstree_Permuter.thy ===== *)
theory Masstree_Permuter
  imports Sidle_Prelude "HOL-Library.Multiset"
begin

text \<open>
  The key permuter of a Masstree leaf (\<open>kpermuter.hh\<close>): the order of the \<open>w\<close> slots of a leaf in one machine
  word, four bits per slot above four bits for the number of slots in use. The lemmas show that each operation on
  the word is the operation on the list of slots that the comments of the header describe.
\<close>

section \<open>The operations\<close>

text \<open>The width \<open>w\<close> is a template parameter; from 8 to 15 slots the word has 64 bits.\<close>

definition kp_initial_value :: u64 where "kp_initial_value = 0x0123456789ABCDE0"
definition kp_full_value :: u64 where "kp_full_value = 0xEDCBA98765432100"
definition kp_max_width :: nat where "kp_max_width = 15"

definition kp_make_empty :: "nat \<Rightarrow> u64" where
  "kp_make_empty w = (let p = drop_bit (4 * (kp_max_width - w)) kp_initial_value in p AND NOT 15)"

definition kp_make_sorted :: "nat \<Rightarrow> nat \<Rightarrow> u64" where
  "kp_make_sorted w n =
     (let msk = (if n = w then 0 else push_bit (4 * n) 16) - 1
      in push_bit (4 * n) (kp_make_empty w) OR (kp_full_value AND msk) OR of_nat n)"

definition kp_size :: "u64 \<Rightarrow> nat" where
  "kp_size x = unat (x AND 15)"

definition kp_at :: "u64 \<Rightarrow> nat \<Rightarrow> nat" where
  "kp_at x i = unat (drop_bit (4 * i + 4) x AND 15)"

definition kp_back :: "nat \<Rightarrow> u64 \<Rightarrow> nat" where
  "kp_back w x = kp_at x (w - 1)"

definition kp_value_from :: "nat \<Rightarrow> u64 \<Rightarrow> u64" where
  "kp_value_from i x = drop_bit (4 * (i + 1)) x"

definition kp_set_size :: "nat \<Rightarrow> u64 \<Rightarrow> u64" where
  "kp_set_size n x = (x AND NOT 15) OR of_nat n"

definition kp_insert_from_back :: "nat \<Rightarrow> nat \<Rightarrow> u64 \<Rightarrow> nat \<times> u64" where
  "kp_insert_from_back w i x =
     (let value = kp_back w x
      in (value,
          ((x + 1) AND (push_bit (4 * i) 16 - 1))
          OR push_bit (4 * i + 4) (of_nat value)
          OR (push_bit 4 x AND NOT (push_bit (4 * i) 256 - 1))))"

definition kp_insert_selected :: "nat \<Rightarrow> nat \<Rightarrow> u64 \<Rightarrow> u64" where
  "kp_insert_selected di si x =
     (let value = kp_at x si; msk = push_bit (4 * si) 256 - 1
      in ((x + 1) AND (push_bit (4 * di) 16 - 1))
         OR push_bit (4 * di + 4) (of_nat value)
         OR (push_bit 4 x AND msk AND NOT (push_bit (4 * di) 256 - 1))
         OR (x AND NOT msk))"

definition kp_remove :: "nat \<Rightarrow> u64 \<Rightarrow> u64" where
  "kp_remove i x =
     (if kp_size x = i + 1 then x - 1
      else
        let rot_amount = 4 * (kp_size x - i - 1);
          rot_mask = push_bit (4 * (i + 1)) (push_bit rot_amount 16 - 1)
        in ((x - 1) AND NOT rot_mask)
           OR (drop_bit 4 (x AND rot_mask) AND rot_mask)
           OR (push_bit rot_amount (x AND rot_mask) AND rot_mask))"

definition kp_remove_to_back :: "nat \<Rightarrow> nat \<Rightarrow> u64 \<Rightarrow> u64" where
  "kp_remove_to_back w i x =
     (let msk = NOT (push_bit (4 * i) 16 - 1); y = x AND (push_bit (4 * w) 16 - 1)
      in ((y - 1) AND NOT msk) OR (drop_bit 4 y AND msk) OR push_bit (4 * (w - i - 1)) (y AND msk))"

definition kp_rotate :: "nat \<Rightarrow> nat \<Rightarrow> nat \<Rightarrow> u64 \<Rightarrow> u64" where
  "kp_rotate w i j x =
     (let msk = (if i = w then 0 else push_bit (4 * i) 16) - 1; y = x AND (push_bit (4 * w) 16 - 1)
      in (y AND msk) OR (drop_bit (4 * (j - i)) y AND NOT msk) OR push_bit (4 * (w - j)) (y AND NOT msk))"

definition kp_exchange :: "nat \<Rightarrow> nat \<Rightarrow> u64 \<Rightarrow> u64" where
  "kp_exchange i j x =
     (let diff = (drop_bit (4 * i) x XOR drop_bit (4 * j) x) AND 240
      in x XOR (push_bit (4 * i) diff OR push_bit (4 * j) diff))"

fun exchange_loop :: "nat \<Rightarrow> nat \<Rightarrow> nat \<Rightarrow> nat \<Rightarrow> u64 \<Rightarrow> u64 \<Rightarrow> u64" where
  "exchange_loop w 0 a b diff p = diff"
| "exchange_loop w (Suc n) a b diff p =
     (let v = unat (drop_bit (4 * w) p AND 15);
        diff1 = diff XOR (if v = a \<or> v = b then of_nat a XOR of_nat b else 0)
      in exchange_loop w n a b (push_bit 4 diff1) (push_bit 4 p))"

definition kp_exchange_values :: "nat \<Rightarrow> nat \<Rightarrow> nat \<Rightarrow> u64 \<Rightarrow> u64" where
  "kp_exchange_values w a b x = x XOR exchange_loop w w a b 0 x"

section \<open>The digits of the word\<close>

definition nib :: "u64 \<Rightarrow> nat \<Rightarrow> u64" where
  "nib x i = drop_bit (4 * i) x AND 15"

lemma nib_take: "nib x i = take_bit 4 (drop_bit (4 * i) x)"
  by (simp add: nib_def take_bit_eq_mask mask_eq_exp_minus_1 and.commute)

lemma bit_nib: "bit (nib x i) n \<longleftrightarrow> n < 4 \<and> bit x (4 * i + n)"
  by (auto simp: nib_take bit_take_bit_iff bit_drop_bit_eq)

lemma nib_eqI:
  assumes "\<And>i. i < 16 \<Longrightarrow> nib x i = nib y i"
  shows "x = y"
proof (rule bit_word_eqI)
  fix n assume "n < LENGTH(64)"
  then have "nib x (n div 4) = nib y (n div 4)" by (intro assms) simp
  then have "bit (nib x (n div 4)) (n mod 4) = bit (nib y (n div 4)) (n mod 4)" by simp
  then show "bit x n = bit y n" by (simp add: bit_nib)
qed

lemma nib_out: "16 \<le> i \<Longrightarrow> nib x i = 0"
  by (rule bit_word_eqI) (auto simp: bit_nib dest: bit_imp_le_length)

lemma nib_bits:
  "nib (x AND y) i = nib x i AND nib y i" "nib (x OR y) i = nib x i OR nib y i" "nib (x XOR y) i = nib x i XOR nib y i"
  by (rule bit_word_eqI; auto simp: bit_nib bit_simps)+

lemma nib_drop: "nib (drop_bit (4 * k) x) i = nib x (i + k)"
  by (rule bit_word_eqI) (auto simp: bit_nib bit_drop_bit_eq algebra_simps)

lemma nib_push: "nib (push_bit (4 * k) x) i = (if i < k \<or> 16 \<le> i then 0 else nib x (i - k))"
  by (rule bit_word_eqI) (auto simp: bit_nib bit_push_bit_iff algebra_simps dest: bit_imp_le_length)

lemma bit_15: "bit (15 :: int) n \<longleftrightarrow> n < 4"
proof -
  have "(15 :: int) = mask 4" by (simp add: mask_eq_exp_minus_1)
  then show ?thesis by (simp only: bit_mask_iff) auto
qed

lemma nib_mask: "nib (mask (4 * k)) i = (if i < k \<and> i < 16 then 15 else 0)"
  by (rule bit_word_eqI) (auto simp: bit_nib bit_mask_iff bit_15)

lemma nib_not: "nib (NOT x) i = (if i < 16 then NOT (nib x i) AND 15 else 0)"
  by (rule bit_word_eqI) (auto simp: bit_nib bit_simps bit_15 dest: bit_imp_le_length)

lemma nib_and_15: "nib x i AND 15 = nib x i"
  by (rule bit_word_eqI) (auto simp: bit_nib bit_and_iff bit_15)

lemma masks:
  "push_bit (4 * i) 16 - 1 = (mask (4 * (i + 1)) :: u64)" "push_bit (4 * i) 256 - 1 = (mask (4 * (i + 2)) :: u64)"
  by (simp_all add: push_bit_eq_mult mask_eq_exp_minus_1 power_add)

lemma unat_nib: "unat (nib x i) = unat x div 16 ^ i mod 16"
proof -
  have "unat (nib x i) = take_bit 4 (drop_bit (4 * i) (unat x))"
    by (simp only: nib_take unsigned_take_bit_eq unat_drop_bit_eq)
  then show ?thesis by (simp add: take_bit_eq_mod drop_bit_eq_div power_mult)
qed

lemma nib_less: "unat (nib x i) < 16"
  by (simp add: unat_nib)

lemma nib_incr:
  assumes "unat (nib x 0) < 15"
  shows "nib (x + 1) i = (if i = 0 then nib x 0 + 1 else nib x i)"
proof -
  have m: "unat x mod 16 < 15" using assms by (simp add: unat_nib)
  have "x \<noteq> - 1"
  proof
    assume "x = - 1"
    with m show False by (simp add: unsigned_minus_1_eq_mask mask_eq_exp_minus_1)
  qed
  then have s: "unat (x + 1) = unat x + 1" by (metis Suc_eq_plus1 unatSuc add.commute add_eq_0_iff)
  show ?thesis
  proof (cases i)
    case 0
    have "unat (nib x 0 + 1) = unat (nib x 0) + 1" using assms by (simp add: unat_word_ariths)
    moreover have "(unat x + 1) mod 16 = unat x mod 16 + 1" using m by (simp add: mod_Suc)
    ultimately show ?thesis using 0 by (simp add: word_unat_eq_iff unat_nib s)
  next
    case (Suc k)
    have "(unat x + 1) div 16 = unat x div 16" using m by (simp add: div_Suc mod_Suc)
    then show ?thesis using Suc by (simp add: word_unat_eq_iff unat_nib s div_mult2_eq)
  qed
qed

lemma nib_decr:
  assumes "0 < unat (nib x 0)"
  shows "nib (x - 1) i = (if i = 0 then nib x 0 - 1 else nib x i)"
proof -
  define y where "y = x - 1"
  have x: "x = y + 1" by (simp add: y_def)
  have "unat (nib y 0) < 15"
  proof (rule ccontr)
    assume "\<not> ?thesis"
    then have "unat (nib y 0) = 15" using nib_less [of y 0] by simp
    then have l: "unat y mod 16 = 15" by (simp add: unat_nib)
    have "unat x = (unat y + 1) mod 2 ^ 64" by (simp add: x unat_word_ariths)
    then have "unat x mod 16 = (unat y + 1) mod 16" by (simp add: mod_mod_cancel)
    with l assms show False by (simp add: unat_nib mod_Suc)
  qed
  from nib_incr [OF this, of i] nib_incr [OF this, of 0] show ?thesis
    unfolding y_def [symmetric] by (auto simp: x)
qed


lemma push4: "push_bit 4 x = push_bit (4 * 1) x" "drop_bit 4 x = drop_bit (4 * 1) x"
  "push_bit (4 * i + 4) x = push_bit (4 * (i + 1)) x" "drop_bit (4 * i + 4) x = drop_bit (4 * (i + 1)) x"
  by (simp_all add: add.commute)

lemma nib_digit: "v < 16 \<Longrightarrow> nib (of_nat v) i = (if i = 0 then of_nat v else 0)"
  by (cases i) (simp_all add: word_unat_eq_iff unat_nib unat_of_nat take_bit_nat_eq_self div_mult2_eq)

lemma kp_nib: "kp_size x = unat (nib x 0)" "kp_at x i = unat (nib x (Suc i))"
  by (simp_all add: kp_size_def kp_at_def nib_def add.commute)

lemma kp_at_less: "kp_at x i < 16"
  by (simp add: kp_nib(2) nib_less)

lemma kp_at_nib: "of_nat (kp_at x i) = nib x (Suc i)"
  by (simp add: kp_nib)

lemma nib_15: "nib 15 i = (if i = 0 then 15 else 0)"
  using nib_mask [of 1 i] by (simp add: mask_eq_exp_minus_1)

lemmas nib_simps = nib_bits nib_drop nib_push nib_mask nib_not masks push4

lemma nib_ones: "nib (- 1) i = (if i < 16 then 15 else 0)"
  by (rule bit_word_eqI) (auto simp: bit_nib bit_15)

lemma nib_nib: "nib (nib x a) i = (if i = 0 then nib x a else 0)"
  using nib_digit [OF nib_less [of x a], of i] by simp

lemma nib_xor_15: "(nib x i XOR nib y j) AND 15 = nib x i XOR nib y j"
  by (rule bit_word_eqI) (auto simp: bit_nib bit_xor_iff bit_and_iff bit_15)

lemma nib_not_15: "nib (NOT 15) k = (if k = 0 \<or> 16 \<le> k then 0 else 15)"
  unfolding nib_not nib_15 by simp

lemma nib_0: "nib 0 i = 0"
  by (simp add: nib_def)

lemma xor_cancel: "a XOR (a XOR b) = b" "a XOR (b XOR a) = b" for a b :: u64
  by (rule bit_word_eqI; auto simp: bit_xor_iff)+

section \<open>Each operation by its digits\<close>

lemma nib_insert_from_back:
  assumes "kp_size x < 15" and "i < w" and "w \<le> 15" and "j < 16"
  shows "nib (snd (kp_insert_from_back w i x)) j =
    (if j = 0 then nib x 0 + 1 else if j \<le> i then nib x j else if j = i + 1 then nib x w else nib x (j - 1))"
proof -
  have b: "kp_back w x < 16" by (simp add: kp_back_def kp_at_less)
  have v: "of_nat (kp_back w x) = nib x w" using assms(2) by (simp add: kp_back_def kp_at_nib)
  have s: "unat (nib x 0) < 15" using assms(1) by (simp add: kp_nib)
  have f: "nib (x + 1) 0 AND 15 = nib (x + 1) 0" by (rule nib_and_15)
  show ?thesis
    using assms(2-4) f
    unfolding kp_insert_from_back_def Let_def snd_conv nib_simps nib_digit [OF b] nib_incr [OF s] v
    by (auto simp: nib_and_15 nib_nib)
qed

lemma nib_insert_selected:
  assumes "kp_size x < 15" and "di \<le> si" and "si < 15" and "j < 16"
  shows "nib (kp_insert_selected di si x) j =
    (if j = 0 then nib x 0 + 1 else if j \<le> di then nib x j else if j = di + 1 then nib x (si + 1)
     else if j \<le> si + 1 then nib x (j - 1) else nib x j)"
proof -
  have s: "unat (nib x 0) < 15" using assms(1) by (simp add: kp_nib)
  have f: "nib (x + 1) 0 AND 15 = nib (x + 1) 0" by (rule nib_and_15)
  show ?thesis
    using assms(2-4) f
    unfolding kp_insert_selected_def Let_def nib_simps nib_digit [OF kp_at_less] nib_incr [OF s] kp_at_nib
    by (auto simp: nib_and_15 nib_nib)
qed

lemma nib_remove:
  assumes "i < kp_size x" and "j < 16"
  shows "nib (kp_remove i x) j =
    (if j = 0 then nib x 0 - 1 else if j \<le> i \<or> kp_size x < j then nib x j
     else if j < kp_size x then nib x (j + 1) else nib x (i + 1))"
proof -
  have s: "0 < unat (nib x 0)" using assms(1) by (simp add: kp_nib)
  have f: "nib (x - 1) 0 AND 15 = nib (x - 1) 0" by (rule nib_and_15)
  show ?thesis
  proof (cases "kp_size x = i + 1")
    case True
    then show ?thesis using assms by (cases "j = Suc i") (auto simp: kp_remove_def nib_decr [OF s])
  next
    case False
    define r where "r = kp_size x - i - 1"
    have r: "kp_size x = i + r + 1" "0 < r" using False assms(1) by (simp_all add: r_def)
    have eq: "kp_remove i x =
      ((x - 1) AND NOT (push_bit (4 * (i + 1)) (mask (4 * (r + 1)))))
           OR (drop_bit (4 * 1) (x AND push_bit (4 * (i + 1)) (mask (4 * (r + 1)))) AND push_bit (4 * (i + 1)) (mask (4 * (r + 1))))
           OR (push_bit (4 * r) (x AND push_bit (4 * (i + 1)) (mask (4 * (r + 1)))) AND push_bit (4 * (i + 1)) (mask (4 * (r + 1))))"
      unfolding kp_remove_def Let_def if_not_P [OF False] r_def [symmetric] masks by (simp only: mult_1_right)
    have "kp_size x < 16" by (simp add: kp_nib nib_less)
    then show ?thesis
      using assms f r(2) unfolding eq nib_bits nib_drop nib_push nib_mask nib_not nib_decr [OF s] r(1)
      by (auto simp: nib_and_15)
  qed
qed

lemma nib_remove_to_back:
  assumes "i < kp_size x" and "i < w" and "w \<le> 15" and "j \<le> w"
  shows "nib (kp_remove_to_back w i x) j =
    (if j = 0 then nib x 0 - 1 else if j \<le> i then nib x j else if j < w then nib x (j + 1) else nib x (i + 1))"
proof -
  have y0: "nib (x AND mask (4 * (w + 1))) 0 = nib x 0" unfolding nib_simps by (simp add: nib_and_15)
  have s: "0 < unat (nib (x AND mask (4 * (w + 1))) 0)" using assms(1) unfolding y0 by (simp add: kp_nib)
  have f: "(nib x 0 - 1) AND 15 = nib x 0 - 1" by (metis nib_and_15 nib_decr [OF s] y0)
  show ?thesis
    using assms f y0 unfolding kp_remove_to_back_def Let_def nib_simps nib_decr [OF s]
    by (auto simp: nib_and_15)
qed

lemma nib_rotate:
  assumes "i \<le> j" and "j \<le> w" and "w \<le> 15" and "k \<le> w"
  shows "nib (kp_rotate w i j x) k =
    (if k \<le> i then nib x k else if k \<le> w - j + i then nib x (k + (j - i)) else nib x (k - (w - j)))"
proof (cases "i = w")
  case True
  then have m: "(if i = w then 0 else push_bit (4 * i) 16) - 1 = (- 1 :: u64)" by simp
  show ?thesis using assms True unfolding kp_rotate_def Let_def m nib_simps nib_ones
    by (auto simp: nib_and_15)
next
  case False
  then have m: "(if i = w then 0 else push_bit (4 * i) 16) - 1 = (mask (4 * (i + 1)) :: u64)"
    by (simp only: masks if_False)
  show ?thesis using assms False unfolding kp_rotate_def Let_def m nib_simps
    by (auto simp: nib_and_15)
qed

lemma nib_exchange:
  assumes "i < 15" and "j < 15" and "k < 16"
  shows "nib (kp_exchange i j x) k =
    (if k = i + 1 then nib x (j + 1) else if k = j + 1 then nib x (i + 1) else nib x k)"
proof -
  have e: "(240 :: u64) = push_bit (4 * 1) 15" by (simp add: push_bit_eq_mult)
  show ?thesis
    using assms unfolding kp_exchange_def Let_def e nib_simps nib_15
    by (auto simp: nib_and_15 nib_xor_15 xor_cancel)
qed


definition swap_values :: "nat \<Rightarrow> nat \<Rightarrow> nat \<Rightarrow> nat" where
  "swap_values a b v = (if v = a then b else if v = b then a else v)"

lemma nib_exchange_loop:
  assumes "a < 16" and "b < 16" and "n \<le> w" and "w \<le> 15" and "k < 16"
  shows "nib (exchange_loop w n a b diff p) k =
    (let d = (\<lambda>v. if unat v = a \<or> unat v = b then of_nat a XOR of_nat b else 0)
     in if k < n then (if k = 0 then 0 else d (nib p (k + w - n)))
        else if k = n then nib diff 0 XOR (if n = 0 then 0 else d (nib p w))
        else nib diff (k - n))"
  using assms
proof (induction n arbitrary: diff p k)
  case 0
  then show ?case by (simp add: Let_def)
next
  case (Suc n)
  let ?d = "\<lambda>v :: u64. if unat v = a \<or> unat v = b then of_nat a XOR of_nat b else 0 :: u64"
  let ?diff = "diff XOR ?d (nib p w)"
  have step: "exchange_loop w (Suc n) a b diff p = exchange_loop w n a b (push_bit (4 * 1) ?diff) (push_bit (4 * 1) p)"
    unfolding exchange_loop.simps Let_def nib_def [symmetric] mult_1_right ..
  have dig: "nib (?d v) j = (if j = 0 then ?d v else 0)" for v j
    using nib_digit [OF Suc.prems(1), of j] nib_digit [OF Suc.prems(2), of j]
      nib_digit [of 0 j] by (auto simp: nib_bits)
  have IH: "nib (exchange_loop w (Suc n) a b diff p) k =
     (if k < n then (if k = 0 then 0 else ?d (nib (push_bit (4 * 1) p) (k + w - n)))
      else if k = n then nib (push_bit (4 * 1) ?diff) 0 XOR (if n = 0 then 0 else ?d (nib (push_bit (4 * 1) p) w))
      else nib (push_bit (4 * 1) ?diff) (k - n))"
    unfolding step using Suc.IH [of k "push_bit (4 * 1) ?diff" "push_bit (4 * 1) p"] Suc.prems
    unfolding Let_def by simp
  have push: "nib (push_bit (4 * 1) q) j = nib q (j - 1)" if "0 < j" "j < 16" for q j
    using that by (simp only: nib_push) simp
  have push0: "nib (push_bit (4 * 1) q) 0 = 0" for q by (simp only: nib_push) simp
  have low: "nib ?diff j = nib diff j" if "0 < j" for j using dig [of "nib p w" j] that by (simp only: nib_bits) simp
  have low0: "nib ?diff 0 = nib diff 0 XOR ?d (nib p w)" by (simp only: nib_bits dig) simp
  consider "k < n" | "k = n" | "k = Suc n" | "Suc n < k" by linarith
  then show ?case
  proof cases
    case 1
    then show ?thesis using Suc.prems(3,4) push [of "k + w - n" p] unfolding IH Let_def by (cases "k = 0") simp_all
  next
    case 2
    then show ?thesis using Suc.prems(3,4) push [of w p] unfolding IH Let_def push0 by (cases "n = 0") simp_all
  next
    case 3
    then have "nib (push_bit (4 * 1) ?diff) (k - n) = nib ?diff 0" using push [of 1 ?diff] by simp
    then show ?thesis using 3 unfolding IH Let_def low0 by simp
  next
    case 4
    then have "nib (push_bit (4 * 1) ?diff) (k - n) = nib diff (k - Suc n)"
      using push [of "k - n" ?diff] low [of "k - n - 1"] Suc.prems(5) by simp
    then show ?thesis using 4 unfolding IH Let_def by simp
  qed
qed

lemma kp_at_exchange_values:
  assumes "a < 16" and "b < 16" and "w \<le> 15" and "i < w"
  shows "kp_at (kp_exchange_values w a b x) i = swap_values a b (kp_at x i)"
proof -
  have u: "unat (of_nat c :: u64) = c" if "c < 16" for c using that by (simp add: unat_of_nat take_bit_nat_eq_self)
  let ?d = "\<lambda>v :: u64. if unat v = a \<or> unat v = b then of_nat a XOR of_nat b else 0 :: u64"
  have "nib (exchange_loop w w a b 0 x) (Suc i) = ?d (nib x (Suc i))"
    using assms(4) nib_exchange_loop [OF assms(1,2) order_refl assms(3), of "Suc i" 0 x] assms(3)
    by (cases "Suc i = w") (simp_all add: Let_def nib_0)
  then have "nib (kp_exchange_values w a b x) (Suc i) = nib x (Suc i) XOR ?d (nib x (Suc i))"
    by (simp only: kp_exchange_values_def nib_bits)
  then have n: "nib (kp_exchange_values w a b x) (Suc i) = of_nat (swap_values a b (kp_at x i))"
    by (auto simp: kp_nib swap_values_def xor_cancel)
  have "swap_values a b (kp_at x i) < 16" using assms(1,2) kp_at_less [of x i] by (simp add: swap_values_def)
  then show ?thesis by (simp add: kp_nib(2) n u)
qed

lemma kp_size_exchange_values: "a < 16 \<Longrightarrow> b < 16 \<Longrightarrow> w \<le> 15 \<Longrightarrow> 0 < w \<Longrightarrow> kp_size (kp_exchange_values w a b x) = kp_size x"
  using nib_exchange_loop [of a b w w 0 0 x] by (simp add: kp_nib kp_exchange_values_def nib_bits Let_def)

section \<open>The word as a list of slots\<close>

definition kp_list :: "nat \<Rightarrow> u64 \<Rightarrow> nat list" where
  "kp_list w x = map (kp_at x) [0..<w]"

lemma length_kp_list [simp]: "length (kp_list w x) = w"
  by (simp add: kp_list_def)

lemma nth_kp_list [simp]: "i < w \<Longrightarrow> kp_list w x ! i = kp_at x i"
  by (simp add: kp_list_def)

lemma kp_list_eqI: "length p = w \<Longrightarrow> (\<And>i. i < w \<Longrightarrow> kp_at x i = p ! i) \<Longrightarrow> kp_list w x = p"
  by (rule nth_equalityI) simp_all

text \<open>What the comments of the header say of each operation: the number of slots in use and the order.\<close>

fun lp_insert_from_back :: "nat \<Rightarrow> nat \<times> nat list \<Rightarrow> nat \<times> nat list" where
  "lp_insert_from_back i (n, p) = (n + 1, take i p @ last p # drop i (butlast p))"

fun lp_insert_selected :: "nat \<Rightarrow> nat \<Rightarrow> nat \<times> nat list \<Rightarrow> nat \<times> nat list" where
  "lp_insert_selected di si (n, p) = (n + 1, take di p @ p ! si # take (si - di) (drop di p) @ drop (si + 1) p)"

fun lp_remove :: "nat \<Rightarrow> nat \<times> nat list \<Rightarrow> nat \<times> nat list" where
  "lp_remove i (n, p) = (n - 1, take i p @ take (n - 1 - i) (drop (i + 1) p) @ p ! i # drop n p)"

fun lp_remove_to_back :: "nat \<Rightarrow> nat \<times> nat list \<Rightarrow> nat \<times> nat list" where
  "lp_remove_to_back i (n, p) = (n - 1, take i p @ drop (i + 1) p @ [p ! i])"

fun lp_rotate :: "nat \<Rightarrow> nat \<Rightarrow> nat \<times> nat list \<Rightarrow> nat \<times> nat list" where
  "lp_rotate i j (n, p) = (n, take i p @ drop j p @ take (j - i) (drop i p))"

fun lp_exchange :: "nat \<Rightarrow> nat \<Rightarrow> nat \<times> nat list \<Rightarrow> nat \<times> nat list" where
  "lp_exchange i j (n, p) = (n, p[i := p ! j, j := p ! i])"

definition kp_abs :: "nat \<Rightarrow> u64 \<Rightarrow> nat \<times> nat list" where
  "kp_abs w x = (kp_size x, kp_list w x)"

lemma kp_insert_from_back_list:
  assumes "kp_size x < 15" and "i < w" and "w \<le> 15"
  shows "kp_abs w (snd (kp_insert_from_back w i x)) = lp_insert_from_back i (kp_abs w x)"
proof -
  have s: "unat (nib x 0 + 1) = unat (nib x 0) + 1" using assms(1) by (simp add: kp_nib unat_word_ariths)
  have "kp_list w x \<noteq> []" using assms(2) by (simp add: kp_list_def)
  then show ?thesis using assms
    by (auto simp: kp_abs_def kp_nib(1) nib_insert_from_back s last_conv_nth kp_nib(2) nth_append nth_Cons' nth_butlast
      intro!: kp_list_eqI)
qed

lemma kp_insert_selected_list:
  assumes "kp_size x < 15" and "di \<le> si" and "si < w" and "w \<le> 15"
  shows "kp_abs w (kp_insert_selected di si x) = lp_insert_selected di si (kp_abs w x)"
proof -
  have s: "unat (nib x 0 + 1) = unat (nib x 0) + 1" using assms(1) by (simp add: kp_nib unat_word_ariths)
  show ?thesis using assms
    by (auto simp: kp_abs_def kp_nib(1) nib_insert_selected s kp_nib(2) nth_append nth_Cons' intro!: kp_list_eqI)
qed

lemma kp_remove_list:
  assumes "i < kp_size x" and "kp_size x \<le> w" and "w \<le> 15"
  shows "kp_abs w (kp_remove i x) = lp_remove i (kp_abs w x)"
proof -
  have s: "unat (nib x 0 - 1) = unat (nib x 0) - 1" using assms(1) by (simp add: kp_nib unat_sub word_le_nat_alt)
  show ?thesis using assms nib_remove [OF assms(1)]
    by (auto simp: kp_abs_def kp_nib s nth_append nth_Cons' intro!: kp_list_eqI)
qed

lemma kp_remove_to_back_list:
  assumes "i < kp_size x" and "i < w" and "w \<le> 15"
  shows "kp_abs w (kp_remove_to_back w i x) = lp_remove_to_back i (kp_abs w x)"
proof -
  have s: "unat (nib x 0 - 1) = unat (nib x 0) - 1" using assms(1) by (simp add: kp_nib unat_sub word_le_nat_alt)
  show ?thesis using assms
    by (auto simp: kp_abs_def nib_remove_to_back kp_nib s nth_append nth_Cons' intro!: kp_list_eqI)
qed

lemma kp_rotate_list:
  assumes "i \<le> j" and "j \<le> w" and "w \<le> 15"
  shows "kp_abs w (kp_rotate w i j x) = lp_rotate i j (kp_abs w x)"
proof -
  have "kp_list w (kp_rotate w i j x) = take i (kp_list w x) @ drop j (kp_list w x) @ take (j - i) (drop i (kp_list w x))"
  proof (rule kp_list_eqI)
    fix k assume k: "k < w"
    consider "k < i" | "i \<le> k" "k < w - j + i" | "w - j + i \<le> k" by linarith
    then show "kp_at (kp_rotate w i j x) k =
      (take i (kp_list w x) @ drop j (kp_list w x) @ take (j - i) (drop i (kp_list w x))) ! k"
    proof cases
      case 1
      then show ?thesis using assms k by (simp add: kp_nib(2) nib_rotate nth_append)
    next
      case 2
      then have "j + (k - i) < w" "k + (j - i) = j + (k - i)" "k - i < w - j" using assms k by simp_all
      then show ?thesis using 2 assms k by (simp add: kp_nib(2) nib_rotate nth_append)
    next
      case 3
      then have "i + (k - i - (w - j)) = k - (w - j)" "Suc k - (w - j) = Suc (k - (w - j))"
        "k - i - (w - j) < j - i" "\<not> k < i" "\<not> k - i < w - j" using assms k by simp_all
      then show ?thesis using 3 assms k by (simp add: kp_nib(2) nib_rotate nth_append)
    qed
  qed (use assms in simp)
  then show ?thesis using assms by (simp add: kp_abs_def kp_nib(1) nib_rotate)
qed

lemma kp_exchange_list:
  assumes "i < w" and "j < w" and "w \<le> 15"
  shows "kp_abs w (kp_exchange i j x) = lp_exchange i j (kp_abs w x)"
  using assms by (auto simp: kp_abs_def nib_exchange kp_nib nth_list_update intro!: kp_list_eqI)


lemma kp_exchange_values_list:
  assumes "a < 16" and "b < 16" and "0 < w" and "w \<le> 15"
  shows "kp_abs w (kp_exchange_values w a b x) = (kp_size x, map (swap_values a b) (kp_list w x))"
  using assms by (auto simp: kp_abs_def kp_size_exchange_values kp_at_exchange_values intro!: kp_list_eqI)

lemma kp_set_size_list:
  assumes "n < 16"
  shows "kp_abs w (kp_set_size n x) = (n, kp_list w x)"
proof -
  have "nib (kp_set_size n x) k = (if k = 0 then of_nat n else nib x k)" for k
    using nib_out [of k x] unfolding kp_set_size_def nib_bits nib_not_15 nib_digit [OF assms]
    by (simp add: nib_and_15)
  then show ?thesis using assms
    by (auto simp: kp_abs_def kp_nib unat_of_nat take_bit_nat_eq_self intro!: kp_list_eqI)
qed

section \<open>A new permuter\<close>

lemma below_16: "k < 16 \<Longrightarrow> k \<in> {0, 1, 2, 3, 4, 5, 6, 7, 8, 9, 10, 11, 12, 13, 14, 15 :: nat}"
  by (simp add: numeral_eq_Suc less_Suc_eq)

lemma nib_initial_value: "k < 16 \<Longrightarrow> nib kp_initial_value k = (if k = 0 then 0 else of_nat (15 - k))"
  using below_16 [of k] by (auto simp: word_unat_eq_iff unat_nib kp_initial_value_def)

lemma nib_full_value: "k < 16 \<Longrightarrow> nib kp_full_value k = of_nat (k - 1)"
  using below_16 [of k] by (auto simp: word_unat_eq_iff unat_nib kp_full_value_def)

lemma nib_make_empty:
  assumes "w \<le> 15" and "k \<le> w"
  shows "nib (kp_make_empty w) k = (if k = 0 then 0 else of_nat (w - k))"
proof -
  have "nib (kp_make_empty w) k = nib kp_initial_value (k + (15 - w)) AND nib (NOT 15) k"
    by (simp only: kp_make_empty_def Let_def nib_bits nib_drop kp_max_width_def)
  moreover have "nib (NOT 15) k = (if k = 0 then 0 else 15)" unfolding nib_not_15 using assms by simp
  moreover have "nib kp_initial_value (k + (15 - w)) AND 15 = nib kp_initial_value (k + (15 - w))" by (rule nib_and_15)
  ultimately show ?thesis using assms by (auto simp: nib_initial_value simp del: of_nat_diff)
qed

lemma nib_make_sorted:
  assumes "n \<le> w" and "w \<le> 15" and "k \<le> w"
  shows "nib (kp_make_sorted w n) k = of_nat (if k = 0 then n else if k \<le> n then k - 1 else w - (k - n))"
proof -
  have p: "nib (push_bit (4 * n) (kp_make_empty w)) k = (if k \<le> n then 0 else of_nat (w - (k - n)))"
    using assms by (simp add: nib_push nib_make_empty del: of_nat_diff)
  have m: "nib ((if n = w then 0 else push_bit (4 * n) 16) - 1) k = (if k \<le> n then 15 else 0)"
  proof (cases "n = w")
    case True
    then show ?thesis using assms by (simp add: nib_ones)
  next
    case False
    then have "nib ((if n = w then 0 else push_bit (4 * n) 16) - 1) k = nib (mask (4 * (n + 1))) k"
      by (simp only: masks if_False)
    also have "\<dots> = (if k \<le> n then 15 else 0)" using assms by (simp only: nib_mask) simp
    finally show ?thesis .
  qed
  have f: "nib kp_full_value k AND 15 = nib kp_full_value k" by (rule nib_and_15)
  have "n < 16" using assms by simp
  then show ?thesis using assms f unfolding kp_make_sorted_def Let_def nib_bits p m
    by (simp add: nib_full_value nib_digit del: of_nat_diff)
qed

lemma kp_make_sorted_list:
  assumes "n \<le> w" and "w \<le> 15"
  shows "kp_abs w (kp_make_sorted w n) = (n, [0..<n] @ rev [n..<w])"
proof -
  have "kp_at (kp_make_sorted w n) i = (if i < n then i else w - (Suc i - n))" if "i < w" for i
    using assms that by (simp add: kp_nib(2) nib_make_sorted unat_of_nat take_bit_nat_eq_self del: of_nat_diff)
  then show ?thesis using assms
    by (auto simp: kp_abs_def kp_nib(1) nib_make_sorted unat_of_nat take_bit_nat_eq_self nth_append rev_nth
      intro!: kp_list_eqI)
qed

lemma kp_make_empty_list: "w \<le> 15 \<Longrightarrow> kp_abs w (kp_make_empty w) = (0, rev [0..<w])"
  by (auto simp: kp_abs_def kp_nib nib_make_empty unat_of_nat take_bit_nat_eq_self rev_nth simp del: of_nat_diff intro!: kp_list_eqI)

section \<open>The permuter is a permutation\<close>

datatype kp_op = Insert_From_Back nat | Insert_Selected nat nat | Remove nat | Remove_To_Back nat
  | Rotate nat nat | Exchange nat nat | Exchange_Values nat nat | Set_Size nat

text \<open>
  What a call on a permuter of size \<open>n\<close> needs: the preconditions of the comments, or weaker ones where the code
  admits more (the selected slot may be in use, a rotation may reach over all places).
\<close>

fun kp_guard :: "nat \<Rightarrow> nat \<Rightarrow> kp_op \<Rightarrow> bool" where
  "kp_guard w n (Insert_From_Back i) \<longleftrightarrow> i < w \<and> n < w"
| "kp_guard w n (Insert_Selected di si) \<longleftrightarrow> n < w \<and> di \<le> si \<and> si < w"
| "kp_guard w n (Remove i) \<longleftrightarrow> i < n"
| "kp_guard w n (Remove_To_Back i) \<longleftrightarrow> i < n"
| "kp_guard w n (Rotate i j) \<longleftrightarrow> i \<le> j \<and> j \<le> w"
| "kp_guard w n (Exchange i j) \<longleftrightarrow> i < w \<and> j < w"
| "kp_guard w n (Exchange_Values a b) \<longleftrightarrow> a < w \<and> b < w"
| "kp_guard w n (Set_Size m) \<longleftrightarrow> m \<le> w"

fun kp_step :: "nat \<Rightarrow> kp_op \<Rightarrow> u64 \<Rightarrow> u64" where
  "kp_step w (Insert_From_Back i) x = snd (kp_insert_from_back w i x)"
| "kp_step w (Insert_Selected di si) x = kp_insert_selected di si x"
| "kp_step w (Remove i) x = kp_remove i x"
| "kp_step w (Remove_To_Back i) x = kp_remove_to_back w i x"
| "kp_step w (Rotate i j) x = kp_rotate w i j x"
| "kp_step w (Exchange i j) x = kp_exchange i j x"
| "kp_step w (Exchange_Values a b) x = kp_exchange_values w a b x"
| "kp_step w (Set_Size n) x = kp_set_size n x"

fun lp_step :: "kp_op \<Rightarrow> nat \<times> nat list \<Rightarrow> nat \<times> nat list" where
  "lp_step (Insert_From_Back i) s = lp_insert_from_back i s"
| "lp_step (Insert_Selected di si) s = lp_insert_selected di si s"
| "lp_step (Remove i) s = lp_remove i s"
| "lp_step (Remove_To_Back i) s = lp_remove_to_back i s"
| "lp_step (Rotate i j) s = lp_rotate i j s"
| "lp_step (Exchange i j) s = lp_exchange i j s"
| "lp_step (Exchange_Values a b) s = (fst s, map (swap_values a b) (snd s))"
| "lp_step (Set_Size n) s = (n, snd s)"

definition kp_ok :: "nat \<Rightarrow> u64 \<Rightarrow> bool" where
  "kp_ok w x \<longleftrightarrow> kp_size x \<le> w \<and> mset (kp_list w x) = mset [0..<w]"

lemma kp_step_list:
  assumes "0 < w" and "w \<le> 15" and "kp_size x \<le> w" and "kp_guard w (kp_size x) op"
  shows "kp_abs w (kp_step w op x) = lp_step op (kp_abs w x)"
  using assms
  by (cases op) (simp_all add: kp_insert_from_back_list kp_insert_selected_list kp_remove_list kp_remove_to_back_list
      kp_rotate_list kp_exchange_list kp_exchange_values_list kp_set_size_list kp_abs_def [of w x] prod_eq_iff)

lemma split_three: "i \<le> j \<Longrightarrow> take i p @ take (j - i) (drop i p) @ drop j p = p"
  by (metis append_assoc append_take_drop_id le_add_diff_inverse take_add)

lemma lp_step_perm:
  assumes "kp_guard w n op" and "n \<le> w" and "mset p = mset [0..<w]"
  shows "fst (lp_step op (n, p)) \<le> w \<and> mset (snd (lp_step op (n, p))) = mset [0..<w]"
proof -
  have len: "length p = w" using mset_eq_length [OF assms(3)] by simp
  show ?thesis
  proof (cases op)
    case (Insert_From_Back i)
    then have "i < w" "p \<noteq> []" using assms(1) len by auto
    then have "p = take i p @ drop i (butlast p) @ [last p]"
      by (metis append_assoc append_butlast_last_id append_take_drop_id butlast_conv_take length_butlast
          len less_imp_le_nat nat_less_le take_butlast One_nat_def)
    then have "mset p = mset (take i p @ last p # drop i (butlast p))"
      by (metis add_mset_add_single mset.simps(2) mset_append union_mset_add_mset_right mset_single_iff_right add.assoc)
    then show ?thesis using Insert_From_Back assms by simp
  next
    case (Insert_Selected di si)
    then have i: "di \<le> si" "si < length p" using assms(1) len by auto
    then have "p = take di p @ take (si - di) (drop di p) @ p ! si # drop (si + 1) p"
      by (metis Cons_nth_drop_Suc Suc_eq_plus1 split_three)
    then have "mset p = mset (take di p @ p ! si # take (si - di) (drop di p) @ drop (si + 1) p)"
      by (metis mset_append mset.simps(2) union_mset_add_mset_left union_mset_add_mset_right)
    then show ?thesis using Insert_Selected assms by simp
  next
    case (Remove i)
    then have i: "i < n" "i < length p" using assms(1,2) len by auto
    have "p = take i p @ p ! i # drop (i + 1) p" using i by (simp add: id_take_nth_drop)
    moreover have "drop (i + 1) p = take (n - 1 - i) (drop (i + 1) p) @ drop n p"
      using i append_take_drop_id [of "n - 1 - i" "drop (i + 1) p"] by simp
    ultimately have "mset p = mset (take i p @ take (n - 1 - i) (drop (i + 1) p) @ p ! i # drop n p)"
      by (metis mset_append mset.simps(2) union_mset_add_mset_left union_mset_add_mset_right)
    then show ?thesis using Remove assms by simp
  next
    case (Remove_To_Back i)
    then have "i < length p" using assms(1,2) len by auto
    then have "p = take i p @ p ! i # drop (i + 1) p" by (simp add: id_take_nth_drop)
    then have "mset p = mset (take i p @ drop (i + 1) p @ [p ! i])"
      by (metis mset_append mset.simps union_mset_add_mset_left union_mset_add_mset_right add.right_neutral)
    then show ?thesis using Remove_To_Back assms by simp
  next
    case (Rotate i j)
    then have "p = take i p @ take (j - i) (drop i p) @ drop j p" using assms(1) by (simp add: split_three)
    then have "mset p = mset (take i p @ drop j p @ take (j - i) (drop i p))"
      by (metis mset_append union_commute)
    then show ?thesis using Rotate assms by simp
  next
    case (Exchange i j)
    then show ?thesis using assms len mset_swap [of j p i] by simp
  next
    case (Exchange_Values a b)
    then have ab: "a < w" "b < w" using assms(1) by auto
    have "inj_on (swap_values a b) {0..<w}" by (auto simp: inj_on_def swap_values_def split: if_splits)
    moreover have "swap_values a b ` {0..<w} = {0..<w}"
    proof
      show "swap_values a b ` {0..<w} \<subseteq> {0..<w}" using ab by (auto simp: swap_values_def)
      show "{0..<w} \<subseteq> swap_values a b ` {0..<w}"
      proof
        fix v assume "v \<in> {0..<w}"
        then have "swap_values a b v \<in> {0..<w}" "v = swap_values a b (swap_values a b v)"
          using ab by (auto simp: swap_values_def)
        then show "v \<in> swap_values a b ` {0..<w}" by (rule rev_image_eqI)
      qed
    qed
    ultimately have "image_mset (swap_values a b) (mset [0..<w]) = mset [0..<w]"
      by (simp add: image_mset_mset_set)
    then show ?thesis using Exchange_Values assms by simp
  next
    case (Set_Size m)
    then show ?thesis using assms by simp
  qed
qed

text \<open>A run of calls on the list, as far as every call meets its precondition.\<close>

fun lp_run :: "nat \<Rightarrow> kp_op list \<Rightarrow> nat \<times> nat list \<Rightarrow> (nat \<times> nat list) option" where
  "lp_run w [] s = Some s"
| "lp_run w (op # ops) s = (if kp_guard w (fst s) op then lp_run w ops (lp_step op s) else None)"

lemma lp_run_refined:
  "lp_run w ops (kp_abs w x) = Some s \<Longrightarrow> 0 < w \<Longrightarrow> w \<le> 15 \<Longrightarrow> kp_ok w x \<Longrightarrow>
     kp_abs w (fold (kp_step w) ops x) = s \<and> kp_ok w (fold (kp_step w) ops x)"
proof (induction ops arbitrary: x)
  case (Cons op ops)
  have g: "kp_guard w (kp_size x) op" and run: "lp_run w ops (lp_step op (kp_abs w x)) = Some s"
    using Cons.prems(1) by (simp_all add: kp_abs_def split: if_splits)
  have step: "kp_abs w (kp_step w op x) = lp_step op (kp_abs w x)"
    using kp_step_list [OF Cons.prems(2,3) _ g] Cons.prems(4) by (simp add: kp_ok_def)
  moreover from this lp_step_perm [OF g, of "kp_list w x"] Cons.prems(4) have "kp_ok w (kp_step w op x)"
    by (simp add: kp_ok_def kp_abs_def prod_eq_iff)
  ultimately show ?case using Cons.IH [of "kp_step w op x"] run Cons.prems(2,3) by simp
qed simp

text \<open>
  C16. For a width of 8 to 15, whose storage is the 64-bit word, each operation on the word of a key permuter does to
  the list of slots what the operation on lists does: \<open>insert_from_back\<close> takes the last free slot, \<open>insert_selected\<close>
  a chosen one, and puts it at its place, shifting the others back; \<open>remove\<close> puts a slot behind those in use and
  \<open>remove_to_back\<close> at the end; \<open>exchange\<close> swaps two places, \<open>exchange_values\<close> two slots; and \<open>rotate\<close> turns the
  places from \<open>i\<close> to the end of the whole width, free slots included, unlike its comment. After any calls on a new
  permuter, each with its precondition, the word holds the list that the calls on the list give, with every
  slot of the leaf exactly once.
\<close>

theorem permuter_refines_list:
  assumes "8 \<le> w" and "w \<le> 15" and "lp_run w ops (0, rev [0..<w]) = Some s"
  shows "kp_abs w (fold (kp_step w) ops (kp_make_empty w)) = s \<and> fst s \<le> w \<and> mset (snd s) = mset [0..<w]"
proof -
  have w: "0 < w" using assms(1) by simp
  have e: "kp_abs w (kp_make_empty w) = (0, rev [0..<w])" using assms(2) by (rule kp_make_empty_list)
  then have "kp_ok w (kp_make_empty w)" by (simp add: kp_ok_def kp_abs_def)
  with lp_run_refined [of w ops "kp_make_empty w" s] assms w e
  have "kp_abs w (fold (kp_step w) ops (kp_make_empty w)) = s" "kp_ok w (fold (kp_step w) ops (kp_make_empty w))"
    by simp_all
  then show ?thesis by (auto simp: kp_ok_def kp_abs_def)
qed

lemma permuter_refines_list_witness:
  "kp_abs 8 (fold (kp_step 8) [Insert_From_Back 0, Insert_From_Back 0, Remove 1] (kp_make_empty 8)) =
     (1, [1, 0, 7, 6, 5, 4, 3, 2])"
proof -
  have "lp_run 8 [Insert_From_Back 0, Insert_From_Back 0, Remove 1] (0, rev [0..<8]) = Some (1, [1, 0, 7, 6, 5, 4, 3, 2])"
    by (simp add: upt_rec numeral_eq_Suc)
  from permuter_refines_list [OF _ _ this] show ?thesis by simp
qed

text \<open>
  The comment of \<open>rotate\<close> says that the slots in use change places among each other, but the rotation runs over the
  whole width: in a leaf that is not full it brings a free slot among the slots in use.
\<close>

lemma rotate_over_the_width:
  assumes "w \<le> 15" and "j \<le> w" and "k < w - j"
  shows "kp_at (kp_rotate w 0 j x) k = kp_at x (k + j)"
  using assms by (simp add: kp_nib(2) nib_rotate)

end
