(* ===== verification/Masstree_Node.thy ===== *)
theory Masstree_Node
  imports Sidle_Policy Masstree_Bag Masstree_Permuter
begin

text \<open>
  The nodes of Masstree as its migration sees them: the version word with its lock, dirty and migration
  bits (\<open>nodeversion.hh\<close>), leaves and inner nodes by address (\<open>masstree_struct.hh\<close>), the links between
  the leaves (\<open>btree_leaflink.hh\<close>) and the deferred release of memory (\<open>kvthread.hh\<close>). One thread runs at a
  time: a loop that waits for another thread is the error \<open>Spin\<close>. The invariants that the code
  checks in debugging builds have no model.
\<close>

section \<open>The version word\<close>

definition lock_bit :: u32 where "lock_bit = push_bit 0 1"
definition inserting_bit :: u32 where "inserting_bit = push_bit 1 1"
definition splitting_bit :: u32 where "splitting_bit = push_bit 2 1"
definition dirty_mask :: u32 where "dirty_mask = inserting_bit OR splitting_bit"
definition vinsert_lowbit :: u32 where "vinsert_lowbit = push_bit 3 1"
definition vsplit_lowbit :: u32 where "vsplit_lowbit = push_bit 9 1"
definition migration_bit :: u32 where "migration_bit = push_bit 28 1"
definition deleted_bit :: u32 where "deleted_bit = push_bit 29 1"
definition root_bit :: u32 where "root_bit = push_bit 30 1"
definition isleaf_bit :: u32 where "isleaf_bit = push_bit 31 1"
definition split_unlock_mask :: u32 where
  "split_unlock_mask = NOT (root_bit OR migration_bit OR (vsplit_lowbit - 1))"
definition unlock_mask :: u32 where
  "unlock_mask = NOT (migration_bit OR (vinsert_lowbit - 1))"

definition nv_locked :: "u32 \<Rightarrow> bool" where "nv_locked v \<longleftrightarrow> v AND lock_bit \<noteq> 0"
definition nv_inserting :: "u32 \<Rightarrow> bool" where "nv_inserting v \<longleftrightarrow> v AND inserting_bit \<noteq> 0"
definition nv_splitting :: "u32 \<Rightarrow> bool" where "nv_splitting v \<longleftrightarrow> v AND splitting_bit \<noteq> 0"
definition nv_deleted :: "u32 \<Rightarrow> bool" where "nv_deleted v \<longleftrightarrow> v AND deleted_bit \<noteq> 0"
definition nv_migrating :: "u32 \<Rightarrow> bool" where "nv_migrating v \<longleftrightarrow> v AND migration_bit \<noteq> 0"
definition nv_is_root :: "u32 \<Rightarrow> bool" where "nv_is_root v \<longleftrightarrow> v AND root_bit \<noteq> 0"
definition nv_isleaf :: "u32 \<Rightarrow> bool" where "nv_isleaf v \<longleftrightarrow> v AND isleaf_bit \<noteq> 0"

definition nv_new :: "bool \<Rightarrow> u32" where "nv_new isleaf = (if isleaf then isleaf_bit else 0)"

definition nv_has_changed :: "u32 \<Rightarrow> u32 \<Rightarrow> bool" where
  "nv_has_changed v x \<longleftrightarrow> lock_bit < (x XOR v) AND NOT migration_bit"

definition nv_has_split :: "u32 \<Rightarrow> u32 \<Rightarrow> bool" where
  "nv_has_split v x \<longleftrightarrow> vsplit_lowbit \<le> (x XOR v) AND NOT migration_bit"

definition nv_lock :: "u32 \<Rightarrow> u32 res" where
  "nv_lock v = (if nv_locked v then Inl Spin else Inr (v OR lock_bit))"

definition nv_unlock :: "u32 \<Rightarrow> u32" where
  "nv_unlock x =
     (if nv_splitting x then (x + vsplit_lowbit) AND split_unlock_mask
      else (x + push_bit 2 (x AND inserting_bit)) AND unlock_mask)"

definition nv_try_lock :: "u32 \<Rightarrow> bool \<times> u32" where
  "nv_try_lock v = (if nv_locked v then (False, v) else (True, v OR lock_bit))"

definition nv_unlocked_value :: "u32 \<Rightarrow> u32" where "nv_unlocked_value v = v AND unlock_mask"

definition nv_mark_insert :: "u32 \<Rightarrow> u32" where "nv_mark_insert v = v OR inserting_bit"
definition nv_mark_split :: "u32 \<Rightarrow> u32" where "nv_mark_split v = v OR splitting_bit"
definition nv_mark_change :: "bool \<Rightarrow> u32 \<Rightarrow> u32" where
  "nv_mark_change is_split v = v OR push_bit 1 (if is_split then 2 else 1)"
definition nv_unmark_migration :: "u32 \<Rightarrow> u32" where "nv_unmark_migration v = v AND NOT migration_bit"
definition nv_mark_deleted_tree :: "u32 \<Rightarrow> u32" where "nv_mark_deleted_tree v = v OR deleted_bit"
definition nv_mark_nonroot :: "u32 \<Rightarrow> u32" where "nv_mark_nonroot v = v AND NOT root_bit"
definition nv_mark_migration :: "u32 \<Rightarrow> u32" where "nv_mark_migration v = v OR migration_bit"
definition nv_mark_deleted :: "u32 \<Rightarrow> u32" where "nv_mark_deleted v = v OR (deleted_bit OR splitting_bit)"
definition nv_mark_root :: "u32 \<Rightarrow> u32" where "nv_mark_root v = v OR root_bit"

section \<open>Nodes\<close>

text \<open>
  \<open>iksuf\<close> is the bag behind the fixed part of a leaf,
  \<open>ksuf\<close> the address of a bag of its own, or null.
\<close>

record mass_leaf =
  lf_version :: u32
  lf_meta :: leaf_metadata
  extrasize64 :: int
  modstate :: u8
  keylenx :: "u8 list"
  permutation :: u64
  lf_ikey0 :: "u64 list"
  lv :: "u64 list"
  ksuf :: u64
  lf_next :: u64
  lf_prev :: u64
  lf_parent :: u64
  phantom_epoch :: u64
  iksuf :: suffix_bag

record mass_internode =
  in_version :: u32
  in_meta :: node_metadata
  nkeys :: nat
  height :: u32
  in_ikey0 :: "u64 list"
  in_child :: "u64 list"
  in_parent :: u64

text \<open>
  The answers of the pool allocator come in a list. What is released is put into limbo and freed once no
  other thread can hold it.
\<close>

record mass_heap =
  mleaves :: "u64 \<rightharpoonup> mass_leaf"
  inners :: "u64 \<rightharpoonup> mass_internode"
  bags :: "u64 \<rightharpoonup> suffix_bag"
  limbo :: "u64 list"
  pool :: "u64 list"
  mass_strategy_manager :: sidle_strategy
  mass_worker_base :: worker_base
  mass_ndebug :: bool

definition load_mleaf :: "u64 \<Rightarrow> mass_heap \<Rightarrow> mass_leaf res" where
  "load_mleaf a h = (case mleaves h a of None \<Rightarrow> Inl Null_Deref | Some l \<Rightarrow> Inr l)"

definition load_inner :: "u64 \<Rightarrow> mass_heap \<Rightarrow> mass_internode res" where
  "load_inner a h = (case inners h a of None \<Rightarrow> Inl Null_Deref | Some n \<Rightarrow> Inr n)"

definition modify_mleaf :: "u64 \<Rightarrow> (mass_leaf \<Rightarrow> mass_leaf) \<Rightarrow> mass_heap \<Rightarrow> mass_heap res" where
  "modify_mleaf a f h = and_then (load_mleaf a h) (\<lambda>l. Inr (h\<lparr>mleaves := (mleaves h)(a \<mapsto> f l)\<rparr>))"

definition modify_inner :: "u64 \<Rightarrow> (mass_internode \<Rightarrow> mass_internode) \<Rightarrow> mass_heap \<Rightarrow> mass_heap res" where
  "modify_inner a f h = and_then (load_inner a h) (\<lambda>n. Inr (h\<lparr>inners := (inners h)(a \<mapsto> f n)\<rparr>))"

text \<open>What \<open>node_base\<close> offers for both kinds of nodes; the kind is a bit of the version.\<close>

definition node_version :: "u64 \<Rightarrow> mass_heap \<Rightarrow> u32 res" where
  "node_version a h =
     (case mleaves h a of Some l \<Rightarrow> Inr (lf_version l) | None \<Rightarrow> and_then (load_inner a h) (\<lambda>n. Inr (in_version n)))"

definition set_node_version :: "(u32 \<Rightarrow> u32) \<Rightarrow> u64 \<Rightarrow> mass_heap \<Rightarrow> mass_heap res" where
  "set_node_version f a h =
     (if mleaves h a \<noteq> None then modify_mleaf a (\<lambda>l. l\<lparr>lf_version := f (lf_version l)\<rparr>) h
      else modify_inner a (\<lambda>n. n\<lparr>in_version := f (in_version n)\<rparr>) h)"

definition node_parent :: "u64 \<Rightarrow> mass_heap \<Rightarrow> u64 res" where
  "node_parent a h =
     (case mleaves h a of Some l \<Rightarrow> Inr (lf_parent l) | None \<Rightarrow> and_then (load_inner a h) (\<lambda>n. Inr (in_parent n)))"

definition set_parent :: "u64 \<Rightarrow> u64 \<Rightarrow> mass_heap \<Rightarrow> mass_heap res" where
  "set_parent p a h =
     (if mleaves h a \<noteq> None then modify_mleaf a (\<lambda>l. l\<lparr>lf_parent := p\<rparr>) h
      else modify_inner a (\<lambda>n. n\<lparr>in_parent := p\<rparr>) h)"

definition node_lock :: "u64 \<Rightarrow> mass_heap \<Rightarrow> mass_heap res" where
  "node_lock a h =
     and_then (node_version a h) (\<lambda>v. and_then (nv_lock v) (\<lambda>v1. set_node_version (\<lambda>_. v1) a h))"

definition node_unlock :: "u64 \<Rightarrow> mass_heap \<Rightarrow> mass_heap res" where
  "node_unlock a h = set_node_version nv_unlock a h"

definition unlock_if_locked :: "u64 \<Rightarrow> mass_heap \<Rightarrow> mass_heap res" where
  "unlock_if_locked a h = and_then (node_version a h) (\<lambda>v. if nv_locked v then node_unlock a h else Inr h)"

text \<open>Locked by one thread, the parent that is read again is the one that was read first.\<close>

definition locked_parent :: "u64 \<Rightarrow> mass_heap \<Rightarrow> (u64 \<times> mass_heap) res" where
  "locked_parent a h =
     and_then (node_parent a h) (\<lambda>p.
     if p = 0 then Inr (0, h) else and_then (node_lock p h) (\<lambda>h1. Inr (p, h1)))"

definition make_layer_root :: "u64 \<Rightarrow> mass_heap \<Rightarrow> mass_heap res" where
  "make_layer_root a h = and_then (set_parent 0 a h) (set_node_version nv_mark_root a)"

text \<open>The first node on the way up that is a root; without a parent a node is its own (\<open>maybe_parent\<close>).\<close>

definition maybe_parent :: "u64 \<Rightarrow> mass_heap \<Rightarrow> u64 res" where
  "maybe_parent a h = and_then (node_parent a h) (\<lambda>p. Inr (if p \<noteq> 0 then p else a))"

fun find_root :: "nat \<Rightarrow> u64 \<Rightarrow> mass_heap \<Rightarrow> u64 res" where
  "find_root 0 a h = Inl Out_Of_Fuel"
| "find_root (Suc fuel) a h =
     and_then (node_version a h) (\<lambda>v.
     if v AND dirty_mask \<noteq> 0 then Inl Spin
     else if nv_is_root v then Inr a
     else and_then (maybe_parent a h) (\<lambda>p. find_root fuel p h))"

section \<open>Allocation and release\<close>

definition mt_width :: nat where "mt_width = 15"

definition pool_allocate :: "mass_heap \<Rightarrow> u64 \<times> mass_heap" where
  "pool_allocate h = (case pool h of [] \<Rightarrow> (0, h) | a # as \<Rightarrow> (a, h\<lparr>pool := as\<rparr>))"

definition mt_update_usage ::
  "node_mem_type \<Rightarrow> u8 \<Rightarrow> nat \<Rightarrow> bool \<Rightarrow> bool \<Rightarrow> mass_heap \<Rightarrow> mass_heap res" where
  "mt_update_usage type depth sz is_migration is_leaf h =
     and_then (update_local_memory_usage (mass_ndebug h) type depth (of_nat sz) is_migration is_leaf
         (mass_strategy_manager h) (mass_worker_base h)) (\<lambda>(st, b).
     Inr (h\<lparr>mass_strategy_manager := st, mass_worker_base := b\<rparr>))"

definition leaf_alloc_size :: "nat \<Rightarrow> nat" where
  "leaf_alloc_size ksufsize = (mt_leaf_size + min ksufsize 128 + 63) div 64 * 64"

text \<open>
  The bag behind a new leaf takes the rest of its memory. The fields of a new leaf that its
  constructor leaves open are zero here; the copy of the migration overwrites them.
\<close>

definition inner_bag :: "nat \<Rightarrow> suffix_bag" where
  "inner_bag sz = empty_bag 8 mt_width (sz - mt_leaf_size)"

definition blank_leaf :: "nat \<Rightarrow> u64 \<Rightarrow> node_mem_type \<Rightarrow> u8 \<Rightarrow> u16 \<Rightarrow> mass_leaf" where
  "blank_leaf sz epoch type depth time =
     \<lparr>lf_version = nv_new True, lf_meta = make_leaf_metadata type depth time,
      extrasize64 = int (sz div 64) - int ((mt_leaf_size + 63) div 64), modstate = 0,
      keylenx = replicate mt_width 0, permutation = kp_make_empty mt_width, lf_ikey0 = replicate mt_width 0,
      lv = replicate mt_width 0, ksuf = 0, lf_next = 0, lf_prev = 0, lf_parent = 0,
      phantom_epoch = epoch, iksuf = inner_bag sz\<rparr>"

definition make_leaf_with_cxl_policy ::
  "nat \<Rightarrow> u64 \<Rightarrow> u8 \<Rightarrow> node_mem_type \<Rightarrow> u16 \<Rightarrow> bool \<Rightarrow> mass_heap \<Rightarrow> (u64 \<times> mass_heap) res" where
  "make_leaf_with_cxl_policy ksufsize epoch depth type time is_migration h =
     (let sz = leaf_alloc_size ksufsize; (ptr, h1) = pool_allocate h
      in and_then (mt_update_usage type depth sz is_migration True h1) (\<lambda>h2.
         if ptr = 0 then Inl Null_Deref
         else Inr (ptr, h2\<lparr>mleaves := (mleaves h2)(ptr \<mapsto> blank_leaf sz epoch type depth time)\<rparr>)))"

definition blank_internode :: "u32 \<Rightarrow> node_mem_type \<Rightarrow> u8 \<Rightarrow> mass_internode" where
  "blank_internode hgt type depth =
     \<lparr>in_version = nv_new False, in_meta = make_node_metadata type depth, nkeys = 0, height = hgt,
      in_ikey0 = replicate mt_width 0, in_child = replicate (mt_width + 1) 0, in_parent = 0\<rparr>"

definition make_internode_with_cxl_policy ::
  "u32 \<Rightarrow> u8 \<Rightarrow> node_mem_type \<Rightarrow> bool \<Rightarrow> mass_heap \<Rightarrow> (u64 \<times> mass_heap) res" where
  "make_internode_with_cxl_policy hgt depth type is_migration h =
     (let (ptr, h1) = pool_allocate h
      in and_then (mt_update_usage type depth mt_internode_size is_migration False h1) (\<lambda>h2.
         if ptr = 0 then Inl Null_Deref
         else Inr (ptr, h2\<lparr>inners := (inners h2)(ptr \<mapsto> blank_internode hgt type depth)\<rparr>)))"

definition ksuf_used_capacity :: "mass_leaf \<Rightarrow> mass_heap \<Rightarrow> nat res" where
  "ksuf_used_capacity l h =
     (if ksuf l \<noteq> 0 then (case bags h (ksuf l) of None \<Rightarrow> Inl Null_Deref | Some b \<Rightarrow> Inr (bag_size b))
      else if 0 < extrasize64 l then Inr (bag_size (iksuf l)) else Inr 0)"

text \<open>The suffix of the key at a position.\<close>

definition ksuf_storage :: "mass_leaf \<Rightarrow> nat \<Rightarrow> mass_heap \<Rightarrow> u8 list res" where
  "ksuf_storage l p h =
     (if ksuf l \<noteq> 0 then (case bags h (ksuf l) of None \<Rightarrow> Inl Null_Deref | Some b \<Rightarrow> Inr (bag_get b p))
      else if 0 < extrasize64 l then Inr (bag_get (iksuf l) p) else Inr [])"

definition leaf_deallocate_rcu :: "u64 \<Rightarrow> mass_heap \<Rightarrow> mass_heap res" where
  "leaf_deallocate_rcu a h =
     and_then (load_mleaf a h) (\<lambda>l.
     Inr (h\<lparr>limbo := limbo h @ (if ksuf l \<noteq> 0 then [ksuf l] else []) @ [a]\<rparr>))"

definition internode_deallocate_rcu :: "u64 \<Rightarrow> mass_heap \<Rightarrow> mass_heap res" where
  "internode_deallocate_rcu a h = and_then (load_inner a h) (\<lambda>n. Inr (h\<lparr>limbo := limbo h @ [a]\<rparr>))"

text \<open>
  What is in limbo is freed by calls of \<open>hard_rcu_quiesce\<close> once every thread has passed a quiescent point;
  this is the heap after the last of them.
\<close>

definition free_limbo :: "mass_heap \<Rightarrow> mass_heap" where
  "free_limbo h =
     h\<lparr>mleaves := (mleaves h) |` (- set (limbo h)), inners := (inners h) |` (- set (limbo h)),
       bags := (bags h) |` (- set (limbo h)), limbo := []\<rparr>"

section \<open>Links between leaves\<close>

text \<open>The low bit of a next pointer locks it.\<close>

definition is_marked :: "u64 \<Rightarrow> bool" where "is_marked n \<longleftrightarrow> n AND 1 \<noteq> 0"
definition mark_link :: "u64 \<Rightarrow> u64" where "mark_link n = n + 1"

definition set_next :: "u64 \<Rightarrow> u64 \<Rightarrow> mass_heap \<Rightarrow> mass_heap res" where
  "set_next x a h = modify_mleaf a (\<lambda>l. l\<lparr>lf_next := x\<rparr>) h"

definition set_prev :: "u64 \<Rightarrow> u64 \<Rightarrow> mass_heap \<Rightarrow> mass_heap res" where
  "set_prev x a h = modify_mleaf a (\<lambda>l. l\<lparr>lf_prev := x\<rparr>) h"

definition lock_next :: "u64 \<Rightarrow> mass_heap \<Rightarrow> (u64 \<times> mass_heap) res" where
  "lock_next n h =
     and_then (load_mleaf n h) (\<lambda>l.
     let next = lf_next l
     in if next = 0 then Inr (0, h)
        else if is_marked next then Inl Spin
        else and_then (set_next (mark_link next) n h) (\<lambda>h1. Inr (next, h1)))"

definition lock_prev :: "u64 \<Rightarrow> mass_heap \<Rightarrow> (u64 \<times> mass_heap) res" where
  "lock_prev n h =
     and_then (load_mleaf n h) (\<lambda>l.
     let prev = lf_prev l
     in if prev = 0 then Inr (0, h)
        else and_then (load_mleaf prev h) (\<lambda>q.
          if lf_next q = n then and_then (set_next (mark_link n) prev h) (\<lambda>h1. Inr (prev, h1))
          else Inl Spin))"

definition change_link :: "u64 \<Rightarrow> u64 \<Rightarrow> mass_heap \<Rightarrow> mass_heap res" where
  "change_link n nn h =
     and_then (lock_next n h) (\<lambda>(next, h1).
     and_then (set_next next nn h1) (\<lambda>h2.
     and_then (if next \<noteq> 0 then set_prev nn next h2 else Inr h2) (\<lambda>h3.
     and_then (lock_prev n h3) (\<lambda>(prev, h4).
     if prev \<noteq> 0 then and_then (set_next nn prev h4) (set_prev prev nn) else Inr h4))))"

section \<open>Children of an inner node\<close>

text \<open>The child to descend into: a binary search for the first separator above the key.\<close>

function key_upper_bound :: "u64 \<Rightarrow> u64 list \<Rightarrow> nat \<Rightarrow> nat \<Rightarrow> nat" where
  "key_upper_bound ka ikeys l r =
     (if l < r then
        (let m = (l + r) div 2; k = ikeys ! m
         in if ka < k then key_upper_bound ka ikeys l m
            else if ka = k then m + 1
            else key_upper_bound ka ikeys (m + 1) r)
      else l)"
  by auto
termination
  by (relation "measure (\<lambda>(ka, ikeys, l, r). r - l)") auto

declare key_upper_bound.simps [simp del]

definition assign_copy :: "u64 \<Rightarrow> nat \<Rightarrow> u64 \<Rightarrow> mass_heap \<Rightarrow> mass_heap res" where
  "assign_copy par posi child h =
     and_then (set_parent par child h) (\<lambda>h1.
     and_then (load_inner par h1) (\<lambda>n.
     and_then (write_at (in_child n) posi child) (\<lambda>cs.
     modify_inner par (\<lambda>n. n\<lparr>in_child := cs\<rparr>) h1)))"

text \<open>The position of a child by its pointer, when the search by key did not find it.\<close>

fun child_position :: "u64 \<Rightarrow> u64 list \<Rightarrow> nat \<Rightarrow> nat \<Rightarrow> nat option res" where
  "child_position c cs i 0 = Inr None"
| "child_position c cs i (Suc left) =
     and_then (byte_at cs i) (\<lambda>x. if x = c then Inr (Some i) else child_position c cs (i + 1) left)"

definition posi_in_parent :: "u64 \<Rightarrow> u64 \<Rightarrow> mass_internode \<Rightarrow> nat option res" where
  "posi_in_parent ikey a p =
     (let posi = key_upper_bound ikey (in_ikey0 p) 0 (nkeys p)
      in and_then (byte_at (in_child p) posi) (\<lambda>c.
         if c = a then Inr (Some posi) else child_position a (in_child p) 0 (nkeys p + 1)))"

section \<open>Bits of a version\<close>

lemmas nv_bits = lock_bit_def inserting_bit_def splitting_bit_def migration_bit_def deleted_bit_def
  root_bit_def isleaf_bit_def

lemma nv_flag: "v AND push_bit n 1 \<noteq> 0 \<longleftrightarrow> bit v n" for v :: u32
  by (simp add: and_exp_eq_0_iff_not_bit)

lemma nv_flags:
  "nv_locked v \<longleftrightarrow> bit v 0" "nv_inserting v \<longleftrightarrow> bit v 1" "nv_splitting v \<longleftrightarrow> bit v 2"
  "nv_migrating v \<longleftrightarrow> bit v 28" "nv_deleted v \<longleftrightarrow> bit v 29" "nv_is_root v \<longleftrightarrow> bit v 30" "nv_isleaf v \<longleftrightarrow> bit v 31"
  by (simp_all only: nv_locked_def nv_inserting_def nv_splitting_def nv_migrating_def nv_deleted_def
      nv_is_root_def nv_isleaf_def nv_bits nv_flag)

lemma bit_of_push: "bit (push_bit m 1 :: u32) n \<longleftrightarrow> n = m \<and> m < 32"
  by (auto simp: bit_exp_iff)

lemmas flag_bits = nv_bits [THEN arg_cong [where f = bit], THEN fun_cong, unfolded bit_of_push]

lemma unlock_mask_bit: "bit unlock_mask n \<longleftrightarrow> n < 32 \<and> n \<noteq> 28 \<and> 3 \<le> n"
proof -
  have "vinsert_lowbit - 1 = (mask 3 :: u32)" by (simp add: vinsert_lowbit_def mask_eq_exp_minus_1)
  then show ?thesis
    by (auto simp: unlock_mask_def flag_bits bit_and_iff bit_not_iff bit_or_iff bit_mask_iff dest: bit_imp_le_length)
qed

lemma split_unlock_mask_bit: "bit split_unlock_mask n \<longleftrightarrow> n < 32 \<and> n \<noteq> 28 \<and> n \<noteq> 30 \<and> 9 \<le> n"
proof -
  have "vsplit_lowbit - 1 = (mask 9 :: u32)" by (simp add: vsplit_lowbit_def mask_eq_exp_minus_1)
  then show ?thesis
    by (auto simp: split_unlock_mask_def flag_bits bit_and_iff bit_not_iff bit_or_iff bit_mask_iff dest: bit_imp_le_length)
qed

text \<open>A clean version comes back from locking and unlocking.\<close>

lemma unlock_clean:
  assumes "\<not> nv_locked v" "\<not> nv_inserting v" "\<not> nv_splitting v" "\<not> nv_migrating v"
  shows "nv_unlock (v OR lock_bit) = v"
proof -
  have v: "\<not> bit v 0" "\<not> bit v 1" "\<not> bit v 2" "\<not> bit v 28" using assms by (simp_all add: nv_flags)
  then have "\<not> nv_splitting (v OR lock_bit)" by (simp add: nv_flags bit_or_iff flag_bits)
  moreover have "(v OR lock_bit) AND inserting_bit = 0"
    by (rule bit_word_eqI) (use v in \<open>auto simp: bit_and_iff bit_or_iff flag_bits\<close>)
  moreover have "(v OR lock_bit) AND unlock_mask = v"
  proof (rule bit_word_eqI)
    fix n assume "n < LENGTH(32)"
    then have "n = 0 \<or> n = 1 \<or> n = 2 \<or> 3 \<le> n" "n < 32" by auto
    then show "bit ((v OR lock_bit) AND unlock_mask) n = bit v n"
      using v by (auto simp: bit_and_iff bit_or_iff unlock_mask_bit flag_bits)
  qed
  ultimately show ?thesis by (simp add: nv_unlock_def)
qed

text \<open>Adding \<open>2 ^ k\<close> flips bit \<open>k\<close>.\<close>

lemma bit_add_exp: "bit (x + push_bit k 1) k \<longleftrightarrow> \<not> bit x k" if "k < 32" for x :: u32
  using that by transfer (simp add: bit_take_bit_iff, simp add: bit_iff_odd push_bit_eq_mult)

lemma differs_above:
  fixes x y :: u32
  assumes "bit x n \<noteq> bit y n" and "k \<le> n" and "n \<noteq> 28"
  shows "push_bit k 1 \<le> (x XOR y) AND NOT migration_bit"
proof -
  define z where "z = (x XOR y) AND NOT migration_bit"
  have n: "n < 32" using assms(1) by (auto dest: bit_imp_le_length)
  then have z: "bit (unat z) n" using assms by (auto simp: z_def bit_unsigned_iff bit_and_iff bit_xor_iff bit_not_iff flag_bits)
  have "\<not> unat z < 2 ^ k"
  proof
    assume "unat z < 2 ^ k"
    then have "take_bit k (unat z) = unat z" by (rule take_bit_nat_eq_self)
    then show False using z assms(2) by (metis bit_take_bit_iff leD)
  qed
  moreover have "unat (push_bit k 1 :: u32) = 2 ^ k" using n assms(2) by transfer (simp add: take_bit_push_bit)
  ultimately show ?thesis by (simp add: z_def word_le_nat_alt)
qed

text \<open>The counter of insertions: six bits, whose carry goes into the counter of splits.\<close>

definition insert_count :: "u32 \<Rightarrow> nat" where
  "insert_count v = unat v div 8 mod 64"

lemma same_above:
  fixes x y :: u32
  assumes "\<And>n. k \<le> n \<Longrightarrow> n < 32 \<Longrightarrow> n \<noteq> 28 \<Longrightarrow> bit x n = bit y n" and "k < 32"
  shows "(x XOR y) AND NOT migration_bit < push_bit k 1"
proof -
  define z where "z = (x XOR y) AND NOT migration_bit"
  have "take_bit k z = z"
  proof (rule bit_word_eqI)
    fix n assume "n < LENGTH(32)"
    then show "bit (take_bit k z) n = bit z n"
      using assms(1) [of n] by (cases "n < k") (auto simp: z_def bit_take_bit_iff bit_and_iff bit_xor_iff bit_not_iff flag_bits)
  qed
  then have "take_bit k (unat z) = unat z" by (metis unsigned_take_bit_eq)
  then have "unat z < 2 ^ k" by (metis take_bit_nat_less_exp)
  moreover have "unat (push_bit k 1 :: u32) = 2 ^ k" using assms(2) by transfer (simp add: take_bit_push_bit)
  ultimately show ?thesis by (simp add: z_def word_less_nat_alt)
qed

lemma add_eight:
  fixes x :: u32
  shows "insert_count x = 63 \<Longrightarrow> bit (x + 8) 9 \<longleftrightarrow> \<not> bit x 9"
    and "insert_count x \<noteq> 63 \<Longrightarrow> 9 \<le> n \<Longrightarrow> bit (x + 8) n = bit x n"
proof -
  define u where "u = unat x"
  have unat_less_exp: "unat x < 8388608 * 512" by transfer (simp add: take_bit_eq_mod nat_less_iff)
  have add: "unat (x + 8) = (u + 8) mod 2 ^ 32" by (simp add: u_def unat_word_ariths)
  have nat: "bit w n \<longleftrightarrow> bit (unat w) n" for w :: u32 and n by (simp add: bit_unsigned_iff)
  define w where "w = u div 8"
  have "(u + 8) div 512 = Suc w div 64" "u div 512 = w div 64"
    using div_mult2_eq [of "u + 8" 8 64] div_mult2_eq [of u 8 64] by (simp_all add: w_def)
  then have carry: "(u + 8) div 512 = (if insert_count x = 63 then u div 512 + 1 else u div 512)"
    by (simp add: div_Suc mod_Suc insert_count_def w_def u_def)
  show "bit (x + 8) 9 \<longleftrightarrow> \<not> bit x 9" if "insert_count x = 63"
  proof -
    have "(u + 8) div 512 = u div 512 + 1" using that carry by simp
    then show ?thesis
      unfolding nat add take_bit_eq_mod [symmetric] bit_take_bit_iff by (simp add: bit_iff_odd u_def)
  qed
  show "bit (x + 8) n = bit x n" if "insert_count x \<noteq> 63" "9 \<le> n"
  proof -
    have "(u + 8) div 512 = u div 512" using that carry by simp
    moreover have "u div 512 < 8388608" using unat_less_exp by (simp add: u_def less_mult_imp_div_less)
    moreover have "u + 8 = 512 * ((u + 8) div 512) + (u + 8) mod 512" "(u + 8) mod 512 < 512" by simp_all
    ultimately have "u + 8 < 4294967296" by linarith
    then have "(u + 8) mod 2 ^ 32 = u + 8" by simp
    with \<open>(u + 8) div 512 = u div 512\<close> have "(u + 8) mod 2 ^ 32 div 512 = u div 512" by (simp only:)
    then have "drop_bit 9 (unat (x + 8)) = drop_bit 9 (unat x)" by (simp add: add u_def drop_bit_eq_div)
    moreover have "bit (unat y) n \<longleftrightarrow> bit (drop_bit 9 (unat y)) (n - 9)" for y :: u32
      using that(2) by (simp add: bit_drop_bit_eq)
    ultimately show ?thesis unfolding nat by simp
  qed
qed

text \<open>A version without a lock, a mark of a change under way or the mark of deletion.\<close>

definition clean :: "u32 \<Rightarrow> bool" where
  "clean v \<longleftrightarrow> \<not> nv_locked v \<and> \<not> nv_inserting v \<and> \<not> nv_splitting v \<and> \<not> nv_migrating v \<and> \<not> nv_deleted v"

section \<open>How the operations run\<close>

lemma load_simps:
  "mleaves h a = Some l \<Longrightarrow> load_mleaf a h = Inr l"
  "inners h a = Some n \<Longrightarrow> load_inner a h = Inr n"
  "mleaves h a = Some l \<Longrightarrow> modify_mleaf a f h = Inr (h\<lparr>mleaves := (mleaves h)(a \<mapsto> f l)\<rparr>)"
  "inners h a = Some n \<Longrightarrow> modify_inner a g h = Inr (h\<lparr>inners := (inners h)(a \<mapsto> g n)\<rparr>)"
  by (simp_all add: load_mleaf_def load_inner_def modify_mleaf_def modify_inner_def)

lemma version_simps:
  "mleaves h a = Some l \<Longrightarrow> node_version a h = Inr (lf_version l)"
  "mleaves h a = Some l \<Longrightarrow> set_node_version f a h = Inr (h\<lparr>mleaves := (mleaves h)(a \<mapsto> l\<lparr>lf_version := f (lf_version l)\<rparr>)\<rparr>)"
  "mleaves h a = None \<Longrightarrow> inners h a = Some n \<Longrightarrow> node_version a h = Inr (in_version n)"
  "mleaves h a = None \<Longrightarrow> inners h a = Some n \<Longrightarrow>
     set_node_version f a h = Inr (h\<lparr>inners := (inners h)(a \<mapsto> n\<lparr>in_version := f (in_version n)\<rparr>)\<rparr>)"
  by (simp_all add: node_version_def set_node_version_def load_simps)

lemma parent_simps:
  "mleaves h a = Some l \<Longrightarrow> node_parent a h = Inr (lf_parent l)"
  "mleaves h a = Some l \<Longrightarrow> set_parent p a h = Inr (h\<lparr>mleaves := (mleaves h)(a \<mapsto> l\<lparr>lf_parent := p\<rparr>)\<rparr>)"
  "mleaves h a = None \<Longrightarrow> inners h a = Some n \<Longrightarrow> node_parent a h = Inr (in_parent n)"
  "mleaves h a = None \<Longrightarrow> inners h a = Some n \<Longrightarrow>
     set_parent p a h = Inr (h\<lparr>inners := (inners h)(a \<mapsto> n\<lparr>in_parent := p\<rparr>)\<rparr>)"
  by (simp_all add: node_parent_def set_parent_def load_simps)

lemma lock_simps:
  "mleaves h a = Some l \<Longrightarrow> \<not> nv_locked (lf_version l) \<Longrightarrow>
     node_lock a h = Inr (h\<lparr>mleaves := (mleaves h)(a \<mapsto> l\<lparr>lf_version := lf_version l OR lock_bit\<rparr>)\<rparr>)"
  "mleaves h a = None \<Longrightarrow> inners h a = Some n \<Longrightarrow> \<not> nv_locked (in_version n) \<Longrightarrow>
     node_lock a h = Inr (h\<lparr>inners := (inners h)(a \<mapsto> n\<lparr>in_version := in_version n OR lock_bit\<rparr>)\<rparr>)"
  by (simp_all add: node_lock_def version_simps nv_lock_def)

lemmas node_simps = load_simps version_simps parent_simps lock_simps

lemma usage_runs:
  "mass_ndebug h \<Longrightarrow> \<exists>st b. mt_update_usage type depth sz mig lf h =
     Inr (h\<lparr>mass_strategy_manager := st, mass_worker_base := b\<rparr>)"
  by (auto simp: mt_update_usage_def update_local_memory_usage_def Let_def split: prod.splits)

text \<open>The neighbours in the list of leaves, and the address of the copy.\<close>

definition linked_leaf :: "u64 \<Rightarrow> mass_leaf \<Rightarrow> mass_heap \<Rightarrow> bool" where
  "linked_leaf a l h \<longleftrightarrow>
     (lf_next l \<noteq> 0 \<longrightarrow> \<not> is_marked (lf_next l) \<and> lf_next l \<noteq> a \<and> lf_next l \<noteq> lf_prev l \<and> mleaves h (lf_next l) \<noteq> None) \<and>
     (lf_prev l \<noteq> 0 \<longrightarrow> lf_prev l \<noteq> a \<and> (\<exists>m. mleaves h (lf_prev l) = Some m \<and> lf_next m = a))"

text \<open>The fields beside the leaves.\<close>

definition same_but_leaves :: "mass_heap \<Rightarrow> mass_heap \<Rightarrow> bool" where
  "same_but_leaves h h' \<longleftrightarrow> inners h' = inners h \<and> bags h' = bags h \<and> limbo h' = limbo h \<and> pool h' = pool h \<and>
     mass_ndebug h' = mass_ndebug h"

lemma lock_next_runs:
  assumes "mleaves h a = Some l" and "lf_next l \<noteq> 0 \<longrightarrow> \<not> is_marked (lf_next l)"
  shows "\<exists>x. lock_next a h = Inr (lf_next l, h\<lparr>mleaves := (mleaves h)(a \<mapsto> l\<lparr>lf_next := x\<rparr>)\<rparr>)"
proof (cases "lf_next l = 0")
  case True
  then have l: "l\<lparr>lf_next := 0\<rparr> = l" by (cases l) simp
  have "(mleaves h)(a \<mapsto> l) = mleaves h" using assms(1) by (rule fun_upd_idem)
  then have "h\<lparr>mleaves := (mleaves h)(a \<mapsto> l\<lparr>lf_next := 0\<rparr>)\<rparr> = h" unfolding l by simp
  moreover have "lock_next a h = Inr (0, h)" using True assms(1) by (simp add: lock_next_def node_simps Let_def)
  ultimately show ?thesis using True by (intro exI [of _ 0]) (simp only:)
next
  case False
  with assms show ?thesis by (intro exI [of _ "mark_link (lf_next l)"]) (simp add: lock_next_def set_next_def node_simps Let_def)
qed

lemma lock_prev_runs:
  "mleaves h a = Some l \<Longrightarrow> lf_prev l = 0 \<Longrightarrow> lock_prev a h = Inr (0, h)"
  "mleaves h a = Some l \<Longrightarrow> lf_prev l = y \<Longrightarrow> y \<noteq> 0 \<Longrightarrow> mleaves h y = Some q \<Longrightarrow> lf_next q = a \<Longrightarrow>
     lock_prev a h = Inr (y, h\<lparr>mleaves := (mleaves h)(y \<mapsto> q\<lparr>lf_next := mark_link a\<rparr>)\<rparr>)"
  by (simp_all add: lock_prev_def set_next_def node_simps Let_def)

lemma change_link_runs:
  assumes "mleaves h a = Some l" and "mleaves h b = Some m" and "a \<noteq> b" and "linked_leaf a l h"
    and "b \<noteq> lf_next l" and "b \<noteq> lf_prev l" and "lf_prev m = lf_prev l"
  shows "\<exists>h' x. change_link a b h = Inr h' \<and> same_but_leaves h h' \<and>
    mleaves h' b = Some (m\<lparr>lf_next := lf_next l\<rparr>) \<and> mleaves h' a = Some (l\<lparr>lf_next := x\<rparr>) \<and>
    (lf_next l \<noteq> 0 \<longrightarrow> mleaves h' (lf_next l) = map_option (\<lambda>r. r\<lparr>lf_prev := b\<rparr>) (mleaves h (lf_next l))) \<and>
    (lf_prev l \<noteq> 0 \<longrightarrow> mleaves h' (lf_prev l) = map_option (\<lambda>r. r\<lparr>lf_next := b\<rparr>) (mleaves h (lf_prev l))) \<and>
    (\<forall>c. c \<notin> {a, b, lf_next l, lf_prev l} \<longrightarrow> mleaves h' c = mleaves h c)"
proof -
  define x y where "x = lf_next l" and "y = lf_prev l"
  have marks: "x \<noteq> 0 \<longrightarrow> \<not> is_marked x" and nx: "x \<noteq> 0 \<Longrightarrow> x \<noteq> a \<and> x \<noteq> y \<and> mleaves h x \<noteq> None"
    and prev: "y \<noteq> 0 \<Longrightarrow> y \<noteq> a \<and> (\<exists>q. mleaves h y = Some q \<and> lf_next q = a)"
    using assms(4) by (auto simp: linked_leaf_def x_def y_def)
  obtain z where lock: "lock_next a h = Inr (x, h\<lparr>mleaves := (mleaves h)(a \<mapsto> l\<lparr>lf_next := z\<rparr>)\<rparr>)"
    using lock_next_runs [OF assms(1)] marks by (auto simp: x_def)
  have b: "b \<noteq> x" "b \<noteq> y" using assms(5,6) by (simp_all add: x_def y_def)
  define h2 where "h2 = h\<lparr>mleaves := (mleaves h)(a \<mapsto> l\<lparr>lf_next := z\<rparr>, b \<mapsto> m\<lparr>lf_next := x\<rparr>)\<rparr>"
  define h3 where "h3 = (if x \<noteq> 0 then h2\<lparr>mleaves := (mleaves h2)(x \<mapsto> (the (mleaves h x))\<lparr>lf_prev := b\<rparr>)\<rparr> else h2)"
  have 2: "set_next x b (h\<lparr>mleaves := (mleaves h)(a \<mapsto> l\<lparr>lf_next := z\<rparr>)\<rparr>) = Inr h2"
    using assms(2,3) by (simp add: set_next_def node_simps h2_def)
  have 3: "(if x \<noteq> 0 then set_prev b x h2 else Inr h2) = Inr h3"
    using nx b by (auto simp: h3_def set_prev_def modify_mleaf_def load_mleaf_def h2_def)
  have at3: "mleaves h3 a = Some (l\<lparr>lf_next := z\<rparr>)" "mleaves h3 b = Some (m\<lparr>lf_next := x\<rparr>)"
    "x \<noteq> 0 \<Longrightarrow> mleaves h3 x = map_option (\<lambda>r. r\<lparr>lf_prev := b\<rparr>) (mleaves h x)"
    "c \<notin> {a, b, x} \<Longrightarrow> mleaves h3 c = mleaves h c" "same_but_leaves h h3" for c
    using nx b assms(3) by (auto simp: h3_def h2_def same_but_leaves_def)
  have change: "change_link a b h = and_then (lock_prev a h3) (\<lambda>(prev, h4).
      if prev \<noteq> 0 then and_then (set_next b prev h4) (set_prev prev b) else Inr h4)"
    using lock 2 3 by (simp add: change_link_def)
  show ?thesis
  proof (cases "y = 0")
    case True
    then have "lock_prev a h3 = Inr (0, h3)" using lock_prev_runs(1) [OF at3(1)] by (simp add: y_def)
    with change at3 True show ?thesis by (intro exI [of _ h3] exI [of _ z]) (auto simp: x_def y_def)
  next
    case False
    with prev obtain q where q: "mleaves h y = Some q" "lf_next q = a" "y \<noteq> a" by blast
    have "y \<noteq> x" using nx False by auto
    then have y3: "mleaves h3 y = Some q" using at3(4) [of y] q b by auto
    define h6 where "h6 = h3\<lparr>mleaves := (mleaves h3)(y \<mapsto> q\<lparr>lf_next := b\<rparr>, b \<mapsto> m\<lparr>lf_next := x\<rparr>)\<rparr>"
    have "m\<lparr>lf_next := x, lf_prev := y\<rparr> = m\<lparr>lf_next := x\<rparr>" using assms(7) by (cases m) (simp add: y_def)
    moreover have "lock_prev a h3 = Inr (y, h3\<lparr>mleaves := (mleaves h3)(y \<mapsto> q\<lparr>lf_next := mark_link a\<rparr>)\<rparr>)"
      using lock_prev_runs(2) [OF at3(1) _ False y3 q(2)] by (simp add: y_def)
    ultimately have "change_link a b h = Inr h6"
      using change b at3(2) False by (simp add: h6_def set_next_def set_prev_def node_simps)
    moreover have "mleaves h6 b = Some (m\<lparr>lf_next := x\<rparr>)" "mleaves h6 a = Some (l\<lparr>lf_next := z\<rparr>)"
      "mleaves h6 y = Some (q\<lparr>lf_next := b\<rparr>)" "same_but_leaves h h6"
      "x \<noteq> 0 \<Longrightarrow> mleaves h6 x = map_option (\<lambda>r. r\<lparr>lf_prev := b\<rparr>) (mleaves h x)"
      "c \<notin> {a, b, x, y} \<Longrightarrow> mleaves h6 c = mleaves h c" for c
      using at3 b q \<open>y \<noteq> x\<close> assms(3) by (auto simp: h6_def same_but_leaves_def)
    ultimately show ?thesis using q by (intro exI [of _ h6] exI [of _ z]) (auto simp: x_def y_def)
  qed
qed


definition spare_node :: "u64 \<Rightarrow> mass_heap \<Rightarrow> bool" where
  "spare_node b h \<longleftrightarrow> b \<noteq> 0 \<and> mleaves h b = None \<and> inners h b = None \<and> (\<exists>bs. pool h = b # bs)"

lemma leaf_alloc_runs:
  assumes "mass_ndebug h" and "spare_node b h"
  shows "\<exists>m h1. make_leaf_with_cxl_policy used ep d t time mig h = Inr (b, h1) \<and> iksuf m = inner_bag (leaf_alloc_size used) \<and>
    mleaves h1 = (mleaves h)(b \<mapsto> m) \<and> inners h1 = inners h \<and> bags h1 = bags h \<and> limbo h1 = limbo h"
proof -
  obtain bs where b: "pool h = b # bs" "b \<noteq> 0" using assms(2) by (auto simp: spare_node_def)
  obtain st ba where "mt_update_usage t d (leaf_alloc_size used) mig True (h\<lparr>pool := bs\<rparr>) =
      Inr (h\<lparr>pool := bs, mass_strategy_manager := st, mass_worker_base := ba\<rparr>)"
    using usage_runs [of "h\<lparr>pool := bs\<rparr>" t d "leaf_alloc_size used" mig True] assms(1) by auto
  moreover have "iksuf (blank_leaf (leaf_alloc_size used) ep t d time) = inner_bag (leaf_alloc_size used)" by (simp add: blank_leaf_def)
  ultimately show ?thesis
    using b by (intro exI [of _ "blank_leaf (leaf_alloc_size used) ep t d time"])
      (simp add: make_leaf_with_cxl_policy_def pool_allocate_def Let_def)
qed

section \<open>The search in an inner node\<close>

lemma key_upper_bound_finds:
  assumes "sorted_wrt (<) (take n ks)" and "n \<le> length ks" and "l \<le> r" and "r \<le> n"
    and "\<forall>i<l. ks ! i \<le> ka" and "\<forall>i. r \<le> i \<and> i < n \<longrightarrow> ka < ks ! i"
  shows "key_upper_bound ka ks l r \<le> n \<and> (\<forall>i<key_upper_bound ka ks l r. ks ! i \<le> ka) \<and>
    (\<forall>i. key_upper_bound ka ks l r \<le> i \<and> i < n \<longrightarrow> ka < ks ! i)"
  using assms(3-6)
proof (induction "r - l" arbitrary: l r rule: less_induct)
  case less
  have mono: "ks ! i < ks ! j" if "i < j" "j < n" for i j
    using sorted_wrt_nth_less [OF assms(1), of i j] that assms(2) by simp
  define m where "m = (l + r) div 2"
  show ?case
  proof (cases "l < r")
    case False
    then show ?thesis using less.prems by (simp add: key_upper_bound.simps)
  next
    case True
    then have m: "l \<le> m" "m < r" "m < n" using less.prems(2) by (auto simp: m_def)
    have le: "ks ! i \<le> ks ! m" if "i < m + 1" for i using mono [of i m] that m by (cases "i = m") auto
    have ge: "ks ! m < ks ! i" if "m < i" "i < n" for i using mono that by simp
    have step: "key_upper_bound ka ks l r = (if ka < ks ! m then key_upper_bound ka ks l m
        else if ka = ks ! m then m + 1 else key_upper_bound ka ks (m + 1) r)"
      by (subst key_upper_bound.simps) (simp only: Let_def m_def [symmetric] True if_True)
    consider "ka < ks ! m" | "ka = ks ! m" | "ks ! m < ka" by fastforce
    then show ?thesis
    proof cases
      case 1
      then have "\<forall>i. m \<le> i \<and> i < n \<longrightarrow> ka < ks ! i" using ge by (metis le_neq_implies_less order_less_trans)
      with less.hyps [of m l] less.prems m 1 True show ?thesis
        by (simp add: step)
    next
      case 2
      then have "key_upper_bound ka ks l r = m + 1"
        using step by simp
      then show ?thesis using 2 m le ge by auto
    next
      case 3
      then have "\<forall>i<m + 1. ks ! i \<le> ka" using le by (meson order_trans less_imp_le)
      moreover have "\<not> ka < ks ! m" "ka \<noteq> ks ! m" using 3 by auto
      ultimately show ?thesis using less.hyps [of r "m + 1"] less.prems m True
        by (simp add: step)
    qed
  qed
qed

end
