(* ===== verification/Masstree_Migration.thy ===== *)
theory Masstree_Migration
  imports Masstree_Node
begin

text \<open>
  The migration of single nodes of Masstree between the two memory tiers
  (\<open>third_party/masstree-beta/masstree_sidle.hh\<close>). The node is copied into the target tier, the pointers to it
  are redirected and the original is marked deleted and put into limbo. Both calls return the parent, still
  locked, or null when they gave up.
\<close>

section \<open>Migration\<close>

fun unlock_all :: "u64 list \<Rightarrow> mass_heap \<Rightarrow> mass_heap res" where
  "unlock_all [] h = Inr h"
| "unlock_all (a # as) h = and_then (node_unlock a h) (unlock_all as)"

text \<open>
  \<open>memcpy\<close> copies the fixed part of a leaf: the bag behind it stays the one of the new leaf.
\<close>

definition copy_leaf :: "u64 \<Rightarrow> u64 \<Rightarrow> node_mem_type \<Rightarrow> mass_heap \<Rightarrow> mass_heap res" where
  "copy_leaf cur_node new_node target_type h =
     and_then (node_lock cur_node h) (\<lambda>h1.
     and_then (load_mleaf cur_node h1) (\<lambda>l.
     and_then (modify_mleaf new_node (\<lambda>m. l\<lparr>iksuf := iksuf m,
         lf_meta := (lf_meta l)\<lparr>metadata := (metadata (lf_meta l))\<lparr>md_type := target_type\<rparr>\<rparr>\<rparr>) h1)
       (set_node_version nv_mark_migration cur_node)))"

definition replace_leaf :: "u64 \<Rightarrow> u64 \<Rightarrow> u64 \<Rightarrow> nat \<Rightarrow> mass_heap \<Rightarrow> (u64 \<times> mass_heap) res" where
  "replace_leaf cur_node new_node p posi h =
     and_then (assign_copy p posi new_node h) (\<lambda>h1.
     and_then (change_link cur_node new_node h1) (\<lambda>h2.
     and_then (set_node_version nv_mark_deleted cur_node h2) (\<lambda>h3.
     and_then (leaf_deallocate_rcu cur_node h3) (\<lambda>h4.
     and_then (unlock_if_locked cur_node h4) (\<lambda>h5.
     and_then (unlock_if_locked new_node h5) (\<lambda>h6.
     Inr (p, h6)))))))"

definition masstree_leaf_migration ::
  "u64 \<Rightarrow> u64 \<Rightarrow> node_mem_type \<Rightarrow> mass_heap \<Rightarrow> (u64 \<times> mass_heap) res" where
  "masstree_leaf_migration cur_node par target_type h =
     (if cur_node = 0 then Inr (0, h)
      else and_then (load_mleaf cur_node h) (\<lambda>l.
      let v = lf_version l in
      if nv_deleted v then Inr (0, h)
      else if md_type (metadata (lf_meta l)) = target_type then Inr (0, h)
      else if nv_migrating v \<or> nv_inserting v \<or> nv_splitting v then Inr (0, h)
      else
        and_then (ksuf_used_capacity l h) (\<lambda>used.
        and_then (make_leaf_with_cxl_policy used (phantom_epoch l) (ucast (md_depth (metadata (lf_meta l))))
            target_type (access_time (lf_meta l)) True h) (\<lambda>(new_node, h1).
        and_then (copy_leaf cur_node new_node target_type h1) (\<lambda>h2.
        and_then (locked_parent cur_node h2) (\<lambda>(p, h3).
        if p = 0 then
          (if nv_is_root v then Inl Null_Deref
           else and_then (unlock_all [cur_node, new_node] h3) (\<lambda>h4. Inr (0, h4)))
        else and_then (load_inner p h3) (\<lambda>pn.
        if nv_deleted (in_version pn)
        then and_then (unlock_all [cur_node, new_node, p] h3) (\<lambda>h4. Inr (0, h4))
        else and_then (posi_in_parent (lf_ikey0 l ! 0) cur_node pn) (\<lambda>posi.
          case posi of
            None \<Rightarrow> and_then (unlock_all [cur_node, new_node, p] h3) (\<lambda>h4. Inr (0, h4))
          | Some i \<Rightarrow> replace_leaf cur_node new_node p i h3))))))))"

fun set_parents :: "u64 \<Rightarrow> u64 list \<Rightarrow> mass_heap \<Rightarrow> mass_heap res" where
  "set_parents p [] h = Inr h"
| "set_parents p (c # cs) h = and_then (set_parent p c h) (set_parents p cs)"

text \<open>The redirection of the pointer to the original: none for a root, the slot of the parent otherwise.\<close>

definition link_new_internode ::
  "u64 \<Rightarrow> u64 \<Rightarrow> u64 \<Rightarrow> mass_heap \<Rightarrow> (bool \<times> mass_heap) res" where
  "link_new_internode original_node new_node p h =
     (if p = 0 then and_then (make_layer_root new_node h) (\<lambda>h1. Inr (True, h1))
      else
        and_then (load_inner original_node h) (\<lambda>n.
        and_then (load_inner p h) (\<lambda>pn.
        and_then (posi_in_parent (in_ikey0 n ! 0) original_node pn) (\<lambda>posi.
        case posi of
          None \<Rightarrow> and_then (unlock_all [original_node, new_node, p] h) (\<lambda>h1. Inr (False, h1))
        | Some i \<Rightarrow> and_then (assign_copy p i new_node h) (\<lambda>h1. Inr (True, h1))))))"

definition copy_internode :: "u64 \<Rightarrow> node_mem_type \<Rightarrow> mass_heap \<Rightarrow> (u64 \<times> mass_heap) res" where
  "copy_internode original_node target_type h =
     and_then (load_inner original_node h) (\<lambda>n.
     and_then (make_internode_with_cxl_policy (height n) (ucast (md_depth (in_meta n))) target_type True h)
       (\<lambda>(new_node, h1).
     and_then (modify_inner new_node (\<lambda>_. n\<lparr>in_meta := (in_meta n)\<lparr>md_type := target_type\<rparr>\<rparr>) h1) (\<lambda>h2.
     and_then (set_node_version nv_mark_migration original_node h2) (\<lambda>h3.
     Inr (new_node, h3)))))"

definition replace_internode :: "u64 \<Rightarrow> u64 \<Rightarrow> u64 \<Rightarrow> mass_heap \<Rightarrow> (u64 \<times> mass_heap) res" where
  "replace_internode original_node new_node p h =
     and_then (load_inner original_node h) (\<lambda>n.
     and_then (set_parents new_node (take (nkeys n + 1) (in_child n)) h) (\<lambda>h1.
     and_then (set_node_version nv_mark_deleted original_node h1) (\<lambda>h2.
     and_then (internode_deallocate_rcu original_node h2) (\<lambda>h3.
     and_then (unlock_all [original_node, new_node] h3) (\<lambda>h4.
     Inr (p, h4))))))"

definition move_locked_internode :: "u64 \<Rightarrow> node_mem_type \<Rightarrow> mass_heap \<Rightarrow> (u64 \<times> mass_heap) res" where
  "move_locked_internode original_node target_type h =
     and_then (copy_internode original_node target_type h) (\<lambda>(new_node, h1).
     and_then (locked_parent original_node h1) (\<lambda>(p, h2).
     and_then (if p = 0 then and_then (node_version original_node h2) (\<lambda>v. Inr (\<not> nv_is_root v))
               else and_then (load_inner p h2) (\<lambda>pn. Inr (nv_deleted (in_version pn)))) (\<lambda>invalid.
     if invalid
     then and_then (unlock_all ([new_node, original_node] @ (if p \<noteq> 0 then [p] else [])) h2) (\<lambda>h3. Inr (0, h3))
     else and_then (link_new_internode original_node new_node p h2) (\<lambda>(ok, h3).
       if ok then replace_internode original_node new_node p h3 else Inr (0, h3)))))"

definition masstree_internode_migration ::
  "u64 \<Rightarrow> node_mem_type \<Rightarrow> bool \<Rightarrow> mass_heap \<Rightarrow> (u64 \<times> mass_heap) res" where
  "masstree_internode_migration original_node target_type is_new h =
     and_then (if is_new then node_lock original_node h else Inr h) (\<lambda>h1.
     and_then (load_inner original_node h1) (\<lambda>n.
     if nv_deleted (in_version n) \<or> md_type (in_meta n) = target_type
     then and_then (node_unlock original_node h1) (\<lambda>h2. Inr (0, h2))
     else if md_depth (in_meta n) = 1 \<and> target_type \<noteq> Mem_Local \<and> \<not> mass_ndebug h1 then Inl Assert_Failed
     else move_locked_internode original_node target_type h1))"

definition masstree_unlock :: "u64 \<Rightarrow> mass_heap \<Rightarrow> mass_heap res" where
  "masstree_unlock node h =
     (if node = 0 then Inr h
      else and_then (load_inner node h) (\<lambda>n. if nv_locked (in_version n) then node_unlock node h else Inr h))"

definition masstree_internode_traverse :: "u64 \<Rightarrow> mass_heap \<Rightarrow> u64 list res" where
  "masstree_internode_traverse parent_node h =
     and_then (load_inner parent_node h) (\<lambda>n. Inr (take (nkeys n + 1) (in_child n)))"

definition masstree_is_leaf :: "u64 \<Rightarrow> mass_heap \<Rightarrow> bool" where
  "masstree_is_leaf node h \<longleftrightarrow>
     node \<noteq> 0 \<and> (case node_version node h of Inl _ \<Rightarrow> False | Inr v \<Rightarrow> nv_isleaf v)"

definition masstree_get_leaf :: "u64 \<Rightarrow> u64" where
  "masstree_get_leaf node = node"

text \<open>The start key of a traversal: the bytes of the value in reverse, one round of the loop each.\<close>

fun reverse_bytes :: "nat \<Rightarrow> u64 \<Rightarrow> u64 \<Rightarrow> u64" where
  "reverse_bytes 0 reversed val = reversed"
| "reverse_bytes (Suc left) reversed val =
     reverse_bytes left (push_bit 8 reversed OR (val AND 0xFF)) (drop_bit 8 val)"

definition to_str_order_key :: "u64 \<Rightarrow> u64" where
  "to_str_order_key val = reverse_bytes 8 0 val"

lemma start_key: "to_str_order_key 0 = 0" "to_str_order_key 1 = push_bit 56 1"
  by (simp_all add: to_str_order_key_def eval_nat_numeral)

section \<open>A leaf that moves\<close>

definition movable_leaf ::
  "u64 \<Rightarrow> node_mem_type \<Rightarrow> mass_leaf \<Rightarrow> mass_internode \<Rightarrow> nat \<Rightarrow> mass_heap \<Rightarrow> bool" where
  "movable_leaf a t l n i h \<longleftrightarrow> a \<noteq> 0 \<and> mleaves h a = Some l \<and> clean (lf_version l) \<and>
     md_type (metadata (lf_meta l)) \<noteq> t \<and> lf_parent l \<noteq> 0 \<and> mleaves h (lf_parent l) = None \<and>
     inners h (lf_parent l) = Some n \<and> \<not> nv_deleted (in_version n) \<and> \<not> nv_locked (in_version n) \<and>
     posi_in_parent (lf_ikey0 l ! 0) a n = Inr (Some i) \<and> i < length (in_child n)"

text \<open>The version of a node after it was replaced.\<close>

definition retired :: "u32 \<Rightarrow> u32" where
  "retired v = nv_unlock (nv_mark_deleted (nv_mark_migration (v OR lock_bit)))"

lemma copy_leaf_runs:
  assumes "mleaves h a = Some l" and "mleaves h b = Some m" and "a \<noteq> b" and "\<not> nv_locked (lf_version l)"
    and "iksuf m = g"
  shows "copy_leaf a b t h = Inr (h\<lparr>mleaves := (mleaves h)
    (b \<mapsto> l\<lparr>lf_version := lf_version l OR lock_bit, iksuf := g,
         lf_meta := (lf_meta l)\<lparr>metadata := (metadata (lf_meta l))\<lparr>md_type := t\<rparr>\<rparr>\<rparr>,
     a \<mapsto> l\<lparr>lf_version := nv_mark_migration (lf_version l OR lock_bit)\<rparr>)\<rparr>)"
  using assms by (simp add: copy_leaf_def lock_simps(1) [where l = l] load_simps
      version_simps(2) [where l = "l\<lparr>lf_version := lf_version l OR lock_bit\<rparr>"] fun_upd_twist)

lemma assign_copy_runs:
  assumes "mleaves h b = Some m" and "lf_parent m = p" and "inners h p = Some n" and "i < length (in_child n)"
  shows "assign_copy p i b h = Inr (h\<lparr>inners := (inners h)(p \<mapsto> n\<lparr>in_child := (in_child n)[i := b]\<rparr>)\<rparr>)"
proof -
  have "m\<lparr>lf_parent := p\<rparr> = m" using assms(2) by (cases m) simp
  then have "set_parent p b h = Inr h"
    unfolding parent_simps(2) [OF assms(1)] using fun_upd_idem [of "mleaves h", OF assms(1)] by simp
  then show ?thesis unfolding assign_copy_def using assms(3,4) by (simp add: load_simps)
qed

lemma nv_marks_keep_lock:
  "nv_locked (v OR lock_bit)" "nv_locked (nv_mark_deleted v) \<longleftrightarrow> nv_locked v"
  "nv_locked (nv_mark_migration v) \<longleftrightarrow> nv_locked v" "nv_deleted (v OR lock_bit) \<longleftrightarrow> nv_deleted v"
  by (auto simp: nv_flags nv_mark_deleted_def nv_mark_migration_def bit_or_iff flag_bits)

lemma replace_leaf_runs:
  assumes "mleaves h a = Some l" and "mleaves h b = Some m" and "a \<noteq> b" and "linked_leaf a l h"
    and "b \<noteq> lf_next l" and "b \<noteq> lf_prev l" and "lf_prev m = lf_prev l" and "lf_next m = lf_next l"
    and "lf_parent m = p" and "inners h p = Some n" and "i < length (in_child n)"
    and "nv_locked (lf_version l)" and "nv_locked (lf_version m)"
  shows "\<exists>h' x. replace_leaf a b p i h = Inr (p, h') \<and>
    mleaves h' b = Some (m\<lparr>lf_version := nv_unlock (lf_version m)\<rparr>) \<and>
    mleaves h' a = Some (l\<lparr>lf_next := x, lf_version := nv_unlock (nv_mark_deleted (lf_version l))\<rparr>) \<and>
    inners h' = (inners h)(p \<mapsto> n\<lparr>in_child := (in_child n)[i := b]\<rparr>) \<and>
    (lf_next l \<noteq> 0 \<longrightarrow> mleaves h' (lf_next l) = map_option (\<lambda>r. r\<lparr>lf_prev := b\<rparr>) (mleaves h (lf_next l))) \<and>
    (lf_prev l \<noteq> 0 \<longrightarrow> mleaves h' (lf_prev l) = map_option (\<lambda>r. r\<lparr>lf_next := b\<rparr>) (mleaves h (lf_prev l))) \<and>
    (\<forall>c. c \<notin> {a, b, lf_next l, lf_prev l} \<longrightarrow> mleaves h' c = mleaves h c) \<and>
    bags h' = bags h \<and> limbo h' = limbo h @ (if ksuf l \<noteq> 0 then [ksuf l] else []) @ [a]"
proof -
  define h1 where "h1 = h\<lparr>inners := (inners h)(p \<mapsto> n\<lparr>in_child := (in_child n)[i := b]\<rparr>)\<rparr>"
  have assign: "assign_copy p i b h = Inr h1" unfolding h1_def by (rule assign_copy_runs [OF assms(2,9,10,11)])
  have 1: "mleaves h1 = mleaves h" "bags h1 = bags h" "limbo h1 = limbo h"
    "inners h1 = (inners h)(p \<mapsto> n\<lparr>in_child := (in_child n)[i := b]\<rparr>)" by (simp_all add: h1_def)
  have at1: "mleaves h1 a = Some l" "mleaves h1 b = Some m" using assms(1,2) by (simp_all add: 1)
  have "linked_leaf a l h1" using assms(4) by (simp add: linked_leaf_def 1)
  from change_link_runs [OF at1 assms(3) this assms(5,6,7), unfolded 1] obtain h2 x where
    change: "change_link a b h1 = Inr h2" and same: "same_but_leaves h1 h2"
    and at2: "mleaves h2 b = Some (m\<lparr>lf_next := lf_next l\<rparr>)" "mleaves h2 a = Some (l\<lparr>lf_next := x\<rparr>)"
    and nx: "lf_next l \<noteq> 0 \<Longrightarrow> mleaves h2 (lf_next l) = map_option (\<lambda>r. r\<lparr>lf_prev := b\<rparr>) (mleaves h (lf_next l))"
    and pv: "lf_prev l \<noteq> 0 \<Longrightarrow> mleaves h2 (lf_prev l) = map_option (\<lambda>r. r\<lparr>lf_next := b\<rparr>) (mleaves h (lf_prev l))"
    and rest: "\<And>c. c \<notin> {a, b, lf_next l, lf_prev l} \<Longrightarrow> mleaves h2 c = mleaves h c"
    by blast
  have m: "m\<lparr>lf_next := lf_next l\<rparr> = m" using assms(8) by (cases m) simp
  define l3 where "l3 = l\<lparr>lf_next := x, lf_version := nv_mark_deleted (lf_version l)\<rparr>"
  define l4 where "l4 = l\<lparr>lf_next := x, lf_version := nv_unlock (nv_mark_deleted (lf_version l))\<rparr>"
  define m4 where "m4 = m\<lparr>lf_version := nv_unlock (lf_version m)\<rparr>"
  define h4 where "h4 = h2\<lparr>mleaves := (mleaves h2)(a \<mapsto> l3), limbo := limbo h2 @ (if ksuf l \<noteq> 0 then [ksuf l] else []) @ [a]\<rparr>"
  define h5 where "h5 = h4\<lparr>mleaves := (mleaves h4)(a \<mapsto> l4)\<rparr>"
  define h6 where "h6 = h5\<lparr>mleaves := (mleaves h5)(b \<mapsto> m4)\<rparr>"
  have "set_node_version nv_mark_deleted a h2 = Inr (h2\<lparr>mleaves := (mleaves h2)(a \<mapsto> l3)\<rparr>)"
    using at2(2) by (simp add: version_simps(2) l3_def)
  moreover have "leaf_deallocate_rcu a (h2\<lparr>mleaves := (mleaves h2)(a \<mapsto> l3)\<rparr>) = Inr h4"
    by (simp add: leaf_deallocate_rcu_def load_simps h4_def l3_def)
  moreover have "unlock_if_locked a h4 = Inr h5"
    using assms(12) by (simp add: unlock_if_locked_def node_unlock_def version_simps(1,2) [where l = l3] h5_def h4_def
        nv_marks_keep_lock l3_def l4_def)
  moreover have "mleaves h5 b = Some m" using at2(1) m assms(3) by (simp add: h5_def h4_def)
  then have "unlock_if_locked b h5 = Inr h6"
    using assms(13) by (simp add: unlock_if_locked_def node_unlock_def version_simps(1,2) [where l = m] h6_def m4_def)
  ultimately have "replace_leaf a b p i h = Inr (p, h6)" using assign change by (simp add: replace_leaf_def)
  moreover have "mleaves h6 b = Some m4" "mleaves h6 a = Some l4" "bags h6 = bags h" "inners h6 = inners h1"
    "limbo h6 = limbo h @ (if ksuf l \<noteq> 0 then [ksuf l] else []) @ [a]"
    using same assms(3) by (simp_all add: h6_def h5_def h4_def same_but_leaves_def 1)
  moreover have "mleaves h6 c = mleaves h2 c" if "c \<notin> {a, b}" for c using that by (simp add: h6_def h5_def h4_def)
  moreover have "lf_next l \<noteq> 0 \<Longrightarrow> lf_next l \<notin> {a, b}" "lf_prev l \<noteq> 0 \<Longrightarrow> lf_prev l \<notin> {a, b}"
    using assms(4-6) by (auto simp: linked_leaf_def)
  ultimately show ?thesis
    using nx pv rest by (intro exI [of _ h6] exI [of _ x]) (simp add: 1 l4_def m4_def)
qed

text \<open>What is left of a leaf in its copy: everything but the tier and the bag behind the fixed part.\<close>

definition moved_leaf :: "node_mem_type \<Rightarrow> nat \<Rightarrow> mass_leaf \<Rightarrow> mass_leaf" where
  "moved_leaf t used l =
     l\<lparr>iksuf := inner_bag (leaf_alloc_size used), lf_meta := (lf_meta l)\<lparr>metadata := (metadata (lf_meta l))\<lparr>md_type := t\<rparr>\<rparr>\<rparr>"

lemma moved_leaf_simps [simp]:
  "lf_next (moved_leaf t used l) = lf_next l" "lf_prev (moved_leaf t used l) = lf_prev l" "lf_parent (moved_leaf t used l) = lf_parent l"
  "lf_version (moved_leaf t used l) = lf_version l" "ksuf (moved_leaf t used l) = ksuf l"
  "extrasize64 (moved_leaf t used l) = extrasize64 l" "iksuf (moved_leaf t used l) = inner_bag (leaf_alloc_size used)"
  by (simp_all add: moved_leaf_def)

lemma leaf_migration_starts:
  assumes "movable_leaf a t l n i h" and "spare_node b h"
    and "ksuf_used_capacity l h = Inr used" and "mass_ndebug h"
  shows "\<exists>h1. masstree_leaf_migration a par t h = replace_leaf a b (lf_parent l) i h1 \<and>
    mleaves h1 = (mleaves h)(b \<mapsto> moved_leaf t used (l\<lparr>lf_version := lf_version l OR lock_bit\<rparr>),
      a \<mapsto> l\<lparr>lf_version := nv_mark_migration (lf_version l OR lock_bit)\<rparr>) \<and>
    inners h1 = (inners h)(lf_parent l \<mapsto> n\<lparr>in_version := in_version n OR lock_bit\<rparr>) \<and>
    bags h1 = bags h \<and> limbo h1 = limbo h"
proof -
  define p where "p = lf_parent l"
  have a: "a \<noteq> 0" "mleaves h a = Some l" "clean (lf_version l)" "md_type (metadata (lf_meta l)) \<noteq> t"
    and p: "p \<noteq> 0" "mleaves h p = None" "inners h p = Some n" "\<not> nv_deleted (in_version n)" "\<not> nv_locked (in_version n)"
    and i: "posi_in_parent (lf_ikey0 l ! 0) a n = Inr (Some i)"
    using assms(1) by (simp_all add: movable_leaf_def p_def)
  have b: "mleaves h b = None" "a \<noteq> b" "b \<noteq> a" "b \<noteq> p" "p \<noteq> b" "p \<noteq> a" "a \<noteq> p"
    using assms(2) a p by (auto simp: spare_node_def)
  note fl = a(3) [unfolded clean_def]
  from leaf_alloc_runs [OF assms(4,2)] obtain m h1 where
    alloc: "make_leaf_with_cxl_policy used (phantom_epoch l) (ucast (md_depth (metadata (lf_meta l)))) t
      (access_time (lf_meta l)) True h = Inr (b, h1)" and m: "iksuf m = inner_bag (leaf_alloc_size used)"
    and h1: "mleaves h1 = (mleaves h)(b \<mapsto> m)" "inners h1 = inners h" "bags h1 = bags h" "limbo h1 = limbo h"
    by blast
  define l2 where "l2 = moved_leaf t used (l\<lparr>lf_version := lf_version l OR lock_bit\<rparr>)"
  define l3 where "l3 = l\<lparr>lf_version := nv_mark_migration (lf_version l OR lock_bit)\<rparr>"
  define n3 where "n3 = n\<lparr>in_version := in_version n OR lock_bit\<rparr>"
  define h2 where "h2 = h1\<lparr>mleaves := (mleaves h)(b \<mapsto> l2, a \<mapsto> l3)\<rparr>"
  define h3 where "h3 = h2\<lparr>inners := (inners h)(p \<mapsto> n3)\<rparr>"
  have copy: "copy_leaf a b t h1 = Inr h2"
    using copy_leaf_runs [of h1 a l b m _ t] a(2) b(2,3) fl m by (simp add: h1 h2_def l2_def l3_def moved_leaf_def)
  have parent: "locked_parent a h2 = Inr (p, h3)"
    using p b by (simp add: locked_parent_def h2_def l3_def parent_simps(1) p_def h3_def n3_def lock_simps(2) h1)
  have h3: "mleaves h3 = (mleaves h)(b \<mapsto> l2, a \<mapsto> l3)" "inners h3 = (inners h)(p \<mapsto> n3)" "bags h3 = bags h" "limbo h3 = limbo h"
    by (simp_all add: h3_def h2_def h1)
  have n3: "in_child n3 = in_child n" "nkeys n3 = nkeys n" "in_ikey0 n3 = in_ikey0 n" "nv_deleted (in_version n3) = nv_deleted (in_version n)"
    by (simp_all add: n3_def nv_marks_keep_lock)
  then have "posi_in_parent k a n3 = posi_in_parent k a n" for k unfolding posi_in_parent_def by (simp only:)
  then have "masstree_leaf_migration a par t h = replace_leaf a b p i h3"
    using a fl p(1,4) i(1) alloc copy parent assms(3) n3(4) h3(2)
    by (simp add: masstree_leaf_migration_def Let_def load_simps)
  then show ?thesis using h3 unfolding p_def l2_def l3_def n3_def by blast
qed

lemma leaf_migration_result:
  assumes "movable_leaf a t l n i h" and "linked_leaf a l h" and "spare_node b h"
    and "ksuf_used_capacity l h = Inr used" and "mass_ndebug h"
    and "b \<noteq> lf_next l" and "b \<noteq> lf_prev l"
  shows "\<exists>h' l'. masstree_leaf_migration a par t h = Inr (lf_parent l, h') \<and>
    mleaves h' b = Some (moved_leaf t used l) \<and> mleaves h' a = Some l' \<and>
    lf_version l' = retired (lf_version l) \<and>
    inners h' = (inners h)(lf_parent l \<mapsto> n\<lparr>in_version := in_version n OR lock_bit, in_child := (in_child n)[i := b]\<rparr>) \<and>
    (lf_next l \<noteq> 0 \<longrightarrow> mleaves h' (lf_next l) = map_option (\<lambda>r. r\<lparr>lf_prev := b\<rparr>) (mleaves h (lf_next l))) \<and>
    (lf_prev l \<noteq> 0 \<longrightarrow> mleaves h' (lf_prev l) = map_option (\<lambda>r. r\<lparr>lf_next := b\<rparr>) (mleaves h (lf_prev l))) \<and>
    (\<forall>c. c \<notin> {a, b, lf_next l, lf_prev l} \<longrightarrow> mleaves h' c = mleaves h c) \<and>
    bags h' = bags h \<and> limbo h' = limbo h @ (if ksuf l \<noteq> 0 then [ksuf l] else []) @ [a]"
proof -
  define l2 where "l2 = moved_leaf t used (l\<lparr>lf_version := lf_version l OR lock_bit\<rparr>)"
  define l3 where "l3 = l\<lparr>lf_version := nv_mark_migration (lf_version l OR lock_bit)\<rparr>"
  define n3 where "n3 = n\<lparr>in_version := in_version n OR lock_bit\<rparr>"
  from leaf_migration_starts [OF assms(1,3-5)] obtain h1
    where prefix: "masstree_leaf_migration a par t h = replace_leaf a b (lf_parent l) i h1"
    and h1: "mleaves h1 = (mleaves h)(b \<mapsto> l2, a \<mapsto> l3)" "inners h1 = (inners h)(lf_parent l \<mapsto> n3)"
      "bags h1 = bags h" "limbo h1 = limbo h"
    unfolding l2_def l3_def n3_def by blast
  have a: "mleaves h a = Some l" "clean (lf_version l)" "i < length (in_child n)" using assms(1) by (simp_all add: movable_leaf_def)
  have b: "a \<noteq> b" "b \<noteq> a" "mleaves h b = None" using a assms(3) by (auto simp: spare_node_def)
  have 1: "mleaves h1 a = Some l3" "mleaves h1 b = Some l2" "inners h1 (lf_parent l) = Some n3" using b by (simp_all add: h1)
  have links: "lf_next l3 = lf_next l" "lf_prev l3 = lf_prev l" "lf_prev l2 = lf_prev l" "lf_next l2 = lf_next l"
    "ksuf l3 = ksuf l" "lf_parent l2 = lf_parent l" "lf_version l3 = nv_mark_migration (lf_version l OR lock_bit)"
    "lf_version l2 = lf_version l OR lock_bit" "in_child n3 = in_child n"
    by (simp_all add: l3_def l2_def n3_def)
  have "linked_leaf a l3 h1" using assms(2,6,7) b by (auto simp: linked_leaf_def links h1)
  note run = replace_leaf_runs [OF 1(1,2) b(1) this _ _ _ _ links(6) 1(3), unfolded links nv_marks_keep_lock,
      OF assms(6,7) refl refl a(3) nv_marks_keep_lock(1,1), folded retired_def]
  have "l2\<lparr>lf_version := nv_unlock (lf_version l OR lock_bit)\<rparr> = moved_leaf t used l"
    using unlock_clean a(2) unfolding clean_def by (cases l) (simp add: l2_def moved_leaf_def)
  moreover have "n3\<lparr>in_child := (in_child n)[i := b]\<rparr> =
      n\<lparr>in_version := in_version n OR lock_bit, in_child := (in_child n)[i := b]\<rparr>" by (simp add: n3_def)
  moreover have "lf_next l \<noteq> 0 \<Longrightarrow> lf_next l \<notin> {a, b}" "lf_prev l \<noteq> 0 \<Longrightarrow> lf_prev l \<notin> {a, b}"
    using assms(2,6,7) by (auto simp: linked_leaf_def)
  ultimately show ?thesis using run unfolding prefix
    by (elim exE) (rule exI, rule exI, auto simp: h1)
qed

section \<open>An inner node that moves\<close>

text \<open>The heap in which the nodes \<open>cs\<close> have a new parent.\<close>

definition adopt_children :: "u64 \<Rightarrow> u64 list \<Rightarrow> mass_heap \<Rightarrow> mass_heap" where
  "adopt_children p cs h = h\<lparr>
     mleaves := (\<lambda>c. if c \<in> set cs then map_option (\<lambda>l. l\<lparr>lf_parent := p\<rparr>) (mleaves h c) else mleaves h c),
     inners := (\<lambda>c. if c \<in> set cs \<and> mleaves h c = None then map_option (\<lambda>n. n\<lparr>in_parent := p\<rparr>) (inners h c)
       else inners h c)\<rparr>"

lemma set_parents_runs:
  "\<forall>c\<in>set cs. mleaves h c \<noteq> None \<or> inners h c \<noteq> None \<Longrightarrow> set_parents p cs h = Inr (adopt_children p cs h)"
proof (induction cs arbitrary: h)
  case Nil
  have "adopt_children p [] h = h" by (intro mass_heap.equality) (simp_all add: adopt_children_def)
  then show ?case by simp
next
  case (Cons c cs)
  show ?case
  proof (cases "mleaves h c")
    case None
    with Cons.prems obtain n where n: "inners h c = Some n" by auto
    define h1 where "h1 = h\<lparr>inners := (inners h)(c \<mapsto> n\<lparr>in_parent := p\<rparr>)\<rparr>"
    have "set_parents p cs h1 = Inr (adopt_children p cs h1)" using Cons by (intro Cons.IH) (auto simp: h1_def)
    moreover have "adopt_children p cs h1 = adopt_children p (c # cs) h"
      using None n by (intro mass_heap.equality) (auto simp: adopt_children_def h1_def fun_eq_iff)
    ultimately show ?thesis using None n by (simp add: parent_simps h1_def)
  next
    case (Some l)
    define h1 where "h1 = h\<lparr>mleaves := (mleaves h)(c \<mapsto> l\<lparr>lf_parent := p\<rparr>)\<rparr>"
    have "set_parents p cs h1 = Inr (adopt_children p cs h1)" using Cons by (intro Cons.IH) (auto simp: h1_def)
    moreover have "adopt_children p cs h1 = adopt_children p (c # cs) h"
      using Some by (intro mass_heap.equality) (auto simp: adopt_children_def h1_def fun_eq_iff)
    ultimately show ?thesis using Some by (simp add: parent_simps h1_def)
  qed
qed

lemma inner_alloc_runs:
  assumes "mass_ndebug h" and "spare_node b h"
  shows "\<exists>m h1. make_internode_with_cxl_policy hgt d t mig h = Inr (b, h1) \<and>
    mleaves h1 = mleaves h \<and> inners h1 = (inners h)(b \<mapsto> m) \<and> bags h1 = bags h \<and> limbo h1 = limbo h"
proof -
  obtain bs where b: "pool h = b # bs" "b \<noteq> 0" using assms(2) by (auto simp: spare_node_def)
  obtain st ba where "mt_update_usage t d mt_internode_size mig False (h\<lparr>pool := bs\<rparr>) =
      Inr (h\<lparr>pool := bs, mass_strategy_manager := st, mass_worker_base := ba\<rparr>)"
    using usage_runs [of "h\<lparr>pool := bs\<rparr>" t d mt_internode_size mig False] assms(1) by auto
  then show ?thesis
    using b by (intro exI [of _ "blank_internode hgt t d"])
      (simp add: make_internode_with_cxl_policy_def pool_allocate_def Let_def)
qed

definition moved_inner :: "node_mem_type \<Rightarrow> mass_internode \<Rightarrow> mass_internode" where
  "moved_inner t n = n\<lparr>in_meta := (in_meta n)\<lparr>md_type := t\<rparr>\<rparr>"

lemma moved_inner_simps [simp]:
  "in_version (moved_inner t n) = in_version n" "nkeys (moved_inner t n) = nkeys n" "in_child (moved_inner t n) = in_child n"
  "in_ikey0 (moved_inner t n) = in_ikey0 n" "in_parent (moved_inner t n) = in_parent n"
  by (simp_all add: moved_inner_def)

lemma copy_internode_runs:
  assumes "inners h a = Some n" and "mleaves h a = None" and "a \<noteq> b" and "mass_ndebug h" and "spare_node b h"
  shows "\<exists>h1. copy_internode a t h = Inr (b, h1) \<and> mleaves h1 = mleaves h \<and> bags h1 = bags h \<and> limbo h1 = limbo h \<and>
    inners h1 = (inners h)(b \<mapsto> moved_inner t n, a \<mapsto> n\<lparr>in_version := nv_mark_migration (in_version n)\<rparr>)"
proof -
  from inner_alloc_runs [OF assms(4,5)] obtain m h1 where
    alloc: "make_internode_with_cxl_policy (height n) (ucast (md_depth (in_meta n))) t True h = Inr (b, h1)"
    and h1: "mleaves h1 = mleaves h" "inners h1 = (inners h)(b \<mapsto> m)" "bags h1 = bags h" "limbo h1 = limbo h" by blast
  define h2 where "h2 = h1\<lparr>inners := (inners h)(b \<mapsto> moved_inner t n)\<rparr>"
  have "modify_inner b (\<lambda>_. n\<lparr>in_meta := (in_meta n)\<lparr>md_type := t\<rparr>\<rparr>) h1 = Inr h2"
    using load_simps(4) [of h1 b m] by (simp add: h1 h2_def moved_inner_def)
  moreover have "set_node_version nv_mark_migration a h2 =
      Inr (h2\<lparr>inners := (inners h2)(a \<mapsto> n\<lparr>in_version := nv_mark_migration (in_version n)\<rparr>)\<rparr>)"
    using assms(1-3) by (intro version_simps(4)) (simp_all add: h2_def h1)
  ultimately show ?thesis using alloc assms(1) by (simp add: copy_internode_def load_simps h2_def h1)
qed

lemma replace_internode_runs:
  assumes "inners h a = Some n" and "inners h b = Some m" and "a \<noteq> b" and "mleaves h a = None" and "mleaves h b = None"
    and "\<forall>c\<in>set (take (nkeys n + 1) (in_child n)). c \<noteq> a \<and> c \<noteq> b \<and> (mleaves h c \<noteq> None \<or> inners h c \<noteq> None)"
  shows "\<exists>h'. replace_internode a b p h = Inr (p, h') \<and> bags h' = bags h \<and> limbo h' = limbo h @ [a] \<and>
    mleaves h' = mleaves (adopt_children b (take (nkeys n + 1) (in_child n)) h) \<and>
    inners h' = (inners (adopt_children b (take (nkeys n + 1) (in_child n)) h))
      (a \<mapsto> n\<lparr>in_version := nv_unlock (nv_mark_deleted (in_version n))\<rparr>, b \<mapsto> m\<lparr>in_version := nv_unlock (in_version m)\<rparr>)"
proof -
  define cs where "cs = take (nkeys n + 1) (in_child n)"
  define h1 where "h1 = adopt_children b cs h"
  have cs: "a \<notin> set cs" "b \<notin> set cs" using assms(6) by (auto simp: cs_def)
  have 1: "inners h1 a = Some n" "inners h1 b = Some m" "mleaves h1 a = None" "mleaves h1 b = None" "bags h1 = bags h" "limbo h1 = limbo h"
    using assms(1,2,4,5) cs by (simp_all add: h1_def adopt_children_def)
  define n2 where "n2 = n\<lparr>in_version := nv_mark_deleted (in_version n)\<rparr>"
  define n3 where "n3 = n\<lparr>in_version := nv_unlock (nv_mark_deleted (in_version n))\<rparr>"
  define m3 where "m3 = m\<lparr>in_version := nv_unlock (in_version m)\<rparr>"
  define h3 where "h3 = h1\<lparr>inners := (inners h1)(a \<mapsto> n2), limbo := limbo h1 @ [a]\<rparr>"
  define h4 where "h4 = h3\<lparr>inners := (inners h3)(a \<mapsto> n3)\<rparr>"
  define h5 where "h5 = h4\<lparr>inners := (inners h4)(b \<mapsto> m3)\<rparr>"
  have "set_parents b cs h = Inr h1" unfolding h1_def using assms(6) by (intro set_parents_runs) (auto simp: cs_def)
  moreover have "set_node_version nv_mark_deleted a h1 = Inr (h1\<lparr>inners := (inners h1)(a \<mapsto> n2)\<rparr>)"
    using 1 by (simp add: version_simps(4) n2_def)
  moreover have "internode_deallocate_rcu a (h1\<lparr>inners := (inners h1)(a \<mapsto> n2)\<rparr>) = Inr h3"
    by (simp add: internode_deallocate_rcu_def load_simps h3_def)
  moreover have "node_unlock a h3 = Inr h4"
    using version_simps(4) [of h3 a n2] 1 by (simp add: node_unlock_def h3_def h4_def n2_def n3_def)
  moreover have "node_unlock b h4 = Inr h5"
    using version_simps(4) [of h4 b m] 1 assms(3) by (simp add: node_unlock_def h3_def h4_def h5_def m3_def)
  ultimately have "replace_internode a b p h = Inr (p, h5)"
    using assms(1) by (simp add: replace_internode_def load_simps cs_def)
  then show ?thesis
    by (intro exI [of _ h5]) (simp add: h5_def h4_def h3_def n3_def m3_def h1_def cs_def adopt_children_def)
qed

lemma retired_flags:
  "\<not> nv_is_root (retired v)" "retired v AND dirty_mask = 0" "\<not> nv_locked (retired v)" "\<not> nv_migrating (retired v)"
proof -
  have split: "nv_splitting (nv_mark_deleted x)" for x
    by (simp add: nv_flags nv_mark_deleted_def bit_or_iff flag_bits)
  define y where "y = nv_mark_deleted (nv_mark_migration (v OR lock_bit)) + vsplit_lowbit"
  have r: "retired v = y AND split_unlock_mask" by (simp add: retired_def nv_unlock_def split y_def)
  show "\<not> nv_is_root (retired v)" "\<not> nv_locked (retired v)" "\<not> nv_migrating (retired v)"
    by (simp_all add: r nv_flags bit_and_iff split_unlock_mask_bit)
  show "retired v AND dirty_mask = 0"
    by (rule bit_word_eqI) (auto simp: r bit_and_iff split_unlock_mask_bit dirty_mask_def bit_or_iff flag_bits)
qed

text \<open>An inner node that the migration may move, with the children it has.\<close>

definition inner_children :: "mass_internode \<Rightarrow> u64 set" where
  "inner_children n = set (take (nkeys n + 1) (in_child n))"

definition movable_inner :: "u64 \<Rightarrow> node_mem_type \<Rightarrow> u64 \<Rightarrow> mass_internode \<Rightarrow> mass_heap \<Rightarrow> bool" where
  "movable_inner a t b n h \<longleftrightarrow> inners h a = Some n \<and> mleaves h a = None \<and> clean (in_version n) \<and>
     md_type (in_meta n) \<noteq> t \<and> spare_node b h \<and> mass_ndebug h \<and>
     (\<forall>c\<in>inner_children n. c \<noteq> a \<and> c \<noteq> b \<and> c \<noteq> in_parent n \<and> (mleaves h c \<noteq> None \<or> inners h c \<noteq> None))"

lemma internode_migration_starts:
  assumes "movable_inner a t b n h"
  shows "\<exists>h1 h2. masstree_internode_migration a t True h = move_locked_internode a t h1 \<and>
    copy_internode a t h1 = Inr (b, h2) \<and> mleaves h2 = mleaves h \<and> bags h2 = bags h \<and> limbo h2 = limbo h \<and>
    inners h2 = (inners h)(b \<mapsto> moved_inner t (n\<lparr>in_version := in_version n OR lock_bit\<rparr>),
      a \<mapsto> n\<lparr>in_version := nv_mark_migration (in_version n OR lock_bit)\<rparr>)"
proof -
  define nl where "nl = n\<lparr>in_version := in_version n OR lock_bit\<rparr>"
  define h1 where "h1 = h\<lparr>inners := (inners h)(a \<mapsto> nl)\<rparr>"
  have a: "inners h a = Some n" "mleaves h a = None" "clean (in_version n)" "md_type (in_meta n) \<noteq> t"
    and b: "spare_node b h" "a \<noteq> b" "b \<noteq> a" "mass_ndebug h"
    using assms by (auto simp: movable_inner_def spare_node_def)
  have at1: "inners h1 a = Some nl" "mleaves h1 a = None" "mass_ndebug h1" "spare_node b h1"
    using a b by (auto simp: h1_def spare_node_def)
  have "node_lock a h = Inr h1" using a by (simp add: lock_simps(2) clean_def h1_def nl_def)
  moreover have "\<not> nv_deleted (in_version nl)" "md_type (in_meta nl) \<noteq> t"
    using a by (simp_all add: nl_def nv_marks_keep_lock clean_def)
  ultimately have "masstree_internode_migration a t True h = move_locked_internode a t h1"
    using at1 by (simp add: masstree_internode_migration_def load_simps)
  moreover from copy_internode_runs [OF at1(1,2) b(2) at1(3,4)] obtain h2 where
    "copy_internode a t h1 = Inr (b, h2)" "mleaves h2 = mleaves h1" "bags h2 = bags h1" "limbo h2 = limbo h1"
    "inners h2 = (inners h1)(b \<mapsto> moved_inner t nl, a \<mapsto> nl\<lparr>in_version := nv_mark_migration (in_version nl)\<rparr>)" by blast
  ultimately show ?thesis using b(2,3) by (intro exI [of _ h1] exI [of _ h2]) (simp add: h1_def nl_def fun_upd_twist)
qed

text \<open>The end of the migration, the same for a root and for a child.\<close>

lemma replace_moved_runs:
  assumes "movable_inner a t b n h"
    and "inners h3 a = Some (n\<lparr>in_version := nv_mark_migration (in_version n OR lock_bit)\<rparr>)"
    and "inners h3 b = Some (moved_inner t (n\<lparr>in_version := in_version n OR lock_bit\<rparr>))"
    and "mleaves h3 = mleaves h" and "\<forall>c\<in>inner_children n. inners h3 c = inners h c"
  shows "\<exists>h'. replace_internode a b p h3 = Inr (p, h') \<and> inners h' b = Some (moved_inner t n) \<and>
    inners h' a = Some (n\<lparr>in_version := retired (in_version n)\<rparr>) \<and>
    (\<forall>c\<in>inner_children n. node_parent c h' = Inr b) \<and> limbo h' = limbo h3 @ [a] \<and> bags h' = bags h3 \<and>
    (\<forall>c. c \<notin> inner_children n \<union> {a, b} \<longrightarrow> inners h' c = inners h3 c) \<and>
    (\<forall>c. c \<notin> inner_children n \<longrightarrow> mleaves h' c = mleaves h c)"
proof -
  define nl where "nl = n\<lparr>in_version := nv_mark_migration (in_version n OR lock_bit)\<rparr>"
  define m where "m = moved_inner t (n\<lparr>in_version := in_version n OR lock_bit\<rparr>)"
  have 3: "inners h3 a = Some nl" "inners h3 b = Some m" using assms(2,3) by (simp_all add: nl_def m_def)
  have a: "clean (in_version n)" "mleaves h3 a = None" "mleaves h3 b = None" and b: "a \<noteq> b" "b \<noteq> a"
    using assms(1,4) by (auto simp: movable_inner_def spare_node_def)
  have kids: "\<forall>c\<in>inner_children n. c \<noteq> a \<and> c \<noteq> b \<and> (mleaves h3 c \<noteq> None \<or> inners h3 c \<noteq> None)"
    using assms(1,4,5) by (auto simp: movable_inner_def)
  have nl: "nkeys nl = nkeys n" "in_child nl = in_child n" "in_version nl = nv_mark_migration (in_version n OR lock_bit)"
    by (simp_all add: nl_def)
  from replace_internode_runs [OF 3 b(1) a(2,3), unfolded nl, folded inner_children_def, OF kids] obtain h' where
    h': "replace_internode a b p h3 = Inr (p, h')" "limbo h' = limbo h3 @ [a]" "bags h' = bags h3"
    "mleaves h' = mleaves (adopt_children b (take (nkeys n + 1) (in_child n)) h3)"
    "inners h' = (inners (adopt_children b (take (nkeys n + 1) (in_child n)) h3))
      (a \<mapsto> nl\<lparr>in_version := retired (in_version n)\<rparr>, b \<mapsto> m\<lparr>in_version := nv_unlock (in_version m)\<rparr>)"
    unfolding retired_def by blast
  have "m\<lparr>in_version := nv_unlock (in_version m)\<rparr> = moved_inner t n"
    using unlock_clean a(1) unfolding clean_def by (cases n) (simp add: m_def moved_inner_def)
  moreover have "nl\<lparr>in_version := retired (in_version n)\<rparr> = n\<lparr>in_version := retired (in_version n)\<rparr>" by (simp add: nl_def)
  moreover have "\<forall>c\<in>inner_children n. node_parent c h' = Inr b"
    using kids by (auto simp: node_parent_def h' adopt_children_def load_inner_def inner_children_def split: option.splits)
  moreover have "\<forall>c. c \<notin> inner_children n \<longrightarrow> mleaves h' c = mleaves h c"
    "\<forall>c. c \<notin> inner_children n \<union> {a, b} \<longrightarrow> inners h' c = inners h3 c"
    by (auto simp: h' adopt_children_def inner_children_def assms(4))
  ultimately show ?thesis using h' b by simp
qed

lemma root_migration_result:
  assumes "movable_inner a t b n h" and "in_parent n = 0" and "nv_is_root (in_version n)"
  shows "\<exists>h'. masstree_internode_migration a t True h = Inr (0, h') \<and> inners h' b = Some (moved_inner t n) \<and>
    inners h' a = Some (n\<lparr>in_version := retired (in_version n)\<rparr>) \<and> mleaves h' a = None \<and> mleaves h' b = None \<and>
    (\<forall>c\<in>inner_children n. node_parent c h' = Inr b) \<and> limbo h' = limbo h @ [a]"
proof -
  define nl where "nl = n\<lparr>in_version := nv_mark_migration (in_version n OR lock_bit)\<rparr>"
  define m where "m = moved_inner t (n\<lparr>in_version := in_version n OR lock_bit\<rparr>)"
  from internode_migration_starts [OF assms(1)] obtain h1 h2 where
    prefix: "masstree_internode_migration a t True h = move_locked_internode a t h1" and
    copy: "copy_internode a t h1 = Inr (b, h2)" and
    h2: "mleaves h2 = mleaves h" "bags h2 = bags h" "limbo h2 = limbo h" "inners h2 = (inners h)(b \<mapsto> m, a \<mapsto> nl)"
    unfolding nl_def m_def by blast
  have a: "mleaves h a = None" "mleaves h b = None" "a \<noteq> b" "b \<noteq> a" "a \<notin> inner_children n" "b \<notin> inner_children n"
    using assms(1) by (auto simp: movable_inner_def spare_node_def)
  have at2: "inners h2 a = Some nl" "inners h2 b = Some m" "mleaves h2 a = None" "mleaves h2 b = None"
    using a by (simp_all add: h2)
  have par: "locked_parent a h2 = Inr (0, h2)" using at2 assms(2) by (simp add: locked_parent_def parent_simps nl_def)
  have root: "nv_is_root (in_version nl)" "nv_is_root (in_version m)"
    using assms(3) by (simp_all add: nl_def m_def nv_flags nv_mark_migration_def bit_or_iff)
  have "nv_mark_root (in_version m) = in_version m"
    by (rule bit_word_eqI) (use root(2) in \<open>auto simp: nv_mark_root_def nv_flags bit_or_iff flag_bits\<close>)
  then have mroot: "m\<lparr>in_parent := 0, in_version := nv_mark_root (in_version m)\<rparr> = m"
    using assms(2) by (cases n) (simp add: m_def moved_inner_def)
  define h3 where "h3 = h2\<lparr>inners := (inners h2)(b \<mapsto> m)\<rparr>"
  have 3: "inners h3 = (inners h)(b \<mapsto> m, a \<mapsto> nl)" "mleaves h3 = mleaves h" "limbo h3 = limbo h"
    using at2(2) by (simp_all add: h3_def h2 fun_upd_idem)
  have "make_layer_root b h2 = Inr h3"
    using at2 version_simps(4) [of "h2\<lparr>inners := (inners h2)(b \<mapsto> m\<lparr>in_parent := 0\<rparr>)\<rparr>" b "m\<lparr>in_parent := 0\<rparr>"] mroot
    by (simp add: make_layer_root_def parent_simps h3_def)
  then have run: "masstree_internode_migration a t True h = replace_internode a b 0 h3"
    using prefix copy par root at2 by (simp add: move_locked_internode_def version_simps(3) link_new_internode_def)
  have "\<forall>c\<in>inner_children n. inners h3 c = inners h c" using assms(1) by (auto simp: movable_inner_def 3)
  from replace_moved_runs [OF assms(1) _ _ 3(2) this, of 0] show ?thesis
    using a run unfolding nl_def [symmetric] m_def [symmetric] by (auto simp: 3)
qed

lemma child_migration_result:
  assumes "movable_inner a t b n h" and "in_parent n = p" and "p \<noteq> 0" and "p \<noteq> a"
    and "mleaves h p = None" and "inners h p = Some pn" and "\<not> nv_deleted (in_version pn)" and "\<not> nv_locked (in_version pn)"
    and "posi_in_parent (in_ikey0 n ! 0) a pn = Inr (Some i)" and "i < length (in_child pn)"
  shows "\<exists>h'. masstree_internode_migration a t True h = Inr (p, h') \<and> inners h' b = Some (moved_inner t n) \<and>
    inners h' a = Some (n\<lparr>in_version := retired (in_version n)\<rparr>) \<and>
    inners h' p = Some (pn\<lparr>in_version := in_version pn OR lock_bit, in_child := (in_child pn)[i := b]\<rparr>) \<and>
    (\<forall>c\<in>inner_children n. node_parent c h' = Inr b) \<and> limbo h' = limbo h @ [a] \<and> bags h' = bags h \<and>
    (\<forall>c. c \<notin> inner_children n \<union> {a, b, p} \<longrightarrow> inners h' c = inners h c) \<and>
    (\<forall>c. c \<notin> inner_children n \<longrightarrow> mleaves h' c = mleaves h c)"
proof -
  define nl where "nl = n\<lparr>in_version := nv_mark_migration (in_version n OR lock_bit)\<rparr>"
  define m where "m = moved_inner t (n\<lparr>in_version := in_version n OR lock_bit\<rparr>)"
  define pl where "pl = pn\<lparr>in_version := in_version pn OR lock_bit\<rparr>"
  define pc where "pc = pn\<lparr>in_version := in_version pn OR lock_bit, in_child := (in_child pn)[i := b]\<rparr>"
  from internode_migration_starts [OF assms(1)] obtain h1 h2 where
    prefix: "masstree_internode_migration a t True h = move_locked_internode a t h1" and
    copy: "copy_internode a t h1 = Inr (b, h2)" and
    h2: "mleaves h2 = mleaves h" "bags h2 = bags h" "limbo h2 = limbo h" "inners h2 = (inners h)(b \<mapsto> m, a \<mapsto> nl)"
    unfolding nl_def m_def by blast
  have a: "mleaves h a = None" "mleaves h b = None" "a \<noteq> b" "b \<noteq> a" "p \<noteq> b" "b \<noteq> p" "a \<noteq> p" "p \<notin> inner_children n"
    using assms(1,2,4,6) by (auto simp: movable_inner_def spare_node_def)
  define h3 where "h3 = h2\<lparr>inners := (inners h2)(p \<mapsto> pl)\<rparr>"
  define h4 where "h4 = h2\<lparr>inners := (inners h2)(p \<mapsto> pc)\<rparr>"
  have at3: "inners h3 a = Some nl" "inners h3 b = Some m" "inners h3 p = Some pl" "mleaves h3 b = None" "mleaves h3 a = None"
    using a by (simp_all add: h3_def h2)
  have par: "locked_parent a h2 = Inr (p, h3)"
    using a assms(2-8) by (simp add: locked_parent_def parent_simps(3) [where n = nl] lock_simps(2) [where n = pn] h2 h3_def pl_def nl_def)
  have pl: "in_child pl = in_child pn" "nkeys pl = nkeys pn" "in_ikey0 pl = in_ikey0 pn" "nv_deleted (in_version pl) = nv_deleted (in_version pn)"
    by (simp_all add: pl_def nv_marks_keep_lock)
  have "posi_in_parent k a pl = posi_in_parent k a pn" for k unfolding posi_in_parent_def pl(1-3) ..
  moreover have mp: "m\<lparr>in_parent := p\<rparr> = m" using assms(2) by (cases n) (simp add: m_def moved_inner_def)
  have "set_parent p b h3 = Inr h3"
    unfolding parent_simps(4) [OF at3(4,2)] mp using fun_upd_idem [of "inners h3", OF at3(2)] by simp
  then have "assign_copy p i b h3 = Inr h4"
    using assms(10) pl(1) by (simp add: assign_copy_def load_simps at3 h3_def h4_def) (simp add: pl_def pc_def)
  ultimately have "link_new_internode a b p h3 = Inr (True, h4)"
    using assms(3,9) at3 by (simp add: link_new_internode_def load_simps nl_def)
  then have run: "masstree_internode_migration a t True h = replace_internode a b p h4"
    using prefix copy par assms(3,7) at3 pl(4) by (simp add: move_locked_internode_def load_simps)
  have 4: "inners h4 = (inners h)(b \<mapsto> m, a \<mapsto> nl, p \<mapsto> pc)" "mleaves h4 = mleaves h" "limbo h4 = limbo h" "bags h4 = bags h"
    by (simp_all add: h4_def h2)
  have "\<forall>c\<in>inner_children n. inners h4 c = inners h c" using assms(1,2) by (auto simp: movable_inner_def 4)
  from replace_moved_runs [OF assms(1) _ _ 4(2) this, of p] show ?thesis
    using a run unfolding nl_def [symmetric] m_def [symmetric] pc_def [symmetric] by (auto simp: 4)
qed

end
