(* ===== verification/Masstree_Moves.thy ===== *)
theory Masstree_Moves
  imports Masstree_Migration
begin

text \<open>
  What the migration of a node of Masstree does to the tree around it, and what a reader or a search sees
  of it afterwards.
\<close>

section \<open>A small layer\<close>

text \<open>A root at 192 with two leaves at 64 and 256, a root leaf at 320, and room for one node at 128.\<close>

definition sample_strategy :: sidle_strategy where
  "sample_strategy = \<lparr>threshold_manager = \<lparr>local_allocation_layer_threshold = 2, demotion_depth_threshold = 1,
       default_demotion_depth_threshold = 1, upper_watermark = 0.95, lower_watermark = 0.85,
       hot_watermark = 10, original_hot_watermark = 10, hot_watermark_upper_bound = 15,
       cold_watermark = 75, original_cold_watermark = 75, cold_watermark_upper_bound = 85\<rparr>,
     max_local_memory_usage = 4096, cur_local_memory_usage = 0, slow_down_in_load = False\<rparr>"

definition sample_bag :: suffix_bag where
  "sample_bag = (inner_bag 384)\<lparr>bag_size := 34, bag_info := (bag_info (inner_bag 384))[0 := (32, 2)],
     bag_bytes := (bag_bytes (inner_bag 384))[32 := 7, 33 := 8]\<rparr>"

lemma sample_bag_get: "bag_get sample_bag 0 = [7, 8]"
proof -
  have "bag_bytes (inner_bag 384) = replicate 64 0" "length (bag_info (inner_bag 384)) = 15"
    by (simp_all add: inner_bag_def empty_bag_def mt_leaf_size_def mt_width_def)
  then show ?thesis
    by (simp add: bag_get_def sample_bag_def drop_update_swap take_update_swap numeral_2_eq_2)
qed

definition sample_mleaf :: mass_leaf where
  "sample_mleaf = (blank_leaf 384 0 Mem_Local 2 1)\<lparr>iksuf := sample_bag, lf_parent := 192, lf_next := 256\<rparr>"

definition sample_inner :: mass_internode where
  "sample_inner = (blank_internode 1 Mem_Local 1)\<lparr>in_version := root_bit, nkeys := 1,
     in_ikey0 := [5], in_child := [64, 256]\<rparr>"

definition sample_layer :: mass_heap where
  "sample_layer = \<lparr>mleaves = [64 \<mapsto> sample_mleaf,
       256 \<mapsto> (blank_leaf 320 0 Mem_Local 2 1)\<lparr>lf_parent := 192, lf_prev := 64\<rparr>,
       320 \<mapsto> (blank_leaf 320 0 Mem_Local 1 1)\<lparr>lf_version := isleaf_bit OR root_bit\<rparr>],
     inners = [192 \<mapsto> sample_inner], bags = (\<lambda>_. None), limbo = [], pool = [128],
     mass_strategy_manager = sample_strategy, mass_worker_base = initial_worker_base, mass_ndebug = True\<rparr>"

lemma clean_versions:
  "clean isleaf_bit" "clean 0" "clean root_bit" "clean (isleaf_bit OR root_bit)" "\<not> clean lock_bit"
  by (simp_all add: clean_def nv_flags bit_or_iff flag_bits)

lemmas sample_defs = sample_layer_def sample_mleaf_def sample_inner_def blank_leaf_def blank_internode_def
  nv_new_def make_leaf_metadata_def make_node_metadata_def

lemma sample_spare: "spare_node 128 sample_layer"
  by (simp add: spare_node_def sample_layer_def)

lemma sample_posi: "posi_in_parent 0 64 sample_inner = Inr (Some 0)"
  by (simp add: posi_in_parent_def sample_inner_def key_upper_bound.simps byte_at_def)

lemma sample_movable: "movable_leaf 64 Mem_Remote sample_mleaf sample_inner 0 sample_layer"
  using sample_posi clean_versions
  by (simp add: movable_leaf_def sample_layer_def) (simp add: sample_defs mt_width_def nv_flags flag_bits)

lemma sample_linked: "linked_leaf 64 sample_mleaf sample_layer"
  by (simp add: linked_leaf_def sample_layer_def) (simp add: sample_defs is_marked_def)

lemma sample_used: "ksuf_used_capacity sample_mleaf sample_layer = Inr 34"
  by (simp add: ksuf_used_capacity_def sample_defs sample_bag_def mt_leaf_size_def)

lemma sample_links: "128 \<noteq> lf_next sample_mleaf" "128 \<noteq> lf_prev sample_mleaf" "mass_ndebug sample_layer"
  by (simp_all add: sample_defs)

section \<open>Leaves\<close>

text \<open>C14. A leaf that may move is replaced by its copy in the other tier: the slot of the parent and both
  neighbours point to the copy, the parent comes back locked, the original gets a version that marks it as
  deleted and goes into limbo with the bag of suffixes it has, and no other leaf changes.\<close>

theorem leaf_migration_moves_leaf:
  assumes "movable_leaf a t l n i h" and "linked_leaf a l h" and "spare_node b h"
    and "ksuf_used_capacity l h = Inr used" and "mass_ndebug h"
    and "b \<noteq> lf_next l" and "b \<noteq> lf_prev l"
  shows "\<exists>h' l'. masstree_leaf_migration a par t h = Inr (lf_parent l, h') \<and>
    mleaves h' b = Some (moved_leaf t used l) \<and> mleaves h' a = Some l' \<and> lf_version l' = retired (lf_version l) \<and>
    inners h' = (inners h)(lf_parent l \<mapsto> n\<lparr>in_version := in_version n OR lock_bit, in_child := (in_child n)[i := b]\<rparr>) \<and>
    (lf_next l \<noteq> 0 \<longrightarrow> mleaves h' (lf_next l) = map_option (\<lambda>r. r\<lparr>lf_prev := b\<rparr>) (mleaves h (lf_next l))) \<and>
    (lf_prev l \<noteq> 0 \<longrightarrow> mleaves h' (lf_prev l) = map_option (\<lambda>r. r\<lparr>lf_next := b\<rparr>) (mleaves h (lf_prev l))) \<and>
    (\<forall>c. c \<notin> {a, b, lf_next l, lf_prev l} \<longrightarrow> mleaves h' c = mleaves h c) \<and>
    bags h' = bags h \<and> limbo h' = limbo h @ (if ksuf l \<noteq> 0 then [ksuf l] else []) @ [a]"
  by (rule leaf_migration_result [OF assms])

lemma leaf_migration_moves_leaf_witness:
  "\<exists>h'. masstree_leaf_migration 64 192 Mem_Remote sample_layer = Inr (192, h') \<and>
    map_option in_child (inners h' 192) = Some [128, 256] \<and> map_option lf_prev (mleaves h' 256) = Some 128 \<and>
    limbo h' = [64]"
  using leaf_migration_moves_leaf [OF sample_movable sample_linked sample_spare sample_used sample_links(3,1,2), of 192]
  by (auto simp: sample_defs)

text \<open>C21. The copy has lost the suffixes of the keys: a leaf that keeps them in the bag behind it has a
  copy with an empty bag, and a leaf with a bag of its own shares it with the copy until the bag is freed
  with the original, and then reading a suffix from the copy fails.\<close>

theorem leaf_migration_loses_suffixes:
  assumes "movable_leaf a t l n i h" and "linked_leaf a l h" and "spare_node b h"
    and "ksuf_used_capacity l h = Inr used" and "mass_ndebug h"
    and "b \<noteq> lf_next l" and "b \<noteq> lf_prev l"
  shows "\<exists>h' m. masstree_leaf_migration a par t h = Inr (lf_parent l, h') \<and> mleaves h' b = Some m \<and>
    (if ksuf l \<noteq> 0 then ksuf_storage m p h' = ksuf_storage l p h \<and>
       ksuf_storage m p (free_limbo h') = Inl Null_Deref
     else ksuf_storage m p h' = Inr [])"
proof -
  from leaf_migration_result [OF assms] obtain h' where
    "masstree_leaf_migration a par t h = Inr (lf_parent l, h')" "mleaves h' b = Some (moved_leaf t used l)"
    "bags h' = bags h" "limbo h' = limbo h @ (if ksuf l \<noteq> 0 then [ksuf l] else []) @ [a]" by blast
  then show ?thesis
    by (intro exI [of _ h'] exI [of _ "moved_leaf t used l"])
      (auto simp: ksuf_storage_def free_limbo_def inner_bag_def)
qed

lemma leaf_migration_loses_suffixes_witness:
  "ksuf_storage sample_mleaf 0 sample_layer = Inr [7, 8] \<and>
   (\<exists>h' m. masstree_leaf_migration 64 192 Mem_Remote sample_layer = Inr (192, h') \<and> mleaves h' 128 = Some m \<and>
      ksuf_storage m 0 h' = Inr [])"
proof -
  have "ksuf sample_mleaf = 0" "lf_parent sample_mleaf = 192" by (simp_all add: sample_defs)
  moreover have "ksuf_storage sample_mleaf 0 sample_layer = Inr [7, 8]"
    by (simp add: ksuf_storage_def sample_defs mt_leaf_size_def sample_bag_get)
  ultimately show ?thesis
    using leaf_migration_loses_suffixes [OF sample_movable sample_linked sample_spare sample_used sample_links(3,1,2), of 192 0]
    by simp
qed

text \<open>A leaf that is the root of its layer has no parent whose slot could be changed, and the migration
  dereferences the missing parent.\<close>

theorem root_leaf_migration_fails:
  assumes "a \<noteq> 0" and "mleaves h a = Some l" and "clean (lf_version l)" and "nv_is_root (lf_version l)"
    and "lf_parent l = 0" and "md_type (metadata (lf_meta l)) \<noteq> t" and "spare_node b h"
    and "ksuf_used_capacity l h = Inr used" and "mass_ndebug h"
  shows "masstree_leaf_migration a par t h = Inl Null_Deref"
proof -
  from leaf_alloc_runs [OF assms(9,7)] obtain m h1 where
    alloc: "make_leaf_with_cxl_policy used (phantom_epoch l) (ucast (md_depth (metadata (lf_meta l)))) t
      (access_time (lf_meta l)) True h = Inr (b, h1)" "iksuf m = inner_bag (leaf_alloc_size used)" "mleaves h1 = (mleaves h)(b \<mapsto> m)" by blast
  have b: "a \<noteq> b" "b \<noteq> a" using assms(2,7) by (auto simp: spare_node_def)
  have "\<not> nv_locked (lf_version l)" using assms(3) by (simp add: clean_def)
  from copy_leaf_runs [OF _ _ b(1) this alloc(2), of h1 t] obtain h2 where
    "copy_leaf a b t h1 = Inr h2" "mleaves h2 a = Some (l\<lparr>lf_version := nv_mark_migration (lf_version l OR lock_bit)\<rparr>)"
    using assms(2) b by (auto simp: alloc(3))
  moreover from this(2) have "locked_parent a h2 = Inr (0, h2)"
    using assms(5) by (simp add: locked_parent_def parent_simps)
  ultimately show ?thesis
    using assms(1-4,6,8) alloc(1) by (simp add: masstree_leaf_migration_def load_simps Let_def clean_def)
qed

lemma root_leaf_migration_fails_witness:
  "masstree_leaf_migration 320 0 Mem_Remote sample_layer = Inl Null_Deref"
proof -
  define l where "l = (blank_leaf 320 0 Mem_Local 1 1)\<lparr>lf_version := isleaf_bit OR root_bit\<rparr>"
  have "mleaves sample_layer 320 = Some l" by (simp add: sample_layer_def l_def)
  moreover have "clean (lf_version l)" "nv_is_root (lf_version l)" "lf_parent l = 0" "md_type (metadata (lf_meta l)) \<noteq> Mem_Remote"
    using clean_versions(4) by (simp_all add: l_def blank_leaf_def make_leaf_metadata_def make_node_metadata_def nv_flags bit_or_iff flag_bits)
  moreover have "ksuf_used_capacity l sample_layer = Inr 0" by (simp add: ksuf_used_capacity_def l_def blank_leaf_def mt_leaf_size_def)
  ultimately show ?thesis using root_leaf_migration_fails [OF _ _ _ _ _ _ sample_spare _ sample_links(3)] by simp
qed

section \<open>Inner nodes\<close>

text \<open>C33. The child to descend into is the one the separators of an inner node select: with sorted
  separators the binary search counts those that are at most the key.\<close>

theorem key_upper_bound_counts:
  assumes "sorted_wrt (<) (take n ks)" and "n \<le> length ks"
  shows "key_upper_bound ka ks 0 n = length (filter (\<lambda>k. k \<le> ka) (take n ks))"
proof -
  define p where "p = key_upper_bound ka ks 0 n"
  have p: "p \<le> n" "\<forall>i<p. ks ! i \<le> ka" "\<forall>i. p \<le> i \<and> i < n \<longrightarrow> ka < ks ! i"
    using key_upper_bound_finds [OF assms, of 0 n ka] unfolding p_def [symmetric] by force+
  have "{i. i < length (take n ks) \<and> take n ks ! i \<le> ka} = {0..<p}"
    using p assms(2) by (auto simp: not_le) (meson leD not_le)
  then show ?thesis by (simp add: length_filter_conv_card p_def)
qed

lemma key_upper_bound_counts_witness:
  "key_upper_bound 7 [5, 7, 9, 0] 0 3 = 2"
  using key_upper_bound_counts [of 3 "[5, 7, 9, 0]" 7] by (simp add: numeral_3_eq_3)

text \<open>C15. An inner node below another one is replaced by its copy in the other tier: the slot of the parent
  points to the copy, every child has the copy as its parent, the original is marked and goes into limbo,
  and no other node changes.\<close>

theorem inner_migration_moves_node:
  assumes "movable_inner a t b n h" and "in_parent n = p" and "p \<noteq> 0" and "p \<noteq> a"
    and "mleaves h p = None" and "inners h p = Some pn" and "\<not> nv_deleted (in_version pn)" and "\<not> nv_locked (in_version pn)"
    and "posi_in_parent (in_ikey0 n ! 0) a pn = Inr (Some i)" and "i < length (in_child pn)"
  shows "\<exists>h'. masstree_internode_migration a t True h = Inr (p, h') \<and> inners h' b = Some (moved_inner t n) \<and>
    inners h' a = Some (n\<lparr>in_version := retired (in_version n)\<rparr>) \<and>
    inners h' p = Some (pn\<lparr>in_version := in_version pn OR lock_bit, in_child := (in_child pn)[i := b]\<rparr>) \<and>
    (\<forall>c\<in>inner_children n. node_parent c h' = Inr b) \<and> limbo h' = limbo h @ [a] \<and> bags h' = bags h \<and>
    (\<forall>c. c \<notin> inner_children n \<union> {a, b, p} \<longrightarrow> inners h' c = inners h c) \<and>
    (\<forall>c. c \<notin> inner_children n \<longrightarrow> mleaves h' c = mleaves h c)"
  by (rule child_migration_result [OF assms])

text \<open>The layer with one more level: a root at 384 with the inner node at 192 as its one child.\<close>

definition sample_child :: mass_internode where
  "sample_child = sample_inner\<lparr>in_version := 0, in_parent := 384\<rparr>"

definition sample_root :: mass_internode where
  "sample_root = (blank_internode 2 Mem_Local 1)\<lparr>in_version := root_bit, in_child := [192]\<rparr>"

definition sample_deep :: mass_heap where
  "sample_deep = sample_layer\<lparr>inners := [192 \<mapsto> sample_child, 384 \<mapsto> sample_root]\<rparr>"

lemma sample_deep_movable: "movable_inner 192 Mem_Remote 128 sample_child sample_deep"
  using clean_versions
  by (auto simp: movable_inner_def inner_children_def sample_deep_def spare_node_def sample_child_def sample_defs)

lemma inner_migration_moves_node_witness:
  "\<exists>h'. masstree_internode_migration 192 Mem_Remote True sample_deep = Inr (384, h') \<and>
    node_parent 64 h' = Inr 128 \<and> node_parent 256 h' = Inr 128 \<and> map_option in_child (inners h' 384) = Some [128]"
proof -
  have "posi_in_parent (in_ikey0 sample_child ! 0) 192 sample_root = Inr (Some 0)"
    by (simp add: posi_in_parent_def sample_root_def sample_child_def sample_inner_def blank_internode_def
        key_upper_bound.simps byte_at_def)
  moreover have "\<not> nv_deleted (in_version sample_root)" "\<not> nv_locked (in_version sample_root)"
    using clean_versions(3) by (simp_all add: clean_def sample_root_def)
  moreover have "inner_children sample_child = {64, 256}"
    by (simp add: inner_children_def sample_child_def sample_inner_def)
  ultimately show ?thesis
    using inner_migration_moves_node [OF sample_deep_movable, of 384 sample_root 0]
    by (auto simp: sample_deep_def sample_child_def sample_root_def sample_layer_def)
qed

text \<open>C20. Moving the root of a layer reports null, as if nothing had moved, although the copy is the root now.
  The original is no root any more and has no parent, so a search that still starts there, as the table
  does, never finds the root: no number of steps is enough.\<close>

theorem migrated_root_not_found:
  assumes "movable_inner a t b n h" and "in_parent n = 0" and "nv_is_root (in_version n)"
  shows "find_root 1 a h = Inr a \<and> (\<exists>h'. masstree_internode_migration a t True h = Inr (0, h') \<and>
    (\<forall>fuel. find_root fuel a h' = Inl Out_Of_Fuel) \<and> find_root 1 b h' = Inr b)"
proof -
  have a: "mleaves h a = None" "inners h a = Some n" "clean (in_version n)"
    using assms(1) by (auto simp: movable_inner_def)
  have dirty: "in_version n AND dirty_mask = 0"
    using a(3) by (intro bit_word_eqI) (auto simp: clean_def nv_flags dirty_mask_def bit_and_iff bit_or_iff flag_bits)
  from root_migration_result [OF assms] obtain h' where
    run: "masstree_internode_migration a t True h = Inr (0, h')" and b: "inners h' b = Some (moved_inner t n)" "mleaves h' b = None"
    and a': "inners h' a = Some (n\<lparr>in_version := retired (in_version n)\<rparr>)" "mleaves h' a = None" by blast
  have "find_root fuel a h' = Inl Out_Of_Fuel" for fuel
    by (induction fuel) (simp_all add: version_simps(3) [OF a'(2,1)] retired_flags maybe_parent_def parent_simps(3) [OF a'(2,1)] assms(2))
  moreover have "find_root 1 a h = Inr a" using a dirty assms(3) by (simp add: version_simps(3))
  moreover have "find_root 1 b h' = Inr b" using b dirty assms(3) by (simp add: version_simps(3))
  ultimately show ?thesis using run by blast
qed

lemma migrated_root_not_found_witness:
  "\<exists>h'. masstree_internode_migration 192 Mem_Remote True sample_layer = Inr (0, h') \<and>
    (\<forall>fuel. find_root fuel 192 h' = Inl Out_Of_Fuel)"
proof -
  have "movable_inner 192 Mem_Remote 128 sample_inner sample_layer"
    using clean_versions by (auto simp: movable_inner_def inner_children_def spare_node_def sample_defs)
  moreover have "in_parent sample_inner = 0" "nv_is_root (in_version sample_inner)"
    by (simp_all add: sample_defs nv_flags flag_bits)
  ultimately show ?thesis using migrated_root_not_found by blast
qed

section \<open>Versions\<close>

text \<open>C22. A reader that took the version of a node before its migration sees afterwards that the node has
  split, whatever the counters in the version were.\<close>

theorem migration_is_noticed:
  assumes "clean v"
  shows "nv_has_split v (retired v) \<and> nv_has_changed v (retired v)"
proof
  have split: "nv_splitting (nv_mark_deleted x)" for x
    by (simp add: nv_flags nv_mark_deleted_def bit_or_iff flag_bits)
  define x where "x = nv_mark_deleted (nv_mark_migration (v OR lock_bit))"
  have r: "retired v = (x + push_bit 9 1) AND split_unlock_mask"
    unfolding retired_def x_def nv_unlock_def using split by (simp only: if_True vsplit_lowbit_def)
  have "bit x 9 = bit v 9"
    by (simp add: x_def nv_mark_deleted_def nv_mark_migration_def bit_or_iff flag_bits)
  then have "bit (retired v) 9 \<longleftrightarrow> \<not> bit v 9"
    unfolding r bit_and_iff split_unlock_mask_bit by (subst bit_add_exp) simp_all
  then have "push_bit 9 1 \<le> (retired v XOR v) AND NOT migration_bit" by (intro differs_above [of _ 9]) auto
  then show "nv_has_split v (retired v)" by (simp add: nv_has_split_def vsplit_lowbit_def)
  then show "nv_has_changed v (retired v)"
    by (auto simp: nv_has_split_def nv_has_changed_def vsplit_lowbit_def lock_bit_def word_less_nat_alt word_le_nat_alt)
qed

lemma migration_is_noticed_witness:
  "nv_has_split isleaf_bit (retired isleaf_bit) \<and> nv_has_changed isleaf_bit (retired isleaf_bit)"
  by (rule migration_is_noticed [OF clean_versions(1)])

text \<open>A reader that took the version of a node before an insertion sees afterwards that the node has
  changed, and takes the change for a split exactly when the six bits that count insertions were full.\<close>

theorem insertion_is_noticed:
  assumes "clean v"
  shows "let u = nv_unlock (nv_mark_insert (v OR lock_bit))
    in nv_has_changed v u \<and> (nv_has_split v u \<longleftrightarrow> insert_count v = 63)"
proof -
  define x where "x = nv_mark_insert (v OR lock_bit)"
  define u where "u = nv_unlock x"
  have x: "bit x n = bit v n" if "n \<noteq> 0" "n \<noteq> 1" for n
    using that by (simp add: x_def nv_mark_insert_def bit_or_iff flag_bits)
  have "drop_bit 3 x = drop_bit 3 v" by (rule bit_word_eqI) (simp add: bit_drop_bit_eq x)
  then have "unat (drop_bit 3 x) = unat (drop_bit 3 v)" by simp
  then have "unat x div 8 = unat v div 8" by (simp add: drop_bit_eq_div unat_div)
  then have count: "insert_count x = insert_count v" by (simp add: insert_count_def)
  have "\<not> nv_splitting x" using assms by (simp add: nv_flags x clean_def)
  moreover have "x AND inserting_bit = inserting_bit"
    by (rule bit_word_eqI) (auto simp: bit_and_iff x_def nv_mark_insert_def bit_or_iff flag_bits)
  moreover have "push_bit 2 inserting_bit = 8" by (simp add: inserting_bit_def)
  ultimately have u: "u = (x + 8) AND unlock_mask" by (simp add: u_def nv_unlock_def)
  have "bit u 3 \<longleftrightarrow> \<not> bit v 3" 
    using bit_add_exp [of 3 x] by (simp add: u bit_and_iff unlock_mask_bit x)
  then have "push_bit 3 1 \<le> (u XOR v) AND NOT migration_bit" by (intro differs_above [of _ 3]) auto
  then have "nv_has_changed v u" by (simp add: nv_has_changed_def lock_bit_def word_less_nat_alt word_le_nat_alt)
  moreover have "nv_has_split v u" if "insert_count v = 63"
  proof -
    have "bit u 9 \<longleftrightarrow> \<not> bit v 9" using add_eight(1) [of x] that count by (simp add: u bit_and_iff unlock_mask_bit x)
    then have "push_bit 9 1 \<le> (u XOR v) AND NOT migration_bit" by (intro differs_above [of _ 9]) auto
    then show ?thesis by (simp add: nv_has_split_def vsplit_lowbit_def)
  qed
  moreover have "\<not> nv_has_split v u" if "insert_count v \<noteq> 63"
  proof -
    have "bit u n = bit v n" if "9 \<le> n" "n < 32" "n \<noteq> 28" for n
      using that add_eight(2) [of x n] \<open>insert_count v \<noteq> 63\<close> count by (simp add: u bit_and_iff unlock_mask_bit x)
    then have "(u XOR v) AND NOT migration_bit < push_bit 9 1" by (rule same_above) simp_all
    then show ?thesis by (simp add: nv_has_split_def vsplit_lowbit_def word_less_nat_alt word_le_nat_alt)
  qed
  ultimately show ?thesis by (auto simp: u_def x_def Let_def)
qed

lemma insertion_is_noticed_witness:
  "let u = nv_unlock (nv_mark_insert (isleaf_bit OR lock_bit))
   in nv_has_changed isleaf_bit u \<and> \<not> nv_has_split isleaf_bit u"
  using insertion_is_noticed [OF clean_versions(1)] by (simp add: Let_def insert_count_def isleaf_bit_def)

end
