(* ===== verification/Masstree_Placement.thy ===== *)
theory Masstree_Placement
  imports Masstree_Moves
begin

text \<open>
  Where Masstree puts its new nodes: the root of a layer (\<open>make_root\<close> of \<open>masstree_struct.hh\<close>) and the nodes a
  split creates (\<open>masstree_split.hh\<close>), each with the depth that is recorded for it. The lemmas show that nothing
  below a remote node comes into local memory, and that the recorded depths do not follow the growth of
  the tree at its root.
\<close>

section \<open>The root of a layer\<close>

text \<open>The depth that is computed decides the tier; the depth that is recorded is 1.\<close>

definition make_root_leaf :: "nat \<Rightarrow> mass_leaf option \<Rightarrow> mass_heap \<Rightarrow> (u64 \<times> mass_heap) res" where
  "make_root_leaf ksufsize par h =
     (let new_node_type =
        (case par of
           None \<Rightarrow> Mem_Local
         | Some l \<Rightarrow>
             (let m = metadata (lf_meta l) in
              if md_type m \<noteq> Mem_Unknown
              then decide_new_node_position (mass_strategy_manager h) (md_type m) (ucast (md_depth m) + 1)
              else Mem_Local));
        epoch = (case par of None \<Rightarrow> 0 | Some l \<Rightarrow> phantom_epoch l)
      in and_then (make_leaf_with_cxl_policy ksufsize epoch 1 new_node_type 1 False h) (\<lambda>(n, h1).
         and_then (modify_mleaf n (\<lambda>l. l\<lparr>lf_next := 0, lf_prev := 0, lf_ikey0 := (lf_ikey0 l)[0 := 0]\<rparr>) h1) (\<lambda>h2.
         and_then (make_layer_root n h2) (\<lambda>h3. Inr (n, h3)))))"

section \<open>The nodes of a split\<close>

text \<open>The metadata of a node that does not exist, as the default constructor makes it.\<close>

definition no_metadata :: node_metadata where
  "no_metadata = make_node_metadata Mem_Unknown 0"

definition split_depth :: "node_metadata \<Rightarrow> node_metadata \<Rightarrow> u8" where
  "split_depth upper original =
     (if md_type upper \<noteq> Mem_Unknown then ucast (md_depth upper) + 1
      else if md_type original \<noteq> Mem_Unknown then ucast (md_depth original)
      else 1)"

text \<open>The right half of a leaf below \<open>par\<close>.\<close>

definition leaf_split_place :: "sidle_strategy \<Rightarrow> node_metadata \<Rightarrow> node_metadata \<Rightarrow> node_mem_type \<times> u8" where
  "leaf_split_place st par original =
     (let cur_depth = split_depth par original in (decide_new_node_position st (md_type par) cur_depth, cur_depth))"

text \<open>The right half of the inner node \<open>par\<close> below \<open>grandparent\<close>; its tier follows the left half.\<close>

definition inner_split_place :: "sidle_strategy \<Rightarrow> node_metadata \<Rightarrow> node_metadata \<Rightarrow> node_mem_type \<times> u8" where
  "inner_split_place st grandparent par =
     (let cur_depth = split_depth grandparent par in (decide_new_node_position st (md_type par) cur_depth, cur_depth))"

text \<open>The inner node above the two halves: below \<open>p\<close>, or the new root.\<close>

definition new_parent_place :: "sidle_strategy \<Rightarrow> node_metadata option \<Rightarrow> node_mem_type \<times> u8" where
  "new_parent_place st p =
     (case p of
        Some m \<Rightarrow> (decide_new_node_position st (md_type m) (ucast (md_depth m) + 1), ucast (md_depth m) + 1)
      | None \<Rightarrow> (decide_new_node_position st Mem_Unknown 1, 1))"

section \<open>What follows for the tree\<close>

lemma split_stays_remote:
  "md_type par = Mem_Remote \<Longrightarrow> fst (leaf_split_place st par original) = Mem_Remote"
  "md_type par = Mem_Remote \<Longrightarrow> fst (inner_split_place st grandparent par) = Mem_Remote"
  "md_type m = Mem_Remote \<Longrightarrow> fst (new_parent_place st (Some m)) = Mem_Remote"
  by (simp_all add: leaf_split_place_def inner_split_place_def new_parent_place_def Let_def decide_new_node_position_def)

lemma depth_incr: "unat (ucast (d :: 6 word) + 1 :: u8) = unat d + 1"
proof -
  have "unat d < 64" using unsigned_less [of d, where 'a = nat] by simp
  moreover have "unat (ucast d :: u8) = unat d" using calculation by (simp add: unsigned_ucast_eq take_bit_nat_eq_self)
  ultimately show ?thesis by (simp add: unat_word_ariths)
qed

text \<open>A split puts its new nodes one level below the node above them, and into local memory exactly when that node is
  not remote and the thresholds admit the level; so nothing below a remote node comes into local memory.\<close>

theorem split_places_nodes:
  assumes "md_type par \<noteq> Mem_Unknown"
  shows "leaf_split_place st par original = new_parent_place st (Some par) \<and>
    unat (snd (leaf_split_place st par original)) = unat (md_depth par) + 1 \<and>
    (fst (leaf_split_place st par original) = Mem_Local \<longleftrightarrow> md_type par \<noteq> Mem_Remote \<and>
      unat (md_depth par) + 1 \<le> unat (local_allocation_layer_threshold (threshold_manager st)))"
  using assms by (simp add: leaf_split_place_def new_parent_place_def Let_def split_depth_def depth_incr
      decide_new_node_position_def get_allocation_position_def word_le_nat_alt)

lemma split_places_nodes_witness:
  "fst (leaf_split_place sample_strategy (make_node_metadata Mem_Local 1) no_metadata) = Mem_Local \<and>
   fst (leaf_split_place sample_strategy (make_node_metadata Mem_Local 2) no_metadata) \<noteq> Mem_Local"
proof -
  have m: "md_type (make_node_metadata Mem_Local d) = Mem_Local" "unat (md_depth (make_node_metadata Mem_Local 1)) = 1"
    "unat (md_depth (make_node_metadata Mem_Local 2)) = 2" for d by (simp_all add: make_node_metadata_def)
  moreover have "unat (local_allocation_layer_threshold (threshold_manager sample_strategy)) = 2"
    by (simp add: sample_strategy_def)
  ultimately show ?thesis
    using split_places_nodes [of "make_node_metadata Mem_Local 1" sample_strategy no_metadata]
      split_places_nodes [of "make_node_metadata Mem_Local 2" sample_strategy no_metadata] by auto
qed

text \<open>
  When the root of a layer splits, its right half and the new root above both get the depth of the old
  root, and the depth of the left half stays: all three count as the first level.
\<close>

lemma root_split_depths:
  assumes "md_type r \<noteq> Mem_Unknown" and "md_depth r = 1"
  shows "snd (leaf_split_place st no_metadata r) = 1" "snd (inner_split_place st no_metadata r) = 1"
    "snd (new_parent_place st None) = 1"
  using assms by (simp_all add: leaf_split_place_def inner_split_place_def new_parent_place_def Let_def split_depth_def
      no_metadata_def make_node_metadata_def)

text \<open>The leaf of a new layer has the depth 1, however deep the leaf above it lies.\<close>

lemma make_root_leaf_depth:
  assumes "make_root_leaf sz par h = Inr (a, h1)"
  shows "\<exists>l. mleaves h1 a = Some l \<and> md_depth (metadata (lf_meta l)) = 1 \<and> lf_parent l = 0 \<and> nv_is_root (lf_version l)"
proof -
  from assms obtain ty ep h2 h3 where
    alloc: "make_leaf_with_cxl_policy sz ep 1 ty 1 False h = Inr (a, h2)"
    and rest: "modify_mleaf a (\<lambda>l. l\<lparr>lf_next := 0, lf_prev := 0, lf_ikey0 := (lf_ikey0 l)[0 := 0]\<rparr>) h2 = Inr h3"
    "make_layer_root a h3 = Inr h1"
    by (auto simp: make_root_leaf_def Let_def and_then_Inr_iff)
  from alloc have "\<exists>sz. mleaves h2 a = Some (blank_leaf sz ep ty 1 1)"
    by (auto simp: make_leaf_with_cxl_policy_def Let_def and_then_Inr_iff split: if_splits prod.splits)
  then obtain sz' where "mleaves h2 a = Some (blank_leaf sz' ep ty 1 1)" by blast
  then have "mleaves h3 a = Some ((blank_leaf sz' ep ty 1 1)\<lparr>lf_next := 0, lf_prev := 0,
      lf_ikey0 := (lf_ikey0 (blank_leaf sz' ep ty 1 1))[0 := 0]\<rparr>)"
    using rest(1) by (auto simp: modify_mleaf_def load_mleaf_def)
  then show ?thesis
    using rest(2) by (auto simp: make_layer_root_def node_simps blank_leaf_def make_leaf_metadata_def make_node_metadata_def
        nv_flags nv_mark_root_def bit_or_iff flag_bits)
qed

end
