(* ===== verification/Masstree_Workers.thy ===== *)
theory Masstree_Workers
  imports Art_Policy Masstree_Moves
begin

text \<open>
  The workers over Masstree: the functions that \<open>MasstreeKV::init_migration_worker\<close> hands to them
  (\<open>src/kv/masstree.h\<close>), the interpretations of the contracts of the workers on them, and what the demotion
  executor and the trigger do with a layer of Masstree.
\<close>

section \<open>The functions of the tree\<close>

text \<open>
  The traversal walks over the leaves with the scan of the tree, which answers through the parameter
  \<open>scan\<close>, and hands a null parent to the callback.
\<close>

definition masstree_leaf_traverse :: "(mass_heap \<Rightarrow> u64 list res) \<Rightarrow> mass_heap \<Rightarrow> (u64 \<times> u64) list res" where
  "masstree_leaf_traverse scan h = and_then (scan h) (\<lambda>as. Inr (map (\<lambda>a. (0, a)) as))"

text \<open>The workers ask for an old version and a child count for ART only.\<close>

definition masstree_tree_op :: "(mass_heap \<Rightarrow> u64 list res) \<Rightarrow> mass_heap tree_op" where
  "masstree_tree_op scan = \<lparr>traverse_func = masstree_leaf_traverse scan,
     op_leaf_migration = masstree_leaf_migration, op_internode_migration = masstree_internode_migration,
     op_unlock = masstree_unlock, node_traverse_func = masstree_internode_traverse,
     op_get_leaf = masstree_get_leaf, op_is_leaf = masstree_is_leaf, op_type = Tree_Masstree,
     leaf_meta_of = (\<lambda>a h. and_then (load_mleaf a h) (\<lambda>l. Inr (lf_meta l))),
     set_access_time = (\<lambda>a c. modify_mleaf a (\<lambda>l. l\<lparr>lf_meta := (lf_meta l)\<lparr>access_time := c\<rparr>\<rparr>)),
     node_meta_of = (\<lambda>a h. and_then (load_inner a h) (\<lambda>n. Inr (in_meta n))),
     node_parent_of = node_parent,
     node_is_old = (\<lambda>a h. Inl Null_Deref), node_count_of = (\<lambda>a h. Inl Null_Deref),
     get_base = mass_worker_base, put_base = (\<lambda>b h. h\<lparr>mass_worker_base := b\<rparr>),
     get_strategy = mass_strategy_manager, put_strategy = (\<lambda>st h. h\<lparr>mass_strategy_manager := st\<rparr>)\<rparr>"

interpretation mass_world: worker_world "masstree_tree_op scan" for scan
  by unfold_locales (simp_all add: masstree_tree_op_def load_mleaf_def)

lemma masstree_tree_op_simps [simp]:
  "get_base (masstree_tree_op scan) = mass_worker_base" "op_type (masstree_tree_op scan) = Tree_Masstree"
  "op_leaf_migration (masstree_tree_op scan) = masstree_leaf_migration"
  "op_internode_migration (masstree_tree_op scan) = masstree_internode_migration"
  "op_unlock (masstree_tree_op scan) = masstree_unlock"
  "op_is_leaf (masstree_tree_op scan) = masstree_is_leaf" "op_get_leaf (masstree_tree_op scan) = masstree_get_leaf"
  "traverse_func (masstree_tree_op scan) = masstree_leaf_traverse scan"
  "node_traverse_func (masstree_tree_op scan) = masstree_internode_traverse"
  "thresholds_of (masstree_tree_op scan) h = threshold_manager (mass_strategy_manager h)"
  "leaf_meta_of (masstree_tree_op scan) a h = and_then (load_mleaf a h) (\<lambda>l. Inr (lf_meta l))"
  "node_meta_of (masstree_tree_op scan) a h = and_then (load_inner a h) (\<lambda>n. Inr (in_meta n))"
  by (simp_all add: masstree_tree_op_def thresholds_of_def)

section \<open>The invariant of the thresholds\<close>

definition mass_policy_ok :: "mass_heap \<Rightarrow> bool" where
  "mass_policy_ok h \<longleftrightarrow> adjuster_inv (threshold_manager (mass_strategy_manager h))"

named_theorems mass_keeps

lemma mass_policy_updates [simp]:
  "mass_policy_ok (h\<lparr>mleaves := m\<rparr>) = mass_policy_ok h" "mass_policy_ok (h\<lparr>inners := n\<rparr>) = mass_policy_ok h"
  "mass_policy_ok (h\<lparr>limbo := xs\<rparr>) = mass_policy_ok h" "mass_policy_ok (h\<lparr>pool := xs\<rparr>) = mass_policy_ok h"
  by (simp_all add: mass_policy_ok_def)

lemma node_keeps [mass_keeps]:
  "modify_mleaf a f h = Inr h1 \<Longrightarrow> mass_policy_ok h \<longrightarrow> mass_policy_ok h1"
  "modify_inner a g h = Inr h1 \<Longrightarrow> mass_policy_ok h \<longrightarrow> mass_policy_ok h1"
  "leaf_deallocate_rcu a h = Inr h1 \<Longrightarrow> mass_policy_ok h \<longrightarrow> mass_policy_ok h1"
  "internode_deallocate_rcu a h = Inr h1 \<Longrightarrow> mass_policy_ok h \<longrightarrow> mass_policy_ok h1"
  by (auto simp: modify_mleaf_def modify_inner_def leaf_deallocate_rcu_def internode_deallocate_rcu_def and_then_Inr_iff)

lemma node_base_keeps [mass_keeps]:
  "set_node_version v a h = Inr h1 \<Longrightarrow> mass_policy_ok h \<longrightarrow> mass_policy_ok h1"
  "set_parent p a h = Inr h1 \<Longrightarrow> mass_policy_ok h \<longrightarrow> mass_policy_ok h1"
  "set_next x a h = Inr h1 \<Longrightarrow> mass_policy_ok h \<longrightarrow> mass_policy_ok h1"
  "set_prev x a h = Inr h1 \<Longrightarrow> mass_policy_ok h \<longrightarrow> mass_policy_ok h1"
  by (auto simp: set_node_version_def set_parent_def set_next_def set_prev_def dest!: mass_keeps split: if_splits)

lemma node_lock_keeps [mass_keeps]:
  "node_lock a h = Inr h1 \<Longrightarrow> mass_policy_ok h \<longrightarrow> mass_policy_ok h1"
  "node_unlock a h = Inr h1 \<Longrightarrow> mass_policy_ok h \<longrightarrow> mass_policy_ok h1"
  by (auto simp: node_lock_def node_unlock_def and_then_Inr_iff dest!: mass_keeps)

lemma lock_steps_keep [mass_keeps]:
  "unlock_if_locked a h = Inr h1 \<Longrightarrow> mass_policy_ok h \<longrightarrow> mass_policy_ok h1"
  "locked_parent a h = Inr (p, h1) \<Longrightarrow> mass_policy_ok h \<longrightarrow> mass_policy_ok h1"
  "make_layer_root a h = Inr h1 \<Longrightarrow> mass_policy_ok h \<longrightarrow> mass_policy_ok h1"
  "lock_next a h = Inr (p, h1) \<Longrightarrow> mass_policy_ok h \<longrightarrow> mass_policy_ok h1"
  "lock_prev a h = Inr (p, h1) \<Longrightarrow> mass_policy_ok h \<longrightarrow> mass_policy_ok h1"
  "masstree_unlock a h = Inr h1 \<Longrightarrow> mass_policy_ok h \<longrightarrow> mass_policy_ok h1"
  by (auto simp: unlock_if_locked_def locked_parent_def make_layer_root_def lock_next_def lock_prev_def
      masstree_unlock_def Let_def and_then_Inr_iff dest!: mass_keeps split: if_splits)

lemma unlock_all_keeps [mass_keeps]: "unlock_all as h = Inr h1 \<Longrightarrow> mass_policy_ok h \<longrightarrow> mass_policy_ok h1"
  by (induction as arbitrary: h) (auto simp: and_then_Inr_iff dest!: mass_keeps)

lemma set_parents_keeps [mass_keeps]: "set_parents p cs h = Inr h1 \<Longrightarrow> mass_policy_ok h \<longrightarrow> mass_policy_ok h1"
  by (induction cs arbitrary: h) (auto simp: and_then_Inr_iff dest!: mass_keeps)

lemma allocation_keeps [mass_keeps]:
  "mt_update_usage ty d n mig lf h = Inr h1 \<Longrightarrow> mass_policy_ok h \<longrightarrow> mass_policy_ok h1"
  "make_leaf_with_cxl_policy used e d ty tm mig h = Inr (a, h1) \<Longrightarrow> mass_policy_ok h \<longrightarrow> mass_policy_ok h1"
  "make_internode_with_cxl_policy hg d ty mig h = Inr (a, h1) \<Longrightarrow> mass_policy_ok h \<longrightarrow> mass_policy_ok h1"
proof -
  show 1: "mt_update_usage ty d n mig lf h = Inr h1 \<Longrightarrow> mass_policy_ok h \<longrightarrow> mass_policy_ok h1" for n lf h h1
    by (auto simp: mt_update_usage_def and_then_Inr_iff mass_policy_ok_def dest!: update_usage_keeps)
  show "make_leaf_with_cxl_policy used e d ty tm mig h = Inr (a, h1) \<Longrightarrow> mass_policy_ok h \<longrightarrow> mass_policy_ok h1"
    "make_internode_with_cxl_policy hg d ty mig h = Inr (a, h1) \<Longrightarrow> mass_policy_ok h \<longrightarrow> mass_policy_ok h1"
    by (auto simp: make_leaf_with_cxl_policy_def make_internode_with_cxl_policy_def pool_allocate_def Let_def
        and_then_Inr_iff dest!: 1 split: if_splits prod.splits list.splits)
qed

lemma link_keeps [mass_keeps]:
  "assign_copy p i c h = Inr h1 \<Longrightarrow> mass_policy_ok h \<longrightarrow> mass_policy_ok h1"
  "change_link a b h = Inr h1 \<Longrightarrow> mass_policy_ok h \<longrightarrow> mass_policy_ok h1"
  by (auto simp: assign_copy_def change_link_def and_then_Inr_iff dest!: mass_keeps split: if_splits)

lemma copy_keeps [mass_keeps]:
  "copy_leaf a b t h = Inr h1 \<Longrightarrow> mass_policy_ok h \<longrightarrow> mass_policy_ok h1"
  "replace_leaf a b p i h = Inr (r, h1) \<Longrightarrow> mass_policy_ok h \<longrightarrow> mass_policy_ok h1"
  "copy_internode a t h = Inr (b, h1) \<Longrightarrow> mass_policy_ok h \<longrightarrow> mass_policy_ok h1"
  "replace_internode a b p h = Inr (r, h1) \<Longrightarrow> mass_policy_ok h \<longrightarrow> mass_policy_ok h1"
  "link_new_internode a b p h = Inr (ok, h1) \<Longrightarrow> mass_policy_ok h \<longrightarrow> mass_policy_ok h1"
  by (auto simp: copy_leaf_def replace_leaf_def copy_internode_def replace_internode_def link_new_internode_def
      and_then_Inr_iff dest!: mass_keeps split: if_splits option.splits)

lemma mass_leaf_migration_keeps [mass_keeps]:
  "masstree_leaf_migration a par t h = Inr (p, h1) \<Longrightarrow> mass_policy_ok h \<longrightarrow> mass_policy_ok h1"
  by (auto simp: masstree_leaf_migration_def Let_def and_then_Inr_iff dest!: mass_keeps split: if_splits option.splits)

lemma mass_internode_migration_keeps [mass_keeps]:
  "masstree_internode_migration a t new h = Inr (p, h1) \<Longrightarrow> mass_policy_ok h \<longrightarrow> mass_policy_ok h1"
proof -
  have "move_locked_internode a t h = Inr (p, h1) \<Longrightarrow> mass_policy_ok h \<longrightarrow> mass_policy_ok h1" for h
    by (auto simp: move_locked_internode_def and_then_Inr_iff dest!: mass_keeps split: if_splits)
  then show "masstree_internode_migration a t new h = Inr (p, h1) \<Longrightarrow> mass_policy_ok h \<longrightarrow> mass_policy_ok h1"
    by (auto simp: masstree_internode_migration_def and_then_Inr_iff dest!: mass_keeps split: if_splits)
qed

lemma unlock_thresholds: "masstree_unlock a h = Inr h1 \<Longrightarrow> mass_strategy_manager h1 = mass_strategy_manager h"
  by (auto simp: masstree_unlock_def node_unlock_def set_node_version_def modify_mleaf_def modify_inner_def
      and_then_Inr_iff split: if_splits)

interpretation mass_policy: policy_world "masstree_tree_op scan" adjuster_inv for scan
proof
  fix a p t w r w1
  assume "adjuster_inv (thresholds_of (masstree_tree_op scan) w)" "op_leaf_migration (masstree_tree_op scan) a p t w = Inr (r, w1)"
  then show "adjuster_inv (thresholds_of (masstree_tree_op scan) w1)"
    using mass_leaf_migration_keeps [of a p t w r w1] by (simp add: mass_policy_ok_def)
next
  fix a t b w r w1
  assume "adjuster_inv (thresholds_of (masstree_tree_op scan) w)" "op_internode_migration (masstree_tree_op scan) a t b w = Inr (r, w1)"
  then show "adjuster_inv (thresholds_of (masstree_tree_op scan) w1)"
    using mass_internode_migration_keeps [of a t b w r w1] by (simp add: mass_policy_ok_def)
next
  fix a w w1
  assume "op_unlock (masstree_tree_op scan) a w = Inr w1"
  then show "thresholds_of (masstree_tree_op scan) w1 = thresholds_of (masstree_tree_op scan) w"
    by (simp add: unlock_thresholds)
next
  fix a c w w1
  assume "set_access_time (masstree_tree_op scan) a c w = Inr w1"
  then show "thresholds_of (masstree_tree_op scan) w1 = thresholds_of (masstree_tree_op scan) w"
    by (auto simp: masstree_tree_op_def thresholds_of_def modify_mleaf_def and_then_Inr_iff)
qed (rule adjuster_inv_step)

section \<open>Demotion of a leaf\<close>

lemma need_continue_root:
  assumes "inners h p = Some n" and "p \<noteq> 0" and "md_depth (in_meta n) = 1"
  shows "need_continue_migrate (masstree_tree_op scan) p Mem_Remote k h = Inr Stop"
  using assms by (simp add: need_continue_migrate_def load_simps)

text \<open>C19. A leaf below the root of its layer that comes out of the demotion queue is moved to remote memory: its copy
  takes its place in the root and between its neighbours, the root is unlocked again and has changed in the
  one slot only, and no queue has changed.\<close>

theorem demoted_leaf_moves:
  assumes "movable_leaf a Mem_Remote l n i h" and "linked_leaf a l h" and "spare_node b h"
    and "ksuf_used_capacity l h = Inr used" and "mass_ndebug h" and "b \<noteq> lf_next l" and "b \<noteq> lf_prev l"
    and "nv_isleaf (lf_version l)" and "clean (in_version n)" and "md_depth (in_meta n) = 1"
  shows "\<exists>h'. demote_task fuel nd (masstree_tree_op scan) (a, 0) m h = Inr (m, h') \<and>
    mleaves h' b = Some (moved_leaf Mem_Remote used l) \<and>
    inners h' = (inners h)(lf_parent l \<mapsto> n\<lparr>in_child := (in_child n)[i := b]\<rparr>) \<and>
    (lf_next l \<noteq> 0 \<longrightarrow> mleaves h' (lf_next l) = map_option (\<lambda>r. r\<lparr>lf_prev := b\<rparr>) (mleaves h (lf_next l))) \<and>
    (lf_prev l \<noteq> 0 \<longrightarrow> mleaves h' (lf_prev l) = map_option (\<lambda>r. r\<lparr>lf_next := b\<rparr>) (mleaves h (lf_prev l))) \<and>
    (\<forall>c. c \<notin> {a, b, lf_next l, lf_prev l} \<longrightarrow> mleaves h' c = mleaves h c)"
proof -
  let ?p = "lf_parent l"
  define nl where "nl = n\<lparr>in_version := in_version n OR lock_bit, in_child := (in_child n)[i := b]\<rparr>"
  from leaf_migration_result [OF assms(1-7), of 0] obtain h1 where
    run: "masstree_leaf_migration a 0 Mem_Remote h = Inr (?p, h1)" and
    h1: "mleaves h1 b = Some (moved_leaf Mem_Remote used l)" "inners h1 = (inners h)(?p \<mapsto> nl)"
    "lf_next l \<noteq> 0 \<longrightarrow> mleaves h1 (lf_next l) = map_option (\<lambda>r. r\<lparr>lf_prev := b\<rparr>) (mleaves h (lf_next l))"
    "lf_prev l \<noteq> 0 \<longrightarrow> mleaves h1 (lf_prev l) = map_option (\<lambda>r. r\<lparr>lf_next := b\<rparr>) (mleaves h (lf_prev l))"
    "\<forall>c. c \<notin> {a, b, lf_next l, lf_prev l} \<longrightarrow> mleaves h1 c = mleaves h c"
    unfolding nl_def by blast
  have a: "mleaves h a = Some l" "?p \<noteq> 0" "mleaves h ?p = None" "inners h ?p = Some n" "a \<noteq> 0"
    using assms(1) by (simp_all add: movable_leaf_def)
  have "?p \<notin> {a, b, lf_next l, lf_prev l}"
    using a assms(2,3) by (auto simp: linked_leaf_def spare_node_def)
  then have p1: "mleaves h1 ?p = None" "inners h1 ?p = Some nl" using h1(2,5) a by simp_all
  define h2 where "h2 = h1\<lparr>inners := (inners h1)(?p \<mapsto> n\<lparr>in_child := (in_child n)[i := b]\<rparr>)\<rparr>"
  have "nl\<lparr>in_version := nv_unlock (in_version nl)\<rparr> = n\<lparr>in_child := (in_child n)[i := b]\<rparr>"
    using unlock_clean assms(9) unfolding clean_def by (cases n) (simp add: nl_def)
  moreover have "nv_locked (in_version nl)" by (simp add: nl_def nv_marks_keep_lock)
  ultimately have unlock: "masstree_unlock ?p h1 = Inr h2"
    using a(2) p1 by (simp add: masstree_unlock_def load_simps node_unlock_def version_simps(4) [OF p1] h2_def)
  have "need_continue_migrate (masstree_tree_op scan) ?p Mem_Remote (Suc 0) h1 = Inr Stop"
    by (rule need_continue_root [OF p1(2) a(2)]) (simp add: nl_def assms(10))
  moreover have "masstree_is_leaf a h" using a(1,5) assms(8) by (simp add: masstree_is_leaf_def version_simps)
  ultimately have "demote_task fuel nd (masstree_tree_op scan) (a, 0) m h = Inr (m, h2)"
    using run unlock a(2) by (simp add: demote_task_def migrate_leaf_def masstree_get_leaf_def)
  then show ?thesis using h1 by (intro exI [of _ h2]) (simp add: h2_def)
qed

lemma demoted_leaf_moves_witness:
  "\<exists>h'. demote_task 1 False (masstree_tree_op (\<lambda>h. Inr [64, 256])) (64, 0) (\<lambda>_. None) sample_layer = Inr (\<lambda>_. None, h') \<and>
    inners h' 192 = Some (sample_inner\<lparr>in_child := [128, 256]\<rparr>)"
proof -
  have "nv_isleaf (lf_version sample_mleaf)" "clean (in_version sample_inner)" "md_depth (in_meta sample_inner) = 1"
    using clean_versions(3) by (simp_all add: sample_mleaf_def sample_inner_def blank_leaf_def blank_internode_def
        nv_new_def make_node_metadata_def nv_flags flag_bits)
  moreover have "lf_parent sample_mleaf = 192" "in_child sample_inner = [64, 256]"
    by (simp_all add: sample_mleaf_def sample_inner_def)
  ultimately show ?thesis
    using demoted_leaf_moves [OF sample_movable sample_linked sample_spare sample_used sample_links(3,1,2)] by fastforce
qed

section \<open>A queued inner node\<close>

text \<open>C37. The demotion executor looks again at an inner node of Masstree that it takes from the queue: the node
  stays where it is, and the whole state with it, if it lies above the demotion threshold, is the root of its
  layer, or still has a child in local memory; otherwise exactly this node is handed to the migration, which has
  to lock it.\<close>

theorem queued_internode_rechecked:
  assumes "inners h a = Some n" and "mleaves h a = None" and "\<not> nv_isleaf (in_version n)" and "a \<noteq> 0"
    and "\<forall>c\<in>inner_children n. \<exists>b. local_child (masstree_tree_op scan) h c = Inr b"
  shows "if unat (md_depth (in_meta n)) \<le> unat (demotion_depth_threshold (threshold_manager (mass_strategy_manager h))) \<or>
      md_depth (in_meta n) = 1 \<or> (\<exists>c\<in>inner_children n. local_child (masstree_tree_op scan) h c = Inr True)
    then demote_task (Suc fuel) nd (masstree_tree_op scan) (a, 0) m h = Inr (m, h)
    else \<forall>h1. masstree_internode_migration a Mem_Remote True h = Inr (0, h1) \<longrightarrow>
      demote_task (Suc fuel) nd (masstree_tree_op scan) (a, 0) m h = Inr (m, h1)"
proof -
  have "\<not> masstree_is_leaf a h" using assms(1-3) by (simp add: masstree_is_leaf_def version_simps)
  moreover have "node_meta_of (masstree_tree_op scan) a h = Inr (in_meta n)"
    "node_traverse_func (masstree_tree_op scan) a h = Inr (take (nkeys n + 1) (in_child n))"
    using assms(1) by (simp_all add: masstree_internode_traverse_def load_simps)
  ultimately show ?thesis
    using need_continue_remote [of "masstree_tree_op scan" a h, where has_migrated = 0] assms(4,5)
    by (auto simp: demote_task_def inner_children_def)
qed

lemma queued_internode_rechecked_witness:
  "demote_task 1 False (masstree_tree_op (\<lambda>h. Inr [])) (192, 0) (\<lambda>_. None) sample_layer = Inr (\<lambda>_. None, sample_layer)"
proof -
  have "inners sample_layer 192 = Some sample_inner" "mleaves sample_layer 192 = None"
    by (simp_all add: sample_layer_def)
  moreover have "\<not> nv_isleaf (in_version sample_inner)" "md_depth (in_meta sample_inner) = 1"
    by (simp_all add: sample_inner_def blank_internode_def make_node_metadata_def nv_flags flag_bits)
  moreover have "inner_children sample_inner = {64, 256}" by (simp add: inner_children_def sample_inner_def)
  then have "\<forall>c\<in>inner_children sample_inner. \<exists>b. local_child (masstree_tree_op (\<lambda>h. Inr [])) sample_layer c = Inr b"
    by (auto simp: local_child_def masstree_is_leaf_def masstree_get_leaf_def version_simps sample_layer_def load_mleaf_def
        sample_mleaf_def blank_leaf_def nv_new_def nv_flags flag_bits node_version_def)
  ultimately show ?thesis
    using queued_internode_rechecked [of sample_layer 192 sample_inner "\<lambda>h. Inr []" 0 False "\<lambda>_. None"] by simp
qed

section \<open>The trigger\<close>

text \<open>With checks compiled in the trigger never gets past a leaf of Masstree that should be demoted: the
  traversal gives it no parent, and the round ends with the exception of the check.\<close>

theorem checked_masstree_trigger_throws:
  assumes "\<And>b. scan (h\<lparr>mass_worker_base := b\<rparr>) = Inr (a # as)" and "mleaves h a = Some l"
    and "hotness_of hist (access_time (lf_meta l)) = Cold" and "leaf_get_type (lf_meta l) = Mem_Local"
    and "length (next_histogram hist) = 16" and "\<not> is_cooling hist" and "can_trigger (mass_worker_base h)"
  shows "trigger_round False (masstree_tree_op scan) woken False t hist h =
    Inl (Throw ''[trigger_migration_cb] the parent cannot be nullptr'')"
proof -
  define h1 where "h1 = (if woken then h else update_base (masstree_tree_op scan) (\<lambda>b. b\<lparr>is_triggering_migration := True\<rparr>) h)"
  obtain b where b: "h1 = h\<lparr>mass_worker_base := b\<rparr>"
  proof (cases woken)
    case True
    then show ?thesis by (intro that [of "mass_worker_base h"]) (simp add: h1_def)
  next
    case False
    with that show ?thesis by (simp add: h1_def update_base_def masstree_tree_op_def)
  qed
  have "masstree_leaf_traverse scan h1 = Inr ((0, a) # map (\<lambda>a. (0, a)) as)"
    using assms(1) by (simp add: b masstree_leaf_traverse_def)
  moreover obtain n where "update_histogram (access_time (lf_meta l)) hist = Inr (Cold, hist\<lparr>next_histogram := n\<rparr>)"
    using assms(3,5) bucket_less [of "access_time (lf_meta l)"]
    by (simp add: update_histogram_def bump_def bucket_def split: if_splits)
  then have "trigger_migration_cb False (masstree_tree_op scan) 0 a t1 hist h1 =
      Inl (Throw ''[trigger_migration_cb] the parent cannot be nullptr'')" for t1
    using assms(2,4) by (simp add: trigger_migration_cb_def load_simps b Let_def)
  ultimately show ?thesis
    using assms(6,7) by (simp add: trigger_round_def Let_def h1_def [symmetric])
qed

lemma checked_masstree_trigger_throws_witness:
  "trigger_round False (masstree_tree_op (\<lambda>h. Inr [64, 256])) False False new_trigger (new_histogram 16) sample_layer =
    Inl (Throw ''[trigger_migration_cb] the parent cannot be nullptr'')"
proof -
  have "hotness_of (new_histogram 16) 1 = Cold"
    by (simp add: hotness_of_def new_histogram_def default_hot_threshold_def default_cold_threshold_def)
  moreover have "mleaves sample_layer 64 = Some sample_mleaf" "can_trigger (mass_worker_base sample_layer)"
    by (simp_all add: sample_layer_def initial_worker_base_def)
  moreover have "access_time (lf_meta sample_mleaf) = 1" "leaf_get_type (lf_meta sample_mleaf) = Mem_Local"
    by (simp_all add: sample_mleaf_def blank_leaf_def make_leaf_metadata_def make_node_metadata_def leaf_get_type_def)
  moreover have "length (next_histogram (new_histogram 16)) = 16" "\<not> is_cooling (new_histogram 16)"
    by (simp_all add: new_histogram_def)
  ultimately show ?thesis by (intro checked_masstree_trigger_throws) simp_all
qed

end
