(* ===== verification/Masstree_System.thy ===== *)
theory Masstree_System
  imports Masstree_Workers Sidle_System
begin

text \<open>
  The whole system over Masstree: the rounds of the workers and the adjuster, interleaved in any order with
  the operations of the tree. The tree itself appears only in what it does to the state of the policy.
\<close>

section \<open>Steps\<close>

type_synonym mass_system = "sidle_histogram \<times> mass_heap"

text \<open>
  The operations of the tree are known to the policy by what they do to the strategy manager: they account
  for new nodes, and everything else they do leaves it alone. Both may happen at any time and with any
  arguments, so every interleaving of the operations of Masstree with the rounds of the workers is
  among the runs.
\<close>

inductive mass_worker_step :: "(mass_heap \<Rightarrow> u64 list res) \<Rightarrow> nat \<Rightarrow> mass_system \<Rightarrow> mass_system \<Rightarrow> bool" for scan fuel where
  Tree_Update: "mass_strategy_manager h' = mass_strategy_manager h \<Longrightarrow> mass_worker_step scan fuel (hist, h) (hist, h')"
| New_Leaf: "make_leaf_with_cxl_policy used e d ty tm mig h = Inr (a, h') \<Longrightarrow>
    mass_worker_step scan fuel (hist, h) (hist, h')"
| New_Inner: "make_internode_with_cxl_policy hg d ty mig h = Inr (a, h') \<Longrightarrow>
    mass_worker_step scan fuel (hist, h) (hist, h')"
| Mass_Trigger: "trigger_round (mass_ndebug h) (masstree_tree_op scan) woken cooled t hist h = Inr (t', hist', h') \<Longrightarrow>
    mass_worker_step scan fuel (hist, h) (hist', h')"
| Mass_Promote: "promotion_round tasks fuel (mass_ndebug h) (masstree_tree_op scan) h = Inr h' \<Longrightarrow>
    mass_worker_step scan fuel (hist, h) (hist, h')"
| Mass_Demote: "demotion_round tasks fuel (mass_ndebug h) (masstree_tree_op scan) h = Inr h' \<Longrightarrow>
    mass_worker_step scan fuel (hist, h) (hist, h')"
| Mass_Cool: "cooler_round (mass_ndebug h) (masstree_tree_op scan) hist h = Inr (hist', h') \<Longrightarrow>
    mass_worker_step scan fuel (hist, h) (hist', h')"

inductive mass_step :: "(mass_heap \<Rightarrow> u64 list res) \<Rightarrow> nat \<Rightarrow> mass_system \<Rightarrow> mass_system \<Rightarrow> bool" for scan fuel where
  Mass_Worker: "mass_worker_step scan fuel s s' \<Longrightarrow> mass_step scan fuel s s'"
| Mass_Adjust: "(\<forall>k s. (mass_worker_step scan fuel)\<^sup>*\<^sup>* s (others k s)) \<Longrightarrow>
    adjuster_round others (masstree_tree_op scan) s = Inr s' \<Longrightarrow> mass_step scan fuel s s'"

section \<open>The policy in every reachable state\<close>

lemma mass_worker_step_policy:
  "mass_worker_step scan fuel s s' \<Longrightarrow> mass_policy_ok (snd s) \<Longrightarrow> mass_policy_ok (snd s')"
proof (induction rule: mass_worker_step.induct)
  case (Mass_Trigger h woken cooled t hist t' hist' h')
  then show ?case using mass_policy.trigger_round_thresholds [OF Mass_Trigger(1)] by (simp add: mass_policy_ok_def)
next
  case (Mass_Promote tasks h h' hist)
  then show ?case using mass_policy.promotion_round_keeps [OF _ Mass_Promote(1)] by (simp add: mass_policy_ok_def)
next
  case (Mass_Demote tasks h h' hist)
  then show ?case using mass_policy.demotion_round_keeps [OF _ Mass_Demote(1)] by (simp add: mass_policy_ok_def)
next
  case (Mass_Cool h hist hist' h')
  then show ?case using mass_policy.cooler_round_thresholds [OF Mass_Cool(1)] by (simp add: mass_policy_ok_def)
qed (auto simp: mass_policy_ok_def [of h for h] dest!: allocation_keeps(2,3) [unfolded mass_policy_ok_def])

lemma mass_worker_steps_policy:
  "(mass_worker_step scan fuel)\<^sup>*\<^sup>* s s' \<Longrightarrow> mass_policy_ok (snd s) \<Longrightarrow> mass_policy_ok (snd s')"
  by (induction rule: rtranclp_induct) (auto dest: mass_worker_step_policy)

lemma mass_others_keep:
  "\<forall>k s. (mass_worker_step scan fuel)\<^sup>*\<^sup>* s (others k s) \<Longrightarrow> others_keep (masstree_tree_op scan) adjuster_inv others"
  unfolding others_keep_def masstree_tree_op_simps mass_policy_ok_def [symmetric]
  by (metis mass_worker_steps_policy snd_conv)

lemma mass_step_policy: "mass_step scan fuel s s' \<Longrightarrow> mass_policy_ok (snd s) \<Longrightarrow> mass_policy_ok (snd s')"
proof (induction rule: mass_step.induct)
  case (Mass_Adjust others s s')
  obtain hist h hist' h' where s: "s = (hist, h)" "s' = (hist', h')" by (metis surj_pair)
  from Mass_Adjust(2) have run: "adjuster_round others (masstree_tree_op scan) (hist, h) = Inr (hist', h')" by (simp add: s)
  from mass_world.adjuster_keeps [OF adjuster_inv_step mass_others_keep [OF Mass_Adjust(1)] _ run] Mass_Adjust(3)
  show ?case by (simp add: s mass_policy_ok_def)
qed (rule mass_worker_step_policy)

lemma mass_reachable_policy: "(mass_step scan fuel)\<^sup>*\<^sup>* s s' \<Longrightarrow> mass_policy_ok (snd s) \<Longrightarrow> mass_policy_ok (snd s')"
  by (induction rule: rtranclp_induct) (auto dest: mass_step_policy)

section \<open>The first thresholds\<close>

lemma masstree_layers:
  assumes "16 \<le> n" and "n < 2 ^ 64"
  shows "\<exists>w. get_masstree_local_allocation_threshold n = Inr w \<and> 1 \<le> w \<and> w < 255"
proof -
  define x where "x = log 2 (real n) / log 2 16"
  define y where "y = log 2 (real ((n + 1) div 2)) / log 2 8 + 1"
  have l: "log 2 (16 :: real) = 4" "log 2 (8 :: real) = 3"
    using log_pow_cancel [of 2 4] log_pow_cancel [of 2 3] by simp_all
  have l64: "log 2 (2 ^ 64 :: real) = 64" by (subst log_pow_cancel) simp_all
  have "log 2 (2 ^ 4 :: real) \<le> log 2 (real n)" using assms(1) by (subst log_le_cancel_iff) simp_all
  moreover have n: "real n < 2 ^ 64" using assms(2) by (metis of_nat_less_numeral_power_cancel_iff)
  then have "log 2 (real n) < log 2 (2 ^ 64)" using assms(1) by (subst log_less_cancel_iff) simp_all
  then have "log 2 (real n) < 64" by (simp only: l64)
  ultimately have x: "1 \<le> x" "x < 16" by (simp_all add: x_def l)
  have "1 \<le> (n + 1) div 2" "(n + 1) div 2 \<le> n" using assms(1) by simp_all
  then have m: "1 \<le> real ((n + 1) div 2)" "real ((n + 1) div 2) < 2 ^ 64"
    using n by (simp_all only: of_nat_le_iff [symmetric, where 'a = real] of_nat_1)
  have "0 \<le> log 2 (real ((n + 1) div 2))" using m(1) by (subst zero_le_log_cancel_iff) simp_all
  moreover have "log 2 (real ((n + 1) div 2)) < log 2 (2 ^ 64)" using m by (subst log_less_cancel_iff) simp_all
  then have "log 2 (real ((n + 1) div 2)) < 64" by (simp only: l64)
  ultimately have y: "1 \<le> y" "y < 23" by (simp_all add: y_def l)
  define k where "k = \<lfloor>(x + y) / 2\<rfloor>"
  have k: "1 \<le> k" "k < 20" using x y unfolding k_def by (simp_all add: le_floor_iff floor_less_iff)
  have "get_masstree_local_allocation_threshold n = Inr (to_u8 k)"
    using assms(1) by (simp add: get_masstree_local_allocation_threshold_def k_def x_def y_def mt_leaf_width_def Let_def)
  moreover have "uint (to_u8 k) = k" using k by (simp add: to_u8_def uint_word_of_int_eq take_bit_int_eq_self)
  then have "1 \<le> to_u8 k \<and> to_u8 k < 255" using k by (simp add: word_le_def word_less_def)
  ultimately show ?thesis by blast
qed

lemma new_strategy_policy:
  assumes "make_sidle_strategy m c False = Inr st" and "0 < m" and "m < 2 ^ 44" and "lb < 85"
  shows "adjuster_inv (set_hotness_watermarks lb (threshold_manager st))"
proof -
  define n where "n = strategy_node_count (m * 1024 * 1024) False"
  have "unat m < 2 ^ 44" "1 \<le> unat m" using assms(2,3) by (simp_all add: word_less_nat_alt)
  then have "16 \<le> n" "n < 2 ^ 64"
    unfolding n_def strategy_node_count_def using unat_mib [OF assms(3)]
    by (simp_all add: mt_leaf_size_def mt_internode_size_def)
  from masstree_layers [OF this] obtain w where w: "get_masstree_local_allocation_threshold n = Inr w" "1 \<le> w" "w < 255" by blast
  with assms(1) have "local_allocation_layer_threshold (threshold_manager st) = w"
    by (auto simp: make_sidle_strategy_def make_sidle_threshold_def n_def Let_def and_then_Inr_iff make_watermarks_def
        set_demotion_depth_threshold_def)
  with w have "layers_ok (set_hotness_watermarks lb (threshold_manager st))"
    by (simp add: layers_ok_def set_hotness_watermarks_def Let_def)
  then show ?thesis by (simp add: adjuster_inv_def set_hotness_ok [OF assms(4)])
qed

section \<open>Properties\<close>

text \<open>
  C7. From the strategy of a new Masstree with a budget between one MiB and \<open>2 ^ 44\<close> MiB and a lower bound for the hot
  watermark below 85 percent (from 85 on the watermarks can pass 100 percent), in
  every state that operations of the tree and rounds of its workers can reach in any order, the watermarks are
  ordered and the strategy places a node of depth 1 for which no parent tier is given in local memory. This is the
  request for the root of the tree; the leaf of a new layer is placed after the leaf above it.
\<close>

theorem masstree_reachable_policy:
  assumes "make_sidle_strategy m c False = Inr st" and "0 < m" and "m < 2 ^ 44" and "lb < 85"
    and "mass_strategy_manager h = st\<lparr>threshold_manager := set_hotness_watermarks lb (threshold_manager st)\<rparr>"
    and "(mass_step scan fuel)\<^sup>*\<^sup>* (hist, h) (hist', h')"
  shows "watermarks_ok (threshold_manager (mass_strategy_manager h')) \<and>
    decide_new_node_position (mass_strategy_manager h') Mem_Unknown 1 = Mem_Local"
proof -
  have "mass_policy_ok h" using new_strategy_policy [OF assms(1-4)] by (simp add: mass_policy_ok_def assms(5))
  then have "mass_policy_ok h'" using mass_reachable_policy [OF assms(6)] by simp
  then show ?thesis using layers_ok_root
    by (auto simp: mass_policy_ok_def adjuster_inv_def decide_new_node_position_def root_is_local_def)
qed

lemma masstree_reachable_policy_witness:
  "\<exists>st h h'. make_sidle_strategy 110 50 False = Inr st \<and>
    mass_strategy_manager h = st\<lparr>threshold_manager := set_hotness_watermarks 10 (threshold_manager st)\<rparr> \<and>
    mass_step (\<lambda>h. Inr []) 3 (new_histogram 16, h) (new_histogram 16, h') \<and> mleaves h' 128 \<noteq> None \<and>
    decide_new_node_position (mass_strategy_manager h') Mem_Unknown 1 = Mem_Local"
proof -
  obtain st where st: "make_sidle_strategy 110 50 False = Inr st"
    by (simp add: make_sidle_strategy_def make_sidle_threshold_def Let_def get_masstree_local_allocation_threshold_def
        strategy_node_count_def mt_leaf_size_def mt_internode_size_def)
  define h where "h = sample_layer\<lparr>mass_strategy_manager :=
    st\<lparr>threshold_manager := set_hotness_watermarks 10 (threshold_manager st)\<rparr>\<rparr>"
  have "spare_node 128 h" "mass_ndebug h" by (simp_all add: h_def spare_node_def sample_layer_def)
  from leaf_alloc_runs [OF this(2,1)] obtain leaf h' where
    alloc: "make_leaf_with_cxl_policy 0 0 2 Mem_Local 1 False h = Inr (128, h')" and "mleaves h' = (mleaves h)(128 \<mapsto> leaf)"
    by blast
  then have step: "mass_step (\<lambda>h. Inr []) 3 (new_histogram 16, h) (new_histogram 16, h')" "mleaves h' 128 \<noteq> None"
    by (auto intro: mass_step.Mass_Worker mass_worker_step.New_Leaf)
  have h: "mass_strategy_manager h = st\<lparr>threshold_manager := set_hotness_watermarks 10 (threshold_manager st)\<rparr>"
    by (simp add: h_def)
  have "(mass_step (\<lambda>h. Inr []) 3)\<^sup>*\<^sup>* (new_histogram 16, h) (new_histogram 16, h')" using step(1) by blast
  from masstree_reachable_policy [OF st _ _ _ h this]
  have "decide_new_node_position (mass_strategy_manager h') Mem_Unknown 1 = Mem_Local" by (simp add: word_less_nat_alt)
  with st h step show ?thesis by blast
qed

end
