(* ===== verification/Masstree_Key.thy ===== *)
theory Masstree_Key
  imports Sidle_Key Sidle_Helper
begin

text \<open>
  Keys as a layer of Masstree sees them (\<open>masstree_key.hh\<close>, \<open>string_slice.hh\<close>): the first eight bytes as an integer, the
  length, and the bytes for the layers below. The lemmas show that comparing an integer and a length is comparing
  strings, and when two keys share a slot.
\<close>

section \<open>Keys\<close>

record mass_key =
  mk_ikey :: u64
  mk_len :: nat
  mk_str :: "u8 list"

definition ikey_size :: nat where "ikey_size = 8"

text \<open>The bytes in memory order, filled up with zeros, read with the first byte most significant.\<close>

definition pad :: "nat \<Rightarrow> u8 list \<Rightarrow> u8 list" where
  "pad n s = take n s @ replicate (n - length s) 0"

definition make_comparable :: "u8 list \<Rightarrow> u64" where
  "make_comparable s = of_nat (be_value (pad ikey_size s))"

definition make_key :: "u8 list \<Rightarrow> mass_key" where
  "make_key s = \<lparr>mk_ikey = make_comparable s, mk_len = length s, mk_str = s\<rparr>"

definition mk_has_suffix :: "mass_key \<Rightarrow> bool" where
  "mk_has_suffix k \<longleftrightarrow> ikey_size < mk_len k"

definition mk_suffix :: "mass_key \<Rightarrow> u8 list" where
  "mk_suffix k = take (mk_len k - ikey_size) (drop ikey_size (mk_str k))"

definition mk_shift :: "mass_key \<Rightarrow> mass_key" where
  "mk_shift k =
     \<lparr>mk_ikey = make_comparable (take (mk_len k - ikey_size) (drop ikey_size (mk_str k))),
      mk_len = mk_len k - ikey_size, mk_str = drop ikey_size (mk_str k)\<rparr>"

definition mk_compare :: "mass_key \<Rightarrow> u64 \<Rightarrow> nat \<Rightarrow> int" where
  "mk_compare k ikey kx =
     (if mk_ikey k = ikey then
        (if ikey_size < mk_len k then (if kx \<le> ikey_size then 1 else 0) else int (mk_len k) - int kx)
      else if mk_ikey k < ikey then - 1 else 1)"

section \<open>The order of keys\<close>

lemma pad_simps [simp]:
  "pad 0 s = []" "pad (Suc n) [] = 0 # pad n []" "pad (Suc n) (x # s) = x # pad n s"
  by (simp_all add: pad_def)

lemma length_pad [simp]: "length (pad n s) = n"
  by (simp add: pad_def)

lemma be_value_str_less: "length xs = length ys \<Longrightarrow> be_value xs < be_value ys \<longleftrightarrow> str_less xs ys"
proof (induction xs ys rule: str_less.induct)
  case (3 x xs y ys)
  have l: "be_value xs < 256 ^ length ys" "be_value ys < 256 ^ length ys"
    using be_value_less [of xs] be_value_less [of ys] 3(2) by simp_all
  have step: "a * 256 ^ length ys + u < b * 256 ^ length ys + v" if "a < b" "u < 256 ^ length ys" for a b u v :: nat
  proof -
    have "(a + 1) * 256 ^ length ys \<le> b * 256 ^ length ys" using that(1) by (intro mult_right_mono) simp_all
    then show ?thesis using that(2) by simp
  qed
  consider "x < y" | "x = y" | "y < x" by (metis linorder_less_linear)
  then show ?case
  proof cases
    case 1
    then show ?thesis using step [of "unat x" "unat y"] l 3(2) by (simp add: word_less_nat_alt)
  next
    case 2
    then show ?thesis using 3 by simp
  next
    case 3
    then show ?thesis using step [of "unat y" "unat x" "be_value ys" "be_value xs"] l 3(1) \<open>length (x # xs) = length (y # ys)\<close>
      by (auto simp: word_less_nat_alt dest: less_asym)
  qed
qed auto

lemma comparable_value: "unat (make_comparable s) = be_value (pad ikey_size s)"
proof -
  have "be_value (pad ikey_size s) < 2 ^ 64" using be_value_less [of "pad ikey_size s"] by (simp add: ikey_size_def)
  then show ?thesis by (simp add: make_comparable_def unat_of_nat take_bit_nat_eq_self)
qed

lemma comparable_less: "make_comparable a < make_comparable b \<longleftrightarrow> str_less (pad ikey_size a) (pad ikey_size b)"
  by (simp add: word_less_nat_alt comparable_value be_value_str_less)

lemma comparable_eq: "make_comparable a = make_comparable b \<longleftrightarrow> pad ikey_size a = pad ikey_size b"
proof
  assume "make_comparable a = make_comparable b"
  then have "be_value (pad ikey_size a) = be_value (pad ikey_size b)" by (metis comparable_value)
  then show "pad ikey_size a = pad ikey_size b"
    using str_less_total [of "pad ikey_size a" "pad ikey_size b"]
      be_value_str_less [of "pad ikey_size a" "pad ikey_size b"] be_value_str_less [of "pad ikey_size b" "pad ikey_size a"]
    by auto
qed (simp add: make_comparable_def)

lemma pad_less: "str_less (pad n a) (pad n b) \<Longrightarrow> str_less a b"
proof (induction n arbitrary: a b)
  case (Suc n)
  then show ?case using Suc.IH [of "tl a" "[]"] by (cases a; cases b) (auto simp: str_less_irrefl)
qed simp

lemma pad_prefix: "pad n a = pad n b \<Longrightarrow> length a \<le> n \<Longrightarrow> length a < length b \<Longrightarrow> str_less a b"
proof (induction n arbitrary: a b)
  case 0
  then show ?case by (cases b) auto
next
  case (Suc n)
  then show ?case by (cases a; cases b) auto
qed

lemma pad_same: "pad n a = pad n b \<Longrightarrow> length a = length b \<Longrightarrow> length a \<le> n \<Longrightarrow> a = b"
proof (induction n arbitrary: a b)
  case (Suc n)
  then show ?case by (cases a; cases b) auto
qed simp

lemma pad_take: "n \<le> length a \<Longrightarrow> n \<le> length b \<Longrightarrow> pad n a = pad n b \<longleftrightarrow> take n a = take n b"
  by (simp add: pad_def)

lemma be_value_zeros: "be_value (replicate n 0) = 0"
  by (induction n) simp_all

text \<open>
  The length that a slot records for a key: a key with a suffix has a code of its own, and another one when the
  slot holds the layer below.
\<close>

definition ksuf_keylenx :: nat where "ksuf_keylenx = 64"
definition layer_keylenx :: nat where "layer_keylenx = 128"

text \<open>
  C25. Comparing a key with the integer and the length code of a slot is comparing the strings: the answer is zero exactly for
  equal strings of at most eight bytes and for longer strings with the same first eight bytes, which then share
  the slot; otherwise its sign is that of the byte order, trailing zero bytes included.
\<close>

theorem slot_comparison_is_byte_order:
  assumes "c = (if length b \<le> 8 then length b else x)" and "x \<in> {64, 128}"
  shows "(mk_compare (make_key a) (make_comparable b) c = 0 \<longleftrightarrow>
      (if length a \<le> 8 then a = b else 8 < length b \<and> take 8 a = take 8 b)) \<and>
    (mk_compare (make_key a) (make_comparable b) c < 0 \<longrightarrow> str_less a b) \<and>
    (0 < mk_compare (make_key a) (make_comparable b) c \<longrightarrow> str_less b a)"
proof -
  let ?c = "mk_compare (make_key a) (make_comparable b) c"
  consider "make_comparable a < make_comparable b" | "make_comparable b < make_comparable a"
    | "make_comparable a = make_comparable b" by (metis linorder_less_linear)
  then show ?thesis
  proof cases
    case 1
    then have "str_less a b" "a \<noteq> b" using pad_less [of ikey_size a b] comparable_less by auto
    moreover have "?c = - 1" using 1 less_imp_neq [OF 1] by (simp add: mk_compare_def make_key_def)
    moreover have "take 8 a \<noteq> take 8 b" if "8 < length a" "8 < length b"
      using 1 that pad_take [of 8 a b] by (auto simp: comparable_less str_less_irrefl ikey_size_def)
    ultimately show ?thesis by simp
  next
    case 2
    then have "str_less b a" "a \<noteq> b" using pad_less [of ikey_size b a] comparable_less by auto
    moreover have "?c = 1" using 2 less_not_sym [OF 2] less_imp_neq [OF 2] by (auto simp: mk_compare_def make_key_def)
    moreover have "take 8 a \<noteq> take 8 b" if "8 < length a" "8 < length b"
      using 2 that pad_take [of 8 a b] by (auto simp: comparable_less str_less_irrefl ikey_size_def)
    ultimately show ?thesis by simp
  next
    case 3
    then have p: "pad 8 a = pad 8 b" by (simp add: comparable_eq ikey_size_def)
    have c: "?c = (if 8 < length a then (if c \<le> 8 then 1 else 0) else int (length a) - int c)"
      using 3 by (simp add: mk_compare_def make_key_def ikey_size_def)
    show ?thesis
    proof (cases "length b \<le> 8")
      case True
      then show ?thesis
        using assms(1) c p pad_prefix [of 8 a b] pad_prefix [of 8 b a] pad_same [of 8 a b] by auto
    next
      case False
      then show ?thesis
        using assms c p pad_prefix [of 8 a b] pad_take [of 8 a b] by auto
    qed
  qed
qed

lemma slot_comparison_is_byte_order_witness:
  "mk_compare (make_key [7]) (make_comparable [7, 0]) 2 < 0 \<and> str_less [7] [7, 0]"
proof -
  have "make_comparable [7] = make_comparable [7, 0]"
    by (simp add: make_comparable_def pad_def ikey_size_def be_value_zeros)
  then have "mk_compare (make_key [7]) (make_comparable [7, 0]) 2 = - 1"
    by (simp add: mk_compare_def make_key_def ikey_size_def)
  then show ?thesis using slot_comparison_is_byte_order [of 2 "[7, 0]" 64 "[7]"] by simp
qed

text \<open>Descending into the layer below is going on with the rest of the string.\<close>

lemma shift_is_rest: "8 < length s \<Longrightarrow> mk_shift (make_key s) = make_key (drop 8 s) \<and> mk_suffix (make_key s) = drop 8 s"
  by (simp add: mk_shift_def make_key_def mk_suffix_def ikey_size_def)

end
