(* ===== verification/Masstree_Leaf.thy ===== *)
theory Masstree_Leaf
  imports Masstree_Node Masstree_Key "HOL-Library.Product_Lexorder"
begin

text \<open>
  What one leaf of Masstree does with its keys: search by the permuter (\<open>ksearch.hh\<close>), assignment of a key
  with its suffix (\<open>masstree_struct.hh\<close>), insertion and removal as far as they stay in the leaf
  (\<open>masstree_insert.hh\<close>, \<open>masstree_remove.hh\<close>, \<open>masstree_split.hh\<close>). The lemmas show that the leaf is a sorted
  list of ranks, where the rank of a key is what its slot records of it.
\<close>

section \<open>Search in a leaf\<close>

definition leaf_size :: "mass_leaf \<Rightarrow> nat" where
  "leaf_size l = kp_size (permutation l)"

definition leaf_compare_key :: "mass_key \<Rightarrow> mass_leaf \<Rightarrow> nat \<Rightarrow> int" where
  "leaf_compare_key k l p = mk_compare k (lf_ikey0 l ! p) (unat (keylenx l ! p))"

function key_lower_bound :: "(nat \<Rightarrow> int) \<Rightarrow> u64 \<Rightarrow> nat \<Rightarrow> nat \<Rightarrow> nat \<times> nat option" where
  "key_lower_bound cmp perm l r =
     (if l < r then
        (let m = (l + r) div 2; mp = kp_at perm m
         in if cmp mp < 0 then key_lower_bound cmp perm l m
            else if cmp mp = 0 then (m, Some mp)
            else key_lower_bound cmp perm (m + 1) r)
      else (l, None))"
  by auto
termination
  by (relation "measure (\<lambda>(cmp, perm, l, r). r - l)") auto

declare key_lower_bound.simps [simp del]

definition leaf_lower :: "mass_key \<Rightarrow> mass_leaf \<Rightarrow> nat \<times> nat option" where
  "leaf_lower k l = key_lower_bound (leaf_compare_key k l) (permutation l) 0 (leaf_size l)"

text \<open>The rank of a key and of a slot: the integer, and the length up to nine.\<close>

definition key_rank :: "mass_key \<Rightarrow> u64 \<times> nat" where
  "key_rank k = (mk_ikey k, min 9 (mk_len k))"

definition slot_rank :: "mass_leaf \<Rightarrow> nat \<Rightarrow> u64 \<times> nat" where
  "slot_rank l p = (lf_ikey0 l ! p, min 9 (unat (keylenx l ! p)))"

definition leaf_entries :: "mass_leaf \<Rightarrow> (u64 \<times> nat) list" where
  "leaf_entries l = map (slot_rank l) (take (leaf_size l) (kp_list mt_width (permutation l)))"

definition leaf_wf :: "mass_leaf \<Rightarrow> bool" where
  "leaf_wf l \<longleftrightarrow> length (lf_ikey0 l) = mt_width \<and> length (keylenx l) = mt_width \<and> length (lv l) = mt_width \<and>
     kp_ok mt_width (permutation l) \<and> sorted_wrt (<) (leaf_entries l)"

lemma compare_pair:
  fixes x y :: u64 and a b :: nat
  defines "c \<equiv> (if x = y then (if 8 < a then (if b \<le> 8 then 1 else 0) else int a - int b) else if x < y then - 1 else 1)"
  shows "c < 0 \<longleftrightarrow> (x, min 9 a) < (y, min 9 b)" "c = 0 \<longleftrightarrow> (x, min 9 a) = (y, min 9 b)"
    "0 < c \<longleftrightarrow> (y, min 9 b) < (x, min 9 a)"
proof -
  consider "x < y" "x \<noteq> y" "\<not> y \<le> x" | "x = y" | "y < x" "x \<noteq> y" "\<not> x \<le> y" by (metis linorder_less_linear not_le)
  then have "(c < 0 \<longleftrightarrow> (x, min 9 a) < (y, min 9 b)) \<and> (c = 0 \<longleftrightarrow> (x, min 9 a) = (y, min 9 b)) \<and>
      (0 < c \<longleftrightarrow> (y, min 9 b) < (x, min 9 a))"
  proof cases
    case 2
    then show ?thesis unfolding c_def by (simp add: min_def)
  qed (simp_all add: c_def less_imp_not_less)
  then show "c < 0 \<longleftrightarrow> (x, min 9 a) < (y, min 9 b)" "c = 0 \<longleftrightarrow> (x, min 9 a) = (y, min 9 b)"
    "0 < c \<longleftrightarrow> (y, min 9 b) < (x, min 9 a)" by blast+
qed

lemma compare_rank:
  "leaf_compare_key k l p < 0 \<longleftrightarrow> key_rank k < slot_rank l p"
  "leaf_compare_key k l p = 0 \<longleftrightarrow> key_rank k = slot_rank l p"
  "0 < leaf_compare_key k l p \<longleftrightarrow> slot_rank l p < key_rank k"
  unfolding leaf_compare_key_def mk_compare_def ikey_size_def key_rank_def slot_rank_def by (rule compare_pair)+

lemma leaf_size_le: "leaf_wf l \<Longrightarrow> leaf_size l \<le> mt_width"
  by (simp add: leaf_wf_def kp_ok_def leaf_size_def)

lemma length_entries: "leaf_wf l \<Longrightarrow> length (leaf_entries l) = leaf_size l"
  using leaf_size_le by (simp add: leaf_entries_def)

lemma nth_entries: "leaf_wf l \<Longrightarrow> i < leaf_size l \<Longrightarrow> leaf_entries l ! i = slot_rank l (kp_at (permutation l) i)"
  using leaf_size_le [of l] by (simp add: leaf_entries_def)

lemma sorted_split_at:
  assumes "sorted_wrt (<) (E :: 'a :: linorder list)" and "i \<le> length E" and "\<And>j. j < i \<Longrightarrow> E ! j < x"
    and "\<And>j. i \<le> j \<Longrightarrow> j < length E \<Longrightarrow> x \<le> E ! j"
  shows "length (filter (\<lambda>e. e < x) E) = i"
proof -
  have "filter (\<lambda>e. e < x) (take i E) = take i E"
    by (rule filter_True) (use assms(3) in \<open>auto simp: in_set_conv_nth\<close>)
  moreover have "filter (\<lambda>e. e < x) (drop i E) = []"
  proof (rule filter_False, rule ballI)
    fix e assume "e \<in> set (drop i E)"
    then obtain j where "j < length E - i" "e = E ! (i + j)" using assms(2) by (auto simp: in_set_conv_nth)
    then show "\<not> e < x" using assms(4) [of "i + j"] by (simp add: not_less)
  qed
  ultimately have "filter (\<lambda>e. e < x) (take i E @ drop i E) = take i E" by (simp only: filter_append append_Nil2)
  then show ?thesis using assms(2) by simp
qed

lemma lower_bound_finds:
  assumes "leaf_wf l" and "key_lower_bound (leaf_compare_key k l) (permutation l) a b = (i, q)" and "a \<le> b" and "b \<le> leaf_size l"
    and "\<And>j. j < a \<Longrightarrow> leaf_entries l ! j < key_rank k"
    and "\<And>j. b \<le> j \<Longrightarrow> j < leaf_size l \<Longrightarrow> key_rank k < leaf_entries l ! j"
  shows "i \<le> leaf_size l \<and> (\<forall>j < i. leaf_entries l ! j < key_rank k) \<and>
    (case q of Some p \<Rightarrow> i < leaf_size l \<and> p = kp_at (permutation l) i \<and> leaf_entries l ! i = key_rank k
     | None \<Rightarrow> \<forall>j. i \<le> j \<longrightarrow> j < leaf_size l \<longrightarrow> key_rank k < leaf_entries l ! j)"
  using assms(2-)
proof (induction "leaf_compare_key k l" "permutation l" a b rule: key_lower_bound.induct)
  case (1 a b)
  show ?case
  proof (cases "a < b")
    case False
    then have "(i, q) = (a, None)" using 1(3) by (simp add: key_lower_bound.simps)
    then show ?thesis using False 1(4-) by auto
  next
    case True
    let ?m = "(a + b) div 2"
    let ?c = "leaf_compare_key k l (kp_at (permutation l) ?m)"
    have m: "a \<le> ?m" "?m < b" using True by simp_all
    then have e: "leaf_entries l ! ?m = slot_rank l (kp_at (permutation l) ?m)" using nth_entries [OF assms(1)] 1(5) by simp
    have sorted: "\<And>j j'. j < j' \<Longrightarrow> j' < leaf_size l \<Longrightarrow> leaf_entries l ! j < leaf_entries l ! j'"
      using assms(1) length_entries [OF assms(1)] by (auto simp: leaf_wf_def sorted_wrt_iff_nth_less)
    consider "?c < 0" | "?c = 0" | "0 < ?c" by linarith
    then show ?thesis
    proof cases
      case 1
      then have "key_rank k < leaf_entries l ! ?m" by (simp add: e compare_rank)
      then have "key_rank k < leaf_entries l ! j" if "?m \<le> j" "j < leaf_size l" for j
        using sorted [of ?m j] that by (cases "j = ?m") (auto dest: less_trans)
      moreover have "key_lower_bound (leaf_compare_key k l) (permutation l) a ?m = (i, q)"
        using "1.prems"(1) True 1 by (simp add: key_lower_bound.simps [of _ _ a b] Let_def)
      moreover have "?m \<le> leaf_size l" using m "1.prems"(3) by simp
      ultimately show ?thesis using "1.hyps"(1) [OF True refl refl 1 _ m(1)] "1.prems"(4) by blast
    next
      case 2
      then have "key_rank k = leaf_entries l ! ?m" by (simp add: e compare_rank)
      moreover have "i = ?m" "q = Some (kp_at (permutation l) ?m)"
        using "1.prems"(1) True 2 by (auto simp: key_lower_bound.simps [of _ _ a b] Let_def)
      ultimately show ?thesis using sorted [of _ ?m] m "1.prems"(3) by auto
    next
      case 3
      then have "leaf_entries l ! ?m < key_rank k" by (simp add: e compare_rank)
      then have "leaf_entries l ! j < key_rank k" if "j < ?m + 1" for j
        using sorted [of j ?m] that m "1.prems"(3) by (cases "j = ?m") (auto dest: less_trans)
      moreover have "key_lower_bound (leaf_compare_key k l) (permutation l) (?m + 1) b = (i, q)"
        using "1.prems"(1) True 3 by (simp add: key_lower_bound.simps [of _ _ a b] Let_def)
      moreover have c: "\<not> ?c < 0" "?c \<noteq> 0" using 3 by simp_all
      moreover have "?m + 1 \<le> b" using m by simp
      ultimately show ?thesis using "1.hyps"(2) [OF True refl refl c] "1.prems"(3,5) by blast
    qed
  qed
qed

text \<open>
  C17. The binary search in a leaf, through the permuter, finds the slot with the rank of the key if there is one, and otherwise
  the number of keys in front of it.
\<close>

theorem leaf_search_finds:
  assumes "leaf_wf l" and "leaf_lower k l = (i, q)"
  shows "i = length (filter (\<lambda>e. e < key_rank k) (leaf_entries l)) \<and>
    (q = None \<longleftrightarrow> key_rank k \<notin> set (leaf_entries l)) \<and>
    (\<forall>p. q = Some p \<longrightarrow> i < leaf_size l \<and> p = kp_at (permutation l) i \<and> slot_rank l p = key_rank k)"
proof -
  have found: "i \<le> leaf_size l" "\<forall>j < i. leaf_entries l ! j < key_rank k"
    "case q of Some p \<Rightarrow> i < leaf_size l \<and> p = kp_at (permutation l) i \<and> leaf_entries l ! i = key_rank k
     | None \<Rightarrow> \<forall>j. i \<le> j \<longrightarrow> j < leaf_size l \<longrightarrow> key_rank k < leaf_entries l ! j"
    using lower_bound_finds [OF assms(1) assms(2) [unfolded leaf_lower_def]] by auto
  have sorted: "sorted_wrt (<) (leaf_entries l)" using assms(1) by (simp add: leaf_wf_def)
  have len: "length (leaf_entries l) = leaf_size l" by (rule length_entries [OF assms(1)])
  have above: "key_rank k \<le> leaf_entries l ! j" if "i \<le> j" "j < leaf_size l" for j
  proof (cases q)
    case None
    then show ?thesis using found(3) that by (simp add: less_imp_le)
  next
    case (Some p)
    then have "leaf_entries l ! i = key_rank k" using found(3) by simp
    then show ?thesis using sorted_wrt_nth_less [OF sorted, of i j] that len by (cases "j = i") simp_all
  qed
  have "length (filter (\<lambda>e. e < key_rank k) (leaf_entries l)) = i"
    by (rule sorted_split_at [OF sorted]) (use found(1,2) above len in auto)
  moreover have "q = None \<longleftrightarrow> key_rank k \<notin> set (leaf_entries l)"
  proof
    assume "q = None"
    then have "leaf_entries l ! j \<noteq> key_rank k" if "j < leaf_size l" for j
    proof (cases "j < i")
      case True
      then show ?thesis using found(2) by (metis less_irrefl)
    next
      case False
      then have "key_rank k < leaf_entries l ! j" using found(3) \<open>q = None\<close> that by simp
      then show ?thesis by auto
    qed
    then show "key_rank k \<notin> set (leaf_entries l)" by (simp add: in_set_conv_nth len)
  next
    assume "key_rank k \<notin> set (leaf_entries l)"
    then show "q = None" using found(3) len by (cases q) (auto simp: in_set_conv_nth)
  qed
  moreover have "slot_rank l p = key_rank k" if "q = Some p" for p
    using found(3) that nth_entries [OF assms(1), of i] by simp
  ultimately show ?thesis using found(3) by auto
qed


section \<open>Assigning a key to a slot\<close>

text \<open>The smallest power of two that is not below a positive number.\<close>

fun bit_length :: "nat \<Rightarrow> nat" where
  "bit_length n = (if n = 0 then 0 else Suc (bit_length (n div 2)))"

declare bit_length.simps [simp del]

definition iceil_log2 :: "nat \<Rightarrow> nat" where
  "iceil_log2 x = 2 ^ (bit_length x - (if x AND (x - 1) = 0 then 1 else 0))"

text \<open>The bag that holds the suffixes of a leaf, and the suffixes that a new bag takes over.\<close>

definition leaf_bag :: "mass_leaf \<Rightarrow> mass_heap \<Rightarrow> suffix_bag res" where
  "leaf_bag l h =
     (if ksuf l \<noteq> 0 then (case bags h (ksuf l) of None \<Rightarrow> Inl Null_Deref | Some b \<Rightarrow> Inr b) else Inr (iksuf l))"

definition ready_slots :: "bool \<Rightarrow> nat \<Rightarrow> mass_leaf \<Rightarrow> nat list" where
  "ready_slots initializing p l =
     filter (\<lambda>mp. mp \<noteq> p \<and> unat (keylenx l ! mp) = ksuf_keylenx)
       (if initializing then [0..<p] else map (kp_at (permutation l)) [0..<leaf_size l])"

fun assign_suffixes :: "bool \<Rightarrow> (nat \<times> u8 list) list \<Rightarrow> suffix_bag \<Rightarrow> suffix_bag res" where
  "assign_suffixes nd [] b = Inr b"
| "assign_suffixes nd ((p, s) # ps) b =
     and_then (bag_assign p s b) (\<lambda>(ok, b1). if ok \<or> nd then assign_suffixes nd ps b1 else Inl Assert_Failed)"

text \<open>The bag of its own if there is one, then the bag behind the leaf; when neither has room a larger bag of its own.\<close>

definition try_ksuf :: "nat \<Rightarrow> u8 list \<Rightarrow> mass_leaf \<Rightarrow> mass_heap \<Rightarrow> (bool \<times> mass_leaf \<times> mass_heap) res" where
  "try_ksuf p s l h =
     (if ksuf l = 0 then Inr (False, l, h)
      else and_then (leaf_bag l h) (\<lambda>b. and_then (bag_assign p s b) (\<lambda>(ok, b1).
        Inr (ok, l, h\<lparr>bags := (bags h)(ksuf l \<mapsto> b1)\<rparr>))))"

definition try_iksuf :: "nat \<Rightarrow> u8 list \<Rightarrow> mass_leaf \<Rightarrow> mass_heap \<Rightarrow> (bool \<times> mass_leaf \<times> mass_heap) res" where
  "try_iksuf p s l h =
     (if extrasize64 l \<le> 0 then Inr (False, l, h)
      else and_then (bag_assign p s (iksuf l)) (\<lambda>(ok, b1). Inr (ok, l\<lparr>iksuf := b1\<rparr>, h)))"

definition grow_ksuf :: "bool \<Rightarrow> bool \<Rightarrow> nat \<Rightarrow> u8 list \<Rightarrow> mass_leaf \<Rightarrow> mass_heap \<Rightarrow> (mass_leaf \<times> mass_heap) res" where
  "grow_ksuf nd initializing p s l h =
     and_then (leaf_bag l h) (\<lambda>b.
     let sufs = map (\<lambda>mp. (mp, bag_get b mp)) (ready_slots initializing p l);
       csz = sum_list (map (length \<circ> snd) sufs);
       sz0 = iceil_log2 (bag_safe_size 16 mt_width (csz + length s));
       sz = (if ksuf l \<noteq> 0 then max sz0 (bag_capacity b) else sz0);
       (ptr, h1) = pool_allocate h
     in if ptr = 0 then Inl Null_Deref
        else and_then (make_bag nd 16 mt_width sz) (\<lambda>b0.
          and_then (assign_suffixes nd (sufs @ [(p, s)]) b0) (\<lambda>b1.
          Inr (l\<lparr>ksuf := ptr, extrasize64 := (if 0 \<le> extrasize64 l then - extrasize64 l - 1 else extrasize64 l)\<rparr>,
            h1\<lparr>bags := (bags h1)(ptr \<mapsto> b1), limbo := limbo h1 @ (if ksuf l \<noteq> 0 then [ksuf l] else [])\<rparr>))))"

definition assign_ksuf :: "bool \<Rightarrow> bool \<Rightarrow> nat \<Rightarrow> u8 list \<Rightarrow> mass_leaf \<Rightarrow> mass_heap \<Rightarrow> (mass_leaf \<times> mass_heap) res" where
  "assign_ksuf nd initializing p s l h =
     and_then (try_ksuf p s l h) (\<lambda>(ok1, l1, h1).
     if ok1 then Inr (l1, h1)
     else and_then (try_iksuf p s l1 h1) (\<lambda>(ok2, l2, h2).
       if ok2 then Inr (l2, h2) else grow_ksuf nd initializing p s l2 h2))"

text \<open>\<open>assign\<close> into a live leaf and \<open>assign_initialize\<close> into a new one.\<close>

definition leaf_assign :: "bool \<Rightarrow> bool \<Rightarrow> nat \<Rightarrow> mass_key \<Rightarrow> mass_leaf \<Rightarrow> mass_heap \<Rightarrow> (mass_leaf \<times> mass_heap) res" where
  "leaf_assign nd initializing p k l h =
     (if mt_width \<le> p then Inl Out_Of_Bounds
      else
        let l1 = l\<lparr>lv := (lv l)[p := 0], lf_ikey0 := (lf_ikey0 l)[p := mk_ikey k]\<rparr>
        in if \<not> mk_has_suffix k then Inr (l1\<lparr>keylenx := (keylenx l)[p := of_nat (mk_len k)]\<rparr>, h)
           else assign_ksuf nd initializing p (mk_suffix k) (l1\<lparr>keylenx := (keylenx l)[p := of_nat ksuf_keylenx]\<rparr>) h)"

definition leaf_assign_copy ::
  "bool \<Rightarrow> nat \<Rightarrow> mass_leaf \<Rightarrow> nat \<Rightarrow> mass_leaf \<Rightarrow> mass_heap \<Rightarrow> (mass_leaf \<times> mass_heap) res" where
  "leaf_assign_copy nd p x xp l h =
     (if mt_width \<le> p \<or> mt_width \<le> xp then Inl Out_Of_Bounds
      else
        let l1 = l\<lparr>lv := (lv l)[p := lv x ! xp], lf_ikey0 := (lf_ikey0 l)[p := lf_ikey0 x ! xp],
            keylenx := (keylenx l)[p := keylenx x ! xp]\<rparr>
        in if unat (keylenx x ! xp) = ksuf_keylenx
           then and_then (leaf_bag x h) (\<lambda>b. assign_ksuf nd True p (bag_get b xp) l1 h)
           else Inr (l1, h))"

text \<open>Keeping a suffix changes nothing but where suffixes are kept.\<close>

definition same_slots :: "mass_leaf \<Rightarrow> mass_leaf \<Rightarrow> bool" where
  "same_slots l l' \<longleftrightarrow> lf_ikey0 l' = lf_ikey0 l \<and> keylenx l' = keylenx l \<and> lv l' = lv l \<and>
     permutation l' = permutation l \<and> modstate l' = modstate l \<and> lf_prev l' = lf_prev l \<and> lf_next l' = lf_next l \<and>
     lf_version l' = lf_version l \<and> lf_meta l' = lf_meta l \<and> lf_parent l' = lf_parent l \<and>
     phantom_epoch l' = phantom_epoch l"

definition same_nodes :: "mass_heap \<Rightarrow> mass_heap \<Rightarrow> bool" where
  "same_nodes h h' \<longleftrightarrow> mleaves h' = mleaves h \<and> inners h' = inners h"

lemma same_slots_refl [simp]: "same_slots l l"
  by (simp add: same_slots_def)

lemma same_nodes_refl [simp]: "same_nodes h h"
  by (simp add: same_nodes_def)

lemma same_trans:
  "same_slots l l1 \<Longrightarrow> same_slots l1 l2 \<Longrightarrow> same_slots l l2"
  "same_nodes h h1 \<Longrightarrow> same_nodes h1 h2 \<Longrightarrow> same_nodes h h2"
  by (simp_all add: same_slots_def same_nodes_def)

lemma pool_allocate_same: "pool_allocate h = (a, h1) \<Longrightarrow> same_nodes h h1"
  by (auto simp: pool_allocate_def same_nodes_def split: list.splits)

lemma try_ksuf_frame: "try_ksuf p s l h = Inr (ok, l1, h1) \<Longrightarrow> l1 = l \<and> same_nodes h h1"
  by (auto simp: try_ksuf_def and_then_Inr_iff same_nodes_def split: if_splits)

lemma try_iksuf_frame: "try_iksuf p s l h = Inr (ok, l1, h1) \<Longrightarrow> same_slots l l1 \<and> h1 = h"
  by (auto simp: try_iksuf_def and_then_Inr_iff same_slots_def split: if_splits)

lemma grow_ksuf_frame: "grow_ksuf nd initializing p s l h = Inr (l1, h1) \<Longrightarrow> same_slots l l1 \<and> same_nodes h h1"
proof -
  assume "grow_ksuf nd initializing p s l h = Inr (l1, h1)"
  then obtain ptr h2 where "pool_allocate h = (ptr, h2)" "same_slots l l1" "mleaves h1 = mleaves h2" "inners h1 = inners h2"
    by (auto simp: grow_ksuf_def Let_def and_then_Inr_iff same_slots_def split: if_splits prod.splits)
  then show ?thesis using pool_allocate_same by (auto simp: same_nodes_def)
qed

lemma assign_ksuf_frame:
  assumes "assign_ksuf nd initializing p s l h = Inr (l', h')"
  shows "same_slots l l' \<and> same_nodes h h'"
proof -
  obtain ok1 l1 h1 where 1: "try_ksuf p s l h = Inr (ok1, l1, h1)"
    and rest: "(if ok1 then Inr (l1, h1) else and_then (try_iksuf p s l1 h1) (\<lambda>(ok2, l2, h2).
       if ok2 then Inr (l2, h2) else grow_ksuf nd initializing p s l2 h2)) = Inr (l', h')"
    using assms by (auto simp: assign_ksuf_def and_then_Inr_iff)
  note f1 = try_ksuf_frame [OF 1]
  show ?thesis
  proof (cases ok1)
    case True
    then show ?thesis using rest f1 by simp
  next
    case False
    then obtain ok2 l2 h2 where 2: "try_iksuf p s l1 h1 = Inr (ok2, l2, h2)"
      and rest2: "(if ok2 then Inr (l2, h2) else grow_ksuf nd initializing p s l2 h2) = Inr (l', h')"
      using rest by (auto simp: and_then_Inr_iff)
    note f2 = try_iksuf_frame [OF 2]
    show ?thesis
    proof (cases ok2)
      case True
      then show ?thesis using rest2 f1 f2 by simp
    next
      case False
      then have "grow_ksuf nd initializing p s l2 h2 = Inr (l', h')" using rest2 by simp
      then show ?thesis using grow_ksuf_frame f1 f2 same_trans by blast
    qed
  qed
qed

lemma leaf_assign_slots:
  assumes "leaf_assign nd initializing p k l h = Inr (l', h')" and "length (lf_ikey0 l) = mt_width"
    and "length (keylenx l) = mt_width" and "length (lv l) = mt_width"
  shows "p < mt_width" and "same_nodes h h'"
    and "slot_rank l' q = (if q = p then key_rank k else slot_rank l q)"
    and "same_slots (l\<lparr>lf_ikey0 := lf_ikey0 l', keylenx := keylenx l', lv := lv l'\<rparr>) l'"
    and "lv l' = (lv l)[p := 0]" and "length (lf_ikey0 l') = mt_width" and "length (keylenx l') = mt_width"
proof -
  have p: "p < mt_width" using assms(1) by (auto simp: leaf_assign_def split: if_splits)
  let ?kx = "if mk_has_suffix k then of_nat ksuf_keylenx else of_nat (mk_len k) :: u8"
  let ?l = "l\<lparr>lv := (lv l)[p := 0], lf_ikey0 := (lf_ikey0 l)[p := mk_ikey k], keylenx := (keylenx l)[p := ?kx]\<rparr>"
  have f: "same_slots ?l l' \<and> same_nodes h h'"
    using assms(1) p assign_ksuf_frame by (auto simp: leaf_assign_def Let_def split: if_splits)
  have "min 9 (unat ?kx) = min 9 (mk_len k)"
    by (simp add: mk_has_suffix_def ikey_size_def ksuf_keylenx_def unat_of_nat take_bit_nat_eq_self)
  with f p assms(2,3) have "slot_rank l' q = (if q = p then key_rank k else slot_rank l q)" for q
    by (simp add: same_slots_def slot_rank_def key_rank_def)
  then show "slot_rank l' q = (if q = p then key_rank k else slot_rank l q)" .
  from f p assms show "p < mt_width" "same_nodes h h'" "lv l' = (lv l)[p := 0]" "length (lf_ikey0 l') = mt_width"
    "length (keylenx l') = mt_width" "same_slots (l\<lparr>lf_ikey0 := lf_ikey0 l', keylenx := keylenx l', lv := lv l'\<rparr>) l'"
    by (simp_all add: same_slots_def)
qed


section \<open>Insertion and removal within a leaf\<close>

text \<open>A change between insertions and removals is visible in the version.\<close>

definition modstate_insert :: u8 where "modstate_insert = 0"
definition modstate_remove :: u8 where "modstate_remove = 1"

definition enter_insert_state :: "mass_leaf \<Rightarrow> mass_leaf" where
  "enter_insert_state l =
     (if modstate l \<noteq> modstate_insert
      then l\<lparr>lf_version := nv_mark_insert (lf_version l), modstate := modstate_insert\<rparr> else l)"

text \<open>
  The slot for a new key (\<open>find_insert\<close> and the start of \<open>make_split\<close>): the first free slot, except that slot 0, which holds
  the bound of the leaf, is not taken over by another integer; then another free slot is moved to the back. Without a
  slot the leaf must be split.
\<close>

definition leaf_find_slot ::
  "bool \<Rightarrow> mass_key \<Rightarrow> mass_leaf \<Rightarrow> mass_heap \<Rightarrow> (nat option \<times> mass_leaf \<times> mass_heap) res" where
  "leaf_find_slot nd k l0 h =
     (let l = enter_insert_state l0; p = kp_back mt_width (permutation l)
      in if leaf_size l < mt_width \<and> (p \<noteq> 0 \<or> lf_prev l = 0 \<or> lf_ikey0 l ! 0 = mk_ikey k)
         then and_then (leaf_assign nd False p k l h) (\<lambda>(l1, h1). Inr (Some p, l1, h1))
         else
           let perm = kp_exchange (leaf_size l) (mt_width - 1) (permutation l); q = kp_back mt_width perm
           in if leaf_size l < mt_width \<and> q \<noteq> 0
              then and_then (leaf_assign nd False q k (l\<lparr>permutation := perm\<rparr>) h) (\<lambda>(l1, h1). Inr (Some q, l1, h1))
              else Inr (None, l, h))"

definition finish_insert :: "nat \<Rightarrow> mass_leaf \<Rightarrow> mass_leaf" where
  "finish_insert i l = l\<lparr>permutation := snd (kp_insert_from_back mt_width i (permutation l))\<rparr>"

definition leaf_insert ::
  "bool \<Rightarrow> mass_key \<Rightarrow> nat \<Rightarrow> mass_leaf \<Rightarrow> mass_heap \<Rightarrow> (nat option \<times> mass_leaf \<times> mass_heap) res" where
  "leaf_insert nd k i l h =
     and_then (leaf_find_slot nd k l h) (\<lambda>(q, l1, h1).
     Inr (q, if q = None then l1 else finish_insert i l1, h1))"

text \<open>\<open>finish_remove\<close>, up to the removal of an empty leaf; the answer says whether keys are left.\<close>

definition leaf_remove :: "nat \<Rightarrow> mass_leaf \<Rightarrow> bool \<times> mass_leaf" where
  "leaf_remove i l0 =
     (let l = (if modstate l0 = modstate_insert
          then l0\<lparr>lf_version := nv_mark_insert (lf_version l0), modstate := modstate_remove\<rparr> else l0);
        l1 = l\<lparr>permutation := kp_remove i (permutation l)\<rparr>
      in (kp_size (permutation l1) \<noteq> 0, l1))"

lemma enter_insert_state_simps [simp]:
  "lf_ikey0 (enter_insert_state l) = lf_ikey0 l" "keylenx (enter_insert_state l) = keylenx l"
  "lv (enter_insert_state l) = lv l" "permutation (enter_insert_state l) = permutation l"
  "lf_prev (enter_insert_state l) = lf_prev l" "leaf_size (enter_insert_state l) = leaf_size l"
  by (simp_all add: enter_insert_state_def leaf_size_def)

lemma kp_ok_perm:
  assumes "kp_ok w x"
  shows "distinct (kp_list w x)" "set (kp_list w x) = {0..<w}"
proof -
  have m: "mset (kp_list w x) = mset [0..<w]" using assms by (simp add: kp_ok_def)
  show "distinct (kp_list w x)" using mset_eq_imp_distinct_iff [OF m] by simp
  show "set (kp_list w x) = {0..<w}" using mset_eq_setD [OF m] by simp
qed

lemma insert_at_sorted:
  fixes E :: "'a :: linorder list"
  assumes "sorted_wrt (<) E" and "i \<le> length E" and "\<And>j. j < i \<Longrightarrow> E ! j < x" and "\<And>j. i \<le> j \<Longrightarrow> j < length E \<Longrightarrow> x < E ! j"
  shows "sorted_wrt (<) (take i E @ x # drop i E)"
proof -
  have "sorted_wrt (<) (take i E)" "sorted_wrt (<) (drop i E)" using assms(1) by (simp_all add: sorted_wrt_take sorted_wrt_drop)
  moreover have "a < x" if "a \<in> set (take i E)" for a using that assms(2,3) by (auto simp: in_set_conv_nth)
  moreover have "x < b" if "b \<in> set (drop i E)" for b
  proof -
    from that obtain j where "j < length E - i" "b = E ! (i + j)" using assms(2) by (auto simp: in_set_conv_nth)
    then show ?thesis using assms(4) [of "i + j"] by simp
  qed
  moreover from calculation(3,4) have "a < b" if "a \<in> set (take i E)" "b \<in> set (drop i E)" for a b
    using that less_trans by blast
  ultimately show ?thesis by (simp add: sorted_wrt_append)
qed

text \<open>
  The slot at the back of a permuter with room is free; after the insertion it is at its place among the slots in use, which
  keep their order.
\<close>

lemma insert_slot:
  assumes "kp_ok mt_width x" and "kp_size x < mt_width" and "i \<le> kp_size x"
  defines "p \<equiv> kp_back mt_width x" and "U \<equiv> take (kp_size x) (kp_list mt_width x)"
    and "y \<equiv> snd (kp_insert_from_back mt_width i x)"
  shows "p < mt_width" "p \<notin> set U" "kp_ok mt_width y" "kp_size y = kp_size x + 1"
    "take (kp_size y) (kp_list mt_width y) = take i U @ p # drop i U"
proof -
  let ?P = "kp_list mt_width x" and ?n = "kp_size x"
  have w: "mt_width = 15" by (simp add: mt_width_def)
  have P: "distinct ?P" "set ?P = {0..<mt_width}" using kp_ok_perm [OF assms(1)] by auto
  have ne: "?P \<noteq> []" by (simp add: kp_list_def w)
  then have last: "last ?P = p" by (simp add: p_def kp_back_def last_conv_nth w)
  have p_mem: "p \<in> set ?P" using last ne last_in_set by metis
  then show "p < mt_width" using P(2) by simp
  have U: "U = take ?n (butlast ?P)" using assms(2) by (simp add: U_def take_butlast)
  have "distinct (butlast ?P @ [p])" using P(1) append_butlast_last_id [OF ne] last by simp
  then have "p \<notin> set (butlast ?P)" by simp
  then show "p \<notin> set U" using U in_set_takeD by metis
  have abs: "kp_abs mt_width y = (?n + 1, take i ?P @ p # drop i (butlast ?P))"
    using kp_insert_from_back_list [of x i mt_width] assms(2,3) last w by (simp add: y_def kp_abs_def)
  then have y: "kp_size y = ?n + 1" "kp_list mt_width y = take i ?P @ p # drop i (butlast ?P)" by (simp_all add: kp_abs_def)
  show "kp_size y = kp_size x + 1" by (rule y(1))
  have tk: "take i ?P = take i U" using assms(3) by (simp add: U_def)
  have "take (?n + 1) (take i ?P @ p # drop i (butlast ?P)) = take i ?P @ p # take (?n - i) (drop i (butlast ?P))"
    using assms(2,3) w by (simp add: Suc_diff_le)
  moreover have "take (?n - i) (drop i (butlast ?P)) = drop i U" using U by (simp add: drop_take)
  ultimately show "take (kp_size y) (kp_list mt_width y) = take i U @ p # drop i U" using y tk by simp
  have "take i ?P = take i (butlast ?P)" using assms(2,3) by (simp add: take_butlast)
  moreover have "mset (take i (butlast ?P)) + mset (drop i (butlast ?P)) = mset (butlast ?P)"
    by (metis append_take_drop_id mset_append)
  ultimately have "mset (kp_list mt_width y) = mset (butlast ?P @ [p])" using y(2) by simp
  moreover have "butlast ?P @ [p] = ?P" using append_butlast_last_id [OF ne] last by simp
  ultimately have "mset (kp_list mt_width y) = mset ?P" by simp
  then show "kp_ok mt_width y" using assms(1,2) y(1) by (simp add: kp_ok_def)
qed

lemma leaf_insert_slot:
  assumes wf: "leaf_wf l" and size: "leaf_size l < mt_width" and i: "i \<le> leaf_size l"
    and below: "\<And>j. j < i \<Longrightarrow> leaf_entries l ! j < key_rank k"
    and above: "\<And>j. i \<le> j \<Longrightarrow> j < leaf_size l \<Longrightarrow> key_rank k < leaf_entries l ! j"
    and "kp_back mt_width (permutation l) = p" and "leaf_assign nd False p k l h = Inr (l1, h1)"
  shows "leaf_wf (finish_insert i l1) \<and> leaf_entries (finish_insert i l1) = take i (leaf_entries l) @ key_rank k # drop i (leaf_entries l) \<and>
    p \<notin> set (take (leaf_size l) (kp_list mt_width (permutation l)))"
proof -
  let ?U = "take (leaf_size l) (kp_list mt_width (permutation l))" and ?l = "finish_insert i l1"
  have len: "length (lf_ikey0 l) = mt_width" "length (keylenx l) = mt_width" "length (lv l) = mt_width"
    and ok: "kp_ok mt_width (permutation l)" using wf by (simp_all add: leaf_wf_def)
  note a = leaf_assign_slots [OF assms(7) len]
  have perm: "permutation l1 = permutation l" using a(4) by (simp add: same_slots_def)
  note s = insert_slot [OF ok size [unfolded leaf_size_def] i [unfolded leaf_size_def], unfolded assms(6), folded leaf_size_def]
  have rank: "slot_rank ?l q = (if q = p then key_rank k else slot_rank l q)" for q
    using a(3) [of q] by (simp add: finish_insert_def slot_rank_def)
  have "leaf_entries ?l = map (slot_rank ?l) (take i ?U @ p # drop i ?U)"
    using s(5) by (simp add: leaf_entries_def finish_insert_def perm leaf_size_def)
  also have "\<dots> = take i (leaf_entries l) @ key_rank k # drop i (leaf_entries l)"
  proof -
    have r: "slot_rank ?l q = slot_rank l q" if "q \<in> set ?U" for q using that s(2) rank by auto
    have "map (slot_rank ?l) (take i ?U) = map (slot_rank l) (take i ?U)"
      by (intro map_cong refl r) (rule in_set_takeD)
    moreover have "map (slot_rank ?l) (drop i ?U) = map (slot_rank l) (drop i ?U)"
      by (intro map_cong refl r) (rule in_set_dropD)
    ultimately show ?thesis by (simp only: leaf_entries_def map_append list.map rank take_map [symmetric] drop_map [symmetric] simp_thms if_True)
  qed
  finally have e: "leaf_entries ?l = take i (leaf_entries l) @ key_rank k # drop i (leaf_entries l)" .
  have "sorted_wrt (<) (leaf_entries ?l)"
    unfolding e using wf i below above length_entries [OF wf] by (intro insert_at_sorted) (simp_all add: leaf_wf_def)
  moreover have "kp_ok mt_width (permutation ?l)" using s(3) by (simp add: finish_insert_def perm)
  ultimately have "leaf_wf ?l" using a(5-7) len by (simp add: leaf_wf_def finish_insert_def)
  then show ?thesis using e s(2) by simp
qed


text \<open>Moving a free slot to the back leaves the slots in use alone.\<close>

lemma exchange_free:
  assumes "kp_ok mt_width x" and "kp_size x < mt_width"
  defines "y \<equiv> kp_exchange (kp_size x) (mt_width - 1) x"
  shows "kp_ok mt_width y" "kp_size y = kp_size x"
    "take (kp_size y) (kp_list mt_width y) = take (kp_size x) (kp_list mt_width x)"
    "kp_back mt_width y = kp_at x (kp_size x)"
proof -
  let ?P = "kp_list mt_width x" and ?n = "kp_size x"
  have w: "mt_width = 15" by (simp add: mt_width_def)
  have "kp_abs mt_width y = lp_exchange ?n (mt_width - 1) (kp_abs mt_width x)"
    unfolding y_def using assms(2) w by (intro kp_exchange_list) simp_all
  then have y: "kp_size y = ?n" "kp_list mt_width y = ?P[?n := ?P ! (mt_width - 1), mt_width - 1 := ?P ! ?n]"
    by (simp_all add: kp_abs_def)
  show "kp_size y = ?n" by (rule y(1))
  show "take (kp_size y) (kp_list mt_width y) = take ?n ?P" using y assms(2) by (simp add: take_update_cancel)
  have "kp_list mt_width y ! (mt_width - 1) = ?P ! ?n" using y(2) w by simp
  then show "kp_back mt_width y = kp_at x ?n" using assms(2) w by (simp add: kp_back_def)
  have "mset (kp_list mt_width y) = mset ?P"
    using y(2) assms(2) w mset_swap [of "mt_width - 1" ?P ?n] by simp
  then show "kp_ok mt_width y" using assms(1) y(1) by (simp add: kp_ok_def)
qed

lemma exchanged_leaf:
  assumes "leaf_wf l" and "leaf_size l < mt_width"
  defines "l1 \<equiv> l\<lparr>permutation := kp_exchange (leaf_size l) (mt_width - 1) (permutation l)\<rparr>"
  shows "leaf_wf l1" "leaf_size l1 = leaf_size l" "leaf_entries l1 = leaf_entries l"
    "take (leaf_size l1) (kp_list mt_width (permutation l1)) = take (leaf_size l) (kp_list mt_width (permutation l))"
proof -
  have ok: "kp_ok mt_width (permutation l)" using assms(1) by (simp add: leaf_wf_def)
  note x = exchange_free [OF ok assms(2) [unfolded leaf_size_def], folded leaf_size_def]
  show 1: "leaf_size l1 = leaf_size l" using x(2) by (simp add: l1_def leaf_size_def)
  show 2: "take (leaf_size l1) (kp_list mt_width (permutation l1)) = take (leaf_size l) (kp_list mt_width (permutation l))"
    using x(2,3) by (simp add: l1_def leaf_size_def)
  have "slot_rank l1 = slot_rank l" by (rule ext) (simp add: l1_def slot_rank_def)
  with 2 show 3: "leaf_entries l1 = leaf_entries l" by (simp add: leaf_entries_def)
  show "leaf_wf l1" using assms(1) x(1) 3 by (simp add: leaf_wf_def l1_def)
qed

lemma enter_insert_wf [simp]:
  "slot_rank (enter_insert_state l) = slot_rank l" "leaf_entries (enter_insert_state l) = leaf_entries l"
  "leaf_wf (enter_insert_state l) = leaf_wf l"
proof -
  show r: "slot_rank (enter_insert_state l) = slot_rank l" by (rule ext) (simp add: slot_rank_def)
  then show e: "leaf_entries (enter_insert_state l) = leaf_entries l" by (simp add: leaf_entries_def)
  then show "leaf_wf (enter_insert_state l) = leaf_wf l" by (simp add: leaf_wf_def)
qed

text \<open>
  Inserting a key that the search did not find puts its rank into the sorted list of the leaf at the place the search
  gave, in a slot that was free; the leaf asks for a split only when at most one slot is free, and is then
  unchanged up to its state.
\<close>

lemma leaf_insert_sorted:
  assumes "leaf_wf l" and "leaf_lower k l = (i, None)" and "leaf_insert nd k i l h = Inr (q, l', h')"
  shows "case q of
      Some p \<Rightarrow> leaf_wf l' \<and> leaf_entries l' = take i (leaf_entries l) @ key_rank k # drop i (leaf_entries l) \<and>
        p \<notin> set (take (leaf_size l) (kp_list mt_width (permutation l))) \<and> lv l' = (lv l)[p := 0]
    | None \<Rightarrow> mt_width - 1 \<le> leaf_size l \<and> l' = enter_insert_state l"
proof -
  let ?l = "enter_insert_state l"
  have wf: "leaf_wf ?l" and wf': "leaf_wf l" using assms(1) by simp_all
  have found: "i \<le> leaf_size l" "\<And>j. j < i \<Longrightarrow> leaf_entries l ! j < key_rank k"
    "\<And>j. i \<le> j \<Longrightarrow> j < leaf_size l \<Longrightarrow> key_rank k < leaf_entries l ! j"
    using lower_bound_finds [OF assms(1) assms(2) [unfolded leaf_lower_def]] by auto
  obtain l1 h1 where f: "leaf_find_slot nd k l h = Inr (q, l1, h1)"
    and l': "l' = (if q = None then l1 else finish_insert i l1)" "h' = h1"
    using assms(3) by (auto simp: leaf_insert_def and_then_Inr_iff)
  let ?p = "kp_back mt_width (permutation l)"
  let ?perm = "kp_exchange (leaf_size l) (mt_width - 1) (permutation l)"
  let ?l2 = "?l\<lparr>permutation := ?perm\<rparr>"
  have lens: "length (lf_ikey0 l) = mt_width" "length (keylenx l) = mt_width" "length (lv l) = mt_width"
    and ok: "kp_ok mt_width (permutation l)" using assms(1) by (simp_all add: leaf_wf_def)
  show ?thesis
  proof (cases "leaf_size l < mt_width \<and> (?p \<noteq> 0 \<or> lf_prev l = 0 \<or> lf_ikey0 l ! 0 = mk_ikey k)")
    case True
    then obtain q' where a: "leaf_assign nd False ?p k ?l h = Inr (l1, h1)" "q = Some ?p"
      using f by (auto simp: leaf_find_slot_def Let_def and_then_Inr_iff)
    have "leaf_wf (finish_insert i l1) \<and> leaf_entries (finish_insert i l1) = take i (leaf_entries ?l) @ key_rank k # drop i (leaf_entries ?l) \<and>
        ?p \<notin> set (take (leaf_size ?l) (kp_list mt_width (permutation ?l)))"
      by (rule leaf_insert_slot [OF wf _ _ _ _ _ a(1)]) (use True found in simp_all)
    moreover have "lv l1 = (lv l)[?p := 0]" using leaf_assign_slots(5) [OF a(1)] lens by simp
    ultimately show ?thesis using a(2) l' by (simp add: finish_insert_def)
  next
    case no: False
    show ?thesis
    proof (cases "leaf_size l < mt_width \<and> kp_back mt_width ?perm \<noteq> 0")
      case True
      then have a: "leaf_assign nd False (kp_back mt_width ?perm) k ?l2 h = Inr (l1, h1)" "q = Some (kp_back mt_width ?perm)"
        using f no by (auto simp: leaf_find_slot_def Let_def and_then_Inr_iff)
      have x: "leaf_wf ?l2" "leaf_size ?l2 = leaf_size l" "leaf_entries ?l2 = leaf_entries l"
        "take (leaf_size ?l2) (kp_list mt_width (permutation ?l2)) = take (leaf_size l) (kp_list mt_width (permutation l))"
        using exchanged_leaf [OF wf] True by simp_all
      have "leaf_wf (finish_insert i l1) \<and> leaf_entries (finish_insert i l1) = take i (leaf_entries ?l2) @ key_rank k # drop i (leaf_entries ?l2) \<and>
          kp_back mt_width ?perm \<notin> set (take (leaf_size ?l2) (kp_list mt_width (permutation ?l2)))"
        by (rule leaf_insert_slot [OF x(1) _ _ _ _ _ a(1)]) (use True found x(2,3) in simp_all)
      moreover have "lv l1 = (lv l)[kp_back mt_width ?perm := 0]" using leaf_assign_slots(5) [OF a(1)] lens by simp
      ultimately show ?thesis using a(2) l' x(2-4) by (simp add: finish_insert_def)
    next
      case False
      then have q: "q = None" "l1 = ?l" using f no by (auto simp: leaf_find_slot_def Let_def)
      have "mt_width - 1 \<le> leaf_size l"
      proof (rule ccontr)
        assume "\<not> ?thesis"
        then have n: "leaf_size l < mt_width - 1" by simp
        then have "kp_back mt_width ?perm = kp_at (permutation l) (leaf_size l)" "?p = 0"
          using exchange_free(4) [OF ok] no by (simp_all add: leaf_size_def)
        moreover have "kp_list mt_width (permutation l) ! leaf_size l \<noteq> kp_list mt_width (permutation l) ! (mt_width - 1)"
          using nth_eq_iff_index_eq [OF kp_ok_perm(1) [OF ok], of "leaf_size l" "mt_width - 1"] n by simp
        ultimately show False using False n by (simp add: kp_back_def)
      qed
      then show ?thesis using q l' by simp
    qed
  qed
qed

text \<open>Removing takes exactly the rank at its position out of the leaf, keeps the order of the others, and reports whether any is left.\<close>

lemma leaf_remove_sorted:
  assumes "leaf_wf l" and "i < leaf_size l"
  shows "leaf_wf (snd (leaf_remove i l)) \<and>
    leaf_entries (snd (leaf_remove i l)) = take i (leaf_entries l) @ drop (i + 1) (leaf_entries l) \<and>
    (fst (leaf_remove i l) \<longleftrightarrow> leaf_entries (snd (leaf_remove i l)) \<noteq> [])"
proof -
  let ?x = "permutation l" let ?y = "kp_remove i ?x" and ?P = "kp_list mt_width ?x" and ?n = "leaf_size l"
  define l' where "l' = snd (leaf_remove i l)"
  have w: "mt_width = 15" by (simp add: mt_width_def)
  have l': "permutation l' = ?y" "lf_ikey0 l' = lf_ikey0 l" "keylenx l' = keylenx l" "lv l' = lv l"
    by (simp_all add: l'_def leaf_remove_def Let_def)
  then have rank: "slot_rank l' = slot_rank l" by (intro ext) (simp add: slot_rank_def)
  have ok: "kp_ok mt_width ?x" and n: "?n \<le> mt_width" using assms(1) leaf_size_le by (simp_all add: leaf_wf_def)
  have "kp_abs mt_width ?y = lp_remove i (kp_abs mt_width ?x)"
    using kp_remove_list [of i ?x mt_width] assms(2) n w by (simp add: leaf_size_def)
  then have y: "kp_size ?y = ?n - 1" "kp_list mt_width ?y = take i ?P @ take (?n - 1 - i) (drop (i + 1) ?P) @ ?P ! i # drop ?n ?P"
    by (simp_all add: kp_abs_def leaf_size_def)
  have "take (?n - 1) (kp_list mt_width ?y) = take i ?P @ take (?n - 1 - i) (drop (i + 1) ?P)"
    unfolding y(2) using assms(2) n by simp
  also have "\<dots> = take i (take ?n ?P) @ drop (i + 1) (take ?n ?P)"
    using assms(2) by (simp add: drop_take)
  finally have "take (leaf_size l') (kp_list mt_width (permutation l')) = take i (take ?n ?P) @ drop (i + 1) (take ?n ?P)"
    using y(1) by (simp add: l' leaf_size_def)
  then have e: "leaf_entries l' = take i (leaf_entries l) @ drop (i + 1) (leaf_entries l)"
    by (simp only: leaf_entries_def rank map_append take_map drop_map)
  have "kp_guard mt_width ?n (Remove i)" using assms(2) by simp
  from lp_step_perm [OF this n, of ?P] ok y have "kp_ok mt_width ?y"
    by (simp add: kp_ok_def leaf_size_def)
  moreover have "sorted_wrt (<) (leaf_entries l')"
  proof -
    have "sorted_wrt (<) (take i (leaf_entries l) @ drop i (leaf_entries l))" using assms(1) by (simp add: leaf_wf_def)
    moreover have "drop i (leaf_entries l) = leaf_entries l ! i # drop (i + 1) (leaf_entries l)"
      using assms length_entries by (simp add: Cons_nth_drop_Suc)
    ultimately show ?thesis unfolding e by (simp add: sorted_wrt_append)
  qed
  ultimately have wf: "leaf_wf l'" using assms(1) l' by (simp add: leaf_wf_def)
  moreover have "fst (leaf_remove i l) \<longleftrightarrow> leaf_size l' \<noteq> 0"
    by (simp add: l'_def leaf_remove_def Let_def leaf_size_def)
  ultimately show ?thesis using e length_entries [OF wf] unfolding l'_def by (metis length_0_conv)
qed

section \<open>A sample leaf\<close>

lemma sorted_perm:
  assumes "n \<le> mt_width"
  shows "kp_ok mt_width (kp_make_sorted mt_width n)" "kp_size (kp_make_sorted mt_width n) = n"
    "take n (kp_list mt_width (kp_make_sorted mt_width n)) = [0..<n]"
proof -
  have a: "kp_abs mt_width (kp_make_sorted mt_width n) = (n, [0..<n] @ rev [n..<mt_width])"
    by (rule kp_make_sorted_list) (use assms in \<open>simp_all add: mt_width_def\<close>)
  then show s: "kp_size (kp_make_sorted mt_width n) = n" by (simp add: kp_abs_def)
  from a show "take n (kp_list mt_width (kp_make_sorted mt_width n)) = [0..<n]" by (simp add: kp_abs_def)
  have "[0..<mt_width] = [0..<n] @ [n..<mt_width]" using assms by (metis le_add_diff_inverse upt_add_eq_append zero_le)
  then have "mset ([0..<n] @ rev [n..<mt_width]) = mset [0..<mt_width]" by simp
  then show "kp_ok mt_width (kp_make_sorted mt_width n)" using a s assms by (simp add: kp_ok_def kp_abs_def)
qed

text \<open>A leaf with the keys \<open>1\<close> to \<open>n\<close>, all of eight bytes, and no bag.\<close>

definition filled_leaf :: "nat \<Rightarrow> mass_leaf" where
  "filled_leaf n = (blank_leaf 320 0 Mem_Local 2 1)\<lparr>lf_ikey0 := map of_nat [1..<16], keylenx := replicate 15 8,
     permutation := kp_make_sorted mt_width n\<rparr>"

lemma filled_leaf_entries:
  assumes "n \<le> 15"
  shows "leaf_wf (filled_leaf n)" "leaf_entries (filled_leaf n) = map (\<lambda>i. (of_nat (i + 1), 8)) [0..<n]"
proof -
  have w: "mt_width = 15" by (simp add: mt_width_def)
  note sp = sorted_perm [of n, unfolded w, OF assms]
  show e: "leaf_entries (filled_leaf n) = map (\<lambda>i. (of_nat (i + 1), 8)) [0..<n]"
    using sp assms by (simp add: leaf_entries_def filled_leaf_def leaf_size_def w slot_rank_def)
  have "(of_nat (i + 1) :: u64) < of_nat (j + 1)" if "i < j" "j < n" for i j :: nat
  proof -
    have "unat (of_nat m :: u64) = m" if "m \<le> 16" for m
      using that by (simp add: unat_of_nat take_bit_nat_eq_self)
    from this [of "i + 1"] this [of "j + 1"] have "unat (of_nat (i + 1) :: u64) = i + 1" "unat (of_nat (j + 1) :: u64) = j + 1"
      using that assms by (simp_all del: of_nat_add)
    then show ?thesis using that(1) by (simp only: word_less_nat_alt)
  qed
  then have "sorted_wrt (<) (leaf_entries (filled_leaf n))" unfolding e sorted_wrt_iff_nth_less by simp
  then show "leaf_wf (filled_leaf n)" using sp by (simp add: leaf_wf_def filled_leaf_def blank_leaf_def w)
qed

lemmas filled_leaf_wf = filled_leaf_entries(1)

definition sample_mkey :: mass_key where
  "sample_mkey = make_key [0, 0, 0, 0, 0, 0, 0, 3, 7, 7]"

lemma sample_mkey_rank: "key_rank sample_mkey = (3, 9)"
  by (simp add: sample_mkey_def make_key_def key_rank_def make_comparable_def pad_def ikey_size_def)

lemma sample_lower: "leaf_lower sample_mkey (filled_leaf 15) = (3, None)"
proof -
  obtain i q where l: "leaf_lower sample_mkey (filled_leaf 15) = (i, q)" by fastforce
  have e: "leaf_entries (filled_leaf 15) ! j = (of_nat (j + 1), 8)" if "j < 15" for j
    using that by (simp add: filled_leaf_entries(2))
  have size: "leaf_size (filled_leaf 15) = 15" using length_entries [OF filled_leaf_wf, of 15] by (simp add: filled_leaf_entries(2))
  have f: "i \<le> 15" "\<forall>j < i. leaf_entries (filled_leaf 15) ! j < (3, 9)"
    "case q of Some p \<Rightarrow> i < 15 \<and> leaf_entries (filled_leaf 15) ! i = (3, 9)
     | None \<Rightarrow> \<forall>j. i \<le> j \<longrightarrow> j < 15 \<longrightarrow> (3, 9) < leaf_entries (filled_leaf 15) ! j"
    using lower_bound_finds [OF filled_leaf_wf, of 15 sample_mkey 0 15 i q] l size
    by (auto simp: leaf_lower_def sample_mkey_rank split: option.splits)
  have q: "q = None"
  proof (cases q)
    case (Some p)
    then show ?thesis using f(3) e [of i] by simp
  qed
  have "i \<le> 3" using f(2) e [of 3] by (cases "3 < i") auto
  moreover have "\<not> i \<le> 2" using f(3) q e [of 2] by auto
  ultimately show ?thesis using l q by simp
qed

lemma leaf_search_finds_witness:
  "3 = length (filter (\<lambda>e. e < (3, 9)) (leaf_entries (filled_leaf 15))) \<and> (3, 9) \<notin> set (leaf_entries (filled_leaf 15))"
  using leaf_search_finds [OF filled_leaf_wf sample_lower] by (simp add: sample_mkey_rank)

end
