(* ===== verification/Masstree_Suffix.thy ===== *)
theory Masstree_Suffix
  imports Masstree_Leaf Masstree_Moves
begin

text \<open>
  The suffixes of the keys of a leaf (\<open>assign_ksuf\<close> of \<open>masstree_struct.hh\<close>): whichever bag takes a new suffix, and also
  when a larger bag has to be made, it can be read back and no other suffix in use is lost.
\<close>

section \<open>The size of a new bag\<close>

lemma bit_length_less: "n < 2 ^ bit_length n"
proof (induction n rule: bit_length.induct)
  case (1 n)
  show ?case
  proof (cases "n = 0")
    case False
    then have "n div 2 < 2 ^ bit_length (n div 2)" by (rule 1)
    then have "n < 2 * 2 ^ bit_length (n div 2)" by linarith
    then show ?thesis using False by (simp add: bit_length.simps [of n])
  qed (simp add: bit_length.simps)
qed

lemma bit_length_le: "0 < n \<Longrightarrow> 2 ^ (bit_length n - 1) \<le> n"
proof (induction n rule: bit_length.induct)
  case (1 n)
  show ?case
  proof (cases "n div 2 = 0")
    case True
    then have "n = 1" using 1(2) by linarith
    then show ?thesis by (simp add: bit_length.simps)
  next
    case False
    then have "2 ^ (bit_length (n div 2) - 1) \<le> n div 2" using 1 by simp
    then have "2 * 2 ^ (bit_length (n div 2) - 1) \<le> n" by linarith
    moreover have "bit_length (n div 2) \<noteq> 0" using False by (simp add: bit_length.simps)
    then have "2 * 2 ^ (bit_length (n div 2) - 1) = (2 :: nat) ^ bit_length (n div 2)" by (cases "bit_length (n div 2)") simp_all
    moreover have "bit_length n - 1 = bit_length (n div 2)" using 1(2) by (simp add: bit_length.simps [of n])
    ultimately show ?thesis by simp
  qed
qed

lemma power_of_two: "0 < n \<Longrightarrow> n AND (n - 1) = 0 \<Longrightarrow> n = 2 ^ (bit_length n - 1)" for n :: nat
proof (induction n rule: bit_length.induct)
  case (1 n)
  show ?case
  proof (cases "n div 2 = 0")
    case True
    then have "n = 1" using 1(2) by linarith
    then show ?thesis by (simp add: bit_length.simps)
  next
    case half: False
    let ?m = "n div 2"
    have "(n AND (n - 1)) div 2 = ?m AND ((n - 1) div 2)"
      using drop_bit_and [of 1 n "n - 1"] by (simp add: drop_bit_eq_div)
    then have z: "?m AND ((n - 1) div 2) = 0" using 1(3) by simp
    have even: "even n"
    proof (rule ccontr)
      assume "odd n"
      then have "(n - 1) div 2 = ?m" by presburger
      then show False using z half by simp
    qed
    then have "(n - 1) div 2 = ?m - 1" using 1(2) by presburger
    then have "?m = 2 ^ (bit_length ?m - 1)" using 1(1) z half 1(2) by simp
    moreover have "bit_length n - 1 = Suc (bit_length ?m - 1)"
      using half 1(2) by (simp add: bit_length.simps [of n]) (simp add: bit_length.simps [of ?m])
    ultimately show ?thesis using even by (metis dvd_mult_div_cancel power_Suc)
  qed
qed

lemma iceil_log2_bounds:
  assumes "0 < n"
  shows "n \<le> iceil_log2 n" and "n \<le> 2 ^ k \<Longrightarrow> iceil_log2 n \<le> 2 ^ k"
proof -
  show "n \<le> iceil_log2 n"
  proof (cases "n AND (n - 1) = 0")
    case True
    then show ?thesis using power_of_two [OF assms True] by (simp add: iceil_log2_def)
  next
    case False
    then show ?thesis using bit_length_less [of n] by (simp add: iceil_log2_def)
  qed
  assume k: "n \<le> 2 ^ k"
  show "iceil_log2 n \<le> 2 ^ k"
  proof (cases "n AND (n - 1) = 0")
    case True
    then show ?thesis using power_of_two [OF assms True] k by (simp add: iceil_log2_def)
  next
    case False
    have "n \<noteq> 2 ^ j" for j
    proof
      assume "n = 2 ^ j"
      moreover have "n - 1 = mask j" using calculation by (simp add: mask_eq_exp_minus_1)
      ultimately have "n AND (n - 1) = take_bit j (2 ^ j)" by (simp add: take_bit_eq_mask)
      then show False using False by simp
    qed
    then have "2 ^ (bit_length n - 1) < n" "n < 2 ^ k" using bit_length_le [OF assms] k by (metis le_neq_implies_less)+
    then have "(2 :: nat) ^ (bit_length n - 1) < 2 ^ k" by (rule less_trans)
    then have "bit_length n - 1 < k" by (simp only: power_strict_increasing_iff)
    then have "bit_length n \<le> k" by simp
    then show ?thesis using False by (simp add: iceil_log2_def power_increasing)
  qed
qed

section \<open>Filling a new bag\<close>

lemma assign_suffixes_fill:
  assumes "bag_ok b" and "distinct (map fst ps)" and "\<forall>(p, s) \<in> set ps. p < length (bag_info b)"
    and "bag_size b + sum_list (map (length \<circ> snd) ps) + 7 \<le> bag_capacity b"
  shows "\<exists>b'. assign_suffixes nd ps b = Inr b' \<and> bag_ok b' \<and> bag_bits b' = bag_bits b \<and>
    length (bag_info b') = length (bag_info b) \<and> (\<forall>(p, s) \<in> set ps. bag_get b' p = s) \<and>
    (\<forall>q. q \<notin> fst ` set ps \<longrightarrow> bag_get b' q = bag_get b q)"
  using assms
proof (induction ps arbitrary: b)
  case (Cons x ps)
  obtain p s where x: "x = (p, s)" by (cases x)
  have "bag_size b + length s + 7 \<le> bag_capacity b" using Cons.prems(4) by (simp add: x)
  then obtain b1 where b1: "bag_assign p s b = Inr (True, b1)" "bag_ok b1" "bag_bits b1 = bag_bits b"
    "bag_capacity b1 = bag_capacity b" "length (bag_info b1) = length (bag_info b)" "bag_size b1 \<le> bag_size b + length s"
    "bag_get b1 p = s" "\<forall>q. q \<noteq> p \<longrightarrow> bag_get b1 q = bag_get b q"
    using bag_assign_fits [OF Cons.prems(1), of p s] Cons.prems(3) by (auto simp: x)
  have "\<exists>b'. assign_suffixes nd ps b1 = Inr b' \<and> bag_ok b' \<and> bag_bits b' = bag_bits b1 \<and>
    length (bag_info b') = length (bag_info b1) \<and> (\<forall>(p, s) \<in> set ps. bag_get b' p = s) \<and>
    (\<forall>q. q \<notin> fst ` set ps \<longrightarrow> bag_get b' q = bag_get b1 q)"
    by (rule Cons.IH) (use b1 Cons.prems x in auto)
  then obtain b' where b': "assign_suffixes nd ps b1 = Inr b'" "bag_ok b'" "bag_bits b' = bag_bits b1"
    "length (bag_info b') = length (bag_info b1)" "\<forall>(p, s) \<in> set ps. bag_get b' p = s"
    "\<forall>q. q \<notin> fst ` set ps \<longrightarrow> bag_get b' q = bag_get b1 q" by blast
  have "p \<notin> fst ` set ps" using Cons.prems(2) x by simp
  then show ?case using b1 b' x by (auto intro!: exI [of _ b'])
qed auto

section \<open>No suffix is lost\<close>

text \<open>
  A leaf with a bag of its own no longer uses the one behind it; a leaf without any bag has no key with a suffix.
\<close>

definition suffixes_ok :: "nat list \<Rightarrow> mass_leaf \<Rightarrow> mass_heap \<Rightarrow> bool" where
  "suffixes_ok used l h \<longleftrightarrow>
     (if ksuf l \<noteq> 0 then
        extrasize64 l < 0 \<and> (\<exists>b. bags h (ksuf l) = Some b \<and> bag_ok b \<and> bag_bits b = 16 \<and> length (bag_info b) = mt_width)
      else if 0 < extrasize64 l then bag_ok (iksuf l) \<and> length (bag_info (iksuf l)) = mt_width
      else \<forall>q \<in> set used. unat (keylenx l ! q) \<noteq> ksuf_keylenx)"

definition suffix_of :: "mass_leaf \<Rightarrow> mass_heap \<Rightarrow> nat \<Rightarrow> u8 list" where
  "suffix_of l h q = (case leaf_bag l h of Inr b \<Rightarrow> bag_get b q | Inl e \<Rightarrow> [])"

lemma ready_slots_set:
  "set (ready_slots initializing p l) = {q \<in> set (if initializing then [0..<p] else map (kp_at (permutation l)) [0..<leaf_size l]).
     q \<noteq> p \<and> unat (keylenx l ! q) = ksuf_keylenx}"
  by (auto simp: ready_slots_def)

lemma grow_ksuf_keeps:
  assumes "leaf_bag l h = Inr b" and "distinct (ready_slots initializing p l)" and "\<forall>q \<in> set (ready_slots initializing p l). q < mt_width"
    and "p < mt_width" and "p \<notin> set (ready_slots initializing p l)"
    and "pool_allocate h = (ptr, h1)" and "ptr \<noteq> 0"
    and space: "bag_safe_size 16 mt_width (sum_list (map (length \<circ> bag_get b) (ready_slots initializing p l)) + length s) \<le> 2 ^ 15"
    and old: "ksuf l \<noteq> 0 \<Longrightarrow> bag_capacity b < 2 ^ 16"
  shows "\<exists>l' h' b'. grow_ksuf nd initializing p s l h = Inr (l', h') \<and> ksuf l' = ptr \<and> extrasize64 l' < 0 \<and>
    bags h' = (bags h)(ptr \<mapsto> b') \<and> bag_ok b' \<and> bag_bits b' = 16 \<and> length (bag_info b') = mt_width \<and> bag_get b' p = s \<and>
    (\<forall>q \<in> set (ready_slots initializing p l). bag_get b' q = bag_get b q)"
proof -
  let ?R = "ready_slots initializing p l"
  let ?sufs = "map (\<lambda>q. (q, bag_get b q)) ?R"
  let ?csz = "sum_list (map (length \<circ> snd) ?sufs)"
  have csz: "?csz = sum_list (map (length \<circ> bag_get b) ?R)" by (simp add: comp_def)
  let ?safe = "bag_safe_size 16 mt_width (?csz + length s)"
  let ?sz = "if ksuf l \<noteq> 0 then max (iceil_log2 ?safe) (bag_capacity b) else iceil_log2 ?safe"
  have safe: "?safe = 64 + ?csz + length s + 7" by (simp add: bag_safe_size_def bag_overhead_def bag_slice_size_def mt_width_def)
  then have "0 < ?safe" by simp
  have "?safe \<le> 2 ^ 15" using space unfolding csz .
  then have ice: "?safe \<le> iceil_log2 ?safe" "iceil_log2 ?safe \<le> 2 ^ 15"
    using iceil_log2_bounds [OF \<open>0 < ?safe\<close>] by blast+
  have sz: "?safe \<le> ?sz" "?sz < 2 ^ 16" using ice old by auto
  have "\<exists>b0. make_bag nd 16 mt_width ?sz = Inr b0 \<and> bag_ok b0 \<and> bag_bits b0 = 16 \<and> length (bag_info b0) = mt_width \<and>
      bag_capacity b0 = ?sz \<and> (\<forall>q. bag_get b0 q = [])"
    using sz safe by (intro make_bag_ok) (simp_all add: bag_overhead_def mt_width_def)
  then obtain b0 where b0: "make_bag nd 16 mt_width ?sz = Inr b0" "bag_ok b0" "bag_bits b0 = 16"
    "length (bag_info b0) = mt_width" "bag_capacity b0 = ?sz" by blast
  have size0: "bag_size b0 = 64" using b0(1) by (auto simp: make_bag_def empty_bag_def bag_overhead_def mt_width_def split: if_splits)
  have "\<exists>b1. assign_suffixes nd (?sufs @ [(p, s)]) b0 = Inr b1 \<and> bag_ok b1 \<and> bag_bits b1 = bag_bits b0 \<and>
    length (bag_info b1) = length (bag_info b0) \<and> (\<forall>(q, t) \<in> set (?sufs @ [(p, s)]). bag_get b1 q = t) \<and>
    (\<forall>q. q \<notin> fst ` set (?sufs @ [(p, s)]) \<longrightarrow> bag_get b1 q = bag_get b0 q)"
  proof (rule assign_suffixes_fill [OF b0(2)])
    have "map fst ?sufs = ?R" by (simp add: comp_def)
    then show "distinct (map fst (?sufs @ [(p, s)]))" using assms(2,5) by simp
    show "\<forall>(q, t) \<in> set (?sufs @ [(p, s)]). q < length (bag_info b0)" using assms(3,4) b0(4) by auto
    show "bag_size b0 + sum_list (map (length \<circ> snd) (?sufs @ [(p, s)])) + 7 \<le> bag_capacity b0"
      using sz(1) safe by (simp add: size0 b0(5))
  qed
  then obtain b1 where b1: "assign_suffixes nd (?sufs @ [(p, s)]) b0 = Inr b1" "bag_ok b1" "bag_bits b1 = 16"
    "length (bag_info b1) = mt_width" "\<forall>(q, t) \<in> set (?sufs @ [(p, s)]). bag_get b1 q = t"
    using b0(3,4) by auto
  have h1: "bags h1 = bags h" using assms(6) by (auto simp: pool_allocate_def split: list.splits)
  have "\<exists>l' h'. grow_ksuf nd initializing p s l h = Inr (l', h') \<and> ksuf l' = ptr \<and> extrasize64 l' < 0 \<and>
      bags h' = (bags h)(ptr \<mapsto> b1)"
    using assms(1,6,7) b0(1) b1(1) h1 by (simp add: grow_ksuf_def Let_def)
  then show ?thesis using b1(2-5) by fastforce
qed

text \<open>The space that a new bag would need must stay in the 16 bits of a bag, and memory must be left.\<close>

definition suffix_room :: "bool \<Rightarrow> nat \<Rightarrow> u8 list \<Rightarrow> mass_leaf \<Rightarrow> mass_heap \<Rightarrow> bool" where
  "suffix_room initializing p s l h \<longleftrightarrow> fst (pool_allocate h) \<noteq> 0 \<and>
     bag_safe_size 16 mt_width (sum_list (map (length \<circ> suffix_of l h) (ready_slots initializing p l)) + length s) \<le> 2 ^ 15"

lemma suffixes_okD:
  assumes "suffixes_ok used l h" and "\<And>q. q \<in> set (ready_slots initializing p l) \<Longrightarrow> q \<in> set used"
  shows "(\<exists>b. ksuf l \<noteq> 0 \<and> extrasize64 l < 0 \<and> bags h (ksuf l) = Some b \<and> bag_ok b \<and> bag_bits b = 16 \<and> length (bag_info b) = mt_width) \<or>
    (ksuf l = 0 \<and> 0 < extrasize64 l \<and> bag_ok (iksuf l) \<and> length (bag_info (iksuf l)) = mt_width) \<or>
    (ksuf l = 0 \<and> extrasize64 l \<le> 0 \<and> ready_slots initializing p l = [])"
proof (cases "ksuf l = 0 \<and> extrasize64 l \<le> 0")
  case True
  then have "\<forall>q \<in> set used. unat (keylenx l ! q) \<noteq> ksuf_keylenx" using assms(1) by (simp add: suffixes_ok_def)
  then have "set (ready_slots initializing p l) = {}" using assms(2) by (auto simp: ready_slots_set)
  then show ?thesis using True by simp
next
  case False
  then show ?thesis using assms(1) by (auto simp: suffixes_ok_def split: if_splits)
qed

text \<open>
  A suffix that is given to a slot of a leaf can be read back from it, and every other suffix in use is still what it was: if the
  bag of the leaf and the one behind it are both too small, a bag is made that has room for all of them.
\<close>

lemma no_suffix_is_lost:
  assumes "suffixes_ok used l h" and "suffix_room initializing p s l h" and "p < mt_width"
    and "distinct (ready_slots initializing p l)"
    and "\<And>q. q \<in> set (ready_slots initializing p l) \<Longrightarrow> q \<in> set used \<and> q < mt_width"
  shows "\<exists>l' h'. assign_ksuf nd initializing p s l h = Inr (l', h') \<and> suffixes_ok (p # used) l' h' \<and> same_slots l l' \<and>
    same_nodes h h' \<and> suffix_of l' h' p = s \<and> (\<forall>q \<in> set (ready_slots initializing p l). suffix_of l' h' q = suffix_of l h q)"
proof -
  let ?R = "ready_slots initializing p l"
  obtain ptr h1 where al: "pool_allocate h = (ptr, h1)" by fastforce
  have ptr: "ptr \<noteq> 0" using assms(2) al by (simp add: suffix_room_def)
  have p: "p \<notin> set ?R" by (simp add: ready_slots_set)
  have frame: "same_slots l l' \<and> same_nodes h h'" if "assign_ksuf nd initializing p s l h = Inr (l', h')" for l' h'
    using assign_ksuf_frame [OF that] .
  have grow: ?thesis
    if b: "leaf_bag l h = Inr b" and same: "try_ksuf p s l h = Inr (False, l, h2)" "try_iksuf p s l h2 = Inr (False, l, h2)"
      and h2: "h2 = h" and old: "ksuf l \<noteq> 0 \<Longrightarrow> bag_capacity b < 2 ^ 16" for b h2
  proof -
    have sb: "suffix_of l h = bag_get b" by (intro ext) (simp add: suffix_of_def b)
    have "bag_safe_size 16 mt_width (sum_list (map (length \<circ> bag_get b) ?R) + length s) \<le> 2 ^ 15"
      using assms(2) unfolding suffix_room_def sb by blast
    from grow_ksuf_keeps [OF b assms(4) _ assms(3) p al ptr this old] assms(5)
    obtain l' h' b' where g: "grow_ksuf nd initializing p s l h = Inr (l', h')" "ksuf l' = ptr" "extrasize64 l' < 0"
      "bags h' = (bags h)(ptr \<mapsto> b')" "bag_ok b'" "bag_bits b' = 16" "length (bag_info b') = mt_width" "bag_get b' p = s"
      "\<forall>q \<in> set ?R. bag_get b' q = bag_get b q" by blast
    have a: "assign_ksuf nd initializing p s l h = Inr (l', h')" using same h2 g(1) by (simp add: assign_ksuf_def)
    have "suffix_of l' h' = bag_get b'" by (intro ext) (simp add: suffix_of_def leaf_bag_def g(2,4) ptr)
    moreover have "suffixes_ok (p # used) l' h'" using g ptr by (simp add: suffixes_ok_def)
    ultimately show ?thesis using a g(8,9) sb frame [OF a] by simp
  qed
  from suffixes_okD [OF assms(1), of initializing p] assms(5)
  consider b where "ksuf l \<noteq> 0" "extrasize64 l < 0" "bags h (ksuf l) = Some b" "bag_ok b" "bag_bits b = 16" "length (bag_info b) = mt_width"
    | "ksuf l = 0" "0 < extrasize64 l" "bag_ok (iksuf l)" "length (bag_info (iksuf l)) = mt_width"
    | "ksuf l = 0" "extrasize64 l \<le> 0" "?R = []" by blast
  then show ?thesis
  proof cases
    case (1 b)
    have b: "leaf_bag l h = Inr b" using 1 by (simp add: leaf_bag_def)
    obtain ok b' where a: "bag_assign p s b = Inr (ok, b')" "bag_ok b'" "bag_bits b' = bag_bits b"
      "length (bag_info b') = length (bag_info b)"
      "if ok then bag_get b' p = s \<and> (\<forall>q. q \<noteq> p \<longrightarrow> bag_get b' q = bag_get b q) else b' = b"
      using bag_assign_cases [OF 1(4), of p s] assms(3) 1(6) by (smt (verit))
    show ?thesis
    proof (cases ok)
      case True
      let ?h' = "h\<lparr>bags := (bags h)(ksuf l \<mapsto> b')\<rparr>"
      have x: "assign_ksuf nd initializing p s l h = Inr (l, ?h')" using 1 b a True by (simp add: assign_ksuf_def try_ksuf_def)
      have "suffix_of l ?h' = bag_get b'" "suffix_of l h = bag_get b" by (intro ext; simp add: suffix_of_def leaf_bag_def 1)+
      moreover have "suffixes_ok (p # used) l ?h'" using 1 a by (simp add: suffixes_ok_def)
      ultimately show ?thesis using x a(5) True p frame [OF x] by fastforce
    next
      case False
      show ?thesis
      proof (rule grow [OF b, of h])
        show "try_ksuf p s l h = Inr (False, l, h)" using 1 b a False by (simp add: try_ksuf_def fun_upd_idem)
        show "bag_capacity b < 2 ^ 16" using 1 by (simp add: bag_ok_def)
      qed (use 1 in \<open>simp_all add: try_iksuf_def\<close>)
    qed
  next
    case 2
    have b: "leaf_bag l h = Inr (iksuf l)" using 2 by (simp add: leaf_bag_def)
    obtain ok b' where a: "bag_assign p s (iksuf l) = Inr (ok, b')" "bag_ok b'"
      "length (bag_info b') = length (bag_info (iksuf l))"
      "if ok then bag_get b' p = s \<and> (\<forall>q. q \<noteq> p \<longrightarrow> bag_get b' q = bag_get (iksuf l) q) else b' = iksuf l"
      using bag_assign_cases [OF 2(3), of p s] assms(3) 2(4) by (smt (verit))
    show ?thesis
    proof (cases ok)
      case True
      let ?l' = "l\<lparr>iksuf := b'\<rparr>"
      have x: "assign_ksuf nd initializing p s l h = Inr (?l', h)" using 2 a True by (simp add: assign_ksuf_def try_ksuf_def try_iksuf_def)
      have "suffix_of ?l' h = bag_get b'" "suffix_of l h = bag_get (iksuf l)" by (intro ext; simp add: suffix_of_def leaf_bag_def 2)+
      moreover have "suffixes_ok (p # used) ?l' h" using 2 a by (simp add: suffixes_ok_def)
      ultimately show ?thesis using x a(4) True p frame [OF x] by fastforce
    next
      case False
      show ?thesis
        by (rule grow [OF b, of h]) (use 2 a False in \<open>simp_all add: try_ksuf_def try_iksuf_def\<close>)
    qed
  next
    case 3
    show ?thesis
      by (rule grow [of "iksuf l" h]) (use 3 in \<open>simp_all add: leaf_bag_def try_ksuf_def try_iksuf_def\<close>)
  qed
qed

section \<open>What a slot holds\<close>

definition slot_suffix :: "mass_leaf \<Rightarrow> mass_heap \<Rightarrow> nat \<Rightarrow> u8 list" where
  "slot_suffix l h q = (if unat (keylenx l ! q) = ksuf_keylenx then suffix_of l h q else [])"

definition slot_content :: "mass_leaf \<Rightarrow> mass_heap \<Rightarrow> nat \<Rightarrow> u64 \<times> u8 \<times> u64 \<times> u8 list" where
  "slot_content l h q = (lf_ikey0 l ! q, keylenx l ! q, lv l ! q, slot_suffix l h q)"

definition key_content :: "mass_key \<Rightarrow> u64 \<times> u8 \<times> u64 \<times> u8 list" where
  "key_content k =
     (mk_ikey k, (if mk_has_suffix k then of_nat ksuf_keylenx else of_nat (mk_len k)), 0, (if mk_has_suffix k then mk_suffix k else []))"

definition used_slots :: "mass_leaf \<Rightarrow> nat list" where
  "used_slots l = take (leaf_size l) (kp_list mt_width (permutation l))"

definition leaf_contents :: "mass_leaf \<Rightarrow> mass_heap \<Rightarrow> (u64 \<times> u8 \<times> u64 \<times> u8 list) list" where
  "leaf_contents l h = map (slot_content l h) (used_slots l)"

fun content_rank :: "u64 \<times> u8 \<times> u64 \<times> u8 list \<Rightarrow> u64 \<times> nat" where
  "content_rank (ik, kx, v, s) = (ik, min 9 (unat kx))"

lemma content_ranks:
  "content_rank (slot_content l h q) = slot_rank l q" "content_rank (key_content k) = key_rank k"
  "map content_rank (leaf_contents l h) = leaf_entries l"
proof -
  show "content_rank (slot_content l h q) = slot_rank l q" for q by (simp add: slot_content_def slot_rank_def)
  then show "map content_rank (leaf_contents l h) = leaf_entries l"
    by (simp add: leaf_contents_def leaf_entries_def used_slots_def comp_def)
  show "content_rank (key_content k) = key_rank k"
    by (simp add: key_content_def key_rank_def mk_has_suffix_def ikey_size_def ksuf_keylenx_def unat_of_nat take_bit_nat_eq_self)
qed

text \<open>Keeping a suffix touches no bag but the one of the leaf and the one it makes.\<close>

lemma assign_ksuf_bags:
  assumes "assign_ksuf nd initializing p s l h = Inr (l', h')"
  shows "(\<forall>a. a \<noteq> ksuf l \<longrightarrow> a \<noteq> ksuf l' \<longrightarrow> bags h' a = bags h a) \<and>
    ((ksuf l' = ksuf l \<and> pool h' = pool h) \<or> pool h = ksuf l' # pool h')"
proof -
  have try1: "l1 = l \<and> (\<forall>a. a \<noteq> ksuf l \<longrightarrow> bags h1 a = bags h a) \<and> pool h1 = pool h"
    if "try_ksuf p s l h = Inr (ok, l1, h1)" for ok l1 h1
    using that by (auto simp: try_ksuf_def and_then_Inr_iff split: if_splits)
  have try2: "ksuf l2 = ksuf l1 \<and> h2 = h1" if "try_iksuf p s l1 h1 = Inr (ok, l2, h2)" for ok l1 h1 l2 h2
    using that by (auto simp: try_iksuf_def and_then_Inr_iff split: if_splits)
  have grow: "(\<forall>a. a \<noteq> ksuf l2 \<longrightarrow> bags h2 a = bags h1 a) \<and> pool h1 = ksuf l2 # pool h2"
    if g: "grow_ksuf nd initializing p s l1 h1 = Inr (l2, h2)" for l1 h1 l2 h2
  proof (cases "pool h1")
    case Nil
    then show ?thesis using g by (auto simp: grow_ksuf_def pool_allocate_def Let_def and_then_Inr_iff)
  next
    case (Cons x xs)
    then show ?thesis using g by (auto simp: grow_ksuf_def pool_allocate_def Let_def and_then_Inr_iff split: if_splits)
  qed
  obtain ok1 l1 h1 where 1: "try_ksuf p s l h = Inr (ok1, l1, h1)"
    and rest: "(if ok1 then Inr (l1, h1) else and_then (try_iksuf p s l1 h1) (\<lambda>(ok2, l2, h2).
       if ok2 then Inr (l2, h2) else grow_ksuf nd initializing p s l2 h2)) = Inr (l', h')"
    using assms by (auto simp: assign_ksuf_def and_then_Inr_iff)
  note t1 = try1 [OF 1]
  show ?thesis
  proof (cases ok1)
    case False
    then obtain ok2 l2 h2 where 2: "try_iksuf p s l1 h1 = Inr (ok2, l2, h2)"
      and rest2: "(if ok2 then Inr (l2, h2) else grow_ksuf nd initializing p s l2 h2) = Inr (l', h')"
      using rest by (auto simp: and_then_Inr_iff)
    show ?thesis
    proof (cases ok2)
      case True
      then show ?thesis using t1 try2 [OF 2] rest2 by simp
    next
      case False
      then have "grow_ksuf nd initializing p s l2 h2 = Inr (l', h')" using rest2 by simp
      from grow [OF this] show ?thesis using t1 try2 [OF 2] by simp
    qed
  qed (use rest t1 in simp)
qed

definition put_slot :: "nat \<Rightarrow> u64 \<Rightarrow> u8 \<Rightarrow> u64 \<Rightarrow> mass_leaf \<Rightarrow> mass_leaf" where
  "put_slot p ik kx v l = l\<lparr>lv := (lv l)[p := v], lf_ikey0 := (lf_ikey0 l)[p := ik], keylenx := (keylenx l)[p := kx]\<rparr>"

lemma sum_ready:
  assumes "p \<notin> set A" and "ready_slots initializing p l = filter (\<lambda>q. q \<noteq> p \<and> unat (keylenx l ! q) = ksuf_keylenx) A"
  shows "sum_list (map (length \<circ> suffix_of l h) (ready_slots initializing p l)) = sum_list (map (length \<circ> slot_suffix l h) A)"
  unfolding assms(2) using assms(1) by (induction A) (auto simp: slot_suffix_def)

text \<open>Filling a free slot, where \<open>A\<close> are the slots whose suffixes count.\<close>

lemma slot_put:
  fixes ik v :: u64 and kx :: u8
  assumes ok: "suffixes_ok A l h" and p: "p < mt_width" "p \<notin> set A"
    and A: "distinct A" "\<And>q. q \<in> set A \<Longrightarrow> q < mt_width" "A = (if initializing then [0..<p] else map (kp_at (permutation l)) [0..<leaf_size l])"
    and len: "length (lf_ikey0 l) = mt_width" "length (keylenx l) = mt_width" "length (lv l) = mt_width"
    and pool: "pool h \<noteq> []" "0 \<notin> set (pool h)"
    and room: "bag_safe_size 16 mt_width (sum_list (map (length \<circ> slot_suffix l h) A) + length s) \<le> 2 ^ 15"
    and kx: "unat kx \<noteq> ksuf_keylenx \<Longrightarrow> s = []"
  defines "l1 \<equiv> put_slot p ik kx v l"
  shows "\<exists>l' h'. (if unat kx = ksuf_keylenx then assign_ksuf nd initializing p s l1 h else Inr (l1, h)) = Inr (l', h') \<and>
    suffixes_ok (p # A) l' h' \<and> same_slots l1 l' \<and> same_nodes h h' \<and>
    slot_content l' h' p = (ik, kx, v, s) \<and> (\<forall>q \<in> set A. slot_content l' h' q = slot_content l h q) \<and>
    (\<forall>a. a \<noteq> ksuf l \<longrightarrow> a \<noteq> ksuf l' \<longrightarrow> bags h' a = bags h a) \<and>
    ((ksuf l' = ksuf l \<and> pool h' = pool h) \<or> pool h = ksuf l' # pool h')"
proof -
  have l1: "keylenx l1 = (keylenx l)[p := kx]" "lf_ikey0 l1 = (lf_ikey0 l)[p := ik]" "lv l1 = (lv l)[p := v]"
    "ksuf l1 = ksuf l" "leaf_bag l1 = leaf_bag l" "suffix_of l1 = suffix_of l"
    by (auto simp: l1_def put_slot_def leaf_bag_def suffix_of_def fun_eq_iff)
  have ready: "ready_slots initializing p l1 = filter (\<lambda>q. q \<noteq> p \<and> unat (keylenx l1 ! q) = ksuf_keylenx) A"
    unfolding A(3) by (simp add: ready_slots_def l1_def put_slot_def leaf_size_def)
  have kl: "keylenx l1 ! q = keylenx l ! q" if "q \<in> set A" for q
  proof -
    have "p \<noteq> q" using that p(2) by blast
    then show ?thesis by (simp add: l1(1))
  qed
  have ok1: "suffixes_ok A l1 h"
    using ok kl by (simp add: suffixes_ok_def l1_def put_slot_def)
  have content: "slot_content l1 h q = slot_content l h q" if "q \<in> set A" for q
  proof -
    have "p \<noteq> q" using that p(2) by blast
    then show ?thesis by (simp add: slot_content_def slot_suffix_def l1)
  qed
  show ?thesis
  proof (cases "unat kx = ksuf_keylenx")
    case False
    have "suffixes_ok (p # A) l1 h" using ok1 False len p by (auto simp: suffixes_ok_def l1)
    moreover have "slot_content l1 h p = (ik, kx, v, s)"
      using len p False kx by (simp add: slot_content_def slot_suffix_def l1)
    ultimately show ?thesis using False content by (simp add: l1(4))
  next
    case True
    have "sum_list (map (length \<circ> suffix_of l1 h) (ready_slots initializing p l1)) = sum_list (map (length \<circ> slot_suffix l h) A)"
    proof -
      have "map (length \<circ> slot_suffix l1 h) A = map (length \<circ> slot_suffix l h) A"
        using kl by (simp add: slot_suffix_def l1)
      then show ?thesis using sum_ready [OF p(2) ready, of h] by (simp only:)
    qed
    moreover have "fst (pool_allocate h) \<noteq> 0" using pool by (cases "pool h") (auto simp: pool_allocate_def)
    ultimately have room1: "suffix_room initializing p s l1 h" using room by (simp add: suffix_room_def)
    have "distinct (ready_slots initializing p l1)" "\<And>q. q \<in> set (ready_slots initializing p l1) \<Longrightarrow> q \<in> set A \<and> q < mt_width"
      using A(1,2) by (auto simp: ready)
    from no_suffix_is_lost [OF ok1 room1 p(1) this] obtain l' h' where a: "assign_ksuf nd initializing p s l1 h = Inr (l', h')"
      "suffixes_ok (p # A) l' h'" "same_slots l1 l'" "same_nodes h h'" "suffix_of l' h' p = s"
      "\<forall>q \<in> set (ready_slots initializing p l1). suffix_of l' h' q = suffix_of l1 h q" by blast
    have same: "lf_ikey0 l' = lf_ikey0 l1" "keylenx l' = keylenx l1" "lv l' = lv l1" using a(3) by (simp_all add: same_slots_def)
    have "slot_content l' h' p = (ik, kx, v, s)"
      using a(5) len p True by (simp add: slot_content_def slot_suffix_def same l1)
    moreover have "slot_content l' h' q = slot_content l h q" if "q \<in> set A" for q
    proof -
      have "slot_suffix l' h' q = slot_suffix l1 h q"
        using a(6) that p(2) by (auto simp: slot_suffix_def same ready)
      then have "slot_content l' h' q = slot_content l1 h q" by (simp add: slot_content_def same)
      then show ?thesis using content [OF that] by simp
    qed
    ultimately show ?thesis using a(1-4) True assign_ksuf_bags [OF a(1)] by (simp add: l1(4))
  qed
qed

lemma leaf_assign_put:
  assumes "p < mt_width" and "key_content k = (ik, kx, v, s)"
  shows "leaf_assign nd initializing p k l h =
    (if unat kx = ksuf_keylenx then assign_ksuf nd initializing p s (put_slot p ik kx v l) h else Inr (put_slot p ik kx v l, h))"
    and "unat kx \<noteq> ksuf_keylenx \<Longrightarrow> s = []"
proof -
  have "unat kx = ksuf_keylenx \<longleftrightarrow> mk_has_suffix k"
    using assms(2) by (auto simp: key_content_def mk_has_suffix_def ikey_size_def ksuf_keylenx_def unat_of_nat take_bit_nat_eq_self split: if_splits)
  then show "leaf_assign nd initializing p k l h =
      (if unat kx = ksuf_keylenx then assign_ksuf nd initializing p s (put_slot p ik kx v l) h else Inr (put_slot p ik kx v l, h))"
    "unat kx \<noteq> ksuf_keylenx \<Longrightarrow> s = []"
    using assms by (auto simp: leaf_assign_def key_content_def put_slot_def Let_def split: if_splits)
qed

lemma leaf_assign_copy_put:
  assumes "p < mt_width" and "xp < mt_width" and "xp \<in> set A" and "suffixes_ok A x h" and "slot_content x h xp = (ik, kx, v, s)"
  shows "leaf_assign_copy nd p x xp l h =
    (if unat kx = ksuf_keylenx then assign_ksuf nd True p s (put_slot p ik kx v l) h else Inr (put_slot p ik kx v l, h))"
    and "unat kx \<noteq> ksuf_keylenx \<Longrightarrow> s = []"
proof -
  have c: "ik = lf_ikey0 x ! xp" "kx = keylenx x ! xp" "v = lv x ! xp" "s = slot_suffix x h xp"
    using assms(5) by (simp_all add: slot_content_def)
  show "unat kx \<noteq> ksuf_keylenx \<Longrightarrow> s = []" by (simp add: c slot_suffix_def)
  show "leaf_assign_copy nd p x xp l h =
    (if unat kx = ksuf_keylenx then assign_ksuf nd True p s (put_slot p ik kx v l) h else Inr (put_slot p ik kx v l, h))"
  proof (cases "unat kx = ksuf_keylenx")
    case True
    then have "\<exists>b. leaf_bag x h = Inr b" using assms(3,4) c(2) by (auto simp: suffixes_ok_def leaf_bag_def split: if_splits)
    then obtain b where "leaf_bag x h = Inr b" by blast
    then show ?thesis using True assms(1,2) c by (simp add: leaf_assign_copy_def put_slot_def slot_suffix_def suffix_of_def)
  next
    case False
    then show ?thesis using assms(1,2) c by (simp add: leaf_assign_copy_def put_slot_def)
  qed
qed

definition content_suffix :: "u64 \<times> u8 \<times> u64 \<times> u8 list \<Rightarrow> u8 list" where
  "content_suffix c = snd (snd (snd c))"

definition suffix_total :: "(u64 \<times> u8 \<times> u64 \<times> u8 list) list \<Rightarrow> nat" where
  "suffix_total cs = sum_list (map (length \<circ> content_suffix) cs)"

lemma suffix_total_simps [simp]:
  "suffix_total [] = 0" "suffix_total (cs @ ds) = suffix_total cs + suffix_total ds"
  "suffix_total ((ik, kx, v, s) # cs) = length s + suffix_total cs"
  by (simp_all add: suffix_total_def content_suffix_def)

lemma suffix_total_parts: "suffix_total (take n cs) \<le> suffix_total cs" "suffix_total (drop n cs) \<le> suffix_total cs"
proof -
  have "suffix_total cs = suffix_total (take n cs) + suffix_total (drop n cs)"
    by (metis append_take_drop_id suffix_total_simps(2))
  then show "suffix_total (take n cs) \<le> suffix_total cs" "suffix_total (drop n cs) \<le> suffix_total cs" by simp_all
qed

lemma suffix_total_slots: "sum_list (map (length \<circ> slot_suffix l h) A) = suffix_total (map (slot_content l h) A)"
  by (simp add: suffix_total_def content_suffix_def slot_content_def comp_def)

section \<open>Insertion keeps all slots\<close>

lemma used_slots_props:
  assumes "leaf_wf l"
  shows "length (used_slots l) = leaf_size l" and "distinct (used_slots l)" and "\<forall>q \<in> set (used_slots l). q < mt_width"
    and "i < leaf_size l \<Longrightarrow> used_slots l ! i = kp_at (permutation l) i"
    and "used_slots l = map (kp_at (permutation l)) [0..<leaf_size l]"
    and "length (leaf_contents l h) = leaf_size l"
proof -
  have ok: "kp_ok mt_width (permutation l)" using assms by (simp add: leaf_wf_def)
  note P = kp_ok_perm [OF ok]
  note n = leaf_size_le [OF assms]
  show len: "length (used_slots l) = leaf_size l" using n by (simp add: used_slots_def)
  then show "length (leaf_contents l h) = leaf_size l" by (simp add: leaf_contents_def)
  show "distinct (used_slots l)" using P by (simp add: used_slots_def)
  show "\<forall>q \<in> set (used_slots l). q < mt_width" using P(2) by (auto simp: used_slots_def dest: in_set_takeD)
  show nth: "used_slots l ! i = kp_at (permutation l) i" if "i < leaf_size l" for i
    using that n by (simp add: used_slots_def)
  show "used_slots l = map (kp_at (permutation l)) [0..<leaf_size l]"
    by (intro nth_equalityI) (simp_all add: len nth)
qed

text \<open>A list with a new element at its place.\<close>

definition with_key :: "nat \<Rightarrow> 'a \<Rightarrow> 'a list \<Rightarrow> 'a list" where
  "with_key p x E = take p E @ x # drop p E"

lemma with_key_simps [simp]:
  "p \<le> length E \<Longrightarrow> length (with_key p x E) = Suc (length E)"
  "p \<le> length E \<Longrightarrow> i \<le> length E \<Longrightarrow> with_key p x E ! i = (if i < p then E ! i else if i = p then x else E ! (i - 1))"
  by (auto simp: with_key_def nth_append nth_Cons' min_absorb2)

lemma entries_with_key:
  assumes "leaf_wf l" and "leaf_lower k l = (p, None)"
  shows "p \<le> leaf_size l" and "sorted_wrt (<) (with_key p (key_rank k) (leaf_entries l))"
    and "length (with_key p (key_rank k) (leaf_entries l)) = Suc (leaf_size l)"
    and "\<forall>e \<in> set (with_key p (key_rank k) (leaf_entries l)). snd e \<le> 9"
proof -
  have found: "p \<le> leaf_size l" "\<And>j. j < p \<Longrightarrow> leaf_entries l ! j < key_rank k"
    "\<And>j. p \<le> j \<Longrightarrow> j < leaf_size l \<Longrightarrow> key_rank k < leaf_entries l ! j"
    using lower_bound_finds [OF assms(1) assms(2) [unfolded leaf_lower_def]] by auto
  show "p \<le> leaf_size l" by (rule found(1))
  have "sorted_wrt (<) (leaf_entries l)" using assms(1) by (simp add: leaf_wf_def)
  with found show "sorted_wrt (<) (with_key p (key_rank k) (leaf_entries l))"
    unfolding with_key_def by (intro insert_at_sorted) (simp_all add: length_entries [OF assms(1)])
  show "length (with_key p (key_rank k) (leaf_entries l)) = Suc (leaf_size l)"
    using found(1) by (simp add: length_entries [OF assms(1)])
  show "\<forall>e \<in> set (with_key p (key_rank k) (leaf_entries l)). snd e \<le> 9"
  proof
    fix e
    assume "e \<in> set (with_key p (key_rank k) (leaf_entries l))"
    then have "e = key_rank k \<or> e \<in> set (leaf_entries l)" by (auto simp: with_key_def dest: in_set_takeD in_set_dropD)
    then show "snd e \<le> 9" by (auto simp: leaf_entries_def slot_rank_def key_rank_def)
  qed
qed

lemma wf_from_contents:
  assumes "length (lf_ikey0 l) = mt_width" and "length (keylenx l) = mt_width" and "length (lv l) = mt_width"
    and "kp_ok mt_width (permutation l)" and "sorted_wrt (<) (map content_rank (leaf_contents l h))"
  shows "leaf_wf l"
  using assms by (simp add: leaf_wf_def content_ranks)

lemma suffixes_ok_mono: "suffixes_ok A l h \<Longrightarrow> set B \<subseteq> set A \<Longrightarrow> suffixes_ok B l h"
  by (auto simp: suffixes_ok_def split: if_splits)

lemma sorted_contents:
  assumes "leaf_wf l" and "leaf_lower k l = (p, None)"
  shows "map content_rank (with_key p (key_content k) (leaf_contents l h)) = with_key p (key_rank k) (leaf_entries l)"
    and "sorted_wrt (<) (map content_rank (with_key p (key_content k) (leaf_contents l h)))"
proof -
  show "map content_rank (with_key p (key_content k) (leaf_contents l h)) = with_key p (key_rank k) (leaf_entries l)"
    by (simp add: with_key_def content_ranks take_map [symmetric] drop_map [symmetric])
  with entries_with_key(2) [OF assms] show "sorted_wrt (<) (map content_rank (with_key p (key_content k) (leaf_contents l h)))" by simp
qed

text \<open>A key gets the slot at the back of the permuter, in a leaf or in the part of it that remains.\<close>

lemma insert_at_back:
  assumes wf: "leaf_wf l" and l1: "leaf_size l1 < mt_width" "used_slots l1 = take (leaf_size l1) (used_slots l)" "kp_ok mt_width (permutation l1)"
      "leaf_size l1 \<le> leaf_size l"
    and same: "lf_ikey0 l1 = lf_ikey0 l" "keylenx l1 = keylenx l" "lv l1 = lv l" "slot_content l1 = slot_content l"
    and p: "p \<le> leaf_size l1" and ok: "suffixes_ok (used_slots l1) l1 h1" and pool: "pool h1 \<noteq> []" "0 \<notin> set (pool h1)"
    and room: "bag_safe_size 16 mt_width (suffix_total (with_key p (key_content k) (leaf_contents l h1))) \<le> 2 ^ 15"
    and sorted: "sorted_wrt (<) (map content_rank (with_key p (key_content k) (take (leaf_size l1) (leaf_contents l h1))))"
  shows "\<exists>l2 h2. leaf_assign nd False (kp_back mt_width (permutation l1)) k l1 h1 = Inr (l2, h2) \<and>
    leaf_wf (finish_insert p l2) \<and>
    leaf_contents (finish_insert p l2) h2 = with_key p (key_content k) (take (leaf_size l1) (leaf_contents l h1)) \<and>
    suffixes_ok (used_slots (finish_insert p l2)) (finish_insert p l2) h2 \<and>
    (\<forall>a. a \<noteq> ksuf l1 \<longrightarrow> a \<noteq> ksuf l2 \<longrightarrow> bags h2 a = bags h1 a) \<and>
    ((ksuf l2 = ksuf l1 \<and> pool h2 = pool h1) \<or> pool h1 = ksuf l2 # pool h2) \<and>
    used_slots (finish_insert p l2) = with_key p (kp_back mt_width (permutation l1)) (used_slots l1) \<and> same_nodes h1 h2 \<and>
    lf_version l2 = lf_version l1 \<and> lf_parent l2 = lf_parent l1"
proof -
  let ?q = "kp_back mt_width (permutation l1)" and ?A = "used_slots l1" and ?m = "leaf_size l1"
  have len: "length (lf_ikey0 l1) = mt_width" "length (keylenx l1) = mt_width" "length (lv l1) = mt_width"
    using wf by (simp_all add: same leaf_wf_def)
  note s = insert_slot [OF l1(3) l1(1) [unfolded leaf_size_def] p [unfolded leaf_size_def], folded leaf_size_def, folded used_slots_def]
  have A: "distinct ?A" "\<And>q. q \<in> set ?A \<Longrightarrow> q < mt_width" "?A = map (kp_at (permutation l1)) [0..<?m]"
  proof -
    show "distinct ?A" using kp_ok_perm(1) [OF l1(3)] by (simp add: used_slots_def)
    show "q < mt_width" if "q \<in> set ?A" for q using that kp_ok_perm(2) [OF l1(3)] by (auto simp: used_slots_def dest: in_set_takeD)
    show "?A = map (kp_at (permutation l1)) [0..<?m]"
      using l1(1) by (intro nth_equalityI) (simp_all add: used_slots_def)
  qed
  obtain ik kx v sf where kc: "key_content k = (ik, kx, v, sf)" by (metis prod_cases4)
  note put = leaf_assign_put [OF s(1) kc]
  have cl: "map (slot_content l1 h1) ?A = take ?m (leaf_contents l h1)"
    by (simp add: l1(2) same(4) leaf_contents_def take_map)
  have "suffix_total (take ?m (leaf_contents l h1)) + length sf \<le> suffix_total (with_key p (key_content k) (leaf_contents l h1))"
  proof -
    have "suffix_total (leaf_contents l h1) = suffix_total (take p (leaf_contents l h1)) + suffix_total (drop p (leaf_contents l h1))"
      by (metis append_take_drop_id suffix_total_simps(2))
    then show ?thesis using suffix_total_parts(1) [of ?m "leaf_contents l h1"] by (simp add: with_key_def kc)
  qed
  then have rm: "bag_safe_size 16 mt_width (sum_list (map (length \<circ> slot_suffix l1 h1) ?A) + length sf) \<le> 2 ^ 15"
    using room unfolding suffix_total_slots cl by (simp add: bag_safe_size_def)
  have "\<exists>l2 h2. (if unat kx = ksuf_keylenx then assign_ksuf nd False ?q sf (put_slot ?q ik kx v l1) h1 else Inr (put_slot ?q ik kx v l1, h1)) = Inr (l2, h2) \<and>
    suffixes_ok (?q # ?A) l2 h2 \<and> same_slots (put_slot ?q ik kx v l1) l2 \<and> same_nodes h1 h2 \<and>
    slot_content l2 h2 ?q = (ik, kx, v, sf) \<and> (\<forall>q \<in> set ?A. slot_content l2 h2 q = slot_content l1 h1 q) \<and>
    (\<forall>a. a \<noteq> ksuf l1 \<longrightarrow> a \<noteq> ksuf l2 \<longrightarrow> bags h2 a = bags h1 a) \<and>
    ((ksuf l2 = ksuf l1 \<and> pool h2 = pool h1) \<or> pool h1 = ksuf l2 # pool h2)"
    by (rule slot_put [OF ok s(1) s(2) A(1,2) _ len pool rm put(2)]) (simp_all add: A(3))
  then obtain l2 h2 where a: "leaf_assign nd False ?q k l1 h1 = Inr (l2, h2)"
    "suffixes_ok (?q # ?A) l2 h2" "same_slots (put_slot ?q ik kx v l1) l2"
    "slot_content l2 h2 ?q = key_content k" "\<forall>q \<in> set ?A. slot_content l2 h2 q = slot_content l1 h1 q"
    "\<forall>a. a \<noteq> ksuf l1 \<longrightarrow> a \<noteq> ksuf l2 \<longrightarrow> bags h2 a = bags h1 a"
    "(ksuf l2 = ksuf l1 \<and> pool h2 = pool h1) \<or> pool h1 = ksuf l2 # pool h2" "same_nodes h1 h2"
    unfolding put(1) [symmetric] kc by blast
  let ?f = "finish_insert p l2"
  have perm: "permutation l2 = permutation l1" using a(3) by (simp add: same_slots_def put_slot_def)
  have u: "used_slots ?f = take p ?A @ ?q # drop p ?A" using s(5) by (simp add: used_slots_def finish_insert_def perm leaf_size_def)
  have sc: "slot_content ?f h2 = slot_content l2 h2"
    by (intro ext) (simp add: finish_insert_def slot_content_def slot_suffix_def suffix_of_def leaf_bag_def)
  have "leaf_contents ?f h2 = take p (map (slot_content l2 h2) ?A) @ key_content k # drop p (map (slot_content l2 h2) ?A)"
    by (simp add: leaf_contents_def u sc a(4) take_map drop_map)
  also have "map (slot_content l2 h2) ?A = map (slot_content l1 h1) ?A" using a(5) by simp
  finally have c: "leaf_contents ?f h2 = with_key p (key_content k) (take ?m (leaf_contents l h1))" by (simp add: cl with_key_def)
  have "length (lf_ikey0 ?f) = mt_width" "length (keylenx ?f) = mt_width" "length (lv ?f) = mt_width"
    using a(3) len by (simp_all add: same_slots_def put_slot_def finish_insert_def)
  moreover have "kp_ok mt_width (permutation ?f)" using s(3) by (simp add: finish_insert_def perm)
  ultimately have wf': "leaf_wf ?f" by (rule wf_from_contents [where h = h2]) (simp add: c sorted)
  have "suffixes_ok (used_slots ?f) l2 h2" by (rule suffixes_ok_mono [OF a(2)]) (auto simp: u dest: in_set_takeD in_set_dropD)
  then have "suffixes_ok (used_slots ?f) ?f h2" by (simp add: suffixes_ok_def finish_insert_def)
  moreover have "used_slots ?f = with_key p ?q ?A" by (simp add: u with_key_def)
  moreover have "lf_version l2 = lf_version l1" "lf_parent l2 = lf_parent l1"
    using a(3) by (simp_all add: same_slots_def put_slot_def)
  ultimately show ?thesis using a(1,6,7,8) wf' c by blast
qed


definition insert_ready :: "nat \<Rightarrow> mass_key \<Rightarrow> mass_leaf \<Rightarrow> mass_heap \<Rightarrow> bool" where
  "insert_ready p k l h \<longleftrightarrow>
     suffixes_ok (used_slots l) l h \<and> pool h \<noteq> [] \<and> 0 \<notin> set (pool h) \<and>
     bag_safe_size 16 mt_width (suffix_total (with_key p (key_content k) (leaf_contents l h))) \<le> 2 ^ 15"

lemma permuted_contents [simp]:
  "slot_content (l\<lparr>permutation := x\<rparr>) = slot_content l" "suffixes_ok A (l\<lparr>permutation := x\<rparr>) = suffixes_ok A l"
  by (auto simp: slot_content_def slot_suffix_def suffix_of_def leaf_bag_def suffixes_ok_def fun_eq_iff)

lemma enter_insert_contents [simp]:
  "slot_content (enter_insert_state l) = slot_content l" "used_slots (enter_insert_state l) = used_slots l"
  "leaf_contents (enter_insert_state l) = leaf_contents l" "suffixes_ok A (enter_insert_state l) = suffixes_ok A l"
proof -
  show c: "slot_content (enter_insert_state l) = slot_content l" "used_slots (enter_insert_state l) = used_slots l"
    by (auto simp: slot_content_def slot_suffix_def suffix_of_def leaf_bag_def used_slots_def enter_insert_state_def leaf_size_def fun_eq_iff)
  then show "leaf_contents (enter_insert_state l) = leaf_contents l" by (simp add: leaf_contents_def fun_eq_iff)
  show "suffixes_ok A (enter_insert_state l) = suffixes_ok A l"
    by (simp add: suffixes_ok_def enter_insert_state_def fun_eq_iff)
qed

lemma enter_insert_header [simp]:
  "lf_parent (enter_insert_state l) = lf_parent l" "ksuf (enter_insert_state l) = ksuf l"
  by (simp_all add: enter_insert_state_def)

lemma leaf_insert_spec:
  assumes "leaf_wf l" and "leaf_lower k l = (p, None)" and "insert_ready p k l h"
  shows "\<exists>q l' h'. leaf_insert nd k p l h = Inr (q, l', h') \<and>
    (case q of
      Some s \<Rightarrow> s \<notin> set (used_slots l) \<and> leaf_wf l' \<and> suffixes_ok (used_slots l') l' h' \<and>
        leaf_contents l' h' = with_key p (key_content k) (leaf_contents l h) \<and>
        used_slots l' = with_key p s (used_slots l) \<and> same_nodes h h' \<and>
        lf_version l' = lf_version (enter_insert_state l) \<and> lf_parent l' = lf_parent l \<and>
        (\<forall>a. a \<noteq> ksuf l \<longrightarrow> a \<noteq> ksuf l' \<longrightarrow> bags h' a = bags h a) \<and> (ksuf l' = ksuf l \<or> ksuf l' \<in> set (pool h))
    | None \<Rightarrow> mt_width - 1 \<le> leaf_size l \<and> l' = enter_insert_state l \<and> h' = h)"
proof -
  let ?l = "enter_insert_state l" and ?p = "kp_back mt_width (permutation l)"
  let ?perm = "kp_exchange (leaf_size l) (mt_width - 1) (permutation l)"
  let ?l2 = "?l\<lparr>permutation := ?perm\<rparr>"
  have wf: "leaf_wf ?l" using assms(1) by simp
  note E = entries_with_key [OF assms(1,2)] and used = used_slots_props [OF assms(1)]
  note sorted = sorted_contents(2) [OF assms(1,2), of h]
  have put: ?thesis
    if size: "leaf_size l < mt_width" and l1: "leaf_wf l1" "leaf_size l1 = leaf_size l" "used_slots l1 = used_slots l"
      "slot_content l1 = slot_content l" "\<And>A. suffixes_ok A l1 = suffixes_ok A l"
      "lf_ikey0 l1 = lf_ikey0 l" "keylenx l1 = keylenx l" "lv l1 = lv l"
      "lf_version l1 = lf_version ?l" "lf_parent l1 = lf_parent l" "ksuf l1 = ksuf l"
      and f: "leaf_find_slot nd k l h = and_then (leaf_assign nd False (kp_back mt_width (permutation l1)) k l1 h)
        (\<lambda>(l2, h2). Inr (Some (kp_back mt_width (permutation l1)), l2, h2))" for l1
  proof -
    have okp: "kp_ok mt_width (permutation l1)" using l1(1) by (simp add: leaf_wf_def)
    have all: "take (leaf_size l1) (leaf_contents l h) = leaf_contents l h" using used(6) l1(2) by simp
    have "\<exists>l2 h2. leaf_assign nd False (kp_back mt_width (permutation l1)) k l1 h = Inr (l2, h2) \<and> leaf_wf (finish_insert p l2) \<and>
      leaf_contents (finish_insert p l2) h2 = with_key p (key_content k) (take (leaf_size l1) (leaf_contents l h)) \<and>
      suffixes_ok (used_slots (finish_insert p l2)) (finish_insert p l2) h2 \<and>
      (\<forall>a. a \<noteq> ksuf l1 \<longrightarrow> a \<noteq> ksuf l2 \<longrightarrow> bags h2 a = bags h a) \<and>
      ((ksuf l2 = ksuf l1 \<and> pool h2 = pool h) \<or> pool h = ksuf l2 # pool h2) \<and>
      used_slots (finish_insert p l2) = with_key p (kp_back mt_width (permutation l1)) (used_slots l1) \<and> same_nodes h h2 \<and>
      lf_version l2 = lf_version l1 \<and> lf_parent l2 = lf_parent l1"
      by (rule insert_at_back [OF assms(1) _ _ okp])
        (use size E(1) l1 used(1) assms(3) sorted all in \<open>simp_all add: insert_ready_def\<close>)
    then obtain l2 h2 where a: "leaf_assign nd False (kp_back mt_width (permutation l1)) k l1 h = Inr (l2, h2)"
      "leaf_wf (finish_insert p l2)" "leaf_contents (finish_insert p l2) h2 = with_key p (key_content k) (leaf_contents l h)"
      "suffixes_ok (used_slots (finish_insert p l2)) (finish_insert p l2) h2"
      "used_slots (finish_insert p l2) = with_key p (kp_back mt_width (permutation l1)) (used_slots l1)" "same_nodes h h2"
      "lf_version l2 = lf_version l1" "lf_parent l2 = lf_parent l1" "\<forall>a. a \<noteq> ksuf l1 \<longrightarrow> a \<noteq> ksuf l2 \<longrightarrow> bags h2 a = bags h a"
      "(ksuf l2 = ksuf l1 \<and> pool h2 = pool h) \<or> pool h = ksuf l2 # pool h2"
      unfolding all by blast
    have "kp_back mt_width (permutation l1) \<notin> set (used_slots l1)"
      using insert_slot(2) [OF okp, of 0] size l1(2) by (simp add: used_slots_def leaf_size_def)
    moreover have "ksuf l2 = ksuf l \<or> ksuf l2 \<in> set (pool h)" using a(10) l1(11) by auto
    moreover have "lf_version (finish_insert p l2) = lf_version l2" "lf_parent (finish_insert p l2) = lf_parent l2"
      "ksuf (finish_insert p l2) = ksuf l2" by (simp_all add: finish_insert_def)
    ultimately show ?thesis using a f l1(3,9-11) by (simp add: leaf_insert_def)
  qed
  show ?thesis
  proof (cases "leaf_size l < mt_width \<and> (?p \<noteq> 0 \<or> lf_prev l = 0 \<or> lf_ikey0 l ! 0 = mk_ikey k)")
    case True
    then show ?thesis using wf by (intro put [of ?l]) (simp_all add: leaf_find_slot_def Let_def)
  next
    case no: False
    show ?thesis
    proof (cases "leaf_size l < mt_width \<and> kp_back mt_width ?perm \<noteq> 0")
      case True
      have x: "leaf_wf ?l2" "leaf_size ?l2 = leaf_size l" "used_slots ?l2 = used_slots l"
        using exchanged_leaf [OF wf] True by (simp_all add: used_slots_def)
      then show ?thesis using True no x by (intro put [of ?l2]) (simp_all add: leaf_find_slot_def Let_def)
    next
      case False
      then have "leaf_insert nd k p l h = Inr (None, ?l, h)" using no by (auto simp: leaf_insert_def leaf_find_slot_def Let_def)
      then show ?thesis using leaf_insert_sorted [OF assms(1,2)] by fastforce
    qed
  qed
qed

text \<open>
  C12. Inserting a key that the search did not find returns. When a slot may be taken the leaf is in order, the key is at the place the
  search gave and all other slots hold what they held, values and suffixes included; otherwise at most one slot
  is free, nothing has changed, and the leaf is to be split.
\<close>

theorem leaf_insert_keeps_all:
  assumes "leaf_wf l" and "leaf_lower k l = (p, None)" and "insert_ready p k l h"
  shows "\<exists>q l' h'. leaf_insert nd k p l h = Inr (q, l', h') \<and>
    (case q of
      Some s \<Rightarrow> s \<notin> set (used_slots l) \<and> leaf_wf l' \<and> suffixes_ok (used_slots l') l' h' \<and>
        leaf_contents l' h' = with_key p (key_content k) (leaf_contents l h)
    | None \<Rightarrow> mt_width - 1 \<le> leaf_size l \<and> l' = enter_insert_state l \<and> h' = h)"
proof -
  from leaf_insert_spec [OF assms, of nd] obtain q l' h' where run: "leaf_insert nd k p l h = Inr (q, l', h')"
    and spec: "case q of
      Some s \<Rightarrow> s \<notin> set (used_slots l) \<and> leaf_wf l' \<and> suffixes_ok (used_slots l') l' h' \<and>
        leaf_contents l' h' = with_key p (key_content k) (leaf_contents l h) \<and>
        used_slots l' = with_key p s (used_slots l) \<and> same_nodes h h' \<and>
        lf_version l' = lf_version (enter_insert_state l) \<and> lf_parent l' = lf_parent l \<and>
        (\<forall>a. a \<noteq> ksuf l \<longrightarrow> a \<noteq> ksuf l' \<longrightarrow> bags h' a = bags h a) \<and> (ksuf l' = ksuf l \<or> ksuf l' \<in> set (pool h))
    | None \<Rightarrow> mt_width - 1 \<le> leaf_size l \<and> l' = enter_insert_state l \<and> h' = h" by blast
  show ?thesis by (intro exI [of _ q] exI [of _ l'] exI [of _ h']) (use run spec in \<open>cases q; simp\<close>)
qed

lemma filled_leaf_suffixes:
  assumes "n \<le> 15"
  shows "leaf_size (filled_leaf n) = n" "suffixes_ok (used_slots (filled_leaf n)) (filled_leaf n) h" "ksuf (filled_leaf n) = 0"
    "suffix_total (leaf_contents (filled_leaf n) h) = 0"
proof -
  have w: "mt_width = 15" by (simp add: mt_width_def)
  note sp = sorted_perm [of n, unfolded w, OF assms]
  show "leaf_size (filled_leaf n) = n" using sp by (simp add: leaf_size_def filled_leaf_def w)
  then have u: "used_slots (filled_leaf n) = [0..<n]" using sp by (simp add: used_slots_def filled_leaf_def w)
  have k: "unat (keylenx (filled_leaf n) ! q) = 8" if "q < n" for q using that assms by (simp add: filled_leaf_def)
  show "ksuf (filled_leaf n) = 0" by (simp add: filled_leaf_def blank_leaf_def)
  then show "suffixes_ok (used_slots (filled_leaf n)) (filled_leaf n) h"
    using k unfolding u by (simp add: suffixes_ok_def ksuf_keylenx_def) (simp add: filled_leaf_def blank_leaf_def mt_leaf_size_def)
  have "map (length \<circ> content_suffix \<circ> slot_content (filled_leaf n) h) [0..<n] = map (\<lambda>q. 0) [0..<n]"
    using k by (simp add: content_suffix_def slot_content_def slot_suffix_def ksuf_keylenx_def)
  then show "suffix_total (leaf_contents (filled_leaf n) h) = 0"
    by (simp add: suffix_total_def leaf_contents_def u comp_assoc map_replicate_const)
qed

lemma sample_mkey_content: "key_content sample_mkey = (3, 64, 0, [7, 7])"
  by (simp add: sample_mkey_def make_key_def key_content_def make_comparable_def pad_def ikey_size_def mk_has_suffix_def
      mk_suffix_def ksuf_keylenx_def)

lemma leaf_insert_keeps_all_witness:
  "\<exists>s l' h'. leaf_insert True sample_mkey 0 (filled_leaf 0) sample_layer = Inr (Some s, l', h') \<and>
    leaf_contents l' h' = [(3, 64, 0, [7, 7])]"
proof -
  have z: "leaf_contents (filled_leaf 0) sample_layer = []"
    using used_slots_props(6) [OF filled_leaf_wf] filled_leaf_suffixes(1) [of 0] by (metis length_0_conv zero_le)
  have "pool sample_layer = [128]" by (simp add: sample_layer_def)
  then have "insert_ready 0 sample_mkey (filled_leaf 0) sample_layer"
    using filled_leaf_suffixes(2) [of 0]
    by (simp add: insert_ready_def sample_mkey_content z with_key_def bag_safe_size_def bag_overhead_def bag_slice_size_def mt_width_def)
  moreover have "leaf_lower sample_mkey (filled_leaf 0) = (0, None)"
    using filled_leaf_suffixes(1) [of 0] by (simp add: leaf_lower_def key_lower_bound.simps)
  ultimately obtain q l' h' where "leaf_insert True sample_mkey 0 (filled_leaf 0) sample_layer = Inr (q, l', h')"
    "case q of Some s \<Rightarrow> leaf_contents l' h' = with_key 0 (key_content sample_mkey) (leaf_contents (filled_leaf 0) sample_layer) | None \<Rightarrow> mt_width - 1 \<le> leaf_size (filled_leaf 0)"
    using leaf_insert_keeps_all [OF filled_leaf_wf, of 0 sample_mkey 0 sample_layer True] by (auto split: option.splits)
  then show ?thesis using filled_leaf_suffixes(1) [of 0] by (cases q) (auto simp: z sample_mkey_content with_key_def mt_width_def)
qed

text \<open>
  C18. Removing a key takes exactly its slot out of those in use; the others keep their order and what they hold, and the answer says
  whether any is left.
\<close>

theorem leaf_remove_keeps_rest:
  assumes "leaf_wf l" and "i < leaf_size l" and "suffixes_ok (used_slots l) l h"
  defines "l' \<equiv> snd (leaf_remove i l)"
  shows "leaf_wf l' \<and> suffixes_ok (used_slots l') l' h \<and>
    leaf_contents l' h = take i (leaf_contents l h) @ drop (i + 1) (leaf_contents l h) \<and>
    (fst (leaf_remove i l) \<longleftrightarrow> leaf_contents l' h \<noteq> [])"
proof -
  note old = leaf_remove_sorted [OF assms(1,2), folded l'_def]
  have ok: "kp_size (permutation l) \<le> mt_width" using leaf_size_le [OF assms(1)] by (simp add: leaf_size_def)
  have perm: "permutation l' = kp_remove i (permutation l)" by (simp add: l'_def leaf_remove_def Let_def)
  have "kp_abs mt_width (permutation l') = lp_remove i (kp_abs mt_width (permutation l))"
    unfolding perm by (rule kp_remove_list) (use assms(2) ok in \<open>simp_all add: leaf_size_def mt_width_def\<close>)
  then have u: "used_slots l' = take i (used_slots l) @ drop (i + 1) (used_slots l)"
    using assms(2) ok by (simp add: used_slots_def leaf_size_def kp_abs_def drop_take min_absorb1)
  have sc: "slot_content l' = slot_content l"
    by (auto simp: l'_def leaf_remove_def Let_def slot_content_def slot_suffix_def suffix_of_def leaf_bag_def fun_eq_iff)
  have c: "leaf_contents l' h = take i (leaf_contents l h) @ drop (i + 1) (leaf_contents l h)"
    by (simp add: leaf_contents_def u sc take_map drop_map)
  have "suffixes_ok (used_slots l') l h" by (rule suffixes_ok_mono [OF assms(3)]) (auto simp: u dest: in_set_takeD in_set_dropD)
  moreover have "suffixes_ok A l' = suffixes_ok A l" for A by (simp add: suffixes_ok_def l'_def leaf_remove_def Let_def fun_eq_iff)
  ultimately have "suffixes_ok (used_slots l') l' h" by simp
  moreover have "leaf_entries l' \<noteq> [] \<longleftrightarrow> leaf_contents l' h \<noteq> []" by (metis content_ranks(3) list.map_disc_iff)
  ultimately show ?thesis using old c by simp
qed

lemma leaf_remove_keeps_rest_witness:
  "leaf_contents (snd (leaf_remove 0 (filled_leaf 2))) sample_layer = drop 1 (leaf_contents (filled_leaf 2) sample_layer) \<and>
    fst (leaf_remove 0 (filled_leaf 2))"
  using leaf_remove_keeps_rest [OF filled_leaf_wf, of 2 0 sample_layer] filled_leaf_suffixes [of 2]
    used_slots_props(6) [OF filled_leaf_wf, of 2 sample_layer] by force

end
