(* ===== verification/Masstree_Split.thy ===== *)
theory Masstree_Split
  imports Masstree_Suffix
begin

text \<open>
  The split of a full leaf (\<open>masstree_split.hh\<close>). The lemmas show that the split point of a leaf is
  found, never falls between two keys with the same integer, and that the two halves together hold
  the old keys and the new one in their order, suffixes included.
\<close>

section \<open>The split point of a leaf\<close>

definition ikey_after_insert :: "mass_leaf \<Rightarrow> nat \<Rightarrow> mass_key \<Rightarrow> nat \<Rightarrow> u64" where
  "ikey_after_insert l p k i =
     (if i < p then lf_ikey0 l ! kp_at (permutation l) i
      else if i = p then mk_ikey k
      else lf_ikey0 l ! kp_at (permutation l) (i - 1))"

text \<open>Once both indices are out of range the loop of the code goes on for ever.\<close>

function split_search :: "(nat \<Rightarrow> u64) \<Rightarrow> nat \<Rightarrow> u64 \<Rightarrow> int \<Rightarrow> nat \<Rightarrow> nat res" where
  "split_search key w x midl midr =
     (if midr \<le> w \<and> x \<noteq> key midr then Inr midr
      else if 0 \<le> midl \<and> x \<noteq> key (nat midl) then Inr (nat midl + 1)
      else if w < midr \<and> midl < 0 then Inl Spin
      else split_search key w x (midl - 1) (midr + 1))"
  by pat_completeness auto
termination
  by (relation "measure (\<lambda>(key, w, x, midl, midr). nat (midl + 1) + (w + 1 - midr))") auto

declare split_search.simps [simp del]

text \<open>The middle, but the ends of the layer when the keys come in order; keys with the same integer stay together.\<close>

definition split_point :: "mass_leaf \<Rightarrow> nat \<Rightarrow> mass_key \<Rightarrow> nat res" where
  "split_point l p k =
     (let w = leaf_size l;
        mid = (if p = 0 \<and> lf_prev l = 0 then 1 else if p = w \<and> lf_next l = 0 then w else mt_width div 2 + 1);
        key = ikey_after_insert l p k
      in if key mid = key (mid - 1) then split_search key w (key mid) (int mid - 2) (mid + 1) else Inr mid)"

lemma split_search_finds:
  assumes "\<And>j. midl < int j \<Longrightarrow> j < midr \<Longrightarrow> j \<le> w \<Longrightarrow> key j = x" and "midl + 2 < int midr \<and> 0 < midr" and "midl + 1 \<le> int w"
    and "\<exists>j \<le> w. key j \<noteq> x"
  shows "\<exists>m. split_search key w x midl midr = Inr m \<and> 0 < m \<and> m \<le> w \<and> key (m - 1) \<noteq> key m"
  using assms
proof (induction key w x midl midr rule: split_search.induct)
  case (1 key w x midl midr)
  note step = split_search.simps [of key w x midl midr]
  consider "midr \<le> w" "x \<noteq> key midr" | "\<not> (midr \<le> w \<and> x \<noteq> key midr)" "0 \<le> midl" "x \<noteq> key (nat midl)"
    | "\<not> (midr \<le> w \<and> x \<noteq> key midr)" "\<not> (0 \<le> midl \<and> x \<noteq> key (nat midl))" by blast
  then show ?case
  proof cases
    case 1
    have "key (midr - 1) = x" using 1(1) "1.prems"(1) [of "midr - 1"] "1.prems"(2) by simp
    then show ?thesis using 1 "1.prems"(2,3) by (simp add: step)
  next
    case 2
    have "key (nat midl + 1) = x" by (rule "1.prems"(1)) (use 2 "1.prems"(2,3) in linarith)+
    then show ?thesis using 2 "1.prems"(2,3) by (auto simp: step)
  next
    case 3
    have more: "key j = x" if "midl - 1 < int j" "j < midr + 1" "j \<le> w" for j
    proof -
      from that have "j = midr \<or> int j = midl \<or> (midl < int j \<and> j < midr)" by auto
      then show ?thesis using 3 that "1.prems"(1) [of j] by auto
    qed
    have "\<not> (w < midr \<and> midl < 0)"
    proof
      assume "w < midr \<and> midl < 0"
      then have "\<forall>j \<le> w. key j = x" using "1.prems"(1) by simp
      then show False using "1.prems"(4) by blast
    qed
    then have "split_search key w x midl midr = split_search key w x (midl - 1) (midr + 1)"
      using 3 by (auto simp: step)
    moreover have "\<exists>m. split_search key w x (midl - 1) (midr + 1) = Inr m \<and> 0 < m \<and> m \<le> w \<and> key (m - 1) \<noteq> key m"
      by (rule "1.IH" [OF 3 \<open>\<not> (w < midr \<and> midl < 0)\<close> more]) (use "1.prems" in auto)
    ultimately show ?thesis by simp
  qed
qed

text \<open>Ten keys at most agree in their first eight bytes, so a full leaf holds several integers.\<close>

lemma few_lengths:
  assumes "sorted_wrt (<) (E :: (u64 \<times> nat) list)" and "\<forall>e \<in> set E. snd e \<le> 9" and "10 < length E"
  shows "\<exists>i < length E. fst (E ! i) \<noteq> x"
proof (rule ccontr)
  assume "\<not> ?thesis"
  then have same: "\<forall>e \<in> set E. fst e = x" by (metis in_set_conv_nth)
  have "distinct (map snd E)"
  proof (rule distinct_map [THEN iffD2], intro conjI)
    show "distinct E" using assms(1) by (induction E) auto
    show "inj_on snd (set E)" using same by (auto simp: inj_on_def prod_eq_iff)
  qed
  moreover have "set (map snd E) \<subseteq> {0..9}" using assms(2) by auto
  ultimately have "length (map snd E) \<le> card {0 :: nat..9}"
    using distinct_card [of "map snd E"] card_mono [of "{0 :: nat..9}" "set (map snd E)"] by (metis finite_atLeastAtMost)
  then show False using assms(3) by simp
qed

lemma ikey_after_entries:
  assumes "leaf_wf l" and "p \<le> leaf_size l" and "i \<le> leaf_size l"
  shows "ikey_after_insert l p k i = fst (with_key p (key_rank k) (leaf_entries l) ! i)"
  using assms nth_entries [OF assms(1)] length_entries [OF assms(1)]
  by (simp add: ikey_after_insert_def slot_rank_def key_rank_def)

lemma split_point_bounds:
  assumes "leaf_wf l" and "leaf_lower k l = (p, None)" and "mt_width - 1 \<le> leaf_size l"
  shows "\<exists>m. split_point l p k = Inr m \<and> 0 < m \<and> m \<le> leaf_size l \<and>
    fst (with_key p (key_rank k) (leaf_entries l) ! (m - 1)) < fst (with_key p (key_rank k) (leaf_entries l) ! m)"
proof -
  let ?E = "with_key p (key_rank k) (leaf_entries l)" and ?w = "leaf_size l"
  let ?key = "ikey_after_insert l p k"
  define mid where "mid = (if p = 0 \<and> lf_prev l = 0 then 1 else if p = ?w \<and> lf_next l = 0 then ?w else mt_width div 2 + 1)"
  note E = entries_with_key [OF assms(1,2)]
  have key: "?key i = fst (?E ! i)" if "i \<le> ?w" for i using ikey_after_entries [OF assms(1) E(1) that] .
  have w: "14 \<le> ?w" using assms(3) by (simp add: mt_width_def)
  have mid: "0 < mid" "mid \<le> ?w" using w by (auto simp: mid_def mt_width_def)
  have "\<exists>m. split_point l p k = Inr m \<and> 0 < m \<and> m \<le> ?w \<and> ?key (m - 1) \<noteq> ?key m"
  proof (cases "?key mid = ?key (mid - 1)")
    case False
    then show ?thesis using mid by (simp add: split_point_def Let_def mid_def [symmetric])
  next
    case True
    have other: "\<exists>j \<le> ?w. ?key j \<noteq> ?key mid"
    proof -
      have "10 < length ?E" using E(3) w by simp
      then obtain i where "i < length ?E" "fst (?E ! i) \<noteq> ?key mid" using few_lengths [OF E(2,4)] by blast
      then show ?thesis using E(3) key by (intro exI [of _ i]) simp
    qed
    have near: "?key j = ?key mid" if "int mid - 2 < int j" "j < mid + 1" for j
    proof -
      have "j = mid \<or> j = mid - 1" using that mid by linarith
      then show ?thesis using True by auto
    qed
    have "\<exists>m. split_search ?key ?w (?key mid) (int mid - 2) (mid + 1) = Inr m \<and> 0 < m \<and> m \<le> ?w \<and> ?key (m - 1) \<noteq> ?key m"
      by (rule split_search_finds [OF near _ _ other]) (use mid in linarith)+
    then show ?thesis using True by (simp add: split_point_def Let_def mid_def [symmetric])
  qed
  then obtain m where m: "split_point l p k = Inr m" "0 < m" "m \<le> ?w" "?key (m - 1) \<noteq> ?key m" by blast
  then have "?E ! (m - 1) < ?E ! m" using sorted_wrt_nth_less [OF E(2), of "m - 1" m] E(3) by simp
  then have "fst (?E ! (m - 1)) \<le> fst (?E ! m)" by (auto simp: less_prod_def')
  moreover have "fst (?E ! (m - 1)) \<noteq> fst (?E ! m)" using m(3,4) key [of m] key [of "m - 1"] by simp
  ultimately have "fst (?E ! (m - 1)) < fst (?E ! m)" by simp
  then show ?thesis using m(1-3) by blast
qed

section \<open>Moving the upper slots to the new leaf\<close>

fun split_items ::
  "bool \<Rightarrow> mass_leaf \<Rightarrow> nat \<Rightarrow> mass_key \<Rightarrow> nat \<Rightarrow> nat list \<Rightarrow> u64 \<Rightarrow> mass_leaf \<Rightarrow> mass_heap \<Rightarrow> (mass_leaf \<times> mass_heap) res" where
  "split_items nd l p k mid [] pv nr h = Inr (nr, h)"
| "split_items nd l p k mid (x # xs) pv nr h =
     (if x = p then and_then (leaf_assign nd True (x - mid) k nr h) (\<lambda>(nr1, h1). split_items nd l p k mid xs pv nr1 h1)
      else and_then (leaf_assign_copy nd (x - mid) l (unat (pv AND 15)) nr h) (\<lambda>(nr1, h1).
        split_items nd l p k mid xs (drop_bit 4 pv) nr1 h1))"

text \<open>What holds between two rounds of the copying loop: slots \<open>0\<close> to \<open>j\<close> of the new leaf hold the first \<open>j\<close> of the contents to move.\<close>

definition moving :: "(u64 \<times> u8 \<times> u64 \<times> u8 list) list \<Rightarrow> mass_leaf \<Rightarrow> mass_heap \<Rightarrow> nat \<Rightarrow> mass_leaf \<Rightarrow> mass_heap \<Rightarrow> bool" where
  "moving D nr0 h0 j nr h \<longleftrightarrow>
     length (lf_ikey0 nr) = mt_width \<and> length (keylenx nr) = mt_width \<and> length (lv nr) = mt_width \<and>
     suffixes_ok [0..<j] nr h \<and> map (slot_content nr h) [0..<j] = take j D \<and> same_nodes h0 h \<and>
     permutation nr = permutation nr0 \<and> lf_prev nr = lf_prev nr0 \<and> lf_next nr = lf_next nr0 \<and> lf_version nr = lf_version nr0 \<and>
     (\<exists>n \<le> j. pool h = drop n (pool h0) \<and> (ksuf nr = 0 \<or> ksuf nr \<in> set (take n (pool h0))) \<and>
        (\<forall>a. a \<noteq> 0 \<longrightarrow> a \<notin> set (take n (pool h0)) \<longrightarrow> bags h a = bags h0 a))"

lemma moving_step:
  fixes ik v :: u64 and kx :: u8
  assumes mv: "moving D nr0 h0 j nr h" and j: "j < mt_width" "j < length D" "j < length (pool h0)"
    and pool: "0 \<notin> set (pool h0)" and D: "D ! j = (ik, kx, v, s)" "bag_safe_size 16 mt_width (suffix_total D) \<le> 2 ^ 15"
    and kx: "unat kx \<noteq> ksuf_keylenx \<Longrightarrow> s = []"
  shows "\<exists>nr' h'. (if unat kx = ksuf_keylenx then assign_ksuf nd True j s (put_slot j ik kx v nr) h else Inr (put_slot j ik kx v nr, h)) =
    Inr (nr', h') \<and> moving D nr0 h0 (Suc j) nr' h'"
proof -
  from mv obtain n where n: "n \<le> j" "pool h = drop n (pool h0)" "ksuf nr = 0 \<or> ksuf nr \<in> set (take n (pool h0))"
    "\<forall>a. a \<noteq> 0 \<longrightarrow> a \<notin> set (take n (pool h0)) \<longrightarrow> bags h a = bags h0 a" by (auto simp: moving_def)
  have tk: "take (Suc j) D = take j D @ [(ik, kx, v, s)]" using j(2) D(1) by (simp add: take_Suc_conv_app_nth)
  have "suffix_total (take (Suc j) D) \<le> suffix_total D" by (rule suffix_total_parts)
  then have "sum_list (map (length \<circ> slot_suffix nr h) [0..<j]) + length s \<le> suffix_total D"
    using mv tk by (simp add: suffix_total_slots moving_def)
  then have room: "bag_safe_size 16 mt_width (sum_list (map (length \<circ> slot_suffix nr h) [0..<j]) + length s) \<le> 2 ^ 15"
    using D(2) by (simp add: bag_safe_size_def)
  have ne: "pool h \<noteq> []" "0 \<notin> set (pool h)" using n(1,2) j(3) pool by (auto dest: in_set_dropD)
  have "\<exists>nr' h'. (if unat kx = ksuf_keylenx then assign_ksuf nd True j s (put_slot j ik kx v nr) h else Inr (put_slot j ik kx v nr, h)) = Inr (nr', h') \<and>
    suffixes_ok (j # [0..<j]) nr' h' \<and> same_slots (put_slot j ik kx v nr) nr' \<and> same_nodes h h' \<and>
    slot_content nr' h' j = (ik, kx, v, s) \<and> (\<forall>q \<in> set [0..<j]. slot_content nr' h' q = slot_content nr h q) \<and>
    (\<forall>a. a \<noteq> ksuf nr \<longrightarrow> a \<noteq> ksuf nr' \<longrightarrow> bags h' a = bags h a) \<and>
    ((ksuf nr' = ksuf nr \<and> pool h' = pool h) \<or> pool h = ksuf nr' # pool h')"
    by (rule slot_put) (use mv j(1) ne room kx in \<open>simp_all add: moving_def\<close>)
  then obtain nr' h' where a: "(if unat kx = ksuf_keylenx then assign_ksuf nd True j s (put_slot j ik kx v nr) h else Inr (put_slot j ik kx v nr, h)) = Inr (nr', h')"
    "suffixes_ok (j # [0..<j]) nr' h'" "same_slots (put_slot j ik kx v nr) nr'" "same_nodes h h'"
    "slot_content nr' h' j = (ik, kx, v, s)" "\<forall>q \<in> set [0..<j]. slot_content nr' h' q = slot_content nr h q"
    "\<forall>a. a \<noteq> ksuf nr \<longrightarrow> a \<noteq> ksuf nr' \<longrightarrow> bags h' a = bags h a"
    "(ksuf nr' = ksuf nr \<and> pool h' = pool h) \<or> pool h = ksuf nr' # pool h'" by blast
  have contents: "map (slot_content nr' h') [0..<Suc j] = take (Suc j) D"
  proof -
    have "map (slot_content nr' h') [0..<j] = map (slot_content nr h) [0..<j]" using a(6) by simp
    also have "\<dots> = take j D" using mv by (simp add: moving_def)
    finally show ?thesis using a(5) tk by simp
  qed
  have "\<exists>m \<le> Suc j. pool h' = drop m (pool h0) \<and> (ksuf nr' = 0 \<or> ksuf nr' \<in> set (take m (pool h0))) \<and>
      (\<forall>a. a \<noteq> 0 \<longrightarrow> a \<notin> set (take m (pool h0)) \<longrightarrow> bags h' a = bags h0 a)"
    using a(8)
  proof
    assume "ksuf nr' = ksuf nr \<and> pool h' = pool h"
    moreover from this have "bags h' a = bags h0 a" if "a \<noteq> 0" "a \<notin> set (take n (pool h0))" for a
      using that n(3,4) a(7) by metis
    ultimately show ?thesis using n(1-3) by (intro exI [of _ n]) simp
  next
    assume hd: "pool h = ksuf nr' # pool h'"
    then have lt: "n < length (pool h0)" using n(2) by (metis drop_all leI list.discI)
    then have "pool h0 ! n = ksuf nr'" "drop (Suc n) (pool h0) = pool h'" using hd n(2) by (simp_all add: Cons_nth_drop_Suc [symmetric])
    moreover from this(1) have tk1: "set (take (Suc n) (pool h0)) = insert (ksuf nr') (set (take n (pool h0)))"
      using lt by (simp add: take_Suc_conv_app_nth)
    moreover from this have "bags h' a = bags h0 a" if "a \<noteq> 0" "a \<notin> set (take (Suc n) (pool h0))" for a
      using that n(3,4) a(7) by (metis insertCI)
    ultimately show ?thesis using n(1) by (intro exI [of _ "Suc n"]) simp
  qed
  moreover have "suffixes_ok [0..<Suc j] nr' h'" using a(2) by (simp add: suffixes_ok_def)
  ultimately have "moving D nr0 h0 (Suc j) nr' h'"
    using mv a(3,4) contents same_trans(2) [of h0 h h'] unfolding moving_def by (simp add: same_slots_def put_slot_def)
  then show ?thesis using a(1) by blast
qed

lemma value_from_bits:
  "unat (kp_value_from i x AND 15) = kp_at x i" "drop_bit 4 (kp_value_from i x) = kp_value_from (i + 1) x"
proof -
  have "drop_bit 4 (kp_value_from i x) = drop_bit (4 + 4 * (i + 1)) x" by (simp add: kp_value_from_def)
  then show "drop_bit 4 (kp_value_from i x) = kp_value_from (i + 1) x" by (simp add: kp_value_from_def)
  show "unat (kp_value_from i x AND 15) = kp_at x i" by (simp add: kp_value_from_def kp_at_def algebra_simps)
qed

text \<open>The leaf that is read keeps its contents while the bags of the other grow.\<close>

lemma contents_kept:
  assumes "moving D nr0 h0 j nr h" and "ksuf l \<notin> set (pool h0)"
  shows "slot_content l h = slot_content l h0" and "suffixes_ok A l h = suffixes_ok A l h0"
proof -
  obtain n where "\<forall>a. a \<noteq> 0 \<longrightarrow> a \<notin> set (take n (pool h0)) \<longrightarrow> bags h a = bags h0 a" using assms(1) by (auto simp: moving_def)
  then have b: "ksuf l \<noteq> 0 \<Longrightarrow> bags h (ksuf l) = bags h0 (ksuf l)" using assms(2) by (blast dest: in_set_takeD)
  then show "suffixes_ok A l h = suffixes_ok A l h0" by (auto simp: suffixes_ok_def)
  have "leaf_bag l h = leaf_bag l h0" using b by (simp add: leaf_bag_def)
  then show "slot_content l h = slot_content l h0" by (intro ext) (simp add: slot_content_def slot_suffix_def suffix_of_def)
qed

lemma split_items_run:
  assumes wf: "leaf_wf l" and p: "p \<le> leaf_size l" and l: "suffixes_ok (used_slots l) l h0" "ksuf l \<notin> set (pool h0)"
    and pool: "0 \<notin> set (pool h0)" "leaf_size l < mid + length (pool h0)" and mid: "0 < mid"
    and room: "bag_safe_size 16 mt_width (suffix_total (with_key p (key_content k) (leaf_contents l h0))) \<le> 2 ^ 15"
    and x: "mid \<le> x" "x \<le> Suc (leaf_size l)"
    and mv: "moving (drop mid (with_key p (key_content k) (leaf_contents l h0))) nr0 h0 (x - mid) nr h"
  shows "\<exists>nr' h'. split_items nd l p k mid [x..<Suc (leaf_size l)] (kp_value_from (x - (if p < x then 1 else 0)) (permutation l)) nr h =
      Inr (nr', h') \<and> moving (drop mid (with_key p (key_content k) (leaf_contents l h0))) nr0 h0 (Suc (leaf_size l) - mid) nr' h'"
  using x mv
proof (induction "Suc (leaf_size l) - x" arbitrary: x nr h)
  case 0
  then have "x = Suc (leaf_size l)" by simp
  then show ?case using 0(4) by simp
next
  case (Suc d)
  let ?C = "with_key p (key_content k) (leaf_contents l h0)"
  note used = used_slots_props [OF wf]
  have "x \<le> leaf_size l" using Suc(2) by linarith
  then have xs: "x \<le> leaf_size l" "[x..<Suc (leaf_size l)] = x # [Suc x..<Suc (leaf_size l)]" by (simp_all add: upt_conv_Cons)
  have lenC: "length ?C = Suc (leaf_size l)" using p used(6) by simp
  have w: "leaf_size l \<le> mt_width" by (rule leaf_size_le [OF wf])
  have j: "x - mid < mt_width" "x - mid < length (drop mid ?C)" "x - mid < length (pool h0)"
    using xs(1) w mid pool(2) Suc(3) lenC by auto
  have Dj: "drop mid ?C ! (x - mid) = ?C ! x" using Suc(3) lenC xs(1) by simp
  have room1: "bag_safe_size 16 mt_width (suffix_total (drop mid ?C)) \<le> 2 ^ 15"
    using room suffix_total_parts(2) [of mid ?C] by (simp add: bag_safe_size_def)
  obtain ik kx v s where c: "?C ! x = (ik, kx, v, s)" by (metis prod_cases4)
  note step = moving_step [OF Suc(5) j pool(1) Dj [unfolded c] room1]
  show ?case
  proof (cases "x = p")
    case True
    then have kc: "key_content k = (ik, kx, v, s)" using c p used(6) by simp
    note put = leaf_assign_put [OF j(1) kc]
    obtain nr1 h1 where a: "leaf_assign nd True (x - mid) k nr h = Inr (nr1, h1)" "moving (drop mid ?C) nr0 h0 (Suc (x - mid)) nr1 h1"
      using step [OF put(2), of nd] put(1) [of nd True nr h] by (simp only:) blast
    have "\<exists>nr' h'. split_items nd l p k mid [Suc x..<Suc (leaf_size l)] (kp_value_from (Suc x - (if p < Suc x then 1 else 0)) (permutation l)) nr1 h1 =
        Inr (nr', h') \<and> moving (drop mid ?C) nr0 h0 (Suc (leaf_size l) - mid) nr' h'"
      by (rule Suc(1)) (use Suc(2,3) xs(1) a(2) in \<open>simp_all add: Suc_diff_le\<close>)
    then show ?thesis unfolding xs(2) using True a(1) by simp
  next
    case False
    let ?i = "x - (if p < x then 1 else 0)"
    have i: "?i < leaf_size l" using False xs(1) p by auto
    have xp: "kp_at (permutation l) ?i = used_slots l ! ?i" using used(4) [OF i] by simp
    have xm: "used_slots l ! ?i \<in> set (used_slots l)" using i used(1) by (intro nth_mem) simp
    have "slot_content l h0 (used_slots l ! ?i) = ?C ! x"
      using False xs(1) p i used(1,6) by (simp add: leaf_contents_def split: if_splits)
    then have sc: "slot_content l h (used_slots l ! ?i) = (ik, kx, v, s)" using contents_kept(1) [OF Suc(5) l(2)] c by simp
    have okl: "suffixes_ok (used_slots l) l h" using contents_kept(2) [OF Suc(5) l(2)] l(1) by simp
    have "used_slots l ! ?i < mt_width" using xm used(3) by blast
    note put = leaf_assign_copy_put [OF j(1) this xm okl sc]
    obtain nr1 h1 where a: "leaf_assign_copy nd (x - mid) l (used_slots l ! ?i) nr h = Inr (nr1, h1)"
      "moving (drop mid ?C) nr0 h0 (Suc (x - mid)) nr1 h1"
      using step [OF put(2), of nd] put(1) [of nd nr] by (simp only:) blast
    have pv: "kp_value_from (?i + 1) (permutation l) = kp_value_from (Suc x - (if p < Suc x then 1 else 0)) (permutation l)"
      using False by (cases "p < x") auto
    have "\<exists>nr' h'. split_items nd l p k mid [Suc x..<Suc (leaf_size l)] (kp_value_from (Suc x - (if p < Suc x then 1 else 0)) (permutation l)) nr1 h1 =
        Inr (nr', h') \<and> moving (drop mid ?C) nr0 h0 (Suc (leaf_size l) - mid) nr' h'"
      by (rule Suc(1)) (use Suc(2,3) xs(1) a(2) in \<open>simp_all add: Suc_diff_le\<close>)
    then show ?thesis unfolding xs(2) using False a(1) xp
      by (simp only: split_items.simps value_from_bits pv and_then_simps prod.case if_False)
  qed
qed

section \<open>The split of a leaf\<close>

text \<open>
  \<open>split_into\<close> without the links: the kind of the split, the bound of the new leaf, and the new leaf. A new key
  that goes there has its slot at the back of the permuter and is not yet among those in use.
\<close>

definition leaf_split_into ::
  "bool \<Rightarrow> nat \<Rightarrow> mass_key \<Rightarrow> mass_leaf \<Rightarrow> mass_leaf \<Rightarrow> mass_heap \<Rightarrow> (nat \<times> u64 \<times> mass_leaf \<times> mass_heap) res" where
  "leaf_split_into nd p k l nr h =
     and_then (split_point l p k) (\<lambda>mid.
     and_then (split_items nd l p k mid [mid..<Suc (leaf_size l)]
         (kp_value_from (mid - (if p < mid then 1 else 0)) (permutation l)) nr h) (\<lambda>(nr1, h1).
     let permr = kp_make_sorted mt_width (leaf_size l + 1 - mid);
       nr2 = nr1\<lparr>permutation := (if mid \<le> p then kp_remove_to_back mt_width (p - mid) permr else permr)\<rparr>
     in Inr (if p < mid then 0 else if mid = leaf_size l then 2 else 1, lf_ikey0 nr2 ! 0, nr2, h1)))"

text \<open>The end of the split in \<open>make_split\<close>: the left leaf drops what has moved, and the key gets its slot.\<close>

definition shrink_left :: "mass_leaf \<Rightarrow> mass_leaf \<Rightarrow> mass_leaf" where
  "shrink_left l nr =
     (let perm = kp_set_size (leaf_size l - leaf_size nr) (permutation l);
        perm1 = (if leaf_size l \<noteq> mt_width then kp_exchange (kp_size perm) (mt_width - 1) perm else perm)
      in l\<lparr>lf_version := nv_mark_split (lf_version l), permutation := perm1\<rparr>)"

definition leaf_split ::
  "bool \<Rightarrow> nat \<Rightarrow> mass_key \<Rightarrow> mass_leaf \<Rightarrow> mass_leaf \<Rightarrow> mass_heap \<Rightarrow> (nat \<times> u64 \<times> mass_leaf \<times> mass_leaf \<times> mass_heap) res" where
  "leaf_split nd p k l nr h =
     and_then (leaf_split_into nd p k l nr h) (\<lambda>(split_type, split_ikey, nr1, h1).
     let l1 = shrink_left l nr1
     in if split_type = 0
        then and_then (leaf_assign nd False (kp_back mt_width (permutation l1)) k l1 h1) (\<lambda>(l2, h2).
          Inr (split_type, split_ikey, finish_insert p l2, nr1, h2))
        else Inr (split_type, split_ikey, l1, finish_insert (p - leaf_size l1) nr1, h1))"

lemma back_and_forth:
  assumes "j < n" and "n \<le> mt_width"
  defines "x \<equiv> kp_remove_to_back mt_width j (kp_make_sorted mt_width n)"
  shows "kp_abs mt_width (snd (kp_insert_from_back mt_width j x)) = kp_abs mt_width (kp_make_sorted mt_width n)" "kp_size x = n - 1"
proof -
  let ?P = "kp_list mt_width (kp_make_sorted mt_width n)"
  have w: "mt_width = 15" by (simp add: mt_width_def)
  have a: "kp_abs mt_width x = lp_remove_to_back j (kp_abs mt_width (kp_make_sorted mt_width n))"
    unfolding x_def by (rule kp_remove_to_back_list) (use assms sorted_perm(2) [OF assms(2)] w in simp_all)
  then show n: "kp_size x = n - 1" by (simp add: kp_abs_def sorted_perm(2) [OF assms(2)])
  have "kp_abs mt_width (snd (kp_insert_from_back mt_width j x)) = lp_insert_from_back j (kp_abs mt_width x)"
    by (rule kp_insert_from_back_list) (use assms n w in simp_all)
  also have "\<dots> = (n, take j ?P @ ?P ! j # drop (j + 1) ?P)"
    using a assms(1,2) by (simp add: kp_abs_def sorted_perm(2) [OF assms(2)] butlast_append)
  also have "take j ?P @ ?P ! j # drop (j + 1) ?P = ?P" by (rule id_take_nth_drop [symmetric, simplified Suc_eq_plus1]) (use assms(1,2) in simp)
  finally show "kp_abs mt_width (snd (kp_insert_from_back mt_width j x)) = kp_abs mt_width (kp_make_sorted mt_width n)"
    by (simp add: kp_abs_def sorted_perm(2) [OF assms(2)])
qed

lemma shrunk_leaf:
  assumes wf: "leaf_wf l" and "leaf_size nr \<le> leaf_size l"
  defines "l1 \<equiv> shrink_left l nr" and "m \<equiv> leaf_size l - leaf_size nr"
  shows "leaf_size l1 = m" "used_slots l1 = take m (used_slots l)" "kp_ok mt_width (permutation l1)"
    "lf_ikey0 l1 = lf_ikey0 l" "keylenx l1 = keylenx l" "lv l1 = lv l" "ksuf l1 = ksuf l"
    "slot_content l1 = slot_content l" "suffixes_ok A l1 = suffixes_ok A l"
proof -
  have ok: "kp_ok mt_width (permutation l)" and lw: "leaf_size l \<le> mt_width" using wf leaf_size_le by (simp_all add: leaf_wf_def)
  have w: "mt_width = 15" by (simp add: mt_width_def)
  define perm where "perm = kp_set_size m (permutation l)"
  have m: "m < 16" "m \<le> leaf_size l" "m \<le> mt_width" using lw w by (auto simp: m_def)
  have s: "kp_size perm = m" "kp_list mt_width perm = kp_list mt_width (permutation l)"
    using kp_set_size_list [OF m(1), of mt_width "permutation l"] by (simp_all add: kp_abs_def perm_def)
  have okp: "kp_ok mt_width perm" using ok m s by (simp add: kp_ok_def)
  have x: "kp_ok mt_width (kp_exchange m (mt_width - 1) perm)" "kp_size (kp_exchange m (mt_width - 1) perm) = m"
    "take m (kp_list mt_width (kp_exchange m (mt_width - 1) perm)) = take m (kp_list mt_width perm)" if "leaf_size l \<noteq> mt_width"
    using exchange_free [OF okp, unfolded s(1)] that m(2) lw by simp_all
  have l1: "l1 = l\<lparr>lf_version := nv_mark_split (lf_version l),
      permutation := (if leaf_size l \<noteq> mt_width then kp_exchange m (mt_width - 1) perm else perm)\<rparr>"
    by (simp add: l1_def shrink_left_def Let_def perm_def m_def [symmetric] s(1) [unfolded perm_def])
  have tk: "take m (kp_list mt_width (permutation l1)) = take m (kp_list mt_width (permutation l))" "kp_size (permutation l1) = m"
    "kp_ok mt_width (permutation l1)" using x s okp by (auto simp: l1)
  show "leaf_size l1 = m" using tk(2) by (simp add: leaf_size_def)
  show "used_slots l1 = take m (used_slots l)" using tk m(2) by (simp add: used_slots_def leaf_size_def min_absorb1)
  show "kp_ok mt_width (permutation l1)" by (rule tk(3))
  show "lf_ikey0 l1 = lf_ikey0 l" "keylenx l1 = keylenx l" "lv l1 = lv l" "ksuf l1 = ksuf l"
    "slot_content l1 = slot_content l" "suffixes_ok A l1 = suffixes_ok A l"
    by (auto simp: l1 slot_content_def slot_suffix_def suffix_of_def leaf_bag_def suffixes_ok_def fun_eq_iff)
qed

text \<open>The new leaf with all that moves to it, when the new key is among it or not.\<close>

lemma new_leaf:
  assumes mv: "moving D nr0 h0 n nr h" and n: "length D = n" "0 < n" "n \<le> mt_width" and sorted: "sorted_wrt (<) (map content_rank D)"
    and perm: "kp_abs mt_width (permutation nr') = kp_abs mt_width (kp_make_sorted mt_width n)"
    and nr': "lf_ikey0 nr' = lf_ikey0 nr" "keylenx nr' = keylenx nr" "lv nr' = lv nr" "ksuf nr' = ksuf nr" "iksuf nr' = iksuf nr" "extrasize64 nr' = extrasize64 nr"
    and bags: "ksuf nr \<noteq> 0 \<Longrightarrow> bags h' (ksuf nr) = bags h (ksuf nr)"
  shows "leaf_wf nr' \<and> leaf_contents nr' h' = D \<and> suffixes_ok (used_slots nr') nr' h' \<and> lf_ikey0 nr' ! 0 = fst (hd D)"
proof -
  note sp = sorted_perm [OF n(3)]
  have x: "kp_size (permutation nr') = n" "take n (kp_list mt_width (permutation nr')) = [0..<n]" "kp_ok mt_width (permutation nr')"
    using perm sp by (simp_all add: kp_abs_def kp_ok_def)
  then have u: "used_slots nr' = [0..<n]" by (simp add: used_slots_def leaf_size_def)
  have "leaf_bag nr' h' = leaf_bag nr h" using bags by (simp add: leaf_bag_def nr')
  then have sc: "slot_content nr' h' = slot_content nr h"
    by (intro ext) (simp add: slot_content_def slot_suffix_def suffix_of_def nr')
  have c: "leaf_contents nr' h' = D" using mv n(1) by (simp add: leaf_contents_def u sc moving_def)
  have len: "length (lf_ikey0 nr') = mt_width" "length (keylenx nr') = mt_width" "length (lv nr') = mt_width"
    using mv by (simp_all add: nr' moving_def)
  have wf: "leaf_wf nr'" by (rule wf_from_contents [OF len x(3), of h']) (simp add: c sorted)
  have "suffixes_ok [0..<n] nr h" using mv by (simp add: moving_def)
  then have "suffixes_ok (used_slots nr') nr' h'" using bags by (simp add: suffixes_ok_def u nr' split: if_splits)
  moreover have "lf_ikey0 nr' ! 0 = fst (hd D)"
  proof -
    have "D ! 0 = slot_content nr' h' 0" using c n(1,2) by (metis leaf_contents_def u nth_map length_map length_upt nth_upt add.left_neutral diff_zero)
    then show ?thesis using n(1,2) by (cases D) (simp_all add: slot_content_def)
  qed
  ultimately show ?thesis using c wf by simp
qed

definition split_ready :: "nat \<Rightarrow> mass_key \<Rightarrow> mass_leaf \<Rightarrow> mass_leaf \<Rightarrow> mass_heap \<Rightarrow> bool" where
  "split_ready p k l nr h \<longleftrightarrow>
     suffixes_ok (used_slots l) l h \<and> suffixes_ok [] nr h \<and> ksuf nr = 0 \<and>
     length (lf_ikey0 nr) = mt_width \<and> length (keylenx nr) = mt_width \<and> length (lv nr) = mt_width \<and>
     distinct (pool h) \<and> mt_width < length (pool h) \<and> 0 \<notin> set (pool h) \<and> ksuf l \<notin> set (pool h) \<and>
     bag_safe_size 16 mt_width (suffix_total (with_key p (key_content k) (leaf_contents l h))) \<le> 2 ^ 15"

lemma split_into_runs:
  assumes wf: "leaf_wf l" and low: "leaf_lower k l = (p, None)" and full: "mt_width - 1 \<le> leaf_size l" and ready: "split_ready p k l nr h"
    and mid: "split_point l p k = Inr mid" "0 < mid" "mid \<le> leaf_size l"
  defines "C \<equiv> with_key p (key_content k) (leaf_contents l h)" and "n \<equiv> Suc (leaf_size l) - mid"
  shows "\<exists>nr1 h1. leaf_split_into nd p k l nr h = Inr (if p < mid then 0 else if mid = leaf_size l then 2 else 1, lf_ikey0 nr1 ! 0,
      nr1\<lparr>permutation := (if mid \<le> p then kp_remove_to_back mt_width (p - mid) (kp_make_sorted mt_width n) else kp_make_sorted mt_width n)\<rparr>, h1) \<and>
    moving (drop mid C) nr h n nr1 h1"
proof -
  note E = entries_with_key [OF wf low]
  have mv0: "moving (drop mid C) nr h 0 nr h"
    using ready by (auto simp: moving_def split_ready_def intro!: exI [of _ "0 :: nat"])
  have "\<exists>nr1 h1. split_items nd l p k mid [mid..<Suc (leaf_size l)] (kp_value_from (mid - (if p < mid then 1 else 0)) (permutation l)) nr h =
      Inr (nr1, h1) \<and> moving (drop mid C) nr h (Suc (leaf_size l) - mid) nr1 h1"
    unfolding C_def
    by (rule split_items_run [OF wf E(1)])
      (use ready mid mv0 leaf_size_le [OF wf] in \<open>simp_all add: split_ready_def C_def\<close>)
  then obtain nr1 h1 where r: "split_items nd l p k mid [mid..<Suc (leaf_size l)] (kp_value_from (mid - (if p < mid then 1 else 0)) (permutation l)) nr h =
      Inr (nr1, h1)" "moving (drop mid C) nr h n nr1 h1" unfolding n_def by blast
  have "leaf_split_into nd p k l nr h = Inr (if p < mid then 0 else if mid = leaf_size l then 2 else 1, lf_ikey0 nr1 ! 0,
      nr1\<lparr>permutation := (if mid \<le> p then kp_remove_to_back mt_width (p - mid) (kp_make_sorted mt_width n) else kp_make_sorted mt_width n)\<rparr>, h1)"
  proof -
    have keep: "lf_ikey0 (x\<lparr>permutation := y\<rparr>) = lf_ikey0 x" for x :: mass_leaf and y by simp
    show ?thesis unfolding leaf_split_into_def
      using r(1) by (simp only: mid(1) and_then_simps prod.case Let_def n_def Suc_eq_plus1 keep)
  qed
  then show ?thesis using r(2) by blast
qed

lemma with_key_halves:
  assumes "p \<le> length E" and "m \<le> length E"
  shows "p < Suc m \<Longrightarrow> with_key p x (take m E) = take (Suc m) (with_key p x E)"
    and "m \<le> p \<Longrightarrow> take m E = take m (with_key p x E)"
  using assms by (auto simp: with_key_def take_Cons' Suc_diff_le min_def drop_take)

lemma halves_apart:
  assumes "0 < m" and "m < length E"
  shows "take m E \<noteq> []" "drop m E \<noteq> []" "last (take m E) = E ! (m - 1)" "hd (drop m E) = E ! m"
proof -
  show "take m E \<noteq> []" "drop m E \<noteq> []" "hd (drop m E) = E ! m" using assms by (auto simp: hd_drop_conv_nth)
  then show "last (take m E) = E ! (m - 1)" using assms by (simp add: last_conv_nth min_absorb2)
qed

text \<open>The leaf is split at \<open>mid\<close> with all its contents.\<close>

definition splits_at :: "bool \<Rightarrow> nat \<Rightarrow> mass_key \<Rightarrow> mass_leaf \<Rightarrow> mass_leaf \<Rightarrow> mass_heap \<Rightarrow> nat \<Rightarrow> bool" where
  "splits_at nd p k l nr h mid \<longleftrightarrow>
     (\<exists>split_type l' nr' h'. leaf_split nd p k l nr h =
        Inr (split_type, fst (hd (drop mid (with_key p (key_content k) (leaf_contents l h)))), l', nr', h') \<and>
      leaf_wf l' \<and> leaf_wf nr' \<and> suffixes_ok (used_slots l') l' h' \<and> suffixes_ok (used_slots nr') nr' h' \<and>
      leaf_contents l' h' = take mid (with_key p (key_content k) (leaf_contents l h)) \<and>
      leaf_contents nr' h' = drop mid (with_key p (key_content k) (leaf_contents l h)))"

lemma split_parts:
  assumes wf: "leaf_wf l" and low: "leaf_lower k l = (p, None)" and mid: "0 < mid" "mid \<le> leaf_size l"
    and mv: "moving (drop mid (with_key p (key_content k) (leaf_contents l h))) nr h (Suc (leaf_size l) - mid) nr1 h1"
    and ready: "split_ready p k l nr h"
  shows "length (drop mid (with_key p (key_content k) (leaf_contents l h))) = Suc (leaf_size l) - mid"
    "0 < Suc (leaf_size l) - mid" "Suc (leaf_size l) - mid \<le> mt_width"
    "sorted_wrt (<) (map content_rank (drop mid (with_key p (key_content k) (leaf_contents l h))))"
    "sorted_wrt (<) (map content_rank (take mid (with_key p (key_content k) (leaf_contents l h))))"
    "suffixes_ok (used_slots l) l h1" "slot_content l h1 = slot_content l h"
  using sorted_contents [OF wf low, of h] entries_with_key(1) [OF wf low] used_slots_props(6) [OF wf] mid leaf_size_le [OF wf]
    contents_kept [OF mv] ready
  by (simp_all add: split_ready_def drop_map [symmetric] take_map [symmetric] sorted_wrt_drop sorted_wrt_take)

lemma splits_right:
  assumes wf: "leaf_wf l" and low: "leaf_lower k l = (p, None)" and ready: "split_ready p k l nr h" and mid: "0 < mid" "mid \<le> leaf_size l"
    and side: "mid \<le> p"
  defines "n \<equiv> Suc (leaf_size l) - mid" and "C \<equiv> with_key p (key_content k) (leaf_contents l h)"
  assumes r: "leaf_split_into nd p k l nr h = Inr (if p < mid then 0 else if mid = leaf_size l then 2 else 1, lf_ikey0 nr1 ! 0,
      nr1\<lparr>permutation := (if mid \<le> p then kp_remove_to_back mt_width (p - mid) (kp_make_sorted mt_width n) else kp_make_sorted mt_width n)\<rparr>, h1)"
    and mv: "moving (drop mid C) nr h n nr1 h1"
  shows "splits_at nd p k l nr h mid"
proof -
  note part = split_parts [OF wf low mid mv [unfolded C_def n_def] ready, folded C_def n_def]
  have E: "p \<le> leaf_size l" and used: "length (leaf_contents l h) = leaf_size l"
    using entries_with_key(1) [OF wf low] used_slots_props(6) [OF wf] by blast+
  let ?perm = "kp_remove_to_back mt_width (p - mid) (kp_make_sorted mt_width n)"
  let ?nr2 = "nr1\<lparr>permutation := ?perm\<rparr>"
  let ?l1 = "shrink_left l ?nr2"
  have j: "p - mid < n" using side E mid(2) by (simp add: n_def)
  note bf = back_and_forth [OF j part(3)]
  have s2: "leaf_size ?nr2 = n - 1" using bf(2) by (simp add: leaf_size_def)
  then have le: "leaf_size ?nr2 \<le> leaf_size l" and m: "leaf_size l - leaf_size ?nr2 = mid" using mid by (auto simp: n_def)
  note sh = shrunk_leaf [OF wf le, unfolded m]
  let ?nr' = "finish_insert (p - mid) ?nr2"
  have split: "leaf_split nd p k l nr h = Inr (if mid = leaf_size l then 2 else 1, lf_ikey0 nr1 ! 0, ?l1, ?nr', h1)"
    using r side sh(1) by (auto simp: leaf_split_def Let_def)
  have right: "leaf_wf ?nr' \<and> leaf_contents ?nr' h1 = drop mid C \<and> suffixes_ok (used_slots ?nr') ?nr' h1 \<and> lf_ikey0 ?nr' ! 0 = fst (hd (drop mid C))"
    by (rule new_leaf [OF mv part(1-4)]) (simp_all add: finish_insert_def bf(1))
  have c: "leaf_contents ?l1 h1 = take mid C"
    using side E mid(2) used with_key_halves(2) [of p "leaf_contents l h" mid "key_content k"]
    by (simp add: leaf_contents_def sh(2,8) part(7) take_map C_def)
  have "sorted_wrt (<) (map content_rank (leaf_contents ?l1 h1))"
    unfolding c by (rule part(5))
  then have "leaf_wf ?l1" using wf sh(3-6) by (intro wf_from_contents) (simp_all add: leaf_wf_def)
  moreover have "suffixes_ok (used_slots ?l1) ?l1 h1"
    unfolding sh(9) by (rule suffixes_ok_mono [OF part(6)]) (auto simp: sh(2) dest: in_set_takeD)
  moreover have "lf_ikey0 nr1 ! 0 = fst (hd (drop mid C))" using right by (simp add: finish_insert_def)
  ultimately show ?thesis using split right c unfolding splits_at_def C_def by (metis (no_types))
qed

lemma splits_left:
  assumes wf: "leaf_wf l" and low: "leaf_lower k l = (p, None)" and ready: "split_ready p k l nr h" and mid: "0 < mid" "mid \<le> leaf_size l"
    and side: "\<not> mid \<le> p"
  defines "n \<equiv> Suc (leaf_size l) - mid" and "C \<equiv> with_key p (key_content k) (leaf_contents l h)"
  assumes r: "leaf_split_into nd p k l nr h = Inr (if p < mid then 0 else if mid = leaf_size l then 2 else 1, lf_ikey0 nr1 ! 0,
      nr1\<lparr>permutation := (if mid \<le> p then kp_remove_to_back mt_width (p - mid) (kp_make_sorted mt_width n) else kp_make_sorted mt_width n)\<rparr>, h1)"
    and mv: "moving (drop mid C) nr h n nr1 h1"
  shows "splits_at nd p k l nr h mid"
proof -
  note part = split_parts [OF wf low mid mv [unfolded C_def n_def] ready, folded C_def n_def]
  have E: "p \<le> leaf_size l" and used: "length (leaf_contents l h) = leaf_size l"
    using entries_with_key(1) [OF wf low] used_slots_props(6) [OF wf] by blast+
  from mv obtain i where i: "i \<le> n" "pool h1 = drop i (pool h)" "ksuf nr1 = 0 \<or> ksuf nr1 \<in> set (take i (pool h))" by (auto simp: moving_def)
  let ?nr2 = "nr1\<lparr>permutation := kp_make_sorted mt_width n\<rparr>"
  let ?l1 = "shrink_left l ?nr2"
  have s2: "leaf_size ?nr2 = n" using sorted_perm(2) [OF part(3)] by (simp add: leaf_size_def)
  then have le: "leaf_size ?nr2 \<le> leaf_size l" and m: "leaf_size l - leaf_size ?nr2 = mid - 1" using mid by (auto simp: n_def)
  note sh = shrunk_leaf [OF wf le, unfolded m]
  have lc: "leaf_contents l h1 = leaf_contents l h" by (simp add: leaf_contents_def part(7))
  have half: "with_key p (key_content k) (take (mid - 1) (leaf_contents l h1)) = take mid C"
    using with_key_halves(1) [of p "leaf_contents l h" "mid - 1" "key_content k"] side E mid used by (simp add: lc C_def)
  have okl1: "suffixes_ok (used_slots ?l1) ?l1 h1"
    unfolding sh(9) by (rule suffixes_ok_mono [OF part(6)]) (auto simp: sh(2) dest: in_set_takeD)
  have "pool h1 \<noteq> [] \<and> 0 \<notin> set (pool h1)"
    using i(1,2) part(3) ready by (auto simp: split_ready_def dest: in_set_dropD)
  moreover have "sorted_wrt (<) (map content_rank (take mid C))" by (rule part(5))
  moreover have "leaf_size ?l1 < mt_width" "leaf_size ?l1 \<le> leaf_size l" "p \<le> leaf_size ?l1"
    using sh(1) mid side leaf_size_le [OF wf] by auto
  ultimately have "\<exists>l2 h2. leaf_assign nd False (kp_back mt_width (permutation ?l1)) k ?l1 h1 = Inr (l2, h2) \<and>
    leaf_wf (finish_insert p l2) \<and>
    leaf_contents (finish_insert p l2) h2 = with_key p (key_content k) (take (leaf_size ?l1) (leaf_contents l h1)) \<and>
    suffixes_ok (used_slots (finish_insert p l2)) (finish_insert p l2) h2 \<and>
    (\<forall>a. a \<noteq> ksuf ?l1 \<longrightarrow> a \<noteq> ksuf l2 \<longrightarrow> bags h2 a = bags h1 a) \<and>
    ((ksuf l2 = ksuf ?l1 \<and> pool h2 = pool h1) \<or> pool h1 = ksuf l2 # pool h2) \<and>
    used_slots (finish_insert p l2) = with_key p (kp_back mt_width (permutation ?l1)) (used_slots ?l1) \<and> same_nodes h1 h2 \<and>
    lf_version l2 = lf_version ?l1 \<and> lf_parent l2 = lf_parent ?l1"
    using ready sh okl1 half by (intro insert_at_back [OF wf]) (simp_all add: split_ready_def lc)
  then obtain l2 h2 where a: "leaf_assign nd False (kp_back mt_width (permutation ?l1)) k ?l1 h1 = Inr (l2, h2)"
    "leaf_wf (finish_insert p l2)" "leaf_contents (finish_insert p l2) h2 = take mid C"
    "suffixes_ok (used_slots (finish_insert p l2)) (finish_insert p l2) h2"
    "\<forall>a. a \<noteq> ksuf l \<longrightarrow> a \<noteq> ksuf l2 \<longrightarrow> bags h2 a = bags h1 a"
    "(ksuf l2 = ksuf l \<and> pool h2 = pool h1) \<or> pool h1 = ksuf l2 # pool h2"
    unfolding sh(1,7) half by blast
  have split: "leaf_split nd p k l nr h = Inr (0, lf_ikey0 nr1 ! 0, finish_insert p l2, ?nr2, h2)"
    using r side a(1) by (auto simp: leaf_split_def Let_def)
  have kept: "bags h2 (ksuf nr1) = bags h1 (ksuf nr1)" if "ksuf nr1 \<noteq> 0"
  proof -
    have x: "ksuf nr1 \<in> set (take i (pool h))" using i(3) that by simp
    then have "ksuf nr1 \<noteq> ksuf l" using ready by (auto simp: split_ready_def dest: in_set_takeD)
    moreover have "ksuf nr1 \<noteq> ksuf l2"
      using a(6)
    proof
      assume "pool h1 = ksuf l2 # pool h2"
      then have "ksuf l2 \<in> set (drop i (pool h))" using i(2) by simp
      moreover have "set (take i (pool h)) \<inter> set (drop i (pool h)) = {}"
        using ready set_take_disj_set_drop_if_distinct [of "pool h" i i] by (simp add: split_ready_def)
      ultimately show ?thesis using x by (metis disjoint_iff)
    qed (use calculation in simp)
    ultimately show ?thesis using a(5) by blast
  qed
  have right: "leaf_wf ?nr2 \<and> leaf_contents ?nr2 h2 = drop mid C \<and> suffixes_ok (used_slots ?nr2) ?nr2 h2 \<and> lf_ikey0 ?nr2 ! 0 = fst (hd (drop mid C))"
    by (rule new_leaf [OF mv part(1-4)]) (simp_all add: kept)
  then have "lf_ikey0 nr1 ! 0 = fst (hd (drop mid C))" by simp
  then show ?thesis using split right a(2-4) unfolding splits_at_def C_def by (metis (no_types))
qed

text \<open>
  C10. A full leaf into which a key is to be inserted is split, and the insertion completed, whatever the place of the key: the two
  leaves are in order and not empty, and one after the other they hold what the leaf held with the key at its place,
  integers, lengths, values and suffixes. The bound of the new leaf is its first integer and
  lies above all that stays on the left, so no integer is on both sides.
\<close>

theorem leaf_split_keeps_all:
  assumes "leaf_wf l" and "leaf_lower k l = (p, None)" and "mt_width - 1 \<le> leaf_size l" and "split_ready p k l nr h"
  shows "\<exists>split_type split_ikey l' nr' h'. leaf_split nd p k l nr h = Inr (split_type, split_ikey, l', nr', h') \<and>
    leaf_wf l' \<and> leaf_wf nr' \<and> leaf_entries l' \<noteq> [] \<and> leaf_entries nr' \<noteq> [] \<and>
    leaf_contents l' h' @ leaf_contents nr' h' = with_key p (key_content k) (leaf_contents l h) \<and>
    suffixes_ok (used_slots l') l' h' \<and> suffixes_ok (used_slots nr') nr' h' \<and>
    split_ikey = fst (hd (leaf_entries nr')) \<and> fst (last (leaf_entries l')) < split_ikey"
proof -
  let ?C = "with_key p (key_content k) (leaf_contents l h)" and ?E = "with_key p (key_rank k) (leaf_entries l)"
  note E = entries_with_key [OF assms(1,2)] and C = sorted_contents(1) [OF assms(1,2), of h]
  obtain mid where mid: "split_point l p k = Inr mid" "0 < mid" "mid \<le> leaf_size l" "fst (?E ! (mid - 1)) < fst (?E ! mid)"
    using split_point_bounds [OF assms(1-3)] by blast
  have "splits_at nd p k l nr h mid"
    using split_into_runs [OF assms mid(1-3), of nd] splits_right [OF assms(1,2,4) mid(2,3)] splits_left [OF assms(1,2,4) mid(2,3)] by blast
  then obtain split_type l' nr' h' where s: "leaf_split nd p k l nr h = Inr (split_type, fst (hd (drop mid ?C)), l', nr', h')"
    "leaf_wf l'" "leaf_wf nr'" "suffixes_ok (used_slots l') l' h'" "suffixes_ok (used_slots nr') nr' h'"
    "leaf_contents l' h' = take mid ?C" "leaf_contents nr' h' = drop mid ?C" unfolding splits_at_def by blast
  have e: "leaf_entries l' = take mid ?E" "leaf_entries nr' = drop mid ?E"
    using s(6,7) by (simp_all add: content_ranks(3) [symmetric, of l' h'] content_ranks(3) [symmetric, of nr' h'] take_map [symmetric]
        drop_map [symmetric] C)
  have "content_rank (hd (drop mid ?C)) = ?E ! mid"
    using E(1) used_slots_props(6) [OF assms(1)] mid(3) C by (simp add: hd_drop_conv_nth nth_map [symmetric] del: with_key_simps(2))
  then have "fst (hd (drop mid ?C)) = fst (?E ! mid)" by (cases "hd (drop mid ?C)" rule: prod_cases4) (metis content_rank.simps fst_conv)
  then show ?thesis using s e E(3) mid(3,4) halves_apart [OF mid(2), of ?E] by (metis append_take_drop_id le_imp_less_Suc)
qed

lemma suffix_total_with_key: "suffix_total (with_key p c cs) = length (content_suffix c) + suffix_total cs"
proof -
  have "suffix_total cs = suffix_total (take p cs) + suffix_total (drop p cs)"
    by (metis append_take_drop_id suffix_total_simps(2))
  then show ?thesis by (simp add: with_key_def suffix_total_def)
qed

lemma leaf_split_keeps_all_witness:
  "\<exists>split_type split_ikey l' nr' h'. leaf_split True 3 sample_mkey (filled_leaf 15) (blank_leaf 320 0 Mem_Local 2 1)
      (sample_layer\<lparr>pool := map of_nat [1..<18]\<rparr>) = Inr (split_type, split_ikey, l', nr', h') \<and>
    (3, 64, 0, [7, 7]) \<in> set (leaf_contents l' h' @ leaf_contents nr' h')"
proof -
  let ?h = "sample_layer\<lparr>pool := map of_nat [1..<18]\<rparr>"
  have inj: "distinct (map of_nat [1..<18] :: u64 list)" "0 \<notin> set (map of_nat [1..<18] :: u64 list)" by (simp_all add: upt_rec)
  have "split_ready 3 sample_mkey (filled_leaf 15) (blank_leaf 320 0 Mem_Local 2 1) ?h"
    using filled_leaf_suffixes [of 15] inj(1) inj(2) [unfolded set_map]
    by (simp add: split_ready_def sample_mkey_content suffix_total_with_key content_suffix_def mt_width_def bag_safe_size_def bag_overhead_def bag_slice_size_def
        suffixes_ok_def blank_leaf_def mt_leaf_size_def filled_leaf_def) 
  moreover have "mt_width - 1 \<le> leaf_size (filled_leaf 15)" using filled_leaf_suffixes(1) [of 15] by (simp add: mt_width_def)
  ultimately have "\<exists>split_type split_ikey l' nr' h'. leaf_split True 3 sample_mkey (filled_leaf 15) (blank_leaf 320 0 Mem_Local 2 1) ?h =
      Inr (split_type, split_ikey, l', nr', h') \<and>
      leaf_contents l' h' @ leaf_contents nr' h' = with_key 3 (key_content sample_mkey) (leaf_contents (filled_leaf 15) ?h)"
    using leaf_split_keeps_all [OF filled_leaf_wf sample_lower, of "blank_leaf 320 0 Mem_Local 2 1" ?h True] by fastforce
  then show ?thesis by (metis sample_mkey_content with_key_def in_set_conv_decomp)
qed

section \<open>The list of leaves\<close>

text \<open>\<open>link_split\<close> puts the new leaf behind the old one.\<close>

definition link_split :: "u64 \<Rightarrow> u64 \<Rightarrow> mass_heap \<Rightarrow> mass_heap res" where
  "link_split n nr h =
     and_then (set_prev n nr h) (\<lambda>h1.
     and_then (lock_next n h1) (\<lambda>(next, h2).
     and_then (set_next next nr h2) (\<lambda>h3.
     and_then (if next \<noteq> 0 then set_prev nr next h3 else Inr h3) (\<lambda>h4.
     set_next nr n h4))))"

text \<open>Afterwards the new leaf stands between the old one and its successor, and the lock on the pointer is gone.\<close>

lemma link_split_links:
  assumes "mleaves h n = Some l" and "mleaves h nr = Some m" and "n \<noteq> nr"
    and "lf_next l \<noteq> 0 \<longrightarrow> \<not> is_marked (lf_next l) \<and> lf_next l \<noteq> n \<and> lf_next l \<noteq> nr \<and> mleaves h (lf_next l) = Some x"
  shows "link_split n nr h = Inr (h\<lparr>mleaves := (if lf_next l = 0 then mleaves h else (mleaves h)(lf_next l \<mapsto> x\<lparr>lf_prev := nr\<rparr>))
      (n \<mapsto> l\<lparr>lf_next := nr\<rparr>, nr \<mapsto> m\<lparr>lf_prev := n, lf_next := lf_next l\<rparr>)\<rparr>)"
proof (cases "lf_next l = 0")
  case True
  then show ?thesis using assms(1-3)
    by (auto simp: link_split_def set_prev_def set_next_def lock_next_def node_simps Let_def fun_upd_twist intro!: mass_heap.equality)
next
  case False
  then show ?thesis using assms
    by (auto simp: link_split_def set_prev_def set_next_def lock_next_def node_simps Let_def fun_eq_iff intro!: mass_heap.equality)
qed

end
