(* ===== verification/Masstree_Inner.thy ===== *)
theory Masstree_Inner
  imports Masstree_Migration Masstree_Split
begin

text \<open>
  A child that enters an inner node (\<open>make_split\<close> and \<open>internode::split_into\<close> of \<open>masstree_split.hh\<close>, with the shifts of
  \<open>masstree_struct.hh\<close>). The lemmas show that a node with room takes the separator and the child at their
  places, and that a full node is divided into two halves around a separator that goes up, with every
  child below the half that holds it.
\<close>

section \<open>Moving separators and children\<close>

text \<open>\<open>memcpy\<close> of \<open>n\<close> elements between two arrays, and \<open>memmove\<close> in one; beyond the end it is undefined.\<close>

definition copy_range :: "nat \<Rightarrow> 'a list \<Rightarrow> nat \<Rightarrow> nat \<Rightarrow> 'a list \<Rightarrow> 'a list res" where
  "copy_range p from xp n to =
     (if p + n \<le> length to \<and> xp + n \<le> length from
      then Inr (take p to @ take n (drop xp from) @ drop (p + n) to) else Inl Out_Of_Bounds)"

definition shift_from :: "nat \<Rightarrow> mass_internode \<Rightarrow> nat \<Rightarrow> nat \<Rightarrow> mass_internode \<Rightarrow> mass_internode res" where
  "shift_from p x xp n nd =
     (if n = 0 then Inr nd
      else and_then (copy_range p (in_ikey0 x) xp n (in_ikey0 nd)) (\<lambda>ks.
        and_then (copy_range (p + 1) (in_child x) (xp + 1) n (in_child nd)) (\<lambda>cs.
        Inr (nd\<lparr>in_ikey0 := ks, in_child := cs\<rparr>))))"

text \<open>The loop copies the children from the last to the first.\<close>

fun copy_down :: "nat \<Rightarrow> nat \<Rightarrow> nat \<Rightarrow> u64 list \<Rightarrow> u64 list res" where
  "copy_down a b 0 cs = Inr cs"
| "copy_down a b (Suc n) cs =
     and_then (byte_at cs b) (\<lambda>x. and_then (write_at cs a x) (\<lambda>cs1. copy_down (a - 1) (b - 1) n cs1))"

definition shift_up :: "nat \<Rightarrow> nat \<Rightarrow> nat \<Rightarrow> mass_internode \<Rightarrow> mass_internode res" where
  "shift_up p xp n nd =
     and_then (copy_range p (in_ikey0 nd) xp n (in_ikey0 nd)) (\<lambda>ks.
     and_then (copy_down (p + n) (xp + n) n (in_child nd)) (\<lambda>cs.
     Inr (nd\<lparr>in_ikey0 := ks, in_child := cs\<rparr>)))"

text \<open>A separator and the child on its right; \<open>assign\<close> first makes the node the parent of the child.\<close>

definition put_separator :: "nat \<Rightarrow> u64 \<Rightarrow> u64 \<Rightarrow> mass_internode \<Rightarrow> mass_internode res" where
  "put_separator p ikey child nd =
     and_then (write_at (in_child nd) (p + 1) child) (\<lambda>cs.
     and_then (write_at (in_ikey0 nd) p ikey) (\<lambda>ks. Inr (nd\<lparr>in_ikey0 := ks, in_child := cs\<rparr>)))"

definition update_inner :: "u64 \<Rightarrow> (mass_internode \<Rightarrow> mass_internode res) \<Rightarrow> mass_heap \<Rightarrow> mass_heap res" where
  "update_inner a f h =
     and_then (load_inner a h) (\<lambda>n. and_then (f n) (\<lambda>n1. Inr (h\<lparr>inners := (inners h)(a \<mapsto> n1)\<rparr>)))"

definition inner_assign :: "u64 \<Rightarrow> nat \<Rightarrow> u64 \<Rightarrow> u64 \<Rightarrow> mass_heap \<Rightarrow> mass_heap res" where
  "inner_assign a p ikey child h = and_then (set_parent a child h) (update_inner a (put_separator p ikey child))"

section \<open>The split of an inner node\<close>

definition set_first_child :: "u64 \<Rightarrow> mass_internode \<Rightarrow> mass_internode res" where
  "set_first_child c nd = and_then (write_at (in_child nd) 0 c) (\<lambda>cs. Inr (nd\<lparr>in_child := cs\<rparr>))"

text \<open>What the new node gets, and the separator that goes up.\<close>

definition inner_fill :: "u64 \<Rightarrow> nat \<Rightarrow> mass_internode \<Rightarrow> nat \<Rightarrow> u64 \<Rightarrow> u64 \<Rightarrow> mass_heap \<Rightarrow> (u64 \<times> mass_heap) res" where
  "inner_fill b mid x p ka value h =
     (if p < mid then
        and_then (byte_at (in_child x) mid) (\<lambda>c.
        and_then (update_inner b (\<lambda>nr. and_then (set_first_child c nr) (shift_from 0 x mid (mt_width - mid))) h) (\<lambda>h2.
        and_then (byte_at (in_ikey0 x) (mid - 1)) (\<lambda>ik. Inr (ik, h2))))
      else if p = mid then
        and_then (update_inner b (\<lambda>nr. and_then (set_first_child value nr) (shift_from 0 x mid (mt_width - mid))) h) (\<lambda>h2.
        Inr (ka, h2))
      else
        and_then (byte_at (in_child x) (mid + 1)) (\<lambda>c.
        and_then (update_inner b (\<lambda>nr. and_then (set_first_child c nr) (shift_from 0 x (mid + 1) (p - (mid + 1)))) h) (\<lambda>h2.
        and_then (inner_assign b (p - (mid + 1)) ka value h2) (\<lambda>h3.
        and_then (update_inner b (shift_from (p + 1 - (mid + 1)) x p (mt_width - p)) h3) (\<lambda>h4.
        and_then (byte_at (in_ikey0 x) mid) (\<lambda>ik. Inr (ik, h4)))))))"

text \<open>The answers: the place in the left half, if the child goes there, and the separator.\<close>

definition inner_split_into ::
  "u64 \<Rightarrow> u64 \<Rightarrow> nat \<Rightarrow> u64 \<Rightarrow> u64 \<Rightarrow> nat \<Rightarrow> mass_heap \<Rightarrow> (nat option \<times> u64 \<times> mass_heap) res" where
  "inner_split_into a b p ka value split_type h =
     and_then (load_inner a h) (\<lambda>x.
     let mid = (if split_type = 2 then mt_width else (mt_width + 1) div 2)
     in and_then (update_inner b (\<lambda>nr. Inr (nr\<lparr>nkeys := mt_width + 1 - (mid + 1)\<rparr>)) h) (\<lambda>h1.
        and_then (inner_fill b mid x p ka value h1) (\<lambda>(split_ikey, h2).
        and_then (load_inner b h2) (\<lambda>nr.
        and_then (set_parents b (take (nkeys nr + 1) (in_child nr)) h2) (\<lambda>h3.
        and_then (set_node_version nv_mark_split a h3) (\<lambda>h4.
        and_then (update_inner a (\<lambda>n. Inr (n\<lparr>nkeys := (if p < mid then mid - 1 else mid)\<rparr>)) h4) (\<lambda>h5.
        Inr (if p < mid then Some p else None, split_ikey, h5))))))))"

text \<open>A child at place \<open>kp\<close> of a node with room.\<close>

definition inner_insert :: "u64 \<Rightarrow> nat \<Rightarrow> u64 \<Rightarrow> u64 \<Rightarrow> mass_heap \<Rightarrow> mass_heap res" where
  "inner_insert a kp ikey child h =
     and_then (update_inner a (\<lambda>n. shift_up (kp + 1) kp (nkeys n - kp) n) h) (\<lambda>h1.
     and_then (inner_assign a kp ikey child h1) (\<lambda>h2.
     update_inner a (\<lambda>n. Inr (n\<lparr>nkeys := nkeys n + 1\<rparr>)) h2))"

text \<open>One round of \<open>make_split\<close> at the inner node above: split it when it is full, and take the child in.\<close>

definition inner_take_child ::
  "u64 \<Rightarrow> u64 \<Rightarrow> nat \<Rightarrow> u64 \<Rightarrow> u64 \<Rightarrow> nat \<Rightarrow> mass_heap \<Rightarrow> (u64 option \<times> mass_heap) res" where
  "inner_take_child a b kp ikey child split_type h =
     and_then (load_inner a h) (\<lambda>n.
     if nkeys n < mt_width then and_then (inner_insert a kp ikey child h) (\<lambda>h1. Inr (None, h1))
     else and_then (inner_split_into a b kp ikey child split_type h) (\<lambda>(q, up, h1).
       case q of
         None \<Rightarrow> Inr (Some up, h1)
       | Some kp1 \<Rightarrow> and_then (inner_insert a kp1 ikey child h1) (\<lambda>h2. Inr (Some up, h2))))"

section \<open>What the copies do\<close>

lemma copy_range_runs:
  assumes "p + n \<le> length to" and "xp + n \<le> length from"
  shows "\<exists>r. copy_range p from xp n to = Inr r \<and> length r = length to \<and>
    (\<forall>i < length to. r ! i = (if p \<le> i \<and> i < p + n then from ! (xp + (i - p)) else to ! i))"
  using assms by (auto simp: copy_range_def nth_append)

lemma copy_down_runs:
  assumes "Suc b < length cs" and "n \<le> b"
  shows "\<exists>r. copy_down (Suc b) b n cs = Inr r \<and> length r = length cs \<and>
    (\<forall>i < length cs. r ! i = (if b - n + 1 < i \<and> i \<le> Suc b then cs ! (i - 1) else cs ! i))"
  using assms
proof (induction n arbitrary: b cs)
  case (Suc n)
  let ?cs = "cs[Suc b := cs ! b]"
  obtain b' where b: "b = Suc b'" using Suc.prems(2) by (cases b) simp_all
  obtain r where r: "copy_down b b' n ?cs = Inr r" "length r = length cs"
    "\<forall>i < length cs. r ! i = (if b' - n + 1 < i \<and> i \<le> b then ?cs ! (i - 1) else ?cs ! i)"
    using Suc.IH [of b' ?cs] Suc.prems b by auto
  have "r ! i = (if b - Suc n + 1 < i \<and> i \<le> Suc b then cs ! (i - 1) else cs ! i)" if "i < length cs" for i
    using r(3) that b Suc.prems by (auto simp: nth_list_update)
  then show ?case using r(1,2) Suc.prems b by auto
qed auto

definition inner_shape :: "mass_internode \<Rightarrow> bool" where
  "inner_shape n \<longleftrightarrow> length (in_ikey0 n) = mt_width \<and> length (in_child n) = mt_width + 1 \<and> nkeys n \<le> mt_width"

lemma shift_from_runs:
  assumes "inner_shape nd" and "inner_shape x" and "p + n \<le> mt_width" and "xp + n \<le> mt_width"
  shows "\<exists>ks cs. shift_from p x xp n nd = Inr (nd\<lparr>in_ikey0 := ks, in_child := cs\<rparr>) \<and> length ks = mt_width \<and> length cs = mt_width + 1 \<and>
    (\<forall>i < mt_width. ks ! i = (if p \<le> i \<and> i < p + n then in_ikey0 x ! (xp + (i - p)) else in_ikey0 nd ! i)) \<and>
    (\<forall>i \<le> mt_width. cs ! i = (if p < i \<and> i \<le> p + n then in_child x ! (xp + (i - p)) else in_child nd ! i))"
proof (cases "n = 0")
  case True
  have "nd = nd\<lparr>in_ikey0 := in_ikey0 nd, in_child := in_child nd\<rparr>" by (cases nd) simp
  then have "shift_from p x xp n nd = Inr (nd\<lparr>in_ikey0 := in_ikey0 nd, in_child := in_child nd\<rparr>)"
    using True by (simp only: shift_from_def if_True) metis
  moreover have "length (in_ikey0 nd) = mt_width" "length (in_child nd) = mt_width + 1" using assms(1) by (simp_all add: inner_shape_def)
  moreover have "\<not> (p \<le> i \<and> i < p + n)" "\<not> (p < i \<and> i \<le> p + n)" for i using True by auto
  ultimately show ?thesis by (intro exI [of _ "in_ikey0 nd"] exI [of _ "in_child nd"]) auto
next
  case False
  obtain ks where ks: "copy_range p (in_ikey0 x) xp n (in_ikey0 nd) = Inr ks" "length ks = mt_width"
    "\<forall>i < mt_width. ks ! i = (if p \<le> i \<and> i < p + n then in_ikey0 x ! (xp + (i - p)) else in_ikey0 nd ! i)"
    using copy_range_runs [of p n "in_ikey0 nd" xp "in_ikey0 x"] assms by (auto simp: inner_shape_def)
  obtain cs where cs: "copy_range (p + 1) (in_child x) (xp + 1) n (in_child nd) = Inr cs" "length cs = mt_width + 1"
    "\<forall>i < mt_width + 1. cs ! i = (if p + 1 \<le> i \<and> i < p + 1 + n then in_child x ! (xp + 1 + (i - (p + 1))) else in_child nd ! i)"
    using copy_range_runs [of "p + 1" n "in_child nd" "xp + 1" "in_child x"] assms by (auto simp: inner_shape_def)
  have "\<forall>i \<le> mt_width. cs ! i = (if p < i \<and> i \<le> p + n then in_child x ! (xp + (i - p)) else in_child nd ! i)"
    using cs(3) by (auto simp: Suc_diff_Suc less_Suc_eq_le [symmetric] Suc_le_eq)
  moreover have "shift_from p x xp n nd = Inr (nd\<lparr>in_ikey0 := ks, in_child := cs\<rparr>)" using False ks(1) cs(1) by (simp add: shift_from_def)
  ultimately show ?thesis using ks(2,3) cs(2) by blast
qed

lemma update_inner_runs:
  "inners h a = Some n \<Longrightarrow> f n = Inr n1 \<Longrightarrow> update_inner a f h = Inr (h\<lparr>inners := (inners h)(a \<mapsto> n1)\<rparr>)"
  by (simp add: update_inner_def node_simps)

text \<open>Adopting children leaves all other nodes alone.\<close>

lemma adopt_other:
  "a \<notin> set cs \<Longrightarrow> inners (adopt_children p cs h) a = inners h a" "a \<notin> set cs \<Longrightarrow> mleaves (adopt_children p cs h) a = mleaves h a"
  "a \<notin> set cs \<Longrightarrow> adopt_children p cs (h\<lparr>inners := (inners h)(a \<mapsto> n)\<rparr>) =
     (adopt_children p cs h)\<lparr>inners := (inners (adopt_children p cs h))(a \<mapsto> n)\<rparr>"
  "set ds \<subseteq> set cs \<Longrightarrow> adopt_children p cs (adopt_children p ds h) = adopt_children p cs h"
  by (auto simp: adopt_children_def fun_eq_iff option.map_comp comp_def intro!: mass_heap.equality option.map_cong)

lemma set_parent_adopts:
  assumes "mleaves h c \<noteq> None \<or> inners h c \<noteq> None"
  shows "set_parent p c h = Inr (adopt_children p [c] h)"
proof -
  have "set_parents p [c] h = Inr (adopt_children p [c] h)" by (rule set_parents_runs) (use assms in simp)
  then show ?thesis by (cases "set_parent p c h") simp_all
qed

section \<open>The halves of a full node\<close>

definition inner_keys :: "mass_internode \<Rightarrow> u64 list" where
  "inner_keys n = take (nkeys n) (in_ikey0 n)"

definition inner_kids :: "mass_internode \<Rightarrow> u64 list" where
  "inner_kids n = take (nkeys n + 1) (in_child n)"

lemma inner_lists:
  assumes "inner_shape n"
  shows "length (inner_keys n) = nkeys n" "length (inner_kids n) = nkeys n + 1"
    "i < nkeys n \<Longrightarrow> inner_keys n ! i = in_ikey0 n ! i" "i \<le> nkeys n \<Longrightarrow> inner_kids n ! i = in_child n ! i"
  using assms by (simp_all add: inner_keys_def inner_kids_def inner_shape_def)

lemma first_and_shift:
  assumes "inner_shape nd" and "inner_shape x" and "n \<le> mt_width" and "xp + n \<le> mt_width"
  shows "\<exists>ks cs. and_then (set_first_child c nd) (shift_from 0 x xp n) = Inr (nd\<lparr>in_ikey0 := ks, in_child := cs\<rparr>) \<and>
    length ks = mt_width \<and> length cs = mt_width + 1 \<and>
    (\<forall>i < n. ks ! i = in_ikey0 x ! (xp + i)) \<and> (\<forall>i \<le> n. cs ! i = (if i = 0 then c else in_child x ! (xp + i)))"
proof -
  let ?nd = "nd\<lparr>in_child := (in_child nd)[0 := c]\<rparr>"
  have shape: "inner_shape ?nd" and f: "set_first_child c nd = Inr ?nd"
    using assms(1) by (simp_all add: inner_shape_def set_first_child_def)
  obtain ks cs where r: "shift_from 0 x xp n ?nd = Inr (?nd\<lparr>in_ikey0 := ks, in_child := cs\<rparr>)" "length ks = mt_width" "length cs = mt_width + 1"
    "\<forall>i < mt_width. ks ! i = (if 0 \<le> i \<and> i < 0 + n then in_ikey0 x ! (xp + (i - 0)) else in_ikey0 ?nd ! i)"
    "\<forall>i \<le> mt_width. cs ! i = (if 0 < i \<and> i \<le> 0 + n then in_child x ! (xp + (i - 0)) else in_child ?nd ! i)"
    using shift_from_runs [OF shape assms(2), of 0 n xp] assms(3,4) by auto
  have "?nd\<lparr>in_ikey0 := ks, in_child := cs\<rparr> = nd\<lparr>in_ikey0 := ks, in_child := cs\<rparr>" by simp
  then have "and_then (set_first_child c nd) (shift_from 0 x xp n) = Inr (nd\<lparr>in_ikey0 := ks, in_child := cs\<rparr>)" using f r(1) by simp
  moreover have "(in_child nd)[0 := c] ! 0 = c" using assms(1) by (simp add: inner_shape_def)
  ultimately show ?thesis using r(2-5) assms(3) by (intro exI [of _ ks] exI [of _ cs]) simp
qed

lemma inner_fill_runs:
  fixes ka :: u64
  assumes x: "inner_shape x" "nkeys x = mt_width" and mid: "0 < mid" "mid \<le> mt_width" "p \<le> mt_width"
    and b: "inners h b = Some nr" "inner_shape nr" "nkeys nr = mt_width - mid"
    and v: "mleaves h value \<noteq> None \<or> inners h value \<noteq> None" "value \<noteq> b"
  defines "K \<equiv> with_key p ka (inner_keys x)" and "C \<equiv> with_key (p + 1) value (inner_kids x)"
  shows "\<exists>nr1 h1. inner_fill b mid x p ka value h = Inr (K ! mid, h1\<lparr>inners := (inners h1)(b \<mapsto> nr1)\<rparr>) \<and>
    h1 = (if mid < p then adopt_children b [value] h else h) \<and>
    inner_shape nr1 \<and> nkeys nr1 = nkeys nr \<and> in_version nr1 = in_version nr \<and> in_parent nr1 = in_parent nr \<and>
    inner_keys nr1 = drop (mid + 1) K \<and> inner_kids nr1 = drop (mid + 1) C"
proof -
  note ls = inner_lists [OF x(1), unfolded x(2)]
  have len: "length (in_ikey0 x) = mt_width" "length (in_child x) = mt_width + 1" using x(1) by (simp_all add: inner_shape_def)
  have K: "length K = mt_width + 1" "\<And>i. i \<le> mt_width \<Longrightarrow> K ! i = (if i < p then in_ikey0 x ! i else if i = p then ka else in_ikey0 x ! (i - 1))"
    using mid(3) ls(1,3) by (auto simp: K_def)
  have C: "length C = mt_width + 2" "\<And>i. i \<le> mt_width + 1 \<Longrightarrow> C ! i = (if i < p + 1 then in_child x ! i else if i = p + 1 then value else in_child x ! (i - 1))"
    using mid(3) ls(2,4) by (auto simp: C_def)
  have lists: "inner_keys nr1 = drop (mid + 1) K \<and> inner_kids nr1 = drop (mid + 1) C"
    if "inner_shape nr1" "nkeys nr1 = nkeys nr" "\<And>i. i < mt_width - mid \<Longrightarrow> in_ikey0 nr1 ! i = K ! (mid + 1 + i)"
      "\<And>i. i \<le> mt_width - mid \<Longrightarrow> in_child nr1 ! i = C ! (mid + 1 + i)" for nr1
    using that inner_lists [OF that(1)] K(1) C(1) b(3) mid by (intro conjI nth_equalityI) auto
  show ?thesis
  proof (cases "p \<le> mid")
    case True
    let ?c = "if p < mid then in_child x ! mid else value"
    obtain ks cs where f: "and_then (set_first_child ?c nr) (shift_from 0 x mid (mt_width - mid)) = Inr (nr\<lparr>in_ikey0 := ks, in_child := cs\<rparr>)"
      "length ks = mt_width" "length cs = mt_width + 1" "\<forall>i < mt_width - mid. ks ! i = in_ikey0 x ! (mid + i)"
      "\<forall>i \<le> mt_width - mid. cs ! i = (if i = 0 then ?c else in_child x ! (mid + i))"
      using first_and_shift [OF b(2) x(1), of "mt_width - mid" mid ?c] mid(2) by auto
    let ?nr = "nr\<lparr>in_ikey0 := ks, in_child := cs\<rparr>"
    have shape: "inner_shape ?nr" using b(2) f(2,3) by (simp add: inner_shape_def)
    have "in_ikey0 ?nr ! i = K ! (mid + 1 + i)" if "i < mt_width - mid" for i
      using that f(4) True K(2) [of "mid + 1 + i"] by simp
    moreover have "in_child ?nr ! i = C ! (mid + 1 + i)" if "i \<le> mt_width - mid" for i
      using that f(5) True mid C(2) [of "mid + 1 + i"] by (cases i) auto
    ultimately have l: "inner_keys ?nr = drop (mid + 1) K \<and> inner_kids ?nr = drop (mid + 1) C" using lists [OF shape] by simp
    have "update_inner b (\<lambda>nr. and_then (set_first_child ?c nr) (shift_from 0 x mid (mt_width - mid))) h =
        Inr (h\<lparr>inners := (inners h)(b \<mapsto> ?nr)\<rparr>)" using b(1) f(1) by (simp add: update_inner_def node_simps)
    then have "inner_fill b mid x p ka value h = Inr (K ! mid, h\<lparr>inners := (inners h)(b \<mapsto> ?nr)\<rparr>)"
      using True mid len K(2) [of mid] by (auto simp: inner_fill_def split: if_splits)
    then show ?thesis using True shape l by (intro exI [of _ ?nr] exI [of _ h]) simp
  next
    case False
    let ?n = "p - (mid + 1)"
    have le: "?n \<le> mt_width" "mid + 1 + ?n \<le> mt_width" using False mid(3) by auto
    obtain ks cs where f: "and_then (set_first_child (in_child x ! (mid + 1)) nr) (shift_from 0 x (mid + 1) ?n) = Inr (nr\<lparr>in_ikey0 := ks, in_child := cs\<rparr>)"
      "length ks = mt_width" "length cs = mt_width + 1" "\<forall>i < ?n. ks ! i = in_ikey0 x ! (mid + 1 + i)"
      "\<forall>i \<le> ?n. cs ! i = (if i = 0 then in_child x ! (mid + 1) else in_child x ! (mid + 1 + i))"
      using first_and_shift [OF b(2) x(1) le, of "in_child x ! (mid + 1)"] by blast
    let ?nr1 = "nr\<lparr>in_ikey0 := ks, in_child := cs\<rparr>"
    let ?nr2 = "?nr1\<lparr>in_ikey0 := ks[?n := ka], in_child := cs[?n + 1 := value]\<rparr>"
    have lt: "?n < mt_width" using mid False by simp
    then have put: "put_separator ?n ka value ?nr1 = Inr ?nr2" using f(2,3) by (simp add: put_separator_def)
    have shape2: "inner_shape ?nr2" using b(2) f(2,3) by (simp add: inner_shape_def)
    have le2: "?n + 1 + (mt_width - p) \<le> mt_width" "p + (mt_width - p) \<le> mt_width" using False mid(3) by auto
    obtain ks3 cs3 where g: "shift_from (?n + 1) x p (mt_width - p) ?nr2 = Inr (?nr2\<lparr>in_ikey0 := ks3, in_child := cs3\<rparr>)"
      "length ks3 = mt_width" "length cs3 = mt_width + 1"
      "\<forall>i < mt_width. ks3 ! i = (if ?n + 1 \<le> i \<and> i < ?n + 1 + (mt_width - p) then in_ikey0 x ! (p + (i - (?n + 1))) else in_ikey0 ?nr2 ! i)"
      "\<forall>i \<le> mt_width. cs3 ! i = (if ?n + 1 < i \<and> i \<le> ?n + 1 + (mt_width - p) then in_child x ! (p + (i - (?n + 1))) else in_child ?nr2 ! i)"
      using shift_from_runs [OF shape2 x(1) le2] by blast
    let ?nr3 = "nr\<lparr>in_ikey0 := ks3, in_child := cs3\<rparr>"
    have nr3: "?nr2\<lparr>in_ikey0 := ks3, in_child := cs3\<rparr> = ?nr3" by simp
    have shape: "inner_shape ?nr3" using b(2) g(2,3) by (simp add: inner_shape_def)
    have "in_ikey0 ?nr3 ! i = K ! (mid + 1 + i)" if "i < mt_width - mid" for i
    proof -
      consider "i < ?n" | "i = ?n" | "?n < i" by linarith
      then show ?thesis
        by cases (use that f(2,4) g(4) False mid K(2) [of "mid + 1 + i"] in \<open>auto simp: nth_list_update add.commute\<close>)
    qed
    moreover have "in_child ?nr3 ! i = C ! (mid + 1 + i)" if "i \<le> mt_width - mid" for i
    proof -
      consider "i \<le> ?n" | "i = ?n + 1" | "?n + 1 < i" by linarith
      then show ?thesis
        by cases (use that f(3,5) g(5) False mid C(2) [of "mid + 1 + i"] in \<open>auto simp: nth_list_update add.commute\<close>)
    qed
    ultimately have l: "inner_keys ?nr3 = drop (mid + 1) K \<and> inner_kids ?nr3 = drop (mid + 1) C" using lists [OF shape] by simp
    let ?h1 = "h\<lparr>inners := (inners h)(b \<mapsto> ?nr1)\<rparr>"
    let ?ad = "adopt_children b [value]"
    have s1: "update_inner b (\<lambda>nr. and_then (set_first_child (in_child x ! (mid + 1)) nr) (shift_from 0 x (mid + 1) ?n)) h = Inr ?h1"
      using b(1) f(1) by (simp add: update_inner_def node_simps)
    have nv: "b \<notin> set [value]" using v(2) by simp
    have ad1: "?ad ?h1 = (?ad h)\<lparr>inners := (inners (?ad h))(b \<mapsto> ?nr1)\<rparr>" by (rule adopt_other(3) [OF nv])
    have "set_parent b value ?h1 = Inr (?ad ?h1)" by (rule set_parent_adopts) (use v in auto)
    moreover have "update_inner b (put_separator ?n ka value) (?ad ?h1) = Inr ((?ad h)\<lparr>inners := (inners (?ad h))(b \<mapsto> ?nr2)\<rparr>)"
      unfolding ad1 using put by (simp add: update_inner_def node_simps)
    ultimately have s2: "inner_assign b ?n ka value ?h1 = Inr ((?ad h)\<lparr>inners := (inners (?ad h))(b \<mapsto> ?nr2)\<rparr>)"
      by (simp add: inner_assign_def)
    have s3: "update_inner b (shift_from (p + 1 - (mid + 1)) x p (mt_width - p)) ((?ad h)\<lparr>inners := (inners (?ad h))(b \<mapsto> ?nr2)\<rparr>) =
        Inr ((?ad h)\<lparr>inners := (inners (?ad h))(b \<mapsto> ?nr3)\<rparr>)"
    proof -
      have "p + 1 - (mid + 1) = ?n + 1" using False by simp
      then show ?thesis using g(1) unfolding nr3 by (simp add: update_inner_def node_simps)
    qed
    have "inner_fill b mid x p ka value h = Inr (K ! mid, (?ad h)\<lparr>inners := (inners (?ad h))(b \<mapsto> ?nr3)\<rparr>)"
      unfolding inner_fill_def using False mid len K(2) [of mid] s1 s2 s3 by simp
    then show ?thesis using False shape l by (intro exI [of _ ?nr3] exI [of _ "?ad h"]) simp
  qed
qed

lemma set_with_key: "set (with_key p x xs) = insert x (set xs)"
proof -
  have "set xs = set (take p xs) \<union> set (drop p xs)" by (metis append_take_drop_id set_append)
  then show ?thesis by (simp add: with_key_def)
qed

section \<open>A child in a node with room\<close>

lemma inner_insert_runs:
  fixes ikey child :: u64
  assumes n: "inners h a = Some n" "inner_shape n" "nkeys n < mt_width" "kp \<le> nkeys n"
    and c: "mleaves h child \<noteq> None \<or> inners h child \<noteq> None" "child \<noteq> a"
  shows "\<exists>n'. inner_insert a kp ikey child h =
      Inr ((adopt_children a [child] h)\<lparr>inners := (inners (adopt_children a [child] h))(a \<mapsto> n')\<rparr>) \<and>
    inner_shape n' \<and> inner_keys n' = with_key kp ikey (inner_keys n) \<and> inner_kids n' = with_key (kp + 1) child (inner_kids n)"
proof -
  let ?m = "nkeys n - kp" and ?ad = "adopt_children a [child]"
  note ls = inner_lists [OF n(2)]
  have len: "length (in_ikey0 n) = mt_width" "length (in_child n) = mt_width + 1" using n(2) by (simp_all add: inner_shape_def)
  have le: "kp + 1 + ?m \<le> length (in_ikey0 n)" "kp + ?m \<le> length (in_ikey0 n)" using n(3,4) len by auto
  obtain ks where ks: "copy_range (kp + 1) (in_ikey0 n) kp ?m (in_ikey0 n) = Inr ks" "length ks = mt_width"
    "\<forall>i < mt_width. ks ! i = (if kp + 1 \<le> i \<and> i < kp + 1 + ?m then in_ikey0 n ! (kp + (i - (kp + 1))) else in_ikey0 n ! i)"
    using copy_range_runs [OF le] len(1) by auto
  have le2: "Suc (nkeys n) < length (in_child n)" "?m \<le> nkeys n" using n(3) len by auto
  obtain cs where cs: "copy_down (Suc (nkeys n)) (nkeys n) ?m (in_child n) = Inr cs" "length cs = mt_width + 1"
    "\<forall>i < mt_width + 1. cs ! i = (if nkeys n - ?m + 1 < i \<and> i \<le> Suc (nkeys n) then in_child n ! (i - 1) else in_child n ! i)"
    using copy_down_runs [OF le2] len(2) by auto
  let ?n1 = "n\<lparr>in_ikey0 := ks, in_child := cs\<rparr>"
  let ?n2 = "n\<lparr>in_ikey0 := ks[kp := ikey], in_child := cs[kp + 1 := child]\<rparr>"
  let ?n3 = "?n2\<lparr>nkeys := nkeys n + 1\<rparr>"
  have "shift_up (kp + 1) kp ?m n = Inr ?n1" using ks(1) cs(1) n(4) by (simp add: shift_up_def)
  then have s1: "update_inner a (\<lambda>n. shift_up (kp + 1) kp (nkeys n - kp) n) h = Inr (h\<lparr>inners := (inners h)(a \<mapsto> ?n1)\<rparr>)"
    using n(1) by (simp add: update_inner_def node_simps)
  let ?h1 = "h\<lparr>inners := (inners h)(a \<mapsto> ?n1)\<rparr>"
  have nv: "a \<notin> set [child]" using c(2) by simp
  have ad1: "?ad ?h1 = (?ad h)\<lparr>inners := (inners (?ad h))(a \<mapsto> ?n1)\<rparr>" by (rule adopt_other(3) [OF nv])
  have "set_parent a child ?h1 = Inr (?ad ?h1)" by (rule set_parent_adopts) (use c in auto)
  moreover have "put_separator kp ikey child ?n1 = Inr ?n2" using ks(2) cs(2) n(3,4) by (simp add: put_separator_def)
  ultimately have s2: "inner_assign a kp ikey child ?h1 = Inr ((?ad h)\<lparr>inners := (inners (?ad h))(a \<mapsto> ?n2)\<rparr>)"
    by (simp add: inner_assign_def ad1 update_inner_def node_simps)
  have "inner_insert a kp ikey child h = Inr ((?ad h)\<lparr>inners := (inners (?ad h))(a \<mapsto> ?n3)\<rparr>)"
    using s1 s2 by (simp add: inner_insert_def update_inner_def node_simps)
  moreover have shape: "inner_shape ?n3" using ks(2) cs(2) n(3) by (simp add: inner_shape_def)
  moreover have "inner_keys ?n3 = with_key kp ikey (inner_keys n)"
  proof (rule nth_equalityI)
    show "length (inner_keys ?n3) = length (with_key kp ikey (inner_keys n))" using inner_lists(1) [OF shape] ls(1) n(4) by simp
    fix i assume "i < length (inner_keys ?n3)"
    then have "i \<le> nkeys n" using inner_lists(1) [OF shape] by simp
    moreover consider "i < kp" | "i = kp" | "kp < i" by linarith
    ultimately show "inner_keys ?n3 ! i = with_key kp ikey (inner_keys n) ! i"
      by cases (use ks(2,3) n(3,4) ls(1,3) inner_lists(3) [OF shape, of i] in auto)
  qed
  moreover have "inner_kids ?n3 = with_key (kp + 1) child (inner_kids n)"
  proof (rule nth_equalityI)
    show "length (inner_kids ?n3) = length (with_key (kp + 1) child (inner_kids n))" using inner_lists(2) [OF shape] ls(2) n(4) by simp
    fix i assume "i < length (inner_kids ?n3)"
    then have "i \<le> nkeys n + 1" using inner_lists(2) [OF shape] by simp
    moreover consider "i < kp + 1" | "i = kp + 1" | "kp + 1 < i" by linarith
    ultimately show "inner_kids ?n3 ! i = with_key (kp + 1) child (inner_kids n) ! i"
      by cases (use cs(2,3) n(3,4) ls(2,4) inner_lists(4) [OF shape, of i] in auto)
  qed
  ultimately show ?thesis by blast
qed

section \<open>A child in a full node\<close>

lemma inner_split_runs:
  fixes ka :: u64 and split_type :: nat
  assumes n: "inners h a = Some n" "inner_shape n" "nkeys n = mt_width" "mleaves h a = None" and p: "p \<le> mt_width"
    and b: "inners h b = Some nr" "inner_shape nr" "a \<noteq> b"
    and kids: "\<forall>c \<in> set (value # inner_kids n). (mleaves h c \<noteq> None \<or> inners h c \<noteq> None) \<and> c \<noteq> a \<and> c \<noteq> b"
  defines "mid \<equiv> if split_type = 2 then mt_width else (mt_width + 1) div 2"
    and "K \<equiv> with_key p ka (inner_keys n)" and "C \<equiv> with_key (p + 1) value (inner_kids n)"
  defines "n' \<equiv> n\<lparr>in_version := nv_mark_split (in_version n), nkeys := (if p < mid then mid - 1 else mid)\<rparr>"
  shows "\<exists>nr' h'. inner_split_into a b p ka value split_type h = Inr (if p < mid then Some p else None, K ! mid, h') \<and>
    inners h' a = Some n' \<and> inners h' b = Some nr' \<and> inner_shape nr' \<and>
    inner_keys nr' = drop (mid + 1) K \<and> inner_kids nr' = drop (mid + 1) C \<and>
    mleaves h' = mleaves (adopt_children b (drop (mid + 1) C) h) \<and>
    (\<forall>c. c \<noteq> a \<longrightarrow> c \<noteq> b \<longrightarrow> inners h' c = inners (adopt_children b (drop (mid + 1) C) h) c)"
proof -
  have mid: "0 < mid" "mid \<le> mt_width" by (simp_all add: mid_def mt_width_def)
  let ?nr = "nr\<lparr>nkeys := mt_width + 1 - (mid + 1)\<rparr>"
  let ?h1 = "h\<lparr>inners := (inners h)(b \<mapsto> ?nr)\<rparr>"
  let ?D = "drop (mid + 1) C"
  have shape: "inner_shape ?nr" and nk: "nkeys ?nr = mt_width - mid" using b(2) by (simp_all add: inner_shape_def)
  have v: "mleaves ?h1 value \<noteq> None \<or> inners ?h1 value \<noteq> None" "value \<noteq> b" using kids by auto
  have b1: "inners ?h1 b = Some ?nr" by simp
  obtain nr1 hx where f: "inner_fill b mid n p ka value ?h1 = Inr (K ! mid, hx\<lparr>inners := (inners hx)(b \<mapsto> nr1)\<rparr>)"
    "hx = (if mid < p then adopt_children b [value] ?h1 else ?h1)" "inner_shape nr1" "nkeys nr1 = nkeys ?nr"
    "inner_keys nr1 = drop (mid + 1) K" "inner_kids nr1 = ?D"
    using inner_fill_runs [OF n(2,3) mid p b1 shape nk v, of ka] unfolding K_def C_def by blast
  define h2 where "h2 = hx\<lparr>inners := (inners hx)(b \<mapsto> nr1)\<rparr>"
  have D: "set ?D \<subseteq> set (value # inner_kids n)"
    using set_drop_subset [of "mid + 1" C] by (simp only: C_def set_with_key list.set)
  then have ab: "a \<notin> set ?D" "b \<notin> set ?D" using kids by auto
  have vD: "mid < p \<Longrightarrow> value \<in> set ?D"
  proof -
    assume "mid < p"
    then have "?D ! (p - mid) = value" "p - mid < length ?D"
      using p inner_lists(2) [OF n(2)] n(3) by (simp_all add: C_def)
    then show "value \<in> set ?D" by (metis nth_mem)
  qed
  have h2: "adopt_children b ?D h2 = (adopt_children b ?D h)\<lparr>inners := (inners (adopt_children b ?D h))(b \<mapsto> nr1)\<rparr>"
  proof -
    have "adopt_children b ?D h2 = (adopt_children b ?D hx)\<lparr>inners := (inners (adopt_children b ?D hx))(b \<mapsto> nr1)\<rparr>"
      unfolding h2_def by (rule adopt_other(3) [OF ab(2)])
    moreover have "adopt_children b ?D hx = adopt_children b ?D ?h1"
      using f(2) vD adopt_other(4) [of "[value]" ?D b ?h1] by simp
    moreover have "adopt_children b ?D ?h1 = (adopt_children b ?D h)\<lparr>inners := (inners (adopt_children b ?D h))(b \<mapsto> ?nr)\<rparr>"
      by (rule adopt_other(3) [OF ab(2)])
    ultimately show ?thesis by simp
  qed
  have known: "mleaves h2 c \<noteq> None \<or> inners h2 c \<noteq> None" if "c \<in> set ?D" for c
  proof -
    have "c \<in> set (value # inner_kids n)" using that D by blast
    then have "mleaves h c \<noteq> None \<or> inners h c \<noteq> None" "c \<noteq> b" using kids by auto
    then show ?thesis using f(2) by (auto simp: h2_def adopt_children_def)
  qed
  have s3: "set_parents b ?D h2 = Inr (adopt_children b ?D h2)" by (rule set_parents_runs) (use known in blast)
  have ha: "mleaves (adopt_children b ?D h2) a = None" "inners (adopt_children b ?D h2) a = Some n"
    unfolding h2 using adopt_other(1,2) [OF ab(1), of b h] n(1,4) b(3) by simp_all
  let ?h4 = "(adopt_children b ?D h2)\<lparr>inners := (inners (adopt_children b ?D h2))(a \<mapsto> n\<lparr>in_version := nv_mark_split (in_version n)\<rparr>)\<rparr>"
  let ?h5 = "(adopt_children b ?D h2)\<lparr>inners := (inners (adopt_children b ?D h2))(a \<mapsto> n')\<rparr>"
  have s4: "set_node_version nv_mark_split a (adopt_children b ?D h2) = Inr ?h4" using ha by (simp add: node_simps)
  have s5: "update_inner a (\<lambda>n. Inr (n\<lparr>nkeys := (if p < mid then mid - 1 else mid)\<rparr>)) ?h4 = Inr ?h5"
    by (simp add: update_inner_def node_simps n'_def)
  have kids1: "take (nkeys nr1 + 1) (in_child nr1) = ?D" using f(6) by (simp add: inner_kids_def)
  have s1: "update_inner b (\<lambda>nr. Inr (nr\<lparr>nkeys := mt_width + 1 - (mid + 1)\<rparr>)) h = Inr ?h1"
    using b(1) by (simp add: update_inner_def node_simps)
  have lb: "load_inner b h2 = Inr nr1" by (simp add: h2_def node_simps)
  have "inner_split_into a b p ka value split_type h = Inr (if p < mid then Some p else None, K ! mid, ?h5)"
    unfolding inner_split_into_def Let_def load_simps(2) [OF n(1)] mid_def [symmetric] and_then_simps s1 f(1) [folded h2_def] prod.case lb kids1 s3 s4 s5 ..
  moreover have "inners ?h5 a = Some n'" "inners ?h5 b = Some nr1" "mleaves ?h5 = mleaves (adopt_children b ?D h)"
    "\<forall>c. c \<noteq> a \<longrightarrow> c \<noteq> b \<longrightarrow> inners ?h5 c = inners (adopt_children b ?D h) c"
    unfolding h2 using b(3) by simp_all
  ultimately show ?thesis using f(3,5,6) by blast
qed

section \<open>One round of the loop\<close>

text \<open>
  The nodes that take part: the inner node \<open>a\<close>, the new node \<open>b\<close> for its upper half, the children that have \<open>a\<close> as
  their parent and the child that enters.
\<close>

definition inner_family :: "u64 \<Rightarrow> u64 \<Rightarrow> u64 \<Rightarrow> mass_internode \<Rightarrow> mass_heap \<Rightarrow> bool" where
  "inner_family a b child n h \<longleftrightarrow>
     inners h a = Some n \<and> inner_shape n \<and> mleaves h a = None \<and> a \<noteq> b \<and> (\<exists>nr. inners h b = Some nr \<and> inner_shape nr) \<and>
     distinct (child # inner_kids n) \<and> (\<forall>c \<in> set (inner_kids n). node_parent c h = Inr a) \<and>
     (\<forall>c \<in> set (child # inner_kids n). (mleaves h c \<noteq> None \<or> inners h c \<noteq> None) \<and> c \<noteq> a \<and> c \<noteq> b)"

lemma node_parent_cong:
  "mleaves h' c = mleaves h c \<Longrightarrow> inners h' c = inners h c \<Longrightarrow> node_parent c h' = node_parent c h"
  by (simp add: node_parent_def load_inner_def split: option.split)

lemma node_parent_adopted:
  "mleaves h c \<noteq> None \<or> inners h c \<noteq> None \<Longrightarrow> c \<in> set cs \<Longrightarrow> node_parent c (adopt_children p cs h) = Inr p"
  "c \<notin> set cs \<Longrightarrow> node_parent c (adopt_children p cs h) = node_parent c h"
  by (auto simp: node_parent_def adopt_children_def load_inner_def split: option.splits)

lemma inner_lists_update:
  "inner_keys (n\<lparr>in_version := v, nkeys := m\<rparr>) = take m (in_ikey0 n)" "inner_kids (n\<lparr>in_version := v, nkeys := m\<rparr>) = take (m + 1) (in_child n)"
  by (simp_all add: inner_keys_def inner_kids_def)

lemma inner_takes_room:
  assumes "inner_family a b child n h" and "kp \<le> nkeys n" and side: "nkeys n < mt_width"
  shows "\<exists>n' h'. inner_take_child a b kp ikey child split_type h = Inr (None, h') \<and> inners h' a = Some n' \<and>
    inner_keys n' = with_key kp ikey (inner_keys n) \<and> inner_kids n' = with_key (kp + 1) child (inner_kids n) \<and>
    (\<forall>c \<in> set (inner_kids n'). node_parent c h' = Inr a)"
proof -
  have n: "inners h a = Some n" "inner_shape n" "mleaves h a = None" and ab: "a \<noteq> b"
    and dist: "child \<notin> set (inner_kids n)" "distinct (inner_kids n)" and old: "\<forall>c \<in> set (inner_kids n). node_parent c h = Inr a"
    and kids: "\<forall>c \<in> set (child # inner_kids n). (mleaves h c \<noteq> None \<or> inners h c \<noteq> None) \<and> c \<noteq> a \<and> c \<noteq> b"
    using assms(1) by (auto simp: inner_family_def)
  obtain nr where nr: "inners h b = Some nr" "inner_shape nr" using assms(1) by (auto simp: inner_family_def)
  have ck: "mleaves h child \<noteq> None \<or> inners h child \<noteq> None" "child \<noteq> a" "child \<noteq> b" using kids by auto
  let ?h = "adopt_children a [child] h"
  obtain n' where r: "inner_insert a kp ikey child h = Inr (?h\<lparr>inners := (inners ?h)(a \<mapsto> n')\<rparr>)"
    "inner_keys n' = with_key kp ikey (inner_keys n)" "inner_kids n' = with_key (kp + 1) child (inner_kids n)"
    using inner_insert_runs [OF n(1,2) side assms(2) ck(1,2)] by blast
  let ?h' = "?h\<lparr>inners := (inners ?h)(a \<mapsto> n')\<rparr>"
  have "inner_take_child a b kp ikey child split_type h = Inr (None, ?h')"
    using side r(1) by (simp add: inner_take_child_def node_simps n(1))
  moreover have "node_parent c ?h' = Inr a" if "c \<in> set (inner_kids n')" for c
  proof -
    have c: "c = child \<or> c \<in> set (inner_kids n)" using that r(3) set_with_key by (metis insert_iff)
    then have "c \<noteq> a" using kids by auto
    then have "node_parent c ?h' = node_parent c ?h" by (intro node_parent_cong) simp_all
    then show ?thesis using c old ck(1) node_parent_adopted [where h = h and c = c and cs = "[child]" and p = a] by (cases "c = child") auto
  qed
  ultimately show ?thesis using r(2,3) side by (intro exI [of _ n'] exI [of _ ?h']) simp
qed

lemma inner_takes_full:
  assumes "inner_family a b child n h" and "kp \<le> nkeys n" and full: "nkeys n = mt_width"
  shows "\<exists>ik n' nr' h'. inner_take_child a b kp ikey child split_type h = Inr (Some ik, h') \<and> inners h' a = Some n' \<and> inners h' b = Some nr' \<and>
    inner_keys n' @ ik # inner_keys nr' = with_key kp ikey (inner_keys n) \<and>
    inner_kids n' @ inner_kids nr' = with_key (kp + 1) child (inner_kids n) \<and>
    length (inner_kids n') = length (inner_keys n') + 1 \<and> length (inner_kids nr') = length (inner_keys nr') + 1 \<and>
    (\<forall>c \<in> set (inner_kids n'). node_parent c h' = Inr a) \<and> (\<forall>c \<in> set (inner_kids nr'). node_parent c h' = Inr b)"
proof -
  have n: "inners h a = Some n" "inner_shape n" "mleaves h a = None" and ab: "a \<noteq> b"
    and dist: "child \<notin> set (inner_kids n)" "distinct (inner_kids n)" and old: "\<forall>c \<in> set (inner_kids n). node_parent c h = Inr a"
    and kids: "\<forall>c \<in> set (child # inner_kids n). (mleaves h c \<noteq> None \<or> inners h c \<noteq> None) \<and> c \<noteq> a \<and> c \<noteq> b"
    using assms(1) by (auto simp: inner_family_def)
  obtain nr where nr: "inners h b = Some nr" "inner_shape nr" using assms(1) by (auto simp: inner_family_def)
  have ck: "mleaves h child \<noteq> None \<or> inners h child \<noteq> None" "child \<noteq> a" "child \<noteq> b" using kids by auto
  define mid where "mid = (if split_type = 2 then mt_width else (mt_width + 1) div 2)"
  have mid: "0 < mid" "mid \<le> mt_width" by (simp_all add: mid_def mt_width_def)
  let ?K = "with_key kp ikey (inner_keys n)" and ?C = "with_key (kp + 1) child (inner_kids n)"
  let ?n1 = "n\<lparr>in_version := nv_mark_split (in_version n), nkeys := (if kp < mid then mid - 1 else mid)\<rparr>"
  let ?D = "drop (mid + 1) ?C"
  have kp: "kp \<le> mt_width" using assms(2) full by simp
  obtain nr' h1 where s: "inner_split_into a b kp ikey child split_type h = Inr (if kp < mid then Some kp else None, ?K ! mid, h1)"
    "inners h1 a = Some ?n1" "inners h1 b = Some nr'" "inner_shape nr'" "inner_keys nr' = drop (mid + 1) ?K" "inner_kids nr' = ?D"
    "mleaves h1 = mleaves (adopt_children b ?D h)"
    "\<forall>c. c \<noteq> a \<longrightarrow> c \<noteq> b \<longrightarrow> inners h1 c = inners (adopt_children b ?D h) c"
    using inner_split_runs [OF n(1,2) full n(3) kp nr ab kids, where split_type = split_type and ka = ikey] unfolding mid_def by blast
  note ls = inner_lists [OF n(2), unfolded full]
  have lens: "length ?K = mt_width + 1" "length ?C = mt_width + 2" using ls(1,2) kp by simp_all
  have arr: "in_ikey0 n = inner_keys n" "in_child n = inner_kids n" using n(2) full by (simp_all add: inner_keys_def inner_kids_def inner_shape_def)
  have split: "take (mid + 1) ?C @ ?D = ?C" "take mid ?K @ ?K ! mid # drop (mid + 1) ?K = ?K"
    using lens mid by (simp_all add: id_take_nth_drop [symmetric])
  have distC: "distinct ?C" using dist by (simp add: with_key_def set_take_disj_set_drop_if_distinct) (meson in_set_dropD in_set_takeD)
  have other: "node_parent c h1 = (if c \<in> set ?D then Inr b else node_parent c h)" if "c \<in> set (child # inner_kids n)" for c
  proof -
    have "c \<noteq> a" "c \<noteq> b" and k: "mleaves h c \<noteq> None \<or> inners h c \<noteq> None" using that kids by auto
    then have "node_parent c h1 = node_parent c (adopt_children b ?D h)" using s(7,8) by (intro node_parent_cong) simp_all
    then show ?thesis using node_parent_adopted [where h = h and c = c and cs = ?D and p = b] k by simp
  qed
  have CD: "set (take (mid + 1) ?C) \<inter> set ?D = {}" "set ?C = set (child # inner_kids n)"
    using distC set_take_disj_set_drop_if_distinct [of ?C "mid + 1" "mid + 1"] by (simp_all only: set_with_key list.set)
  have finish: ?thesis
    if t: "inner_take_child a b kp ikey child split_type h = Inr (Some (?K ! mid), h')" "inners h' a = Some n'" "inners h' b = Some nr'"
      "inner_keys n' = take mid ?K" "inner_kids n' = take (mid + 1) ?C"
      "\<And>c. c \<in> set (take (mid + 1) ?C) \<Longrightarrow> node_parent c h' = Inr a" "\<And>c. c \<in> set ?D \<Longrightarrow> node_parent c h' = Inr b" for n' h'
    using t lens mid split full s(5,6) by (intro exI [of _ "?K ! mid"] exI [of _ n'] exI [of _ nr'] exI [of _ h']) simp
  show ?thesis
  proof (cases "kp < mid")
    case False
    have "inner_take_child a b kp ikey child split_type h = Inr (Some (?K ! mid), h1)"
      using full s(1) False by (simp add: inner_take_child_def node_simps n(1))
    moreover have "inner_keys ?n1 = take mid ?K" "inner_kids ?n1 = take (mid + 1) ?C"
      using False kp mid ls(1,2) with_key_halves(2) [of kp "inner_keys n" mid ikey] with_key_halves(2) [of "kp + 1" "inner_kids n" "mid + 1" child]
      by (simp_all add: inner_lists_update arr)
    moreover have "node_parent c h1 = Inr a" if "c \<in> set (take (mid + 1) ?C)" for c
    proof -
      have "take (mid + 1) ?C = take (mid + 1) (inner_kids n)"
        using False kp mid ls(2) with_key_halves(2) [of "kp + 1" "inner_kids n" "mid + 1" child] by simp
      then have "c \<in> set (inner_kids n)" using in_set_takeD [of c "mid + 1" "inner_kids n"] that by (simp only:)
      then show ?thesis using that CD(1) old other [of c] by auto
    qed
    moreover have "node_parent c h1 = Inr b" if "c \<in> set ?D" for c
      using that CD(2) other [of c] in_set_dropD [OF that] by simp
    ultimately show ?thesis using s(2,3) by (intro finish [of h1 ?n1]) simp_all
  next
    case True
    have n1: "inner_shape ?n1" "nkeys ?n1 < mt_width" "kp \<le> nkeys ?n1" using n(2) True mid by (simp_all add: inner_shape_def)
    have ck1: "mleaves h1 child \<noteq> None \<or> inners h1 child \<noteq> None"
      using ck s(7,8) by (auto simp: adopt_children_def)
    let ?h = "adopt_children a [child] h1"
    obtain n' where r: "inner_insert a kp ikey child h1 = Inr (?h\<lparr>inners := (inners ?h)(a \<mapsto> n')\<rparr>)"
      "inner_keys n' = with_key kp ikey (inner_keys ?n1)" "inner_kids n' = with_key (kp + 1) child (inner_kids ?n1)"
      using inner_insert_runs [OF s(2) n1 ck1 ck(2)] by blast
    let ?h' = "?h\<lparr>inners := (inners ?h)(a \<mapsto> n')\<rparr>"
    have "inner_take_child a b kp ikey child split_type h = Inr (Some (?K ! mid), ?h')"
      using full s(1) True r(1) by (simp add: inner_take_child_def node_simps n(1))
    moreover have "inner_keys n' = take mid ?K" "inner_kids n' = take (mid + 1) ?C"
      using True mid ls(1,2) with_key_halves(1) [of kp "inner_keys n" "mid - 1" ikey] with_key_halves(1) [of "kp + 1" "inner_kids n" mid child]
      by (simp_all add: r(2,3) inner_lists_update arr)
    moreover have "inners ?h' a = Some n'" "inners ?h' b = Some nr'"
      using s(3) ab ck(3) adopt_other(1) [of b "[child]" a h1] by simp_all
    moreover have near: "node_parent c ?h' = (if c = child then Inr a else node_parent c h1)" if "c \<noteq> a" for c
    proof -
      have "node_parent c ?h' = node_parent c ?h" using that by (intro node_parent_cong) simp_all
      then show ?thesis using ck1 node_parent_adopted [where h = h1 and c = c and cs = "[child]" and p = a] by auto
    qed
    moreover have "node_parent c ?h' = Inr a" if "c \<in> set (take (mid + 1) ?C)" for c
    proof (cases "c = child")
      case False
      then have "c \<in> set (inner_kids n)" using that CD(2) by (metis in_set_takeD set_ConsD)
      then show ?thesis using False that CD(1) old other [of c] near [of c] kids by auto
    qed (use near ck(2) in simp)
    moreover have "node_parent c ?h' = Inr b" if "c \<in> set ?D" for c
    proof -
      have "child \<in> set (take (mid + 1) ?C)"
      proof -
        have "take (mid + 1) ?C ! (kp + 1) = child" "kp + 1 < length (take (mid + 1) ?C)" using True mid ls(2) kp lens by simp_all
        then show ?thesis by (metis nth_mem)
      qed
      then have "c \<noteq> child" using that CD(1) by blast
      moreover have "c \<in> set (child # inner_kids n)" using that CD(2) by (metis in_set_dropD)
      ultimately show ?thesis using that other [of c] near [of c] kids by auto
    qed
    ultimately show ?thesis by (intro finish [of ?h' n']) simp_all
  qed
qed

text \<open>
  C11. A child that enters an inner node comes with its separator to its place. A node with room takes it in. A full node is
  divided: the separators of the lower half, the one that goes up and those of the upper half are the old
  ones with the new one at its place, the children of the halves are the old ones with the new one, each half has
  one child more than separators, and the parent of every child is the half that holds it.
\<close>

theorem inner_take_child_keeps_all:
  assumes "inner_family a b child n h" and "kp \<le> nkeys n"
  shows "\<exists>up n' h'. inner_take_child a b kp ikey child split_type h = Inr (up, h') \<and> inners h' a = Some n' \<and>
    (case up of
      None \<Rightarrow> nkeys n < mt_width \<and> inner_keys n' = with_key kp ikey (inner_keys n) \<and>
        inner_kids n' = with_key (kp + 1) child (inner_kids n) \<and> (\<forall>c \<in> set (inner_kids n'). node_parent c h' = Inr a)
    | Some ik \<Rightarrow> nkeys n = mt_width \<and> (\<exists>nr'. inners h' b = Some nr' \<and>
        inner_keys n' @ ik # inner_keys nr' = with_key kp ikey (inner_keys n) \<and>
        inner_kids n' @ inner_kids nr' = with_key (kp + 1) child (inner_kids n) \<and>
        length (inner_kids n') = length (inner_keys n') + 1 \<and> length (inner_kids nr') = length (inner_keys nr') + 1 \<and>
        (\<forall>c \<in> set (inner_kids n'). node_parent c h' = Inr a) \<and> (\<forall>c \<in> set (inner_kids nr'). node_parent c h' = Inr b)))"
proof (cases "nkeys n < mt_width")
  case True
  from inner_takes_room [OF assms True, of ikey split_type] show ?thesis using True by fastforce
next
  case False
  then have full: "nkeys n = mt_width" using assms(1) by (auto simp: inner_family_def inner_shape_def)
  obtain ik n' nr' h' where "inner_take_child a b kp ikey child split_type h = Inr (Some ik, h')" "inners h' a = Some n'" "inners h' b = Some nr'"
    "inner_keys n' @ ik # inner_keys nr' = with_key kp ikey (inner_keys n)"
    "inner_kids n' @ inner_kids nr' = with_key (kp + 1) child (inner_kids n)"
    "length (inner_kids n') = length (inner_keys n') + 1" "length (inner_kids nr') = length (inner_keys nr') + 1"
    "\<forall>c \<in> set (inner_kids n'). node_parent c h' = Inr a" "\<forall>c \<in> set (inner_kids nr'). node_parent c h' = Inr b"
    using inner_takes_full [OF assms full, of ikey split_type] by blast
  then show ?thesis using full by (intro exI [of _ "Some ik"] exI [of _ n'] exI [of _ h']) auto
qed

text \<open>An inner node at \<open>8\<close> with \<open>n\<close> separators and its children, a new child at \<open>1\<close> and a new node at \<open>16\<close>.\<close>

definition filled_inner :: "nat \<Rightarrow> mass_internode" where
  "filled_inner n = (blank_internode 1 Mem_Local 1)\<lparr>nkeys := n, in_ikey0 := map of_nat [10..<25], in_child := map of_nat [100..<116]\<rparr>"

definition filled_heap :: "nat \<Rightarrow> mass_heap" where
  "filled_heap n = sample_layer\<lparr>mleaves := (\<lambda>c. if c = 1 \<or> (100 \<le> c \<and> c < 116) then Some ((blank_leaf 320 0 Mem_Local 2 1)\<lparr>lf_parent := 8\<rparr>) else None),
     inners := [8 \<mapsto> filled_inner n, 16 \<mapsto> blank_internode 1 Mem_Local 1]\<rparr>"

lemma filled_family: "n \<le> 15 \<Longrightarrow> inner_family 8 16 1 (filled_inner n) (filled_heap n)"
proof -
  assume n: "n \<le> 15"
  have d: "distinct (1 # map of_nat [100..<116] :: u64 list)" "\<forall>c \<in> set (map of_nat [100..<116] :: u64 list). 100 \<le> c \<and> c < 116"
    by (simp_all add: upt_rec)
  have k: "inner_kids (filled_inner n) = take (n + 1) (map of_nat [100..<116])" by (simp add: inner_kids_def filled_inner_def)
  then have d1: "distinct (1 # inner_kids (filled_inner n))" using d(1) by (metis distinct.simps(2) distinct_take in_set_takeD)
  have m: "100 \<le> c \<and> c < 116" if "c \<in> set (inner_kids (filled_inner n))" for c using that k d(2) by (metis in_set_takeD)
  then have "mleaves (filled_heap n) c = Some ((blank_leaf 320 0 Mem_Local 2 1)\<lparr>lf_parent := 8\<rparr>) \<and> c \<noteq> 8 \<and> c \<noteq> 16" if "c \<in> set (1 # inner_kids (filled_inner n))" for c
    using that by (fastforce simp: filled_heap_def)
  note c = this
  have sh: "inner_shape (filled_inner n)" "inner_shape (blank_internode 1 Mem_Local 1)"
    using n by (simp_all add: inner_shape_def filled_inner_def blank_internode_def mt_width_def)
  have h: "inners (filled_heap n) 8 = Some (filled_inner n)" "inners (filled_heap n) 16 = Some (blank_internode 1 Mem_Local 1)" "mleaves (filled_heap n) 8 = None"
    by (simp_all add: filled_heap_def)
  show ?thesis unfolding inner_family_def
    using c d1 sh h by (auto simp: node_parent_def)
qed

lemma inner_take_child_keeps_all_witness:
  "\<exists>ik n' nr' h'. inner_take_child 8 16 3 7 1 0 (filled_heap 15) = Inr (Some ik, h') \<and> inners h' 8 = Some n' \<and> inners h' 16 = Some nr' \<and>
    inner_keys n' @ ik # inner_keys nr' = with_key 3 7 (inner_keys (filled_inner 15))"
proof -
  have "3 \<le> nkeys (filled_inner 15)" "\<not> nkeys (filled_inner 15) < mt_width" by (simp_all add: filled_inner_def mt_width_def)
  then show ?thesis
    using inner_take_child_keeps_all [OF filled_family, of 15 3 7 0] by (fastforce split: option.splits)
qed

end
