(* ===== verification/Masstree_Lookup.thy ===== *)
theory Masstree_Lookup
  imports Masstree_Inner
begin

text \<open>
  Lookup in the trie of B+ trees (\<open>masstree_get.hh\<close>, \<open>reach_leaf\<close> of \<open>masstree_struct.hh\<close>): from the root of a layer to the
  leaf for a key, through the leaf to a value or to the layer below. A layer is described by an abstract tree and a relation
  between it and the heap; the lemmas show that a lookup finds exactly the strings the tree holds.
\<close>

section \<open>Descending in one layer\<close>

text \<open>
  The search starts again when it meets a node without a child at its place, which for one thread means for ever. The
  fuel bounds the number of nodes on the way.
\<close>

fun reach_node :: "nat \<Rightarrow> u64 \<Rightarrow> u64 \<Rightarrow> mass_heap \<Rightarrow> u64 res" where
  "reach_node 0 ik a h = Inl Out_Of_Fuel"
| "reach_node (Suc fuel) ik a h =
     and_then (node_version a h) (\<lambda>v.
     if v AND dirty_mask \<noteq> 0 then Inl Spin
     else if nv_isleaf v then Inr a
     else and_then (load_inner a h) (\<lambda>n.
       and_then (byte_at (in_child n) (key_upper_bound ik (in_ikey0 n) 0 (nkeys n))) (\<lambda>c.
       if c = 0 then Inl Spin else reach_node fuel ik c h)))"

definition record_access :: "mass_leaf \<Rightarrow> mass_leaf" where
  "record_access l = l\<lparr>lf_meta := (lf_meta l)\<lparr>access_time := access_time (lf_meta l) + 1\<rparr>\<rparr>"

definition reach_leaf :: "nat \<Rightarrow> mass_key \<Rightarrow> u64 \<Rightarrow> mass_heap \<Rightarrow> (u64 \<times> mass_heap) res" where
  "reach_leaf fuel k rt h =
     and_then (find_root fuel rt h) (\<lambda>r.
     and_then (reach_node fuel (mk_ikey k) r h) (\<lambda>a.
     and_then (modify_mleaf a record_access h) (\<lambda>h1. Inr (a, h1))))"

section \<open>Lookup\<close>

text \<open>One for a match, zero for none, and minus eight, the bytes to skip, for a slot that holds the layer below.\<close>

definition ksuf_matches :: "nat \<Rightarrow> mass_key \<Rightarrow> mass_leaf \<Rightarrow> mass_heap \<Rightarrow> int res" where
  "ksuf_matches p k l h =
     (if unat (keylenx l ! p) < ksuf_keylenx then Inr 1
      else if unat (keylenx l ! p) = layer_keylenx then Inr (- int ikey_size)
      else and_then (leaf_bag l h) (\<lambda>b.
        let s = bag_get b p
        in Inr (if int (length s) = int (mk_len k) - int ikey_size \<and> s = mk_suffix k then 1 else 0)))"

definition mk_shift_by :: "nat \<Rightarrow> mass_key \<Rightarrow> mass_key" where
  "mk_shift_by delta k =
     \<lparr>mk_ikey = make_comparable (take (mk_len k - delta) (drop delta (mk_str k))),
      mk_len = mk_len k - delta, mk_str = drop delta (mk_str k)\<rparr>"

text \<open>
  With one thread no version changes during the search, so the branch that goes on to the next leaf is not taken, and a
  deleted leaf is met again and again.
\<close>

fun find_unlocked :: "nat \<Rightarrow> nat \<Rightarrow> mass_key \<Rightarrow> u64 \<Rightarrow> mass_heap \<Rightarrow> (u64 option \<times> mass_heap) res" where
  "find_unlocked fuel 0 k rt h = Inl Out_Of_Fuel"
| "find_unlocked fuel (Suc layers) k rt h =
     and_then (reach_leaf fuel k rt h) (\<lambda>(a, h1).
     and_then (load_mleaf a h1) (\<lambda>l.
     if nv_deleted (lf_version l) then Inl Spin
     else case snd (leaf_lower k l) of
       None \<Rightarrow> Inr (None, h1)
     | Some p \<Rightarrow> and_then (ksuf_matches p k l h1) (\<lambda>match.
         if match < 0 then find_unlocked fuel layers (mk_shift_by (nat (- match)) k) (lv l ! p) h1
         else Inr (if match = 0 then None else Some (lv l ! p), h1))))"

definition mass_table_get :: "nat \<Rightarrow> nat \<Rightarrow> u64 \<Rightarrow> u8 list \<Rightarrow> mass_heap \<Rightarrow> (u64 option \<times> mass_heap) res" where
  "mass_table_get fuel layers rt s h = find_unlocked fuel layers (make_key s) rt h"

section \<open>What a layer holds\<close>

text \<open>
  A slot holds a string with its value, or for eight bytes the layer of all strings that go on from there, with the pointer that
  leads to it.
\<close>

datatype layer_tree = Leaf_Node u64 "layer_slot list" | Inner_Node u64 "u64 list" "layer_tree list"
  and layer_slot = Key_Slot "u8 list" u64 | Layer_Slot "u8 list" u64 layer_tree

fun node_addr :: "layer_tree \<Rightarrow> u64" where
  "node_addr (Leaf_Node a ss) = a"
| "node_addr (Inner_Node a ks ts) = a"

fun layer_slots :: "layer_tree \<Rightarrow> layer_slot list" where
  "layer_slots (Leaf_Node a ss) = ss"
| "layer_slots (Inner_Node a ks ts) = concat (map layer_slots ts)"

fun entries :: "layer_tree \<Rightarrow> (u8 list \<times> u64) list" and slot_entries :: "layer_slot \<Rightarrow> (u8 list \<times> u64) list" where
  "entries (Leaf_Node a ss) = concat (map slot_entries ss)"
| "entries (Inner_Node a ks ts) = concat (map entries ts)"
| "slot_entries (Key_Slot s v) = [(s, v)]"
| "slot_entries (Layer_Slot b p t) = map (\<lambda>(s, v). (b @ s, v)) (entries t)"

fun slot_bytes :: "layer_slot \<Rightarrow> u8 list" where
  "slot_bytes (Key_Slot s v) = s"
| "slot_bytes (Layer_Slot b p t) = b"

definition slot_ikey :: "layer_slot \<Rightarrow> u64" where
  "slot_ikey x = make_comparable (slot_bytes x)"

fun slot_code :: "layer_slot \<Rightarrow> u64 \<times> u8 \<times> u64 \<times> u8 list" where
  "slot_code (Key_Slot s v) =
     (make_comparable s, of_nat (if ikey_size < length s then ksuf_keylenx else length s), v, drop ikey_size s)"
| "slot_code (Layer_Slot b p t) = (make_comparable b, of_nat layer_keylenx, p, [])"

definition leads_to :: "mass_heap \<Rightarrow> u64 \<Rightarrow> u64 \<Rightarrow> bool" where
  "leads_to h p a \<longleftrightarrow> (\<exists>fuel. find_root fuel p h = Inr a)"

definition quiet_leaf :: "mass_leaf \<Rightarrow> bool" where
  "quiet_leaf l \<longleftrightarrow> lf_version l AND dirty_mask = 0 \<and> nv_isleaf (lf_version l) \<and> \<not> nv_deleted (lf_version l) \<and> leaf_wf l"

definition leaf_holds :: "mass_heap \<Rightarrow> u64 \<Rightarrow> layer_slot list \<Rightarrow> bool" where
  "leaf_holds h a xs \<longleftrightarrow> (\<exists>l. mleaves h a = Some l \<and> quiet_leaf l \<and> suffixes_ok (used_slots l) l h \<and>
     leaf_contents l h = map slot_code xs)"

definition inner_holds :: "mass_heap \<Rightarrow> u64 \<Rightarrow> u64 list \<Rightarrow> u64 list \<Rightarrow> bool" where
  "inner_holds h a ks cs \<longleftrightarrow> (\<exists>n. inners h a = Some n \<and> mleaves h a = None \<and> in_version n AND dirty_mask = 0 \<and>
     \<not> nv_isleaf (in_version n) \<and> inner_shape n \<and> inner_keys n = ks \<and> inner_kids n = cs \<and> sorted_wrt (<) ks \<and> 0 \<notin> set cs)"

text \<open>The keys below a child lie between the separators on its two sides.\<close>

definition separated :: "u64 list \<Rightarrow> layer_tree list \<Rightarrow> bool" where
  "separated ks ts \<longleftrightarrow> (\<forall>i < length ts. \<forall>x \<in> set (layer_slots (ts ! i)).
     (\<forall>j < i. ks ! j \<le> slot_ikey x) \<and> (\<forall>j. i \<le> j \<longrightarrow> j < length ks \<longrightarrow> slot_ikey x < ks ! j))"

fun tree_rep :: "mass_heap \<Rightarrow> layer_tree \<Rightarrow> bool" and slot_rep :: "mass_heap \<Rightarrow> layer_slot \<Rightarrow> bool" where
  "tree_rep h (Leaf_Node a xs) \<longleftrightarrow> leaf_holds h a xs \<and> (\<forall>x \<in> set xs. slot_rep h x)"
| "tree_rep h (Inner_Node a ks ts) \<longleftrightarrow> inner_holds h a ks (map node_addr ts) \<and> separated ks ts \<and> (\<forall>t \<in> set ts. tree_rep h t)"
| "slot_rep h (Key_Slot s v) \<longleftrightarrow> True"
| "slot_rep h (Layer_Slot b p t) \<longleftrightarrow> length b = ikey_size \<and> leads_to h p (node_addr t) \<and> [] \<notin> fst ` set (entries t) \<and> tree_rep h t"

section \<open>Counting an access\<close>

text \<open>Accesses change only the counters of leaves, on which nothing here depends.\<close>

definition touched :: "mass_heap \<Rightarrow> mass_heap \<Rightarrow> bool" where
  "touched h h' \<longleftrightarrow> inners h' = inners h \<and> bags h' = bags h \<and>
     (\<exists>f. mleaves h' = (\<lambda>a. map_option (\<lambda>l. l\<lparr>lf_meta := f a\<rparr>) (mleaves h a)))"

lemma leaf_meta_irrelevant [simp]:
  "leaf_wf (l\<lparr>lf_meta := m\<rparr>) = leaf_wf l" "used_slots (l\<lparr>lf_meta := m\<rparr>) = used_slots l"
  "leaf_contents (l\<lparr>lf_meta := m\<rparr>) h = leaf_contents l h" "suffixes_ok A (l\<lparr>lf_meta := m\<rparr>) h = suffixes_ok A l h"
  "quiet_leaf (l\<lparr>lf_meta := m\<rparr>) = quiet_leaf l"
  by (simp_all add: quiet_leaf_def leaf_wf_def leaf_entries_def leaf_contents_def used_slots_def leaf_size_def slot_content_def
      slot_suffix_def suffix_of_def leaf_bag_def suffixes_ok_def slot_rank_def [abs_def] cong: map_cong)

lemma bags_only:
  "bags h' = bags h \<Longrightarrow> leaf_contents l h' = leaf_contents l h" "bags h' = bags h \<Longrightarrow> suffixes_ok A l h' = suffixes_ok A l h"
  by (simp_all add: leaf_contents_def slot_content_def slot_suffix_def suffix_of_def leaf_bag_def suffixes_ok_def)

lemma touched_refl [simp]: "touched h h"
proof -
  have "mleaves h = (\<lambda>a. map_option (\<lambda>l. l\<lparr>lf_meta := lf_meta (the (mleaves h a))\<rparr>) (mleaves h a))"
    by (rule ext) (auto split: option.split simp: map_option_case)
  then show ?thesis unfolding touched_def by (intro conjI refl exI)
qed

lemma touched_trans: "touched h h1 \<Longrightarrow> touched h1 h2 \<Longrightarrow> touched h h2"
  by (auto simp: touched_def option.map_comp comp_def)

lemma touched_nodes:
  assumes "touched h h'"
  shows "node_version a h' = node_version a h" and "node_parent a h' = node_parent a h" and "load_inner a h' = load_inner a h"
  using assms by (auto simp: touched_def node_version_def node_parent_def load_inner_def split: option.split)

lemma touched_root: "touched h h' \<Longrightarrow> find_root fuel p h' = find_root fuel p h"
proof (induction fuel arbitrary: p)
  case (Suc fuel)
  have "maybe_parent p h' = maybe_parent p h" for p by (simp add: maybe_parent_def touched_nodes [OF Suc.prems])
  then show ?case by (simp add: touched_nodes [OF Suc.prems] Suc cong: if_cong)
qed simp

lemma touched_holds:
  assumes "touched h h'"
  shows "leaf_holds h a xs \<Longrightarrow> leaf_holds h' a xs" and "inner_holds h a ks cs \<Longrightarrow> inner_holds h' a ks cs"
proof -
  obtain f where f: "mleaves h' = (\<lambda>a. map_option (\<lambda>l. l\<lparr>lf_meta := f a\<rparr>) (mleaves h a))" and b: "bags h' = bags h" "inners h' = inners h"
    using assms by (auto simp: touched_def)
  show "leaf_holds h' a xs" if "leaf_holds h a xs"
    using that unfolding leaf_holds_def f by (elim exE conjE) (simp add: bags_only [OF b(1)])
  show "inner_holds h' a ks cs" if "inner_holds h a ks cs"
    using that unfolding inner_holds_def f by (elim exE conjE) (simp add: b)
qed

lemma touched_rep_both:
  assumes "touched h h'"
  shows "tree_rep h t \<longrightarrow> tree_rep h' t" and "slot_rep h x \<longrightarrow> slot_rep h' x"
  by (induction t and x) (auto simp: touched_holds [OF assms] leads_to_def touched_root [OF assms])

lemmas touched_rep = touched_rep_both [rule_format]

section \<open>The descent finds the leaf\<close>

lemma find_root_more: "find_root fuel p h = Inr a \<Longrightarrow> fuel \<le> fuel' \<Longrightarrow> find_root fuel' p h = Inr a"
proof (induction fuel arbitrary: p fuel')
  case (Suc fuel)
  then obtain g where "fuel' = Suc g" "fuel \<le> g" by (cases fuel') auto
  then show ?case using Suc by (auto simp: and_then_Inr_iff split: if_splits)
qed simp

lemma find_root_place:
  assumes "find_root fuel p h = Inr a"
  shows "\<exists>v. node_version a h = Inr v \<and> nv_is_root v \<and> v AND dirty_mask = 0"
  using assms by (induction fuel arbitrary: p) (auto simp: and_then_Inr_iff split: if_splits)

lemma upper_bound_place:
  assumes "inner_holds h a ks cs" and "inners h a = Some n"
  shows "\<exists>i < length cs. key_upper_bound ik (in_ikey0 n) 0 (nkeys n) = i \<and> byte_at (in_child n) i = Inr (cs ! i) \<and> cs ! i \<noteq> 0 \<and>
    (\<forall>j < i. ks ! j \<le> ik) \<and> (\<forall>j. i \<le> j \<longrightarrow> j < length ks \<longrightarrow> ik < ks ! j)"
proof -
  have n: "inner_shape n" "inner_keys n = ks" "inner_kids n = cs" "sorted_wrt (<) ks" "0 \<notin> set cs"
    using assms by (auto simp: inner_holds_def)
  let ?i = "key_upper_bound ik (in_ikey0 n) 0 (nkeys n)"
  have len: "nkeys n \<le> length (in_ikey0 n)" "length ks = nkeys n" "length cs = nkeys n + 1" "nkeys n + 1 \<le> length (in_child n)"
    using n(1-3) by (auto simp: inner_shape_def inner_keys_def inner_kids_def)
  have k: "in_ikey0 n ! j = ks ! j" if "j < nkeys n" for j using that n(2) by (auto simp: inner_keys_def)
  have "?i \<le> nkeys n \<and> (\<forall>j < ?i. in_ikey0 n ! j \<le> ik) \<and> (\<forall>j. ?i \<le> j \<and> j < nkeys n \<longrightarrow> ik < in_ikey0 n ! j)"
    by (rule key_upper_bound_finds) (use n(2,4) len(1) in \<open>auto simp: inner_keys_def\<close>)
  then have u: "?i \<le> nkeys n" "\<forall>j < ?i. in_ikey0 n ! j \<le> ik" "\<forall>j. ?i \<le> j \<and> j < nkeys n \<longrightarrow> ik < in_ikey0 n ! j" by blast+
  have c: "in_child n ! ?i = cs ! ?i" using u(1) n(3) by (auto simp: inner_kids_def)
  have i: "?i < length cs" using u(1) len(3) by simp
  moreover have "byte_at (in_child n) ?i = Inr (cs ! ?i)" using i len(3,4) c by (simp add: byte_at_def)
  moreover have "cs ! ?i \<noteq> 0" using n(5) i nth_mem by metis
  ultimately show ?thesis using u k len(2) by (metis less_le_trans)
qed

text \<open>The leaf at which the descent ends holds every slot of the layer with the integer it was led by.\<close>

lemma reach_node_finds:
  assumes "tree_rep h t"
  shows "\<exists>N a xs. (\<forall>fuel \<ge> N. reach_node fuel ik (node_addr t) h = Inr a) \<and> leaf_holds h a xs \<and>
    set xs \<subseteq> set (layer_slots t) \<and> (\<forall>x \<in> set (layer_slots t). slot_ikey x = ik \<longrightarrow> x \<in> set xs)"
  using assms
proof (induction t rule: measure_induct_rule [of size])
  case (less t)
  show ?case
  proof (cases t)
    case (Leaf_Node a xs)
    then have l: "leaf_holds h a xs" using less(2) by simp
    then have "reach_node fuel ik a h = Inr a" if "1 \<le> fuel" for fuel
      using that by (cases fuel) (auto simp: leaf_holds_def quiet_leaf_def node_version_def split: option.split)
    then show ?thesis using l Leaf_Node by (intro exI [of _ 1] exI [of _ a] exI [of _ xs]) simp
  next
    case (Inner_Node a ks ts)
    then have i: "inner_holds h a ks (map node_addr ts)" "separated ks ts" "\<forall>t \<in> set ts. tree_rep h t" using less(2) by simp_all
    then obtain n where n: "inners h a = Some n" "mleaves h a = None" "in_version n AND dirty_mask = 0" "\<not> nv_isleaf (in_version n)"
      by (auto simp: inner_holds_def)
    obtain i where u: "i < length ts" "key_upper_bound ik (in_ikey0 n) 0 (nkeys n) = i" "byte_at (in_child n) i = Inr (node_addr (ts ! i))"
      "node_addr (ts ! i) \<noteq> 0" "\<forall>j < i. ks ! j \<le> ik" "\<forall>j. i \<le> j \<longrightarrow> j < length ks \<longrightarrow> ik < ks ! j"
      using upper_bound_place [OF i(1) n(1), of ik] by auto
    have step: "reach_node (Suc fuel) ik a h = reach_node fuel ik (node_addr (ts ! i)) h" for fuel
      using n u by (simp add: node_version_def load_inner_def)
    have m: "ts ! i \<in> set ts" using u(1) by simp
    then have "size (ts ! i) < size t" using Inner_Node by (simp add: size_list_estimation' less_Suc_eq_le)
    from less(1) [OF this] i(3) m obtain N b xs where r: "\<forall>fuel \<ge> N. reach_node fuel ik (node_addr (ts ! i)) h = Inr b" "leaf_holds h b xs"
      "set xs \<subseteq> set (layer_slots (ts ! i))" "\<forall>x \<in> set (layer_slots (ts ! i)). slot_ikey x = ik \<longrightarrow> x \<in> set xs" by blast
    have "reach_node fuel ik (node_addr t) h = Inr b" if "Suc N \<le> fuel" for fuel
      using that step r(1) Inner_Node by (cases fuel) simp_all
    moreover have "x \<in> set xs" if x: "x \<in> set (layer_slots t)" "slot_ikey x = ik" for x
    proof -
      obtain j where j: "j < length ts" "x \<in> set (layer_slots (ts ! j))"
        using x(1) Inner_Node by (auto simp: in_set_conv_nth [of _ ts])
      have "length ks = length ts - 1" using i(1) u(1) by (auto simp: inner_holds_def inner_shape_def inner_keys_def inner_kids_def dest: arg_cong [of _ _ length])
      then have len: "i \<le> length ks" "j \<le> length ks" using u(1) j(1) by simp_all
      have sep: "\<forall>k < j. ks ! k \<le> ik" "\<forall>k. j \<le> k \<longrightarrow> k < length ks \<longrightarrow> ik < ks ! k"
        using i(2) j x(2) unfolding separated_def by blast+
      have "\<not> j < i" using u(5) sep(2) len(1) by (meson leD le_refl less_le_trans)
      moreover have "\<not> i < j" using u(6) sep(1) len(2) by (meson leD le_refl less_le_trans)
      ultimately have "j = i" by simp
      then show ?thesis using r(4) j(2) x(2) by simp
    qed
    moreover have "set xs \<subseteq> set (layer_slots t)" using r(3) m Inner_Node by auto
    ultimately show ?thesis using r(2) by blast
  qed
qed

lemma rep_slots: "tree_rep h t \<Longrightarrow> \<forall>x \<in> set (layer_slots t). slot_rep h x"
proof (induction t rule: measure_induct_rule [of size])
  case (less t)
  show ?case
  proof (cases t)
    case (Inner_Node a ks ts)
    have "\<forall>x \<in> set (layer_slots u). slot_rep h x" if u: "u \<in> set ts" for u
    proof (rule less(1))
      show "size u < size t" using u Inner_Node by (simp add: size_list_estimation' less_Suc_eq_le)
      show "tree_rep h u" using less(2) u Inner_Node by simp
    qed
    then show ?thesis using Inner_Node by auto
  qed (use less in simp)
qed

section \<open>Slots and strings\<close>

fun slot_len :: "layer_slot \<Rightarrow> nat" where
  "slot_len (Key_Slot s v) = min 9 (length s)"
| "slot_len (Layer_Slot b p t) = 9"

fun slot_fits :: "layer_slot \<Rightarrow> bool" where
  "slot_fits (Key_Slot s v) \<longleftrightarrow> True"
| "slot_fits (Layer_Slot b p t) \<longleftrightarrow> length b = ikey_size \<and> [] \<notin> fst ` set (entries t)"

lemma slot_rep_fits: "slot_rep h x \<Longrightarrow> slot_fits x"
  by (cases x) simp_all

lemma slot_code_rank: "content_rank (slot_code x) = (slot_ikey x, slot_len x)"
  by (cases x) (auto simp: slot_ikey_def ksuf_keylenx_def layer_keylenx_def ikey_size_def unat_of_nat take_bit_nat_eq_self)

lemma string_rank: "key_rank (make_key s) = (make_comparable s, min 9 (length s))"
  by (simp add: key_rank_def make_key_def)

text \<open>Two strings have the same rank if they are equal or go on behind the same eight bytes.\<close>

lemma rank_eq:
  "make_comparable s = make_comparable b \<and> min 9 (length s) = min 9 (length b) \<longleftrightarrow>
     (if length s \<le> 8 then s = b else 8 < length b \<and> take 8 s = take 8 b)"
proof (cases "length s \<le> 8")
  case True
  then have "min 9 (length s) = min 9 (length b) \<longleftrightarrow> length s = length b" by (auto simp: min_def)
  then show ?thesis using True by (auto simp: comparable_eq ikey_size_def dest: pad_same)
next
  case False
  then have "min 9 (length s) = min 9 (length b) \<longleftrightarrow> 8 < length b" by (auto simp: min_def)
  then show ?thesis using False by (auto simp: comparable_eq ikey_size_def pad_take)
qed

lemma layer_rank: "length b = 8 \<Longrightarrow> 8 < length s \<Longrightarrow> make_comparable s = make_comparable b \<longleftrightarrow> take 8 s = b"
  by (auto simp: comparable_eq ikey_size_def pad_take)

lemma map_of_prefixed: "map_of (map (\<lambda>(s, v). (b @ s, v)) es) (b @ s) = map_of es s"
  by (induction es) auto

lemma slot_misses:
  assumes "slot_fits x" and "(slot_ikey x, slot_len x) \<noteq> key_rank (make_key s)"
  shows "map_of (slot_entries x) s = None"
proof (cases x)
  case (Key_Slot b v)
  then show ?thesis using assms(2) by (auto simp: string_rank slot_ikey_def)
next
  case (Layer_Slot b p t)
  have "s \<noteq> b @ s'" if "s' \<in> fst ` set (entries t)" for s'
  proof
    assume s: "s = b @ s'"
    have "s' \<noteq> []" using that assms(1) Layer_Slot by (cases s') simp_all
    moreover have "length b = 8" using assms(1) Layer_Slot by (simp add: ikey_size_def)
    ultimately have "s' \<noteq> []" "length b = 8" by blast+
    then have "8 < length s" "take 8 s = b" using s by (cases s'; simp)+
    then show False using assms(2) Layer_Slot layer_rank [of b s] \<open>length b = 8\<close> by (simp add: string_rank slot_ikey_def)
  qed
  then have "s \<notin> fst ` set (slot_entries x)" using Layer_Slot by fastforce
  then show ?thesis by (simp add: map_of_eq_None_iff)
qed

lemma map_of_append_none: "map_of ys s = None \<Longrightarrow> map_of (xs @ ys) s = map_of xs s"
  by (simp add: map_add_def split: option.split)

lemma map_of_append_front: "map_of xs s = None \<Longrightarrow> map_of (xs @ ys) s = map_of ys s"
  by (simp add: map_add_def split: option.split)

lemma map_of_append_same: "map_of xs s = m \<Longrightarrow> map_of ys s = m \<Longrightarrow> map_of (xs @ ys) s = m"
  by (simp add: map_add_def split: option.split)

lemma map_of_slots:
  assumes "\<forall>x \<in> set xs. slot_fits x"
  shows "(\<forall>x \<in> set xs. (slot_ikey x, slot_len x) \<noteq> key_rank (make_key s)) \<Longrightarrow> map_of (concat (map slot_entries xs)) s = None"
    and "(\<forall>y \<in> set xs. (slot_ikey y, slot_len y) = key_rank (make_key s) \<longrightarrow> y = x) \<Longrightarrow> x \<in> set xs \<Longrightarrow>
      map_of (concat (map slot_entries xs)) s = map_of (slot_entries x) s"
proof -
  have none: "map_of (concat (map slot_entries ys)) s = None"
    if "\<forall>y \<in> set ys. slot_fits y" "\<forall>y \<in> set ys. (slot_ikey y, slot_len y) \<noteq> key_rank (make_key s)" for ys
    using that
  proof (induction ys)
    case (Cons y ys)
    then show ?case using slot_misses [of y s] by (simp add: map_of_append_front del: map_of_append)
  qed simp
  then show "(\<forall>x \<in> set xs. (slot_ikey x, slot_len x) \<noteq> key_rank (make_key s)) \<Longrightarrow> map_of (concat (map slot_entries xs)) s = None"
    using assms by blast
  show "(\<forall>y \<in> set xs. (slot_ikey y, slot_len y) = key_rank (make_key s) \<longrightarrow> y = x) \<Longrightarrow> x \<in> set xs \<Longrightarrow>
      map_of (concat (map slot_entries xs)) s = map_of (slot_entries x) s"
    using assms
  proof (induction xs)
    case (Cons y ys)
    have rest: "\<forall>y \<in> set ys. (slot_ikey y, slot_len y) = key_rank (make_key s) \<longrightarrow> y = x"
      "\<forall>y \<in> set ys. slot_fits y" "slot_fits y"
      "y \<noteq> x \<Longrightarrow> (slot_ikey y, slot_len y) \<noteq> key_rank (make_key s)"
      using Cons.prems(1,3) by (meson list.set_intros)+
    show ?case
    proof (cases "x \<in> set ys")
      case True
      then have IH: "map_of (concat (map slot_entries ys)) s = map_of (slot_entries x) s"
        by (rule Cons.IH [OF rest(1) _ rest(2)])
      show ?thesis
      proof (cases "y = x")
        case False
        then have "map_of (slot_entries y) s = None" by (rule slot_misses [OF rest(3) rest(4)])
        with IH show ?thesis by (simp add: map_of_append_front del: map_of_append)
      qed (use IH in \<open>simp add: map_of_append_same del: map_of_append\<close>)
    next
      case False
      then have "map_of (concat (map slot_entries ys)) s = None" using rest(1) by (intro none [OF rest(2)]) metis
      moreover have "y = x" using False Cons.prems(2) by simp
      ultimately show ?thesis by (simp add: map_of_append_none del: map_of_append)
    qed
  qed simp
qed

lemma entries_slots: "entries t = concat (map slot_entries (layer_slots t))"
proof (induction t rule: measure_induct_rule [of size])
  case (less t)
  show ?case
  proof (cases t)
    case (Inner_Node a ks ts)
    have "entries u = concat (map slot_entries (layer_slots u))" if "u \<in> set ts" for u
      using less that Inner_Node by (simp add: size_list_estimation' less_Suc_eq_le)
    moreover have "(\<And>u. u \<in> set us \<Longrightarrow> entries u = concat (map slot_entries (layer_slots u))) \<Longrightarrow>
        concat (map entries us) = concat (map slot_entries (concat (map layer_slots us)))" for us
      by (induction us) simp_all
    ultimately show ?thesis using Inner_Node by simp
  qed simp
qed

section \<open>A lookup in one leaf\<close>

lemma shift_by_rest: "8 < length s \<Longrightarrow> mk_shift_by 8 (make_key s) = make_key (drop 8 s)"
  by (simp add: mk_shift_by_def make_key_def)

lemma shift_suffix: "8 < length s \<Longrightarrow> mk_suffix (make_key s) = drop 8 s"
  by (simp add: make_key_def mk_suffix_def ikey_size_def)

text \<open>What the search in a leaf answers: nothing, or the slot with the rank of the key.\<close>

lemma leaf_finds:
  assumes "quiet_leaf l" and "leaf_contents l h = map slot_code xs"
  shows "case snd (leaf_lower k l) of
      None \<Rightarrow> \<forall>x \<in> set xs. (slot_ikey x, slot_len x) \<noteq> key_rank k
    | Some q \<Rightarrow> \<exists>x \<in> set xs. slot_content l h q = slot_code x \<and> q \<in> set (used_slots l) \<and>
        (slot_ikey x, slot_len x) = key_rank k \<and> (\<forall>y \<in> set xs. (slot_ikey y, slot_len y) = key_rank k \<longrightarrow> y = x)"
proof -
  have wf: "leaf_wf l" using assms(1) by (simp add: quiet_leaf_def)
  obtain i q where lower: "leaf_lower k l = (i, q)" by fastforce
  have found: "case q of Some p \<Rightarrow> i < leaf_size l \<and> p = kp_at (permutation l) i \<and> leaf_entries l ! i = key_rank k
     | None \<Rightarrow> \<forall>j. i \<le> j \<longrightarrow> j < leaf_size l \<longrightarrow> key_rank k < leaf_entries l ! j"
    "\<forall>j < i. leaf_entries l ! j < key_rank k" "i \<le> leaf_size l"
    using lower_bound_finds [OF wf lower [unfolded leaf_lower_def]] by auto
  have ranks: "map (\<lambda>x. (slot_ikey x, slot_len x)) xs = leaf_entries l"
    using assms(2) content_ranks(3) [of l h] by (simp add: slot_code_rank comp_def)
  have len: "length xs = leaf_size l" using length_entries [OF wf] ranks by (metis length_map)
  have sorted: "sorted_wrt (<) (leaf_entries l)" using wf by (simp add: leaf_wf_def)
  have rank: "(slot_ikey (xs ! j), slot_len (xs ! j)) = leaf_entries l ! j" if "j < leaf_size l" for j
    using that ranks len by (metis (no_types, lifting) nth_map)
  show ?thesis
  proof (cases q)
    case None
    have "leaf_entries l ! j \<noteq> key_rank k" if "j < leaf_size l" for j
    proof (cases "j < i")
      case True
      then show ?thesis using found(2) by (metis less_irrefl)
    next
      case False
      then have "key_rank k < leaf_entries l ! j" using found(1) None that by simp
      then show ?thesis by auto
    qed
    then show ?thesis using None lower rank len by (auto simp: in_set_conv_nth)
  next
    case (Some p)
    with found(1) have p: "i < leaf_size l" "p = kp_at (permutation l) i" "leaf_entries l ! i = key_rank k" by simp_all
    have used: "used_slots l ! i = p" "i < length (used_slots l)"
      using p(1,2) used_slots_props [OF wf] by auto
    have "leaf_contents l h ! i = slot_content l h p" using used by (simp add: leaf_contents_def)
    then have content: "slot_content l h p = slot_code (xs ! i)" using assms(2) p(1) len by (metis nth_map)
    have unique: "j = i" if "j < leaf_size l" "leaf_entries l ! j = key_rank k" for j
      using sorted_wrt_nth_less [OF sorted, of i j] sorted_wrt_nth_less [OF sorted, of j i] that p length_entries [OF wf]
      by (metis less_irrefl linorder_neqE_nat)
    have "xs ! i \<in> set xs" using p(1) len by simp
    moreover have "y = xs ! i" if y: "y \<in> set xs" "(slot_ikey y, slot_len y) = key_rank k" for y
    proof -
      from y(1) obtain j where j: "j < leaf_size l" "y = xs ! j" by (metis in_set_conv_nth len)
      then have "leaf_entries l ! j = key_rank k" using rank [of j] y(2) by simp
      then show ?thesis using unique [OF j(1)] j(2) by simp
    qed
    moreover have "(slot_ikey (xs ! i), slot_len (xs ! i)) = key_rank k" using rank [OF p(1)] p(3) by simp
    moreover have "p \<in> set (used_slots l)" using used by (metis nth_mem)
    ultimately show ?thesis unfolding lower Some snd_conv option.case using content by blast
  qed
qed

text \<open>How the found slot answers.\<close>

lemma ksuf_answers:
  assumes "slot_content l h q = slot_code x" and "q \<in> set (used_slots l)" and "suffixes_ok (used_slots l) l h"
    and "(slot_ikey x, slot_len x) = key_rank (make_key s)" and "slot_fits x"
  shows "case x of
      Key_Slot b v \<Rightarrow> lv l ! q = v \<and> ksuf_matches q (make_key s) l h = Inr (if b = s then 1 else 0)
    | Layer_Slot b p t \<Rightarrow> lv l ! q = p \<and> ksuf_matches q (make_key s) l h = Inr (- 8) \<and> 8 < length s \<and> b = take 8 s"
proof (cases x)
  case (Key_Slot b v)
  have c: "keylenx l ! q = of_nat (if ikey_size < length b then ksuf_keylenx else length b)" "lv l ! q = v"
    "slot_suffix l h q = drop ikey_size b"
    using assms(1) Key_Slot by (simp_all add: slot_content_def)
  have r: "if length s \<le> 8 then s = b else 8 < length b \<and> take 8 s = take 8 b"
    using assms(4) Key_Slot rank_eq [of s b] by (simp add: string_rank slot_ikey_def)
  show ?thesis
  proof (cases "8 < length b")
    case False
    then have "unat (keylenx l ! q) < ksuf_keylenx"
      using c(1) by (simp add: ksuf_keylenx_def ikey_size_def unat_of_nat take_bit_nat_eq_self)
    moreover have "s = b" using r False by (auto split: if_splits)
    ultimately show ?thesis using Key_Slot c(2) by (simp add: ksuf_matches_def)
  next
    case True
    then have k: "unat (keylenx l ! q) = ksuf_keylenx"
      using c(1) by (simp add: ksuf_keylenx_def ikey_size_def unat_of_nat take_bit_nat_eq_self)
    then obtain bg where bag: "leaf_bag l h = Inr bg"
      using assms(2,3) by (auto simp: suffixes_ok_def leaf_bag_def split: if_splits)
    have "bag_get bg q = drop 8 b" using c(3) k bag by (simp add: slot_suffix_def suffix_of_def ikey_size_def)
    moreover have s: "8 < length s" "take 8 s = take 8 b" using r True by (auto split: if_splits)
    moreover have "int (length b - 8) = int (length s) - int ikey_size \<and> drop 8 b = drop 8 s \<longleftrightarrow> b = s"
      using s True by (metis append_take_drop_id ikey_size_def length_drop of_nat_diff less_imp_le)
    ultimately show ?thesis using Key_Slot c(2) k bag s(1)
      by (simp add: ksuf_matches_def ksuf_keylenx_def layer_keylenx_def shift_suffix make_key_def [of s, THEN arg_cong, of mk_len])
  qed
next
  case (Layer_Slot b p t)
  have c: "keylenx l ! q = of_nat layer_keylenx" "lv l ! q = p"
    using assms(1) Layer_Slot by (simp_all add: slot_content_def)
  have b: "length b = 8" using assms(5) Layer_Slot by (simp add: ikey_size_def)
  have r: "make_comparable s = make_comparable b" "8 < length s"
    using assms(4) Layer_Slot by (auto simp: string_rank slot_ikey_def min_def split: if_splits)
  have "unat (keylenx l ! q) = layer_keylenx" using c(1) by (simp add: layer_keylenx_def)
  then show ?thesis using Layer_Slot c(2) r layer_rank [OF b r(2)]
    by (simp add: ksuf_matches_def layer_keylenx_def ksuf_keylenx_def ikey_size_def)
qed

section \<open>The lookup finds what the tree holds\<close>

lemma reach_leaf_touched:
  assumes "find_root fuel p h = Inr r" and "reach_node fuel (mk_ikey k) r h = Inr a" and "mleaves h a = Some l"
  shows "reach_leaf fuel k p h = Inr (a, h\<lparr>mleaves := (mleaves h)(a \<mapsto> record_access l)\<rparr>)"
    and "touched h (h\<lparr>mleaves := (mleaves h)(a \<mapsto> record_access l)\<rparr>)"
proof -
  show "reach_leaf fuel k p h = Inr (a, h\<lparr>mleaves := (mleaves h)(a \<mapsto> record_access l)\<rparr>)"
    using assms by (simp add: reach_leaf_def modify_mleaf_def load_mleaf_def)
  let ?f = "\<lambda>c. if c = a then lf_meta (record_access l) else lf_meta (the (mleaves h c))"
  have "(mleaves h)(a \<mapsto> record_access l) = (\<lambda>c. map_option (\<lambda>m. m\<lparr>lf_meta := ?f c\<rparr>) (mleaves h c))"
    by (rule ext) (use assms(3) in \<open>auto simp: record_access_def map_option_case split: option.split\<close>)
  then show "touched h (h\<lparr>mleaves := (mleaves h)(a \<mapsto> record_access l)\<rparr>)"
    unfolding touched_def by (intro conjI exI [of _ ?f]) simp_all
qed

lemma find_unlocked_finds:
  assumes "tree_rep h t" and "leads_to h p (node_addr t)"
  shows "\<exists>N h'. touched h h' \<and> (\<forall>fuel \<ge> N. \<forall>layers > length s div 8.
    find_unlocked fuel layers (make_key s) p h = Inr (map_of (entries t) s, h'))"
  using assms
proof (induction "length s" arbitrary: s h p t rule: less_induct)
  case less
  let ?k = "make_key s"
  obtain R where root: "find_root R p h = Inr (node_addr t)" using less(3) by (auto simp: leads_to_def)
  obtain M a xs where reach: "\<forall>fuel \<ge> M. reach_node fuel (mk_ikey ?k) (node_addr t) h = Inr a"
    and leaf: "leaf_holds h a xs" and xs: "set xs \<subseteq> set (layer_slots t)"
    "\<forall>x \<in> set (layer_slots t). slot_ikey x = mk_ikey ?k \<longrightarrow> x \<in> set xs"
    using reach_node_finds [OF less(2)] by blast
  obtain l where l: "mleaves h a = Some l" "quiet_leaf l" "suffixes_ok (used_slots l) l h" "leaf_contents l h = map slot_code xs"
    using leaf by (auto simp: leaf_holds_def)
  define l1 where "l1 = record_access l"
  define h1 where "h1 = h\<lparr>mleaves := (mleaves h)(a \<mapsto> l1)\<rparr>"
  have run: "reach_leaf fuel ?k p h = Inr (a, h1)" if "max R M \<le> fuel" for fuel
    using reach_leaf_touched(1) [OF find_root_more [OF root] _ l(1)] reach that by (simp add: h1_def l1_def)
  have touch: "touched h h1"
    using reach_leaf_touched(2) [OF find_root_more [OF root, of "max R M"] _ l(1), of ?k] reach by (simp add: h1_def l1_def)
  have load: "load_mleaf a h1 = Inr l1" by (simp add: h1_def load_mleaf_def)
  have bags: "bags h1 = bags h" by (simp add: h1_def)
  have l1: "quiet_leaf l1" "suffixes_ok (used_slots l1) l1 h1" "leaf_contents l1 h1 = map slot_code xs"
    using l bags_only [of h1 h, OF bags] by (simp_all add: l1_def record_access_def)
  then have alive: "\<not> nv_deleted (lf_version l1)" by (simp add: quiet_leaf_def)
  have slots: "\<forall>x \<in> set (layer_slots t). slot_rep h x" using rep_slots [OF less(2)] .
  then have fits: "\<forall>x \<in> set (layer_slots t). slot_fits x" using slot_rep_fits by blast
  have only: "x \<in> set xs" if "x \<in> set (layer_slots t)" "(slot_ikey x, slot_len x) = key_rank ?k" for x
    using xs(2) that by (simp add: key_rank_def)
  have step: "find_unlocked fuel (Suc layers) ?k p h =
      (case snd (leaf_lower ?k l1) of
         None \<Rightarrow> Inr (None, h1)
       | Some q \<Rightarrow> and_then (ksuf_matches q ?k l1 h1) (\<lambda>match.
           if match < 0 then find_unlocked fuel layers (mk_shift_by (nat (- match)) ?k) (lv l1 ! q) h1
           else Inr (if match = 0 then None else Some (lv l1 ! q), h1)))" if "max R M \<le> fuel" for fuel layers
    using run [OF that] load alive by simp
  note found = leaf_finds [OF l1(1,3), of ?k]
  show ?case
  proof (cases "snd (leaf_lower ?k l1)")
    case None
    have "map_of (entries t) s = None"
      unfolding entries_slots by (rule map_of_slots(1) [OF fits]) (use found None only in auto)
    then have "find_unlocked fuel layers ?k p h = Inr (map_of (entries t) s, h1)"
      if "max R M \<le> fuel" "length s div 8 < layers" for fuel layers
      using that step None by (cases layers) simp_all
    then show ?thesis using touch by blast
  next
    case (Some q)
    obtain x where x: "x \<in> set xs" "slot_content l1 h1 q = slot_code x" "q \<in> set (used_slots l1)"
      "(slot_ikey x, slot_len x) = key_rank ?k" "\<forall>y \<in> set xs. (slot_ikey y, slot_len y) = key_rank ?k \<longrightarrow> y = x"
      using found unfolding Some option.case by blast
    have xt: "x \<in> set (layer_slots t)" using x(1) xs(1) by blast
    then have fit: "slot_fits x" and rep: "slot_rep h x" using fits slots by blast+
    have at: "map_of (entries t) s = map_of (slot_entries x) s"
      unfolding entries_slots by (rule map_of_slots(2) [OF fits _ xt]) (use x(5) only in blast)
    note answer = ksuf_answers [OF x(2,3) l1(2) x(4) fit]
    show ?thesis
    proof (cases x)
      case (Key_Slot b v)
      then have "find_unlocked fuel layers ?k p h = Inr (map_of (entries t) s, h1)"
        if "max R M \<le> fuel" "length s div 8 < layers" for fuel layers
        using that step Some answer at by (cases layers) auto
      then show ?thesis using touch by blast
    next
      case (Layer_Slot b q' t')
      then have a: "lv l1 ! q = q'" "ksuf_matches q ?k l1 h1 = Inr (- 8)" "8 < length s" "b = take 8 s" using answer by simp_all
      have "tree_rep h t'" "leads_to h q' (node_addr t')" using rep Layer_Slot by simp_all
      then have "tree_rep h1 t'" "leads_to h1 q' (node_addr t')"
        using touched_rep(1) [OF touch] touched_root [OF touch] by (simp_all add: leads_to_def)
      moreover have "length (drop 8 s) < length s" using a(3) by simp
      ultimately obtain N h' where IH: "touched h1 h'"
        "\<forall>fuel \<ge> N. \<forall>layers > length (drop 8 s) div 8.
          find_unlocked fuel layers (make_key (drop 8 s)) q' h1 = Inr (map_of (entries t') (drop 8 s), h')"
        using less(1) [of "drop 8 s" h1 t' q'] by blast
      have "map_of (slot_entries x) s = map_of (entries t') (drop 8 s)"
        using map_of_prefixed [of b "entries t'" "drop 8 s"] Layer_Slot a(4) by simp
      then have below: "map_of (entries t) s = map_of (entries t') (drop 8 s)" using at by simp
      have "find_unlocked fuel layers ?k p h = Inr (map_of (entries t) s, h')"
        if big: "max N (max R M) \<le> fuel" "length s div 8 < layers" for fuel layers
      proof -
        obtain m where m: "layers = Suc m" using big(2) by (cases layers) simp_all
        have "length (drop 8 s) div 8 < m" using big(2) a(3) m div_add_self2 [of 8 "length s - 8"] by simp
        then have "find_unlocked fuel m (make_key (drop 8 s)) q' h1 = Inr (map_of (entries t') (drop 8 s), h')"
          using IH(2) big(1) by simp
        then show ?thesis using step [of fuel m] big(1) Some a m below by (simp add: shift_by_rest)
      qed
      then show ?thesis using touched_trans [OF touch IH(1)] by blast
    qed
  qed
qed

section \<open>Properties\<close>

text \<open>
  C9. A lookup in a trie of B+ trees that the heap holds, with inner nodes, leaves, suffixes and layers below, by one thread
  and with fuel for the way down and the layers, returns exactly the value that the tree has for the string, or nothing if it has none;
  it changes only access counters, so that the heap still holds the same tree.
\<close>

theorem masstree_lookup_finds:
  assumes "tree_rep h t" and "leads_to h p (node_addr t)"
  shows "\<exists>N h'. (\<forall>fuel \<ge> N. \<forall>layers > length s div 8.
      mass_table_get fuel layers p s h = Inr (map_of (entries t) s, h')) \<and>
    touched h h' \<and> tree_rep h' t \<and> leads_to h' p (node_addr t)"
proof -
  obtain N h' where "touched h h'" "\<forall>fuel \<ge> N. \<forall>layers > length s div 8.
      find_unlocked fuel layers (make_key s) p h = Inr (map_of (entries t) s, h')"
    using find_unlocked_finds [OF assms] by blast
  moreover from this(1) assms have "tree_rep h' t" "leads_to h' p (node_addr t)"
    by (simp_all add: touched_rep leads_to_def touched_root)
  ultimately show ?thesis unfolding mass_table_get_def by blast
qed

text \<open>A layer of two leaves below an inner node; the slot of the first leaf holds a layer of one leaf.\<close>

definition one_leaf :: "u32 \<Rightarrow> u64 \<Rightarrow> u8 \<Rightarrow> u64 \<Rightarrow> mass_leaf" where
  "one_leaf ver ik kx v = (blank_leaf 320 0 Mem_Local 1 1)\<lparr>lf_version := ver, lf_ikey0 := ik # replicate 14 0,
     keylenx := kx # replicate 14 0, lv := v # replicate 14 0, permutation := kp_make_sorted mt_width 1\<rparr>"

definition sample_trie_heap :: mass_heap where
  "sample_trie_heap = \<lparr>mleaves = [64 \<mapsto> one_leaf isleaf_bit (make_comparable [0, 0, 0, 0, 0, 0, 0, 1]) 128 96,
       96 \<mapsto> one_leaf (isleaf_bit OR root_bit) (make_comparable [5]) 1 42,
       128 \<mapsto> one_leaf isleaf_bit (make_comparable [0, 0, 0, 0, 0, 0, 0, 9]) 8 7],
     inners = [192 \<mapsto> (blank_internode 0 Mem_Local 1)\<lparr>in_version := root_bit, nkeys := 1,
       in_ikey0 := make_comparable [0, 0, 0, 0, 0, 0, 0, 9] # replicate 14 0, in_child := 64 # 128 # replicate 14 0\<rparr>],
     bags = (\<lambda>_. None), limbo = [], pool = [], mass_strategy_manager = undefined, mass_worker_base = initial_worker_base,
     mass_ndebug = True\<rparr>"

definition sample_layers :: layer_tree where
  "sample_layers = Inner_Node 192 [make_comparable [0, 0, 0, 0, 0, 0, 0, 9]]
     [Leaf_Node 64 [Layer_Slot [0, 0, 0, 0, 0, 0, 0, 1] 96 (Leaf_Node 96 [Key_Slot [5] 42])], Leaf_Node 128 [Key_Slot [0, 0, 0, 0, 0, 0, 0, 9] 7]]"

lemma one_leaf_holds:
  assumes "mleaves h a = Some (one_leaf ver ik kx v)" and "ver AND dirty_mask = 0" and "nv_isleaf ver" and "\<not> nv_deleted ver"
    and "slot_code x = (ik, kx, v, [])" and "unat kx \<noteq> ksuf_keylenx"
  shows "leaf_holds h a [x]"
proof -
  let ?l = "one_leaf ver ik kx v"
  have w: "mt_width = 15" by (simp add: mt_width_def)
  note sp = sorted_perm [of 1, unfolded w, simplified]
  have used: "used_slots ?l = [0]" using sp by (simp add: used_slots_def leaf_size_def one_leaf_def w)
  then have contents: "leaf_contents ?l h = [slot_code x]"
    using assms(5,6) by (simp add: leaf_contents_def slot_content_def slot_suffix_def) (simp add: one_leaf_def)
  have "leaf_entries ?l = [slot_rank ?l 0]" using used by (simp add: leaf_entries_def used_slots_def)
  then have "leaf_wf ?l" using sp by (simp add: leaf_wf_def) (simp add: one_leaf_def w)
  then have "quiet_leaf ?l" using assms(2-4) by (simp add: quiet_leaf_def) (simp add: one_leaf_def)
  moreover have "suffixes_ok (used_slots ?l) ?l h"
    using assms(6) unfolding suffixes_ok_def used by (simp add: one_leaf_def blank_leaf_def mt_leaf_size_def)
  ultimately show ?thesis using assms(1) contents by (simp add: leaf_holds_def)
qed

lemma sample_trie_rep: "tree_rep sample_trie_heap sample_layers" "leads_to sample_trie_heap 192 (node_addr sample_layers)"
proof -
  have bytes: "make_comparable [0, 0, 0, 0, 0, 0, 0, 1] = 1" "make_comparable [0, 0, 0, 0, 0, 0, 0, 9] = 9"
    by (simp_all add: make_comparable_def pad_def ikey_size_def)
  have bits: "isleaf_bit AND dirty_mask = 0" "(isleaf_bit OR root_bit) AND dirty_mask = 0" "root_bit AND dirty_mask = 0"
    "nv_isleaf isleaf_bit" "nv_isleaf (isleaf_bit OR root_bit)" "\<not> nv_isleaf root_bit" "nv_is_root (isleaf_bit OR root_bit)"
    "nv_is_root root_bit" "\<not> nv_deleted isleaf_bit" "\<not> nv_deleted (isleaf_bit OR root_bit)"
    by code_simp+
  have cells: "mleaves sample_trie_heap 64 = Some (one_leaf isleaf_bit (make_comparable [0, 0, 0, 0, 0, 0, 0, 1]) 128 96)"
    "mleaves sample_trie_heap 96 = Some (one_leaf (isleaf_bit OR root_bit) (make_comparable [5]) 1 42)"
    "mleaves sample_trie_heap 128 = Some (one_leaf isleaf_bit (make_comparable [0, 0, 0, 0, 0, 0, 0, 9]) 8 7)"
    by (simp_all add: sample_trie_heap_def)
  note codes = ksuf_keylenx_def layer_keylenx_def ikey_size_def
  have leaves: "leaf_holds sample_trie_heap 64 [Layer_Slot [0, 0, 0, 0, 0, 0, 0, 1] 96 (Leaf_Node 96 [Key_Slot [5] 42])]"
    using one_leaf_holds [OF cells(1) bits(1,4,9)] by (simp add: codes)
  have leaves2: "leaf_holds sample_trie_heap 96 [Key_Slot [5] 42]"
    using one_leaf_holds [OF cells(2) bits(2,5,10)] by (simp add: codes)
  have leaves3: "leaf_holds sample_trie_heap 128 [Key_Slot [0, 0, 0, 0, 0, 0, 0, 9] 7]"
    using one_leaf_holds [OF cells(3) bits(1,4,9)] by (simp add: codes)
  have "node_version 96 sample_trie_heap = Inr (isleaf_bit OR root_bit)" "node_version 192 sample_trie_heap = Inr root_bit"
    by (simp_all add: node_version_def sample_trie_heap_def one_leaf_def load_inner_def)
  then have "find_root 1 96 sample_trie_heap = Inr 96" "find_root 1 192 sample_trie_heap = Inr 192" by (simp_all add: bits)
  then have roots: "leads_to sample_trie_heap 96 96" "leads_to sample_trie_heap 192 192" unfolding leads_to_def by blast+
  then show "leads_to sample_trie_heap 192 (node_addr sample_layers)" by (simp add: sample_layers_def)
  have "inner_holds sample_trie_heap 192 [make_comparable [0, 0, 0, 0, 0, 0, 0, 9]] [64, 128]"
    by (simp add: inner_holds_def sample_trie_heap_def bits inner_shape_def inner_keys_def inner_kids_def mt_width_def)
  moreover have "separated [make_comparable [0, 0, 0, 0, 0, 0, 0, 9]]
     [Leaf_Node 64 [Layer_Slot [0, 0, 0, 0, 0, 0, 0, 1] 96 (Leaf_Node 96 [Key_Slot [5] 42])], Leaf_Node 128 [Key_Slot [0, 0, 0, 0, 0, 0, 0, 9] 7]]"
    by (auto simp: separated_def slot_ikey_def bytes less_Suc_eq word_less_nat_alt)
  ultimately show "tree_rep sample_trie_heap sample_layers"
    using leaves leaves2 leaves3 roots(1) by (simp add: sample_layers_def ikey_size_def)
qed

lemma masstree_lookup_finds_witness:
  "\<exists>N h'. (\<forall>fuel \<ge> N. mass_table_get fuel 2 192 [0, 0, 0, 0, 0, 0, 0, 1, 5] sample_trie_heap = Inr (Some 42, h')) \<and>
    tree_rep h' sample_layers"
proof -
  have "map_of (entries sample_layers) [0, 0, 0, 0, 0, 0, 0, 1, 5] = Some 42"
    by (simp add: sample_layers_def numeral_eq_Suc)
  moreover obtain N h' where "\<forall>fuel \<ge> N. \<forall>layers > length [0, 0, 0, 0, 0, 0, 0, 1 :: u8, 5] div 8.
      mass_table_get fuel layers 192 [0, 0, 0, 0, 0, 0, 0, 1, 5] sample_trie_heap =
        Inr (map_of (entries sample_layers) [0, 0, 0, 0, 0, 0, 0, 1, 5], h')" "tree_rep h' sample_layers"
    using masstree_lookup_finds [OF sample_trie_rep, of "[0, 0, 0, 0, 0, 0, 0, 1, 5]"] by blast
  moreover have "length [0, 0, 0, 0, 0, 0, 0, 1 :: u8, 5] div 8 < 2" by simp
  ultimately show ?thesis by metis
qed

end
