(* ===== verification/Spec2Isabelle.thy ===== *)
theory Spec2Isabelle
  imports Sidle_Prelude Art_Version Sidle_Meta Cxl_Allocator Sidle_Policy Art_Heap Sidle_Frontend
    Art_Node Art_Tree Art_Layout Art_Space Art_Trie Art_Lookup Art_Insert Art_Put Art_Index
    Sidle_Key Sidle_Helper Sidle_Kv Art_Kv Masstree_Query Masstree_Kv
    Sidle_Histogram Sidle_Workers Art_Migration Art_Move Art_Traverse Art_Workers
    Art_Policy Sidle_System Masstree_Node Masstree_Migration Masstree_Moves
    Masstree_Placement Masstree_Workers Masstree_System
    Masstree_Permuter Masstree_Bag Masstree_Key Masstree_Leaf Masstree_Suffix Masstree_Split Masstree_Inner
    Masstree_Lookup
begin

text \<open>
  SIDLE places the nodes of a tree index in two tiers of memory, local DRAM and CXL, and moves them between
  the tiers while the index is in use. The repository has the policy and its background workers
  (\<open>third_party/sidle_utils\<close>), two indexes changed to work with them (\<open>third_party/art\<close> and
  \<open>third_party/masstree-beta\<close>), an allocator over both tiers (\<open>third_party/cxl_utils\<close>) and two wrappers that give
  the indexes one interface (\<open>src/kv\<close>). All paths are relative to \<open>src/\<close>.

  How the parts work together. An index asks the strategy manager where a new node goes, by the tier of its
  parent and its depth, allocates it there and has it accounted for. Every access to a leaf counts in its metadata.
  Five workers run besides the operations: the trigger walks over the leaves, fills a histogram of the counts and
  queues hot remote leaves for promotion and cold local ones for demotion; two executors empty the queues by
  calling the migration functions of the index, and follow a moved leaf upwards; the cooler halves the counts; the
  adjuster shrinks and extends the thresholds when local memory runs short.

  Conventions. A definition has the name of the function it models. Errors are values: \<open>'a res\<close> of
  \<open>Sidle_Prelude\<close> is an error or a result, with an error for a failed assertion, a thrown exception,
  a null or dangling pointer, an access out of bounds, undefined behaviour, \<open>abort\<close>, a wait that nobody ends (\<open>Spin\<close>)
  and exhausted fuel (\<open>Out_Of_Fuel\<close>). Machine integers are words. Objects in memory live in maps from
  addresses, so that aliasing is visible. A flag says whether assertions are compiled out. One thread runs at a
  time within an operation; what several threads do is a sequence of operations and rounds in any order
  (\<open>Sidle_System\<close>, \<open>Masstree_System\<close>), and only the adjuster, which waits in the middle of a round, carries
  runs of the other workers inside its step. So a round of the trigger or of the cooler is one step: the trigger that would
  have to wait for a cooler in the middle of its own round is the error \<open>Spin\<close>, and that this never happens between
  whole rounds is a property of \<open>Sidle_System\<close>.

  Foundations.
    \<^item> \<open>Sidle_Prelude\<close>: errors, words, bit fields, C arithmetic and the facts on lists that the rest shares.
    \<^item> \<open>Sidle_Meta\<close> (\<open>sidle_meta.hh\<close>, \<open>sidle_struct.hh\<close>): tiers, node metadata, the migration queue with its four
      channels, the state the workers share. The queues deliver what was put in, in order and once.
    \<^item> \<open>Cxl_Allocator\<close> (\<open>cxl_allocator.c\<close>): unimalloc. The stride scheduler keeps the ratio of the
      tiers in every run; which calls return NULL and which follow a null handle; the rounding of lengths.
    \<^item> \<open>Sidle_Policy\<close> (\<open>sidle_policy.hh\<close>): thresholds, watermarks, the account of local memory. The watermarks
      stay ordered and the root local under every sequence of updates; the local layers are an exact logarithm.
    \<^item> \<open>Sidle_Frontend\<close> (\<open>sidle_frontend.hh\<close>): allocation, release and access counts as the indexes call them.
    \<^item> \<open>Sidle_Key\<close>, \<open>Sidle_Helper\<close> (\<open>src/helper.h\<close>, \<open>src/helper.cpp\<close>, \<open>micro_base.h\<close>): byte order of keys, model keys,
      comparison, ranges, statistics, binding of threads to cores.

  The adaptive radix tree.
    \<^item> \<open>Art_Version\<close> (\<open>art_def.hh\<close>): the version word with its fields. \<open>Art_Heap\<close>: nodes, leaves, tagged
      pointers and the heap. \<open>Art_Node\<close> (\<open>art_node.cc\<close>): every operation on one node, with the four layouts.
      \<open>Art_Tree\<close> (\<open>art.cc\<close>): insertion, lookup, traversal.
    \<^item> \<open>Art_Layout\<close> gives the four layouts one interface, the relation \<open>slot_at\<close> that says which slot holds the child for a
      byte, and shows the vectorised search equal to the linear one. \<open>Art_Space\<close> says what allocations rely on.
    \<^item> \<open>Art_Trie\<close> holds the abstract tree and the relation \<open>rep\<close> between it and the heap. \<open>Art_Lookup\<close>,
      \<open>Art_Insert\<close> and \<open>Art_Put\<close> show each case of lookup and insertion correct against it. \<open>Art_Index\<close> composes them:
      the tree refines a set of keys, through the locale \<open>set_index\<close>, in a build with assertions and for keys of one length
      below 128 bytes (longer lengths are read as negative numbers), with two exceptions: a split of a prefix leaves a locked
      node behind on which the next operation through it hangs, and keys that agree in nine bytes fail an assertion.
    \<^item> \<open>Art_Traverse\<close>: the traversal ends and visits every leaf once with its parent.
    \<^item> \<open>Art_Migration\<close>, \<open>Art_Move\<close>: moving a leaf or an inner node, and what that does to the tree.
    \<^item> \<open>Art_Kv\<close> (\<open>art_wrapper.h\<close>), \<open>Sidle_Kv\<close>: the wrapper, its destructor included, and what it shares with the other one.

  The workers.
    \<^item> \<open>Sidle_Histogram\<close> (\<open>sidle_histogram\<close> in \<open>sidle_worker.hh\<close>): buckets, thresholds, cooling.
    \<^item> \<open>Sidle_Workers\<close> (\<open>sidle_worker.hh\<close>): one round of each worker over a record \<open>tree_op\<close> of the functions
      of a tree, with the contract \<open>worker_world\<close>. \<open>Art_Policy\<close> extends it to \<open>policy_world\<close>: no round breaks an
      invariant of the thresholds that the tree keeps. Both are interpreted for ART (\<open>Art_Workers\<close>, \<open>Art_Policy\<close>)
      and for Masstree (\<open>Masstree_Workers\<close>).
    \<^item> \<open>Sidle_System\<close>, \<open>Masstree_System\<close>: step relations for the whole system and invariants of the reachable states.

  Masstree.
    \<^item> \<open>Masstree_Query\<close> (\<open>kvrow.hh\<close>, \<open>value_bag.hh\<close>, \<open>kvthread.hh\<close>): rows, time stamps and queries, over a table that is
      a parameter with the contract of an ordered map. \<open>Masstree_Kv\<close> (\<open>masstree.h\<close>): the wrapper over such a table refines a
      map. The contract is assumed of the tree, and only a reference table, a list of rows, is shown to meet it; the
      lemmas of these two theories are about rows, time stamps, the wrapper and its destructor.
    \<^item> \<open>Masstree_Node\<close> (\<open>nodeversion.hh\<close>, \<open>masstree_struct.hh\<close>, \<open>btree_leaflink.hh\<close>, \<open>ksearch.hh\<close>): the version word, both
      kinds of nodes, locks, links and the search in an inner node.
    \<^item> \<open>Masstree_Migration\<close> (\<open>masstree_sidle.hh\<close>): moving a node. \<open>Masstree_Moves\<close>: the copy replaces the original
      everywhere and readers notice; the suffixes of keys are lost; a root that is moved cannot be found from the old one.
    \<^item> \<open>Masstree_Placement\<close> (\<open>masstree_split.hh\<close>): tier and depth of new nodes.
    \<^item> \<open>Masstree_Permuter\<close> (\<open>kpermuter.hh\<close>), \<open>Masstree_Bag\<close> (\<open>stringbag.hh\<close>), \<open>Masstree_Key\<close> (\<open>masstree_key.hh\<close>): the word that
      orders the slots of a leaf refines a list of slots; the bag of suffixes gives back what was put in; comparing
      integers and lengths is comparing strings.
    \<^item> \<open>Masstree_Leaf\<close> (\<open>ksearch.hh\<close>, \<open>masstree_insert.hh\<close>, \<open>masstree_remove.hh\<close>) has search, insertion and removal in one leaf
      as operations on a sorted list of ranks; \<open>Masstree_Suffix\<close> adds the suffixes, none of which is lost.
    \<^item> \<open>Masstree_Split\<close>, \<open>Masstree_Inner\<close> (\<open>masstree_split.hh\<close>): the split of a full leaf, with its split point, and of a full
      inner node. The halves hold what the node held and the new entry, in order, with the parents set.
    \<^item> \<open>Masstree_Lookup\<close> (\<open>masstree_get.hh\<close>, \<open>reach_leaf\<close> of \<open>masstree_struct.hh\<close>): the lookup through all layers. The relation
      \<open>tree_rep\<close> says which abstract trie of B+ trees a heap holds; a lookup finds exactly the strings of that trie.

  Bounds and fuel. Descents take fuel for one level: a key of \<open>n\<close> bytes needs at most \<open>n + 1\<close> levels, because each
  inner node consumes a byte, and the properties of lookup, insertion and traversal show that this fuel gives a result. A lookup
  in Masstree takes fuel for the nodes of one layer and for the layers, of which a string of \<open>n\<close> bytes passes at most \<open>n div 8 + 1\<close>. A retry
  of an operation takes one try; with one thread the first succeeds. The loops of the executors take one unit per task and per
  inner node on the way up. The claims that a call never returns hold for every fuel. The loop of \<open>clear_queue\<close> is bounded by
  the number of queued tasks. The searches in a node, the search for a split point and the
  greatest common divisor of the stride scheduler terminate by a measure.

  Parameters. What is not in the repository answers through arguments: the system allocators, the mapping of the device
  and the core binding (\<open>Cxl_Allocator\<close>, \<open>Sidle_Helper\<close>), the concurrent queue by its
  documented order, the pool of Masstree by the addresses it hands out, the table of Masstree by the contract
  of an ordered map and the scan over its leaves by the list it gives.

  Not modelled. The updates of the B+ tree of Masstree beyond its single nodes, that is the locked search, the loop that
  carries a split upwards, new layers, removal of empty leaves, and scans: their code is
  that of the upstream project, and they appear through the contract above. True interleavings inside an operation: the versions are modelled, but
  not a reader that runs while a writer holds a lock. The traversal by several threads and the thread pool. Garbage collection by epochs
  beyond its effect. The load generators, traces and transactions under \<open>benchmark/\<close>, the build files and
  scripts, the vendored queue, and printing for debugging. Sleeps, condition variables and messages have no effect in the model.
\<close>

end
